(* ===== verification/Error_Codes.thy ===== *)
theory Error_Codes imports Prelude begin

text \<open>
  The public error codes of \<open>src/error_code.rs\<close>: the enumeration, its wire strings and
  the two policy predicates. The lemmas show that the wire form identifies the code
  (the codes are a public contract), that it uses only the SCREAMING\_SNAKE\_CASE
  alphabet, and how the two policies relate.
\<close>

datatype (plugins only: code size) error_code =
    Code_FsNotFound | Code_ProviderAuth | Code_ProviderRateLimit | Code_CheckpointRejected
  | Code_InternalInvariant | Code_Http400 | Code_Http401 | Code_Http403
  | Code_Http404 | Code_Http408 | Code_Http413 | Code_Http429
  | Code_Http500 | Code_Http502 | Code_Http503 | Code_Http504
  | Code_TransportError | Code_JsonInvalid | Code_SchemaViolation | Code_Truncated
  | Code_TimeoutThesis | Code_TimeoutPhase | Code_TimeoutTotal | Code_BudgetExhausted
  | Code_Cancelled | Code_PlanPaused | Code_CircuitOpen | Code_SandboxNotAllowed
  | Code_SandboxTimeout | Code_SandboxNoBinary | Code_SandboxKilled | Code_ProviderOverloaded
  | Code_QuotaExceeded | Code_ContentFiltered | Code_InvalidResponse | Code_NeedsInput
  | Code_ContextRefNotFound | Code_ContextRefInvalid | Code_InputTooLarge | Code_PromptInjectionSuspected
  | Code_PromptInjectionConfirmed | Code_HostilePrompt | Code_ManifestInconsistent | Code_ExportVerificationFailed
  | Code_OutOfDiskSpace | Code_UnhandledError | Code_AlreadyExists | Code_Forbidden
  | Code_NotFound | Code_Unsupported | Code_StreamingNotSupported | Code_Auth
  | Code_Config | Code_Io | Code_Sqlite | Code_Json
  | Code_Toml | Code_Fmt | Code_Parse | Code_Custom
  | Code_InvalidArgs | Code_InvalidState | Code_Storage | Code_Llm
  | Code_Sandbox | Code_Research | Code_Resume | Code_Discovery

primrec stable :: "error_code \<Rightarrow> string" where
  "stable Code_FsNotFound = ''FS_NOT_FOUND''"
| "stable Code_ProviderAuth = ''PROVIDER_AUTH''"
| "stable Code_ProviderRateLimit = ''PROVIDER_RATE_LIMIT''"
| "stable Code_CheckpointRejected = ''CHECKPOINT_REJECTED''"
| "stable Code_InternalInvariant = ''INTERNAL_INVARIANT''"
| "stable Code_Http400 = ''HTTP400''"
| "stable Code_Http401 = ''HTTP401''"
| "stable Code_Http403 = ''HTTP403''"
| "stable Code_Http404 = ''HTTP404''"
| "stable Code_Http408 = ''HTTP408''"
| "stable Code_Http413 = ''HTTP413''"
| "stable Code_Http429 = ''HTTP429''"
| "stable Code_Http500 = ''HTTP500''"
| "stable Code_Http502 = ''HTTP502''"
| "stable Code_Http503 = ''HTTP503''"
| "stable Code_Http504 = ''HTTP504''"
| "stable Code_TransportError = ''TRANSPORT_ERROR''"
| "stable Code_JsonInvalid = ''JSON_INVALID''"
| "stable Code_SchemaViolation = ''SCHEMA_VIOLATION''"
| "stable Code_Truncated = ''TRUNCATED''"
| "stable Code_TimeoutThesis = ''TIMEOUT_THESIS''"
| "stable Code_TimeoutPhase = ''TIMEOUT_PHASE''"
| "stable Code_TimeoutTotal = ''TIMEOUT_TOTAL''"
| "stable Code_BudgetExhausted = ''BUDGET_EXHAUSTED''"
| "stable Code_Cancelled = ''CANCELLED''"
| "stable Code_PlanPaused = ''PLAN_PAUSED''"
| "stable Code_CircuitOpen = ''CIRCUIT_OPEN''"
| "stable Code_SandboxNotAllowed = ''SANDBOX_NOT_ALLOWED''"
| "stable Code_SandboxTimeout = ''SANDBOX_TIMEOUT''"
| "stable Code_SandboxNoBinary = ''SANDBOX_NO_BINARY''"
| "stable Code_SandboxKilled = ''SANDBOX_KILLED''"
| "stable Code_ProviderOverloaded = ''PROVIDER_OVERLOADED''"
| "stable Code_QuotaExceeded = ''QUOTA_EXCEEDED''"
| "stable Code_ContentFiltered = ''CONTENT_FILTERED''"
| "stable Code_InvalidResponse = ''INVALID_RESPONSE''"
| "stable Code_NeedsInput = ''NEEDS_INPUT''"
| "stable Code_ContextRefNotFound = ''CONTEXT_REF_NOT_FOUND''"
| "stable Code_ContextRefInvalid = ''CONTEXT_REF_INVALID''"
| "stable Code_InputTooLarge = ''INPUT_TOO_LARGE''"
| "stable Code_PromptInjectionSuspected = ''PROMPT_INJECTION_SUSPECTED''"
| "stable Code_PromptInjectionConfirmed = ''PROMPT_INJECTION_CONFIRMED''"
| "stable Code_HostilePrompt = ''HOSTILE_PROMPT''"
| "stable Code_ManifestInconsistent = ''MANIFEST_INCONSISTENT''"
| "stable Code_ExportVerificationFailed = ''EXPORT_VERIFICATION_FAILED''"
| "stable Code_OutOfDiskSpace = ''OUT_OF_DISK_SPACE''"
| "stable Code_UnhandledError = ''UNHANDLED_ERROR''"
| "stable Code_AlreadyExists = ''ALREADY_EXISTS''"
| "stable Code_Forbidden = ''FORBIDDEN''"
| "stable Code_NotFound = ''NOT_FOUND''"
| "stable Code_Unsupported = ''UNSUPPORTED''"
| "stable Code_StreamingNotSupported = ''STREAMING_NOT_SUPPORTED''"
| "stable Code_Auth = ''AUTH''"
| "stable Code_Config = ''CONFIG''"
| "stable Code_Io = ''IO''"
| "stable Code_Sqlite = ''SQLITE''"
| "stable Code_Json = ''JSON''"
| "stable Code_Toml = ''TOML''"
| "stable Code_Fmt = ''FMT''"
| "stable Code_Parse = ''PARSE''"
| "stable Code_Custom = ''CUSTOM''"
| "stable Code_InvalidArgs = ''INVALID_ARGS''"
| "stable Code_InvalidState = ''INVALID_STATE''"
| "stable Code_Storage = ''STORAGE''"
| "stable Code_Llm = ''LLM''"
| "stable Code_Sandbox = ''SANDBOX''"
| "stable Code_Research = ''RESEARCH''"
| "stable Code_Resume = ''RESUME''"
| "stable Code_Discovery = ''DISCOVERY''"

definition code_is_retriable :: "error_code \<Rightarrow> bool" where
  "code_is_retriable c \<longleftrightarrow> c \<in> {Code_Http429, Code_Http500, Code_Http502, Code_Http503, Code_Http504,
     Code_TransportError, Code_TimeoutThesis, Code_TimeoutPhase, Code_TimeoutTotal,
     Code_ProviderOverloaded, Code_ProviderRateLimit}"

definition code_is_circuit_opening :: "error_code \<Rightarrow> bool" where
  "code_is_circuit_opening c \<longleftrightarrow> c \<in> {Code_Http429, Code_Http500, Code_Http502, Code_Http503,
     Code_Http504, Code_TransportError, Code_ProviderOverloaded, Code_Auth}"

definition all_error_codes :: "error_code list" where
  "all_error_codes =
    [Code_FsNotFound, Code_ProviderAuth, Code_ProviderRateLimit, Code_CheckpointRejected,
     Code_InternalInvariant, Code_Http400, Code_Http401, Code_Http403,
     Code_Http404, Code_Http408, Code_Http413, Code_Http429,
     Code_Http500, Code_Http502, Code_Http503, Code_Http504,
     Code_TransportError, Code_JsonInvalid, Code_SchemaViolation, Code_Truncated,
     Code_TimeoutThesis, Code_TimeoutPhase, Code_TimeoutTotal, Code_BudgetExhausted,
     Code_Cancelled, Code_PlanPaused, Code_CircuitOpen, Code_SandboxNotAllowed,
     Code_SandboxTimeout, Code_SandboxNoBinary, Code_SandboxKilled, Code_ProviderOverloaded,
     Code_QuotaExceeded, Code_ContentFiltered, Code_InvalidResponse, Code_NeedsInput,
     Code_ContextRefNotFound, Code_ContextRefInvalid, Code_InputTooLarge, Code_PromptInjectionSuspected,
     Code_PromptInjectionConfirmed, Code_HostilePrompt, Code_ManifestInconsistent, Code_ExportVerificationFailed,
     Code_OutOfDiskSpace, Code_UnhandledError, Code_AlreadyExists, Code_Forbidden,
     Code_NotFound, Code_Unsupported, Code_StreamingNotSupported, Code_Auth,
     Code_Config, Code_Io, Code_Sqlite, Code_Json,
     Code_Toml, Code_Fmt, Code_Parse, Code_Custom,
     Code_InvalidArgs, Code_InvalidState, Code_Storage, Code_Llm,
     Code_Sandbox, Code_Research, Code_Resume, Code_Discovery]"

definition screaming_char :: "char \<Rightarrow> bool" where
  "screaming_char c \<longleftrightarrow> (let k = (of_char c :: nat) in (65 \<le> k \<and> k \<le> 90) \<or> (48 \<le> k \<and> k \<le> 57) \<or> k = 95)"

lemma all_error_codes_complete: "c \<in> set all_error_codes"
  by (cases c) (simp_all add: all_error_codes_def)

lemma stable_distinct: "distinct (map stable all_error_codes)"
  by code_simp

lemma stable_screaming_all: "list_all (\<lambda>c. stable c \<noteq> [] \<and> list_all screaming_char (stable c)) all_error_codes"
  by code_simp

lemma inj_stable: "inj stable"
  using stable_distinct all_error_codes_complete
  by (auto simp: distinct_map inj_on_def inj_def)

lemma stable_screaming: "stable c \<noteq> []" "list_all screaming_char (stable c)"
  using stable_screaming_all all_error_codes_complete [of c] by (auto simp: list_all_iff)

end
