(* ===== verification/Decimal.thy ===== *)
theory Decimal imports Prelude begin

text \<open>
  Reading and writing unsigned decimal integers, as the configuration readers use them:
  the Rust core library's \<open>str::parse::<u32>()\<close> / \<open>parse::<u64>()\<close> with its three
  errors, \<open>to_string\<close> on an unsigned integer, and the splitting of a string at
  separator characters (\<open>split([':', ' ']).filter(|t| !t.is_empty())\<close>).
  Contents: the parser with the width as the bound of its checked arithmetic, the
  printer, the round trip between them, and the splitter with its own round trip.
\<close>

section \<open>Parsing\<close>

datatype parse_int_error = ParseEmpty | InvalidDigit | PosOverflow

fun parse_int_error_text :: "parse_int_error \<Rightarrow> string" where
  "parse_int_error_text ParseEmpty = ''cannot parse integer from empty string''"
| "parse_int_error_text InvalidDigit = ''invalid digit found in string''"
| "parse_int_error_text PosOverflow = ''number too large to fit in target type''"

definition digit_val :: "char \<Rightarrow> nat option" where
  "digit_val c = (let k = (of_char c :: nat) in if 48 \<le> k \<and> k \<le> 57 then Some (k - 48) else None)"

text \<open>
  One digit at a time: the product is formed first, the digit is decoded next (a bad
  digit is reported even where the product overflowed), then the product and the sum are
  checked against the width.
\<close>

fun parse_digits :: "nat \<Rightarrow> nat \<Rightarrow> string \<Rightarrow> parse_int_error + nat" where
  "parse_digits lim acc [] = Inr acc"
| "parse_digits lim acc (c # cs) =
     (case digit_val c of
        None \<Rightarrow> Inl InvalidDigit
      | Some d \<Rightarrow>
          if lim \<le> acc * 10 then Inl PosOverflow
          else if lim \<le> acc * 10 + d then Inl PosOverflow
          else parse_digits lim (acc * 10 + d) cs)"

definition parse_below :: "nat \<Rightarrow> string \<Rightarrow> parse_int_error + nat" where
  "parse_below lim s =
     (if s = [] then Inl ParseEmpty
      else if s = ''+'' \<or> s = ''-'' then Inl InvalidDigit
      else if hd s = CHR ''+'' then parse_digits lim 0 (tl s)
      else parse_digits lim 0 s)"

definition parse_u32 :: "string \<Rightarrow> parse_int_error + u32" where
  "parse_u32 s = rbind (parse_below (2 ^ 32) s) (\<lambda>n. Inr (of_nat n))"

definition parse_u64 :: "string \<Rightarrow> parse_int_error + u64" where
  "parse_u64 s = rbind (parse_below (2 ^ 64) s) (\<lambda>n. Inr (of_nat n))"

section \<open>Printing\<close>

definition digit_char :: "nat \<Rightarrow> char" where
  "digit_char d = char_of (48 + d)"

fun show_nat :: "nat \<Rightarrow> string" where
  "show_nat n = (if n < 10 then [digit_char n] else show_nat (n div 10) @ [digit_char (n mod 10)])"

declare show_nat.simps [simp del]

lemma digit_val_char [simp]: "d < 10 \<Longrightarrow> digit_val (digit_char d) = Some d"
  by (simp add: digit_val_def digit_char_def of_char_of take_bit_eq_mod)

lemma digit_val_less: "digit_val c = Some d \<Longrightarrow> d < 10"
  by (auto simp: digit_val_def Let_def split: if_splits)

lemma show_nat_nonempty [simp]: "show_nat n \<noteq> []"
  by (subst show_nat.simps) simp

definition is_digit_char :: "char \<Rightarrow> bool" where
  "is_digit_char c \<longleftrightarrow> digit_val c \<noteq> None"

lemma show_nat_digits: "list_all is_digit_char (show_nat n)"
proof (induction n rule: show_nat.induct)
  case (1 n)
  then show ?case
    by (cases "n < 10") (simp_all add: show_nat.simps [of n] is_digit_char_def)
qed

section \<open>Round trip\<close>

lemma parse_digits_append:
  "parse_digits lim acc (xs @ ys) = rbind (parse_digits lim acc xs) (\<lambda>a. parse_digits lim a ys)"
  by (induction xs arbitrary: acc) (auto split: option.splits)

lemma parse_digits_show: "n < lim \<Longrightarrow> parse_digits lim 0 (show_nat n) = Inr n"
proof (induction n rule: show_nat.induct)
  case (1 n)
  show ?case
  proof (cases "n < 10")
    case True
    with "1.prems" show ?thesis by (simp add: show_nat.simps [of n])
  next
    case False
    have "n div 10 < lim" using "1.prems" by (meson div_le_dividend le_less_trans)
    with False "1.IH" have "parse_digits lim 0 (show_nat (n div 10)) = Inr (n div 10)" by simp
    moreover have "n div 10 * 10 + n mod 10 = n" by simp
    moreover have "n div 10 * 10 \<le> n" by simp
    ultimately show ?thesis
      using False "1.prems" by (simp add: show_nat.simps [of n] parse_digits_append)
  qed
qed

lemma parse_digits_bound: "acc < lim \<Longrightarrow> parse_digits lim acc s = Inr v \<Longrightarrow> v < lim"
  by (induction s arbitrary: acc) (auto simp: not_le split: option.splits if_splits)

lemma parse_digits_all_digits: "parse_digits lim acc s = Inr v \<Longrightarrow> list_all is_digit_char s"
  by (induction s arbitrary: acc) (auto simp: is_digit_char_def split: option.splits if_splits)

lemma hd_show_nat_digit: "is_digit_char (hd (show_nat n))"
  using show_nat_digits [of n] by (cases "show_nat n") auto

lemma not_digit_signs [simp]: "\<not> is_digit_char CHR ''+''" "\<not> is_digit_char CHR ''-''"
  by (simp_all add: is_digit_char_def digit_val_def)

lemma parse_below_show:
  assumes "n < lim"
  shows "parse_below lim (show_nat n) = Inr n"
proof -
  have "hd (show_nat n) \<noteq> CHR ''+''" "hd (show_nat n) \<noteq> CHR ''-''"
    using hd_show_nat_digit [of n] by auto
  then show ?thesis using parse_digits_show [OF assms] by (auto simp: parse_below_def)
qed

lemma parse_u32_show: "parse_u32 (show_nat (unat n)) = Inr n"
proof -
  have "unat n < 2 ^ 32" using unat_lt_pow [of n] by simp
  then show ?thesis by (simp only: parse_u32_def parse_below_show) simp
qed

lemma parse_u64_show: "parse_u64 (show_nat (unat n)) = Inr n"
proof -
  have "unat n < 2 ^ 64" using unat_lt_pow [of n] by simp
  then show ?thesis by (simp only: parse_u64_def parse_below_show) simp
qed

section \<open>Splitting at separators\<close>

fun split_by :: "('a \<Rightarrow> bool) \<Rightarrow> 'a list \<Rightarrow> 'a list list" where
  "split_by p [] = [[]]"
| "split_by p (x # xs) =
     (if p x then [] # split_by p xs
      else (case split_by p xs of [] \<Rightarrow> [[x]] | t # ts \<Rightarrow> (x # t) # ts))"

definition nonempty_fields :: "('a \<Rightarrow> bool) \<Rightarrow> 'a list \<Rightarrow> 'a list list" where
  "nonempty_fields p s = filter (\<lambda>t. t \<noteq> []) (split_by p s)"

fun join_with :: "'a \<Rightarrow> 'a list list \<Rightarrow> 'a list" where
  "join_with x [] = []"
| "join_with x [t] = t"
| "join_with x (t # ts) = t @ x # join_with x ts"

lemma split_by_nonempty [simp]: "split_by p s \<noteq> []"
  by (induction s) (auto split: list.splits)

lemma split_by_field: "list_all (\<lambda>c. \<not> p c) t \<Longrightarrow> split_by p t = [t]"
  by (induction t) auto

lemma split_by_field_sep:
  "list_all (\<lambda>c. \<not> p c) t \<Longrightarrow> p x \<Longrightarrow> split_by p (t @ x # s) = t # split_by p s"
  by (induction t) auto

lemma split_by_fields_clean: "t \<in> set (split_by p s) \<Longrightarrow> list_all (\<lambda>c. \<not> p c) t"
  by (induction s arbitrary: t) (auto split: list.splits if_splits)

lemma nonempty_fields_join:
  "p x \<Longrightarrow> list_all (\<lambda>t. t \<noteq> [] \<and> list_all (\<lambda>c. \<not> p c) t) ts \<Longrightarrow>
   nonempty_fields p (join_with x ts) = ts"
  by (induction x ts rule: join_with.induct)
     (auto simp: nonempty_fields_def split_by_field split_by_field_sep)

section \<open>Reading a sequence of fields\<close>

text \<open>
  One step of the \<open>tokens.next().ok_or_else(...)?.parse().map_err(...)?\<close> chains of the
  configuration readers: take the next field or fail with \<open>missing\<close>, parse it or fail
  with \<open>bad e\<close>, and return the rest of the fields.
\<close>

definition read_field ::
  "'e \<Rightarrow> (parse_int_error \<Rightarrow> 'e) \<Rightarrow> (string \<Rightarrow> parse_int_error + 'v) \<Rightarrow> string list \<Rightarrow> 'e + ('v \<times> string list)"
where
  "read_field missing bad parse ts =
     (case ts of
        [] \<Rightarrow> Inl missing
      | t # rest \<Rightarrow> (case parse t of Inl e \<Rightarrow> Inl (bad e) | Inr v \<Rightarrow> Inr (v, rest)))"

definition env_separator :: "char \<Rightarrow> bool" where
  "env_separator c \<longleftrightarrow> c = CHR '':'' \<or> c = CHR '' ''"

definition env_fields :: "string \<Rightarrow> string list" where
  "env_fields s = nonempty_fields env_separator s"

lemma read_field_Nil [simp, result_simps]: "read_field m b p [] = Inl m"
  by (simp add: read_field_def)

lemma read_field_ok [simp, result_simps]: "p t = Inr v \<Longrightarrow> read_field m b p (t # ts) = Inr (v, ts)"
  by (simp add: read_field_def)

lemma read_field_bad [simp, result_simps]: "p t = Inl e \<Longrightarrow> read_field m b p (t # ts) = Inl (b e)"
  by (simp add: read_field_def)

lemma show_nat_no_separator: "list_all (\<lambda>c. \<not> env_separator c) (show_nat n)"
proof -
  have "\<And>c. is_digit_char c \<Longrightarrow> \<not> env_separator c"
    by (auto simp: is_digit_char_def env_separator_def digit_val_def)
  then show ?thesis using show_nat_digits [of n] by (auto simp: list_all_iff)
qed

lemma env_fields_join_nats:
  "env_fields (join_with CHR '':'' (map show_nat ns)) = map show_nat ns"
  unfolding env_fields_def
proof (rule nonempty_fields_join)
  show "env_separator CHR '':''" by (simp add: env_separator_def)
  show "list_all (\<lambda>t. t \<noteq> [] \<and> list_all (\<lambda>c. \<not> env_separator c) t) (map show_nat ns)"
    by (simp add: list_all_iff show_nat_no_separator [unfolded list_all_iff])
qed

end
