(* ===== verification/Errors.thy ===== *)
theory Errors imports Error_Codes Decimal begin

text \<open>
  The crate-wide error type of \<open>src/error/mod.rs\<close>, its I/O sub-errors, and the maps out
  of it: the HTTP status it carries, its public code, its process exit code, the breaker
  policy and the recovery cause. Below them, the classification of HTTP responses of
  \<open>src/llm/http.rs\<close>, which produces these errors. Errors of libraries that a variant
  wraps (\<open>std::io::Error\<close>, \<open>serde_json::Error\<close>, boxed parse errors) are represented
  by their rendered text.
\<close>

section \<open>Exit codes\<close>

datatype (plugins only: code size) exit_code =
    Exit_Ok | Exit_GenericError | Exit_InvalidArgs | Exit_ApiKeyInvalid | Exit_PlanExhausted
  | Exit_Timeout | Exit_Cancelled | Exit_SchemaViolation | Exit_IoError | Exit_BudgetExhausted
  | Exit_NeedsInput | Exit_BudgetExceeded | Exit_PlanPaused | Exit_ProviderError
  | Exit_TimeoutExit | Exit_InvalidArgsExit | Exit_IoErrorExit | Exit_ContextError
  | Exit_ExportVerificationFailed | Exit_Storage | Exit_Llm | Exit_Sandbox | Exit_Research
  | Exit_Resume | Exit_Discovery | Exit_SigInt

primrec exit_code_value :: "exit_code \<Rightarrow> int" where
  "exit_code_value Exit_Ok = 0"
| "exit_code_value Exit_GenericError = 1"
| "exit_code_value Exit_InvalidArgs = 2"
| "exit_code_value Exit_ApiKeyInvalid = 3"
| "exit_code_value Exit_PlanExhausted = 4"
| "exit_code_value Exit_Timeout = 5"
| "exit_code_value Exit_Cancelled = 6"
| "exit_code_value Exit_SchemaViolation = 7"
| "exit_code_value Exit_IoError = 8"
| "exit_code_value Exit_BudgetExhausted = 9"
| "exit_code_value Exit_NeedsInput = 10"
| "exit_code_value Exit_BudgetExceeded = 20"
| "exit_code_value Exit_PlanPaused = 30"
| "exit_code_value Exit_ProviderError = 40"
| "exit_code_value Exit_TimeoutExit = 50"
| "exit_code_value Exit_InvalidArgsExit = 60"
| "exit_code_value Exit_IoErrorExit = 70"
| "exit_code_value Exit_ContextError = 80"
| "exit_code_value Exit_ExportVerificationFailed = 90"
| "exit_code_value Exit_Storage = 91"
| "exit_code_value Exit_Llm = 92"
| "exit_code_value Exit_Sandbox = 93"
| "exit_code_value Exit_Research = 94"
| "exit_code_value Exit_Resume = 95"
| "exit_code_value Exit_Discovery = 96"
| "exit_code_value Exit_SigInt = 130"

definition exit_code_of_code :: "error_code \<Rightarrow> exit_code" where
  "exit_code_of_code c =
     (if c = Code_Storage then Exit_Storage
      else if c = Code_Llm then Exit_Llm
      else if c = Code_Sandbox then Exit_Sandbox
      else if c = Code_Research then Exit_Research
      else if c = Code_Resume then Exit_Resume
      else if c = Code_Discovery then Exit_Discovery
      else Exit_GenericError)"

section \<open>The error type\<close>

record artifact_meta =
  schema_version :: string
  size_bytes :: u64
  blake3_hex :: string
  sealed_at_unix :: int
  crc32c_hex :: string

datatype (plugins only: code size) io_error =
    Io_Raw string
  | Io_NoParent (io_path: string)
  | Io_CreateDir (io_path: string) (io_source: string)
  | Io_CreateFile (io_path: string) (io_source: string)
  | Io_Write (io_path: string) (io_source: string)
  | Io_Sync (io_path: string) (io_source: string)
  | Io_OpenDir (io_path: string) (io_source: string)
  | Io_Rename (io_from: string) (io_to: string) (io_source: string)
  | Io_Read (io_path: string) (io_source: string)
  | Io_Parse (io_path: string) (io_source: string)
  | Io_SerializeMeta string
  | Io_DeserializeMeta string
  | Io_MetaMismatch (io_path: string) (meta_expected: artifact_meta) (meta_got: artifact_meta)

datatype (plugins only: code size) error =
    Err_Io io_error
  | Err_InvalidArgs string
  | Err_InvalidApiKey string "u16 option"
  | Err_PlanExhausted string "u16 option"
  | Err_Throttled "u64 option" string "u16 option"
  | Err_Timeout string "u16 option"
  | Err_Cancelled string
  | Err_SchemaViolation string
  | Err_InvalidState string
  | Err_LockHeld string
  | Err_Provider string "u16 option"
  | Err_MockExhausted
  | Err_Cache string
  | Err_Cancel
  | Err_NeedsInput string
  | Err_DiscoveryQualityTooLow nat nat nat
  | Err_DiscoveryIncomplete "string list"
  | Err_HostilePrompt string
  | Err_PathTraversal string
  | Err_PayloadTooLarge string
  | Err_ModalityUnsupported string
  | Err_ResearchUnavailable string

type_synonym 'a result = "error + 'a"

definition err_http_status :: "error \<Rightarrow> u16 option" where
  "err_http_status e =
     (case e of
        Err_InvalidApiKey _ s \<Rightarrow> s
      | Err_PlanExhausted _ s \<Rightarrow> s
      | Err_Throttled _ _ s \<Rightarrow> s
      | Err_Timeout _ s \<Rightarrow> s
      | Err_Provider _ s \<Rightarrow> s
      | _ \<Rightarrow> None)"

primrec err_code :: "error \<Rightarrow> error_code" where
  "err_code (Err_Io _) = Code_Io"
| "err_code (Err_InvalidArgs _) = Code_InvalidArgs"
| "err_code (Err_InvalidApiKey _ _) = Code_Auth"
| "err_code (Err_PlanExhausted _ _) = Code_QuotaExceeded"
| "err_code (Err_Throttled _ _ _) = Code_Http429"
| "err_code (Err_Timeout _ _) = Code_TimeoutPhase"
| "err_code (Err_Cancelled _) = Code_Cancelled"
| "err_code (Err_SchemaViolation _) = Code_SchemaViolation"
| "err_code (Err_InvalidState _) = Code_InvalidState"
| "err_code (Err_LockHeld _) = Code_InvalidState"
| "err_code (Err_Provider _ _) = Code_InvalidResponse"
| "err_code Err_MockExhausted = Code_NeedsInput"
| "err_code (Err_Cache _) = Code_Io"
| "err_code Err_Cancel = Code_Cancelled"
| "err_code (Err_NeedsInput _) = Code_NeedsInput"
| "err_code (Err_DiscoveryQualityTooLow _ _ _) = Code_InvalidState"
| "err_code (Err_DiscoveryIncomplete _) = Code_Discovery"
| "err_code (Err_HostilePrompt _) = Code_HostilePrompt"
| "err_code (Err_PathTraversal _) = Code_InvalidArgs"
| "err_code (Err_PayloadTooLarge _) = Code_InputTooLarge"
| "err_code (Err_ModalityUnsupported _) = Code_Unsupported"
| "err_code (Err_ResearchUnavailable _) = Code_Research"

primrec err_exit_code :: "error \<Rightarrow> exit_code" where
  "err_exit_code (Err_InvalidArgs _) = Exit_InvalidArgs"
| "err_exit_code (Err_InvalidApiKey _ _) = Exit_ApiKeyInvalid"
| "err_exit_code (Err_PlanExhausted _ _) = Exit_PlanExhausted"
| "err_exit_code (Err_Throttled _ _ _) = Exit_ProviderError"
| "err_exit_code (Err_Timeout _ _) = Exit_Timeout"
| "err_exit_code (Err_Cancelled _) = Exit_Cancelled"
| "err_exit_code Err_Cancel = Exit_Cancelled"
| "err_exit_code (Err_SchemaViolation _) = Exit_SchemaViolation"
| "err_exit_code (Err_Io _) = Exit_IoError"
| "err_exit_code Err_MockExhausted = Exit_ProviderError"
| "err_exit_code (Err_Provider _ _) = Exit_ProviderError"
| "err_exit_code (Err_Cache _) = Exit_ContextError"
| "err_exit_code (Err_InvalidState _) = Exit_ContextError"
| "err_exit_code (Err_LockHeld _) = Exit_ContextError"
| "err_exit_code (Err_NeedsInput _) = Exit_NeedsInput"
| "err_exit_code (Err_DiscoveryQualityTooLow _ _ _) = Exit_ContextError"
| "err_exit_code (Err_DiscoveryIncomplete _) = Exit_Discovery"
| "err_exit_code (Err_HostilePrompt _) = Exit_ContextError"
| "err_exit_code (Err_PathTraversal _) = Exit_InvalidArgs"
| "err_exit_code (Err_PayloadTooLarge _) = Exit_ProviderError"
| "err_exit_code (Err_ModalityUnsupported _) = Exit_ProviderError"
| "err_exit_code (Err_ResearchUnavailable _) = Exit_Research"

text \<open>\<open>exit_code\<close>: the enumeration's \<open>i32\<close> discriminant cast to \<open>u8\<close>.\<close>

definition process_exit_code :: "error \<Rightarrow> u8" where
  "process_exit_code e = of_int (exit_code_value (err_exit_code e))"

definition err_is_circuit_opening :: "error \<Rightarrow> bool" where
  "err_is_circuit_opening e =
     (case e of
        Err_InvalidApiKey _ _ \<Rightarrow> True
      | Err_Provider _ _ \<Rightarrow> True
      | Err_Timeout _ _ \<Rightarrow> True
      | _ \<Rightarrow> False)"

datatype provider_cause =
    Cause_PlanExhausted string
  | Cause_Throttled "u64 option" string
  | Cause_Other u16 string

definition err_provider_cause :: "error \<Rightarrow> provider_cause option" where
  "err_provider_cause e =
     (case e of
        Err_Throttled ra m _ \<Rightarrow> Some (Cause_Throttled ra m)
      | Err_PlanExhausted m _ \<Rightarrow> Some (Cause_PlanExhausted m)
      | Err_Provider m _ \<Rightarrow> Some (Cause_Other 0 m)
      | _ \<Rightarrow> None)"

section \<open>HTTP classification\<close>

text \<open>
  \<open>st\<close> is the rendering of a status line by the HTTP library (\<open>StatusCode\<close>'s
  \<open>Display\<close>), which is not part of the repository.
\<close>

definition classify_status :: "(u16 \<Rightarrow> string) \<Rightarrow> u16 \<Rightarrow> string \<Rightarrow> error" where
  "classify_status st code body =
     (if code = 401 \<or> code = 403 then Err_InvalidApiKey (''http '' @ st code @ '': '' @ body) (Some code)
      else if code = 429 then Err_Throttled None body (Some 429)
      else if code = 408 \<or> code = 504 \<or> code = 524
        then Err_Timeout (''http '' @ st code @ '': '' @ body) (Some code)
      else if 500 \<le> code \<and> code \<le> 599
        then Err_Provider (''upstream '' @ st code @ '': '' @ body) (Some code)
      else Err_Provider (''http '' @ st code @ '': '' @ body) (Some code))"

definition throttled_with_retry_after :: "string \<Rightarrow> duration option \<Rightarrow> error" where
  "throttled_with_retry_after body ra = Err_Throttled (map_option as_millis_u64 ra) body (Some 429)"

text \<open>The argument is the textual value of the \<open>retry-after\<close> header, if there is one.\<close>

definition retry_after_header :: "string option \<Rightarrow> duration option" where
  "retry_after_header header =
     (case header of
        None \<Rightarrow> None
      | Some v \<Rightarrow> (case parse_u64 v of Inr secs \<Rightarrow> Some (from_secs secs) | Inl _ \<Rightarrow> None))"

section \<open>Lemmas\<close>

lemma exit_code_value_range:
  "0 \<le> exit_code_value x" "exit_code_value x \<le> 130"
  by (cases x; simp)+

lemma exit_code_value_zero: "exit_code_value x = 0 \<longleftrightarrow> x = Exit_Ok"
  by (cases x) simp_all

lemma err_exit_code_not_ok: "err_exit_code e \<noteq> Exit_Ok"
  by (cases e) simp_all

lemma uint_process_exit_code: "uint (process_exit_code e) = exit_code_value (err_exit_code e)"
  using exit_code_value_range [of "err_exit_code e"]
  by (simp add: process_exit_code_def uint_word_of_int_eq take_bit_eq_mod)

lemma exit_code_value_inj: "exit_code_value x = exit_code_value y \<Longrightarrow> x = y"
  by (cases x; cases y) simp_all

lemmas classify_defs = classify_status_def err_is_circuit_opening_def err_http_status_def

section \<open>Properties\<close>

text \<open>The wire codes are a code: two error codes never share their stable string, every
  string is a nonempty word over capitals, digits and underscores, and the enumeration of
  the codes is complete.\<close>

lemma wire_codes_distinct:
  "inj stable \<and> set all_error_codes = UNIV \<and>
   list_all (\<lambda>c. stable c \<noteq> [] \<and> list_all screaming_char (stable c)) all_error_codes"
  using all_error_codes_complete by (auto simp: inj_stable stable_screaming_all)

text \<open>A failing process never reports success: the byte handed to the operating system is
  the value of the error's exit code (the cast loses nothing), it lies between 1 and 130,
  and errors with different exit codes give different bytes.\<close>

lemma error_exit_status:
  "uint (process_exit_code e) = exit_code_value (err_exit_code e) \<and>
   process_exit_code e \<noteq> 0 \<and> process_exit_code e \<le> 130 \<and>
   (process_exit_code e = process_exit_code e' \<longleftrightarrow> err_exit_code e = err_exit_code e')"
proof -
  have v: "uint (process_exit_code f) = exit_code_value (err_exit_code f)" for f
    by (rule uint_process_exit_code)
  have "process_exit_code f = process_exit_code g \<longleftrightarrow> err_exit_code f = err_exit_code g" for f g
    using v [of f] v [of g] exit_code_value_inj by (metis word_uint_eq_iff)
  moreover have "process_exit_code e \<noteq> 0"
    using v [of e] exit_code_value_zero err_exit_code_not_ok by (metis unsigned_0)
  moreover have "process_exit_code e \<le> 130"
    using v [of e] exit_code_value_range(2) by (simp add: word_le_def)
  ultimately show ?thesis using v by blast
qed

text \<open>The classification of a failed HTTP status and what it feeds: the error keeps the
  status it was built from, it opens a circuit exactly when the status is not 429, and its
  provider cause is a throttle exactly at 429; the process exits with the key error for 401
  and 403, with the timeout for 408, 504 and 524, and with the provider error otherwise.\<close>

lemma classify_status_correct:
  fixes c :: u16
  shows "(err_is_circuit_opening (classify_status st c b) \<longleftrightarrow> c \<noteq> 429) \<and>
   (err_provider_cause (classify_status st c b) = Some (Cause_Throttled None b) \<longleftrightarrow> c = 429) \<and>
   err_http_status (classify_status st c b) = Some c \<and>
   err_exit_code (classify_status st c b) =
     (if c \<in> {401, 403} then Exit_ApiKeyInvalid
      else if c \<in> {408, 504, 524} then Exit_Timeout else Exit_ProviderError)"
  by (auto simp: classify_defs err_provider_cause_def)

text \<open>A textual \<open>Retry-After\<close> of \<open>n\<close> seconds reaches the throttled error as \<open>1000 n\<close>
  milliseconds, as long as that fits 64 bits, and a header that is not a decimal number
  (an HTTP date, say) leaves no hint.\<close>

lemma retry_after_reaches_error:
  "(case parse_u64 h of
      Inr n \<Rightarrow> \<exists>ms. throttled_with_retry_after b (retry_after_header (Some h)) = Err_Throttled (Some ms) b (Some 429) \<and>
              (unat ms = unat n * 1000 \<longleftrightarrow> unat n * 1000 < 2 ^ 64)
    | Inl _ \<Rightarrow> throttled_with_retry_after b (retry_after_header (Some h)) = Err_Throttled None b (Some 429))"
proof (cases "parse_u64 h")
  case (Inr n)
  have "as_millis_u64 (from_secs n) = of_nat (unat n * 1000)"
    by (simp add: as_millis_u64_def from_secs_def)
  moreover have "unat (of_nat (unat n * 1000) :: u64) = unat n * 1000 \<longleftrightarrow> unat n * 1000 < 2 ^ 64"
    using mod_less_divisor [of "2 ^ 64" "unat n * 1000"] mod_less [of "unat n * 1000" "2 ^ 64"]
    by (auto simp del: of_nat_mult mod_less mod_less_divisor simp: unat_of_nat)
  ultimately show ?thesis
    using Inr by (simp add: throttled_with_retry_after_def retry_after_header_def del: of_nat_mult)
qed (simp add: throttled_with_retry_after_def retry_after_header_def)

end
