(* ===== verification/Roles.thy ===== *)
theory Roles imports Errors begin

text \<open>
  The LLM roles of \<open>src/llm/role.rs\<close>: the enumeration with its derived order, its
  string form, the parser of that form, and the list of all roles. The pair of a provider
  name and a role is the key of every per-role registry. The lemmas give the round trip
  between a role and its name and the completeness of the list.
\<close>

datatype (plugins only: code size) role =
    Role_Intake | Role_Clarify | Role_Route | Role_Thesis | Role_Propose
  | Role_Gate | Role_Critique | Role_Repair | Role_Judge | Role_Rank
  | Role_Deliver | Role_Synthesizer | Role_Adversary | Role_Decomposer | Role_MergeSynthesizer
  | Role_TiefighterCritic | Role_FinalDisagreement | Role_JsonRepairV2 | Role_HostilePromptDetector | Role_Continuation
  | Role_DimensionDeriver | Role_Curator

primrec role_as_str :: "role \<Rightarrow> string" where
  "role_as_str Role_Intake = ''intake''"
| "role_as_str Role_Clarify = ''clarify''"
| "role_as_str Role_Route = ''route''"
| "role_as_str Role_Thesis = ''thesis''"
| "role_as_str Role_Propose = ''propose''"
| "role_as_str Role_Gate = ''gate''"
| "role_as_str Role_Critique = ''critique''"
| "role_as_str Role_Repair = ''repair''"
| "role_as_str Role_Judge = ''judge''"
| "role_as_str Role_Rank = ''rank''"
| "role_as_str Role_Deliver = ''deliver''"
| "role_as_str Role_Synthesizer = ''synthesizer''"
| "role_as_str Role_Adversary = ''adversary''"
| "role_as_str Role_Decomposer = ''decomposer''"
| "role_as_str Role_MergeSynthesizer = ''merge_synthesizer''"
| "role_as_str Role_TiefighterCritic = ''tiefighter_critic''"
| "role_as_str Role_FinalDisagreement = ''final_disagreement''"
| "role_as_str Role_JsonRepairV2 = ''json_repair_v2''"
| "role_as_str Role_HostilePromptDetector = ''hostile_prompt_detector''"
| "role_as_str Role_Continuation = ''continuation''"
| "role_as_str Role_DimensionDeriver = ''dimension_deriver''"
| "role_as_str Role_Curator = ''curator''"

definition role_caches_per_run :: "role \<Rightarrow> bool" where
  "role_caches_per_run r \<longleftrightarrow> r = Role_Thesis \<or> r = Role_Propose"

primrec role_schema_description :: "role \<Rightarrow> string" where
  "role_schema_description Role_Intake =
     ''Intake: {problem, objectives[], constraints[], non_goals[], open_questions[], raw_prompt}''"
| "role_schema_description Role_Clarify =
     ''Brief: {problem, objectives[], deliverables[], constraints[], assumptions[], non_goals[], acceptance[], risks[]}''"
| "role_schema_description Role_Route =
     ''Route: {mode, reason, theses, proposals, judges}''"
| "role_schema_description Role_Thesis =
     ''Thesis: {claim, key_decisions[], architecture_outline, assumptions[], strengths[], weaknesses[], hard_constraint_check{}, expected_validation}''"
| "role_schema_description Role_Propose =
     ''Proposal: {id, summary, approach, tradeoffs[], evidence[], artifacts[]{kind,language,source}?}''"
| "role_schema_description Role_Gate =
     ''Gate: {pass, issues[], missing[]}''"
| "role_schema_description Role_Critique =
     ''Critique: {verdict, issues[], suggestions[]}''"
| "role_schema_description Role_Repair =
     ''Repair: {id, summary, approach, tradeoffs[], evidence[], changes[]}''"
| "role_schema_description Role_Judge =
     ''JudgeScore: {score, criteria{correctness,completeness,fit,evidence,clarity}, comments}''"
| "role_schema_description Role_Rank =
     ''Ranking: {ranked[], winner}''"
| "role_schema_description Role_Deliver =
     ''FinalReport: {title, summary, recommendation, alternatives[], next_steps[]}''"
| "role_schema_description Role_Synthesizer =
     ''Synthesizer: {id, source_proposals[], cluster_id, synthesis_strategy, summary, approach, tradeoffs[], evidence[], sources[]}''"
| "role_schema_description Role_Adversary =
     ''Adversary: {proposal_id, consensus_check, disagreement_score, weaknesses[], unverified_claims[], score_delta, rationale}''"
| "role_schema_description Role_Decomposer =
     ''Decomposer: {should_decompose, nodes[]{id, question, expected_output, constraints[], dependencies[], validation_method}, integration_rules[]{from, to, description}, critical_path[]}''"
| "role_schema_description Role_MergeSynthesizer =
     ''MergeSynthesizer: {summary, approach, tradeoffs[], evidence[], sources[]}''"
| "role_schema_description Role_TiefighterCritic =
     ''TiefighterCritic: {proposal} (adversarial critic; T=0.0, top_p=0.1, max_tokens=1000000)''"
| "role_schema_description Role_FinalDisagreement =
     ''FinalDisagreement: {judge_scores[], candidates[], winner_id, margin, rationale} (judge tiebreaker; T=0.2, top_p=0.85, max_tokens=1000000)''"
| "role_schema_description Role_JsonRepairV2 =
     ''JsonRepairV2: {malformed, target_schema, repaired, notes} (LLM re-call for malformed JSON; T=0.0, top_p=0.5, max_tokens=1000000)''"
| "role_schema_description Role_HostilePromptDetector =
     ''HostilePromptDetector: {input, verdict, confidence, reasons[], recommended_action} (prompt-injection guard; T=0.0, top_p=0.1, max_tokens=1000000)''"
| "role_schema_description Role_Continuation =
     ''Continuation: {continued, finished, raw_excerpt, schema_version} (focused re-call after truncated response; T=0.0, top_p=0.5, max_tokens=1000000)''"
| "role_schema_description Role_DimensionDeriver =
     ''Dimensions: {dimensions[]: {id, label, facets[]: {id, label, description}}} (brief-derived matrix axes; T=0.0, top_p=0.2, max_tokens=1000000)''"
| "role_schema_description Role_Curator =
     ''Curation: {groups[]: {label, summary, representative}, assign[]: {n, g}, duplicates[]: [n, m], tensions[]: [n, m, note]} (one discover cell; T=0.2)''"

definition role_all :: "role list" where
  "role_all =
    [Role_Intake, Role_Clarify, Role_Route, Role_Thesis, Role_Propose,
     Role_Gate, Role_Critique, Role_Repair, Role_Judge, Role_Rank,
     Role_Deliver, Role_Synthesizer, Role_Adversary, Role_Decomposer, Role_MergeSynthesizer,
     Role_TiefighterCritic, Role_FinalDisagreement, Role_JsonRepairV2, Role_HostilePromptDetector, Role_Continuation,
     Role_DimensionDeriver, Role_Curator]"

definition role_from_str :: "string \<Rightarrow> role result" where
  "role_from_str s =
     (if s = ''intake'' then Inr Role_Intake
      else if s = ''clarify'' then Inr Role_Clarify
      else if s = ''route'' then Inr Role_Route
      else if s = ''thesis'' then Inr Role_Thesis
      else if s = ''propose'' then Inr Role_Propose
      else if s = ''gate'' then Inr Role_Gate
      else if s = ''critique'' then Inr Role_Critique
      else if s = ''repair'' then Inr Role_Repair
      else if s = ''judge'' then Inr Role_Judge
      else if s = ''rank'' then Inr Role_Rank
      else if s = ''deliver'' then Inr Role_Deliver
      else if s = ''synthesizer'' then Inr Role_Synthesizer
      else if s = ''adversary'' then Inr Role_Adversary
      else if s = ''decomposer'' then Inr Role_Decomposer
      else if s = ''merge_synthesizer'' then Inr Role_MergeSynthesizer
      else if s = ''tiefighter_critic'' then Inr Role_TiefighterCritic
      else if s = ''final_disagreement'' then Inr Role_FinalDisagreement
      else if s = ''json_repair_v2'' then Inr Role_JsonRepairV2
      else if s = ''hostile_prompt_detector'' then Inr Role_HostilePromptDetector
      else if s = ''continuation'' then Inr Role_Continuation
      else if s = ''dimension_deriver'' then Inr Role_DimensionDeriver
      else if s = ''curator'' then Inr Role_Curator
      else Inl (Err_InvalidArgs (''unknown role: '' @ s)))"

text \<open>The derived \<open>PartialOrd\<close>/\<open>Ord\<close>: the order of declaration.\<close>

primrec role_index :: "role \<Rightarrow> nat" where
  "role_index Role_Intake = 0"
| "role_index Role_Clarify = 1"
| "role_index Role_Route = 2"
| "role_index Role_Thesis = 3"
| "role_index Role_Propose = 4"
| "role_index Role_Gate = 5"
| "role_index Role_Critique = 6"
| "role_index Role_Repair = 7"
| "role_index Role_Judge = 8"
| "role_index Role_Rank = 9"
| "role_index Role_Deliver = 10"
| "role_index Role_Synthesizer = 11"
| "role_index Role_Adversary = 12"
| "role_index Role_Decomposer = 13"
| "role_index Role_MergeSynthesizer = 14"
| "role_index Role_TiefighterCritic = 15"
| "role_index Role_FinalDisagreement = 16"
| "role_index Role_JsonRepairV2 = 17"
| "role_index Role_HostilePromptDetector = 18"
| "role_index Role_Continuation = 19"
| "role_index Role_DimensionDeriver = 20"
| "role_index Role_Curator = 21"

lemma role_index_inj: "role_index r = role_index s \<Longrightarrow> r = s"
  by (cases r; cases s) simp_all

instantiation role :: linorder
begin

definition less_eq_role :: "role \<Rightarrow> role \<Rightarrow> bool" where
  "less_eq_role r s \<longleftrightarrow> role_index r \<le> role_index s"

definition less_role :: "role \<Rightarrow> role \<Rightarrow> bool" where
  "less_role r s \<longleftrightarrow> role_index r < role_index s"

instance
  by standard (auto simp: less_eq_role_def less_role_def intro: role_index_inj)

end

lemma role_all_complete: "r \<in> set role_all"
  by (cases r) (simp_all add: role_all_def)

lemma role_from_as_str: "role_from_str (role_as_str r) = Inr r"
  by (cases r) (simp_all add: role_from_str_def)

lemma role_from_str_Inr: "role_from_str s = Inr r \<Longrightarrow> s = role_as_str r"
  by (auto simp: role_from_str_def split: if_splits)

lemma role_as_str_inj: "role_as_str r = role_as_str s \<Longrightarrow> r = s"
  by (metis role_from_as_str Inr_inject)

lemma role_all_sorted: "sorted role_all" "distinct role_all"
  by (simp_all add: role_all_def less_eq_role_def)

end
