(* ===== verification/Interfaces.thy ===== *)
theory Interfaces imports Prelude begin

text \<open>
  The contracts the components rely on, as locales.
  \<^item> \<open>event_machine\<close>: a component that reacts to events and keeps an invariant; runs over
    event lists keep it too.
  \<^item> \<open>keyed_cells\<close>: a registry that hands out one shared cell per key, creating it on first
    use; handles to one key alias, handles to different keys do not interfere.
  \<^item> \<open>backoff_curve\<close>: a delay that doubles up to a cap on every refusal and shrinks to three
    quarters on every success.
  The theories that provide the components interpret them on the code's models.
\<close>

section \<open>Machines driven by events\<close>

locale event_machine =
  fixes step :: "'s \<Rightarrow> 'e \<Rightarrow> 's"
    and inv :: "'s \<Rightarrow> bool"
  assumes step_inv: "inv s \<Longrightarrow> inv (step s e)"
begin

lemma run_inv: "inv s \<Longrightarrow> inv (foldl step s es)"
  by (induction es arbitrary: s) (auto intro: step_inv)

lemma run_prefix_inv: "inv s \<Longrightarrow> inv (foldl step s (take n es))"
  by (rule run_inv)

end

section \<open>Registries of shared cells\<close>

locale keyed_cells =
  fixes get :: "'r \<Rightarrow> 'k \<Rightarrow> nat \<times> 'r"
    and cell :: "'r \<Rightarrow> nat \<Rightarrow> 'v"
    and update :: "'r \<Rightarrow> nat \<Rightarrow> ('v \<Rightarrow> 'v) \<Rightarrow> 'r"
    and peek :: "'r \<Rightarrow> 'k \<Rightarrow> 'v option"
    and handle :: "'r \<Rightarrow> 'k \<Rightarrow> nat option"
    and inv :: "'r \<Rightarrow> bool"
    and fresh :: "'k \<Rightarrow> 'v"
  assumes get_inv: "inv r \<Longrightarrow> inv (snd (get r k))"
    and get_handle: "inv r \<Longrightarrow> handle (snd (get r k)) k = Some (fst (get r k))"
    and get_known: "inv r \<Longrightarrow> handle r k = Some a \<Longrightarrow> get r k = (a, r)"
    and get_fresh: "inv r \<Longrightarrow> handle r k = None \<Longrightarrow> peek (snd (get r k)) k = Some (fresh k)"
    and get_other: "inv r \<Longrightarrow> j \<noteq> k \<Longrightarrow> peek (snd (get r k)) j = peek r j"
    and get_other_handle: "inv r \<Longrightarrow> j \<noteq> k \<Longrightarrow> handle (snd (get r k)) j = handle r j"
    and peek_handle: "inv r \<Longrightarrow> peek r k = map_option (cell r) (handle r k)"
    and update_inv: "inv r \<Longrightarrow> inv (update r a f)"
    and update_handle: "handle (update r a f) k = handle r k"
    and update_same: "inv r \<Longrightarrow> handle r k = Some a \<Longrightarrow> cell (update r a f) a = f (cell r a)"
    and update_other: "inv r \<Longrightarrow> handle r k = Some a \<Longrightarrow> j \<noteq> k \<Longrightarrow> peek (update r a f) j = peek r j"
begin

lemma get_again: "inv r \<Longrightarrow> get (snd (get r k)) k = (fst (get r k), snd (get r k))"
  by (rule get_known) (simp_all add: get_inv get_handle)

lemma get_present: "inv r \<Longrightarrow> peek r k = Some v \<Longrightarrow> peek (snd (get r k)) k = Some v"
  by (cases "handle r k") (simp_all add: peek_handle get_known)

lemma get_value:
  "inv r \<Longrightarrow> peek (snd (get r k)) k = Some (case peek r k of None \<Rightarrow> fresh k | Some v \<Rightarrow> v)"
  by (cases "handle r k") (simp_all add: peek_handle get_known get_fresh flip: peek_handle [OF get_inv])

lemma cell_of_get:
  "inv r \<Longrightarrow> cell (snd (get r k)) (fst (get r k)) = (case peek r k of None \<Rightarrow> fresh k | Some v \<Rightarrow> v)"
  using get_value [of r k] by (simp add: peek_handle [OF get_inv] get_handle)

lemma update_through_handle:
  "inv r \<Longrightarrow> peek (update (snd (get r k)) (fst (get r k)) f) k
     = Some (f (case peek r k of None \<Rightarrow> fresh k | Some v \<Rightarrow> v))"
  by (simp add: peek_handle [OF update_inv [OF get_inv]] update_handle get_handle
      update_same [OF get_inv get_handle] cell_of_get)

text \<open>Two handles to one key alias: a change made through the first is seen through the second.\<close>

lemma handles_alias:
  fixes r k f
  assumes "inv r"
  defines "r1 \<equiv> snd (get r k)" and "a \<equiv> fst (get r k)"
  shows "get (update r1 a f) k = (a, update r1 a f)"
    and "cell (update r1 a f) a = f (cell r1 a)"
proof -
  have i: "inv r1" and h: "handle r1 k = Some a"
    using assms by (simp_all add: get_inv get_handle)
  show "get (update r1 a f) k = (a, update r1 a f)"
    by (rule get_known) (simp_all add: update_inv i update_handle h)
  show "cell (update r1 a f) a = f (cell r1 a)" by (rule update_same [OF i h])
qed

text \<open>Handles to different keys are independent.\<close>

lemma handles_independent:
  assumes "inv r" and "j \<noteq> k"
  shows "peek (update (snd (get r k)) (fst (get r k)) f) j = peek r j"
  by (simp add: update_other [OF get_inv get_handle] get_other assms)

text \<open>Handles stay valid, and a property of every cell survives the creation of one and an update.\<close>

lemma handle_kept: "inv r \<Longrightarrow> handle r j = Some a \<Longrightarrow> handle (snd (get r k)) j = Some a"
  by (cases "j = k") (simp_all add: get_known get_other_handle)

lemma all_cells_get:
  "inv r \<Longrightarrow> \<forall>k v. peek r k = Some v \<longrightarrow> P v \<Longrightarrow> P (fresh k0) \<Longrightarrow>
   \<forall>k v. peek (snd (get r k0)) k = Some v \<longrightarrow> P v"
proof (intro allI impI)
  fix k v
  assume a: "inv r" "\<forall>k v. peek r k = Some v \<longrightarrow> P v" "P (fresh k0)" "peek (snd (get r k0)) k = Some v"
  then show "P v"
    by (cases "k = k0") (auto simp: get_value get_other split: option.splits)
qed

lemma all_cells_update:
  "inv r \<Longrightarrow> handle r k0 = Some a \<Longrightarrow> \<forall>k v. peek r k = Some v \<longrightarrow> P v \<Longrightarrow> (\<And>v. P v \<Longrightarrow> P (f v)) \<Longrightarrow>
   \<forall>k v. peek (update r a f) k = Some v \<longrightarrow> P v"
proof (intro allI impI)
  fix k v
  assume a: "inv r" "handle r k0 = Some a" "\<forall>k v. peek r k = Some v \<longrightarrow> P v"
    "\<And>v. P v \<Longrightarrow> P (f v)" "peek (update r a f) k = Some v"
  show "P v"
  proof (cases "k = k0")
    case True
    with a have "v = f (cell r a)" by (simp add: peek_handle update_inv update_handle update_same)
    moreover have "P (cell r a)" using a(3) [rule_format, of k0 "cell r a"] a(1,2) by (simp add: peek_handle)
    ultimately show ?thesis using a(4) by simp
  next
    case False
    with a show ?thesis by (simp add: update_other)
  qed
qed

end

section \<open>Backoff curves\<close>

locale backoff_curve =
  fixes level :: "'s \<Rightarrow> nat"
    and refuse :: "'x \<Rightarrow> 's \<Rightarrow> 's"
    and succeed :: "'y \<Rightarrow> 's \<Rightarrow> 's"
    and valid :: "'s \<Rightarrow> bool"
    and initial cap limit :: nat
  assumes refuse_valid: "valid s \<Longrightarrow> valid (refuse x s)"
    and succeed_valid: "valid s \<Longrightarrow> valid (succeed y s)"
    and refuse_level: "valid s \<Longrightarrow> level (refuse x s) = min (if level s = 0 then initial else 2 * level s) cap"
    and succeed_level: "valid s \<Longrightarrow> level (succeed y s) = min (3 * level s) limit div 4"
begin

lemma refuse_capped: "valid s \<Longrightarrow> level (refuse x s) \<le> cap"
  by (simp add: refuse_level)

lemma succeed_decreases:
  assumes "valid s" "0 < level s"
  shows "level (succeed y s) < level s"
proof -
  have "min (3 * level s) limit div 4 \<le> 3 * level s div 4" by (intro div_le_mono) simp
  with assms show ?thesis by (simp add: succeed_level)
qed

lemma succeed_le: "valid s \<Longrightarrow> level (succeed y s) \<le> level s"
  using succeed_decreases [of s y] by (cases "level s = 0") (auto simp: succeed_level)

lemma succeeds_valid: "valid s \<Longrightarrow> valid (fold succeed ys s)"
  by (induction ys arbitrary: s) (simp_all add: succeed_valid)

lemma refuses_valid: "valid s \<Longrightarrow> valid (fold refuse xs s)"
  by (induction xs arbitrary: s) (simp_all add: refuse_valid)

lemma succeeds_bound: "valid s \<Longrightarrow> level (fold succeed ys s) \<le> level s - length ys"
proof (induction ys arbitrary: s)
  case Nil
  then show ?case by simp
next
  case (Cons y ys)
  have "level (fold succeed ys (succeed y s)) \<le> level (succeed y s) - length ys"
    using Cons by (simp add: succeed_valid)
  moreover have "level (succeed y s) \<le> level s - 1"
    using succeed_decreases [OF Cons.prems, of y] succeed_le [OF Cons.prems, of y]
    by (cases "level s = 0") auto
  ultimately show ?case by simp
qed

lemma succeeds_clear: "valid s \<Longrightarrow> level s \<le> length ys \<Longrightarrow> level (fold succeed ys s) = 0"
  using succeeds_bound [of s ys] by simp

lemma refusals_grow:
  "valid s \<Longrightarrow> 0 < level s \<Longrightarrow> level s \<le> cap \<Longrightarrow> level (fold refuse xs s) = min (2 ^ length xs * level s) cap"
proof (induction xs arbitrary: s)
  case Nil
  then show ?case by simp
next
  case (Cons x xs)
  let ?s = "refuse x s"
  have l: "level ?s = min (2 * level s) cap" using Cons.prems by (simp add: refuse_level)
  have "level (fold refuse xs ?s) = min (2 ^ length xs * level ?s) cap"
    using Cons.prems by (intro Cons.IH) (simp_all add: l refuse_valid)
  also have "\<dots> = min (2 ^ length (x # xs) * level s) cap"
  proof (cases "2 * level s \<le> cap")
    case True
    then show ?thesis by (simp add: l ac_simps)
  next
    case False
    have "cap \<le> 2 ^ length xs * cap" and "cap \<le> 2 ^ length xs * (2 * level s)"
      using False by (simp_all add: order_trans [OF less_imp_le [of cap "2 * level s"]])
    then show ?thesis using False by (simp add: l ac_simps)
  qed
  finally show ?case by simp
qed

lemma refusals_from_idle:
  "valid s \<Longrightarrow> level s = 0 \<Longrightarrow> 0 < initial \<Longrightarrow> initial \<le> cap \<Longrightarrow>
   level (fold refuse (x # xs) s) = min (2 ^ length xs * initial) cap"
  using refusals_grow [of "refuse x s" xs] by (simp add: refuse_level refuse_valid)

text \<open>With a zero initial step the curve never leaves zero.\<close>

lemma refusals_stuck:
  "valid s \<Longrightarrow> level s = 0 \<Longrightarrow> initial = 0 \<Longrightarrow> level (fold refuse xs s) = 0"
  by (induction xs arbitrary: s) (simp_all add: refuse_level refuse_valid)

end

end
