(* ===== verification/Shared_Registry.thy ===== *)
theory Shared_Registry imports Interfaces begin

text \<open>
  The store behind every registry of shared objects
  (\<open>Arc<RwLock<HashMap<K, Arc<V>>>>\<close>): the map holds addresses, the heap holds the
  objects, so that two handles to one object alias, as clones of an \<open>Arc\<close> do. Handing out
  a handle and replacing a binding are the two operations the registries of
  \<open>src/llm/circuit_breaker.rs\<close> and \<open>src/llm/governor.rs\<close> use; an object that is no
  longer bound stays in the heap for the handles that still point at it.
\<close>

record ('k, 'v) registry =
  reg_index :: "'k \<Rightarrow> nat option"
  reg_heap :: "'v list"

definition reg_empty :: "('k, 'v) registry" where
  "reg_empty = \<lparr>reg_index = (\<lambda>_. None), reg_heap = []\<rparr>"

definition reg_insert :: "('k, 'v) registry \<Rightarrow> 'k \<Rightarrow> 'v \<Rightarrow> ('k, 'v) registry" where
  "reg_insert r k v = r\<lparr>reg_index := (reg_index r)(k \<mapsto> length (reg_heap r)), reg_heap := reg_heap r @ [v]\<rparr>"

definition reg_get_or_insert :: "('k \<Rightarrow> 'v) \<Rightarrow> ('k, 'v) registry \<Rightarrow> 'k \<Rightarrow> nat \<times> ('k, 'v) registry" where
  "reg_get_or_insert mk r k =
     (case reg_index r k of
        Some a \<Rightarrow> (a, r)
      | None \<Rightarrow> (length (reg_heap r), reg_insert r k (mk k)))"

definition reg_cell :: "('k, 'v) registry \<Rightarrow> nat \<Rightarrow> 'v" where
  "reg_cell r a = reg_heap r ! a"

definition reg_update :: "('k, 'v) registry \<Rightarrow> nat \<Rightarrow> ('v \<Rightarrow> 'v) \<Rightarrow> ('k, 'v) registry" where
  "reg_update r a f = r\<lparr>reg_heap := (reg_heap r)[a := f (reg_heap r ! a)]\<rparr>"

definition reg_peek :: "('k, 'v) registry \<Rightarrow> 'k \<Rightarrow> 'v option" where
  "reg_peek r k = map_option (reg_cell r) (reg_index r k)"

definition reg_wf :: "('k, 'v) registry \<Rightarrow> bool" where
  "reg_wf r \<longleftrightarrow> (\<forall>k a. reg_index r k = Some a \<longrightarrow> a < length (reg_heap r)) \<and>
     (\<forall>j k a. reg_index r j = Some a \<and> reg_index r k = Some a \<longrightarrow> j = k)"

lemmas reg_defs = reg_insert_def reg_get_or_insert_def reg_cell_def reg_update_def reg_peek_def

lemma reg_wf_empty [simp]: "reg_wf reg_empty"
  by (simp add: reg_wf_def reg_empty_def)

lemma reg_wf_range: "reg_wf r \<Longrightarrow> reg_index r k = Some a \<Longrightarrow> a < length (reg_heap r)"
  by (auto simp: reg_wf_def)

lemma reg_wf_inj: "reg_wf r \<Longrightarrow> reg_index r j = Some a \<Longrightarrow> reg_index r k = Some a \<Longrightarrow> j = k"
  unfolding reg_wf_def by blast

lemma reg_wf_insert: "reg_wf r \<Longrightarrow> reg_wf (reg_insert r k v)"
  unfolding reg_wf_def reg_insert_def by (fastforce simp: less_Suc_eq split: if_splits)

lemma reg_wf_get: "reg_wf r \<Longrightarrow> reg_wf (snd (reg_get_or_insert mk r k))"
  by (auto simp: reg_get_or_insert_def reg_wf_insert split: option.splits)

lemma reg_wf_update: "reg_wf r \<Longrightarrow> reg_wf (reg_update r a f)"
  by (auto simp: reg_wf_def reg_update_def)

lemma reg_peek_insert:
  "reg_wf r \<Longrightarrow> reg_peek (reg_insert r k v) j = (if j = k then Some v else reg_peek r j)"
  by (cases "reg_index r j")
     (auto simp: reg_peek_def reg_insert_def reg_cell_def nth_append dest: reg_wf_range)

lemma reg_index_get_same:
  "reg_index (snd (reg_get_or_insert mk r k)) k = Some (fst (reg_get_or_insert mk r k))"
  by (auto simp: reg_get_or_insert_def reg_insert_def split: option.splits)

lemma reg_index_get_other:
  "j \<noteq> k \<Longrightarrow> reg_index (snd (reg_get_or_insert mk r k)) j = reg_index r j"
  by (auto simp: reg_get_or_insert_def reg_insert_def split: option.splits)

lemma reg_peek_get_other:
  "reg_wf r \<Longrightarrow> j \<noteq> k \<Longrightarrow> reg_peek (snd (reg_get_or_insert mk r k)) j = reg_peek r j"
  by (auto simp: reg_get_or_insert_def reg_peek_insert split: option.splits)

lemma reg_peek_get_fresh:
  "reg_wf r \<Longrightarrow> reg_index r k = None \<Longrightarrow> reg_peek (snd (reg_get_or_insert mk r k)) k = Some (mk k)"
  by (auto simp: reg_get_or_insert_def reg_peek_insert)

lemma reg_cell_update:
  "a < length (reg_heap r) \<Longrightarrow> reg_cell (reg_update r a f) b = (if b = a then f (reg_cell r a) else reg_cell r b)"
  by (auto simp: reg_cell_def reg_update_def)

lemma reg_index_update [simp]: "reg_index (reg_update r a f) = reg_index r"
  by (simp add: reg_update_def)

lemma reg_peek_update_other:
  assumes "reg_wf r" "reg_index r k = Some a" "j \<noteq> k"
  shows "reg_peek (reg_update r a f) j = reg_peek r j"
proof -
  have "reg_index r j \<noteq> Some a" using assms reg_wf_inj by metis
  then show ?thesis
    using reg_wf_range [OF assms(1,2)]
    by (cases "reg_index r j") (auto simp: reg_peek_def reg_cell_update)
qed

lemma reg_get_known: "reg_index r k = Some a \<Longrightarrow> reg_get_or_insert mk r k = (a, r)"
  by (simp add: reg_get_or_insert_def)

lemma reg_cell_update_same:
  "reg_wf r \<Longrightarrow> reg_index r k = Some a \<Longrightarrow> reg_cell (reg_update r a f) a = f (reg_cell r a)"
  by (simp add: reg_cell_update reg_wf_range)

lemmas reg_laws = reg_wf_get reg_wf_update reg_index_get_same reg_index_get_other
  reg_peek_get_other reg_peek_get_fresh reg_peek_update_other reg_get_known reg_cell_update_same

lemma keyed_cells_registry:
  fixes mk :: "'k \<Rightarrow> 'v"
  shows "keyed_cells (reg_get_or_insert mk) reg_cell reg_update reg_peek reg_index reg_wf mk"
  by unfold_locales (simp_all add: reg_laws, simp add: reg_peek_def)

interpretation reg: keyed_cells "reg_get_or_insert mk" reg_cell reg_update reg_peek reg_index reg_wf mk for mk
  by (rule keyed_cells_registry)

end
