(* ===== verification/Circuit_Breaker.thy ===== *)
theory Circuit_Breaker imports Errors Roles Shared_Registry begin

text \<open>
  The circuit breaker of \<open>src/llm/circuit_breaker.rs\<close>: its state machine (every
  operation takes the clock reading it would obtain from \<open>Instant::now()\<close>), the
  configuration and its environment-variable form, and the per-(provider, role) registry
  with its shared handles. The lemmas give the invariant between state and counter, what
  opens the breaker, how long it refuses, and what the half-open probe does.
\<close>

section \<open>State machine\<close>

datatype breaker_state = Closed | Open instant | HalfOpen

record breaker =
  br_state :: breaker_state
  br_failures :: u32
  br_last_failure :: "instant option"
  br_threshold :: u32
  br_window :: duration
  br_cooldown :: duration

definition breaker_new :: "u32 \<Rightarrow> duration \<Rightarrow> duration \<Rightarrow> breaker" where
  "breaker_new threshold window cooldown =
     \<lparr>br_state = Closed, br_failures = 0, br_last_failure = None,
      br_threshold = threshold, br_window = window, br_cooldown = cooldown\<rparr>"

definition breaker_default :: breaker where
  "breaker_default = breaker_new 5 (from_secs 60) (from_secs 30)"

definition breaker_lenient :: breaker where
  "breaker_lenient = breaker_new 50 (from_secs 300) (from_secs 60)"

definition trip :: "instant \<Rightarrow> breaker \<Rightarrow> breaker" where
  "trip now b = b\<lparr>br_state := Open now, br_failures := br_threshold b\<rparr>"

definition is_open :: "breaker \<Rightarrow> bool" where
  "is_open b = (case br_state b of Open _ \<Rightarrow> True | _ \<Rightarrow> False)"

definition breaker_state_name :: "breaker \<Rightarrow> string" where
  "breaker_state_name b =
     (case br_state b of Closed \<Rightarrow> ''closed'' | Open _ \<Rightarrow> ''open'' | HalfOpen \<Rightarrow> ''half_open'')"

definition failure_count :: "breaker \<Rightarrow> u32" where
  "failure_count b = br_failures b"

definition record_success :: "breaker \<Rightarrow> breaker" where
  "record_success b = b\<lparr>br_state := Closed, br_failures := 0, br_last_failure := None\<rparr>"

definition window_expired :: "instant \<Rightarrow> breaker \<Rightarrow> bool" where
  "window_expired now b =
     (case br_last_failure b of
        None \<Rightarrow> False
      | Some t \<Rightarrow> (case checked_duration_since now t of
                    None \<Rightarrow> False
                  | Some since_last \<Rightarrow> br_window b < since_last))"

definition record_failure :: "instant \<Rightarrow> breaker \<Rightarrow> breaker" where
  "record_failure now b =
     (let b1 = (if window_expired now b then b\<lparr>br_failures := 0, br_state := Closed\<rparr> else b);
          b2 = b1\<lparr>br_failures := sat_add (br_failures b1) 1, br_last_failure := Some now\<rparr>
      in if br_threshold b2 \<le> br_failures b2 then b2\<lparr>br_state := Open now\<rparr> else b2)"

definition pre_check :: "instant \<Rightarrow> breaker \<Rightarrow> duration option \<times> breaker" where
  "pre_check now b =
     (case br_state b of
        Closed \<Rightarrow> (None, b)
      | Open t \<Rightarrow>
          (let elapsed = (case checked_duration_since now t of None \<Rightarrow> 0 | Some d \<Rightarrow> d)
           in if br_cooldown b \<le> elapsed then (None, b\<lparr>br_state := HalfOpen\<rparr>)
              else (Some (br_cooldown b - elapsed), b))
      | HalfOpen \<Rightarrow> (None, b))"

text \<open>
  \<open>run\<close>: the pre-check at \<open>t0\<close>, the sleep it asks for, the guarded call with outcome
  \<open>r\<close>, and the recording at \<open>t1\<close>. The result carries the sleep.
\<close>

definition breaker_run :: "instant \<Rightarrow> instant \<Rightarrow> 'v result \<Rightarrow> breaker \<Rightarrow> 'v result \<times> duration option \<times> breaker" where
  "breaker_run t0 t1 r b =
     (case pre_check t0 b of (wait, b1) \<Rightarrow>
        (case r of
           Inr v \<Rightarrow> (Inr v, wait, record_success b1)
         | Inl e \<Rightarrow> (Inl e, wait, record_failure t1 b1)))"

datatype breaker_event = Ev_Trip instant | Ev_Success | Ev_Failure instant | Ev_PreCheck instant

primrec breaker_step :: "breaker \<Rightarrow> breaker_event \<Rightarrow> breaker" where
  "breaker_step b (Ev_Trip t) = trip t b"
| "breaker_step b Ev_Success = record_success b"
| "breaker_step b (Ev_Failure t) = record_failure t b"
| "breaker_step b (Ev_PreCheck t) = snd (pre_check t b)"

section \<open>Configuration\<close>

record breaker_config =
  bc_threshold :: u32
  bc_window :: duration
  bc_cooldown :: duration

definition breaker_config_default :: breaker_config where
  "breaker_config_default = \<lparr>bc_threshold = 50, bc_window = from_secs 300, bc_cooldown = from_secs 60\<rparr>"

definition breaker_field_missing :: "string \<Rightarrow> error" where
  "breaker_field_missing name = Err_Provider (''circuit_breaker: missing '' @ name) None"

definition breaker_field_bad :: "string \<Rightarrow> parse_int_error \<Rightarrow> error" where
  "breaker_field_bad name e = Err_Provider (''circuit_breaker: '' @ name @ '': '' @ parse_int_error_text e) None"

definition breaker_config_from_env_str :: "string \<Rightarrow> breaker_config result" where
  "breaker_config_from_env_str s =
     rbind (read_field (breaker_field_missing ''threshold'') (breaker_field_bad ''threshold'') parse_u32 (env_fields s))
       (\<lambda>(threshold, ts).
     rbind (read_field (breaker_field_missing ''window_secs'') (breaker_field_bad ''window_secs'') parse_u64 ts)
       (\<lambda>(window_secs, ts).
     rbind (read_field (breaker_field_missing ''cooldown_secs'') (breaker_field_bad ''cooldown_secs'') parse_u64 ts)
       (\<lambda>(cooldown_secs, ts).
     Inr \<lparr>bc_threshold = threshold, bc_window = from_secs window_secs, bc_cooldown = from_secs cooldown_secs\<rparr>)))"

section \<open>Registry\<close>

type_synonym breaker_key = "string \<times> role"

record breaker_registry =
  by_pair :: "(breaker_key, breaker) registry"
  default_config :: breaker_config

definition breaker_of_config :: "breaker_config \<Rightarrow> breaker" where
  "breaker_of_config c = breaker_new (bc_threshold c) (bc_window c) (bc_cooldown c)"

definition breaker_registry_new_with_config :: "breaker_config \<Rightarrow> breaker_registry" where
  "breaker_registry_new_with_config c = \<lparr>by_pair = reg_empty, default_config = c\<rparr>"

definition breaker_registry_new :: breaker_registry where
  "breaker_registry_new = \<lparr>by_pair = reg_empty, default_config = breaker_config_default\<rparr>"

definition pre_create :: "breaker_registry \<Rightarrow> string \<Rightarrow> role \<Rightarrow> breaker_config \<Rightarrow> breaker_registry" where
  "pre_create r provider rl cfg = r\<lparr>by_pair := reg_insert (by_pair r) (provider, rl) (breaker_of_config cfg)\<rparr>"

definition breaker_for :: "breaker_registry \<Rightarrow> string \<Rightarrow> role \<Rightarrow> nat \<times> breaker_registry" where
  "breaker_for r provider rl =
     (case reg_get_or_insert (\<lambda>_. breaker_of_config (default_config r)) (by_pair r) (provider, rl) of
        (a, p) \<Rightarrow> (a, r\<lparr>by_pair := p\<rparr>))"

definition registry_is_open :: "breaker_registry \<Rightarrow> string \<Rightarrow> role \<Rightarrow> bool \<times> breaker_registry" where
  "registry_is_open r provider rl =
     (case breaker_for r provider rl of (a, r') \<Rightarrow> (is_open (reg_cell (by_pair r') a), r'))"

definition breaker_snapshot :: "breaker_registry \<Rightarrow> string \<Rightarrow> role \<Rightarrow> (string \<times> u32) option" where
  "breaker_snapshot r provider rl =
     map_option (\<lambda>b. (breaker_state_name b, failure_count b)) (reg_peek (by_pair r) (provider, rl))"

text \<open>The object behind a handle, and an operation on it through the handle's mutex.\<close>

definition breaker_cell :: "breaker_registry \<Rightarrow> nat \<Rightarrow> breaker" where
  "breaker_cell r = reg_cell (by_pair r)"

definition breaker_update :: "breaker_registry \<Rightarrow> nat \<Rightarrow> (breaker \<Rightarrow> breaker) \<Rightarrow> breaker_registry" where
  "breaker_update r a f = r\<lparr>by_pair := reg_update (by_pair r) a f\<rparr>"

section \<open>Lemmas on the state machine\<close>

definition breaker_inv :: "breaker \<Rightarrow> bool" where
  "breaker_inv b \<longleftrightarrow>
     (case br_state b of
        Closed \<Rightarrow> br_failures b = 0 \<or> br_failures b < br_threshold b
      | Open _ \<Rightarrow> br_threshold b \<le> br_failures b
      | HalfOpen \<Rightarrow> br_threshold b \<le> br_failures b)"

lemmas breaker_ops = trip_def record_success_def record_failure_def pre_check_def Let_def

lemma breaker_inv_new [simp]: "breaker_inv (breaker_new th w c)"
  by (simp add: breaker_inv_def breaker_new_def)

lemma breaker_inv_trip: "breaker_inv (trip t b)"
  by (simp add: breaker_inv_def trip_def)

lemma breaker_inv_success: "breaker_inv (record_success b)"
  by (simp add: breaker_inv_def record_success_def)

lemma sat_add_1_ge: "a \<le> sat_add a 1" for a :: u32
  using unat_le_max [of a] by (simp add: word_le_nat_alt unat_sat_add)

lemma breaker_inv_failure:
  assumes "breaker_inv b"
  shows "breaker_inv (record_failure t b)"
proof -
  have "br_threshold b \<le> sat_add (br_failures b) 1" if "br_threshold b \<le> br_failures b"
    using that sat_add_1_ge [of "br_failures b"] by (rule order_trans)
  with assms show ?thesis
    by (auto simp: breaker_inv_def record_failure_def Let_def not_le split: breaker_state.splits)
qed

lemma breaker_inv_pre_check: "breaker_inv b \<Longrightarrow> breaker_inv (snd (pre_check t b))"
  by (auto simp: breaker_inv_def pre_check_def Let_def split: breaker_state.splits option.splits)

lemma breaker_inv_step: "breaker_inv b \<Longrightarrow> breaker_inv (breaker_step b e)"
  by (cases e) (simp_all add: breaker_inv_trip breaker_inv_success breaker_inv_failure breaker_inv_pre_check)

interpretation breaker_machine: event_machine breaker_step breaker_inv
  by unfold_locales (rule breaker_inv_step)

lemma breaker_config_step:
  "br_threshold (breaker_step b e) = br_threshold b"
  "br_window (breaker_step b e) = br_window b"
  "br_cooldown (breaker_step b e) = br_cooldown b"
  by (cases e; simp add: breaker_ops split: breaker_state.split option.split)+

text \<open>A failure inside the window: the counter goes up and the threshold decides.\<close>

lemma record_failure_in_window:
  "\<not> window_expired t b \<Longrightarrow>
   record_failure t b =
     b\<lparr>br_failures := sat_add (br_failures b) 1, br_last_failure := Some t,
       br_state := (if br_threshold b \<le> sat_add (br_failures b) 1 then Open t else br_state b)\<rparr>"
  by (simp add: record_failure_def Let_def)

lemma record_failure_last [simp]: "br_last_failure (record_failure t b) = Some t"
  by (simp add: record_failure_def Let_def)

lemma record_failure_window [simp]: "br_window (record_failure t b) = br_window b"
  by (simp add: record_failure_def Let_def)

lemma record_failure_threshold [simp]: "br_threshold (record_failure t b) = br_threshold b"
  by (simp add: record_failure_def Let_def)

text \<open>Failure times whose distance from the one before is at most the window.\<close>

fun spaced :: "duration \<Rightarrow> instant option \<Rightarrow> instant list \<Rightarrow> bool" where
  "spaced w prev [] = True"
| "spaced w prev (t # ts) =
     ((case prev of None \<Rightarrow> True | Some p \<Rightarrow> p \<le> t \<and> t - p \<le> w) \<and> spaced w (Some t) ts)"

lemma spaced_not_expired:
  "spaced (br_window b) (br_last_failure b) (t # ts) \<Longrightarrow> \<not> window_expired t b"
  by (auto simp: window_expired_def checked_duration_since_def split: option.splits)

definition record_failures :: "instant list \<Rightarrow> breaker \<Rightarrow> breaker" where
  "record_failures ts b = foldl (\<lambda>b t. record_failure t b) b ts"

lemma record_failures_simps [simp]:
  "record_failures [] b = b"
  "record_failures (t # ts) b = record_failures ts (record_failure t b)"
  by (simp_all add: record_failures_def)

lemma record_failures_count:
  "spaced (br_window b) (br_last_failure b) ts \<Longrightarrow>
   unat (br_failures (record_failures ts b)) = min (unat (br_failures b) + length ts) (2 ^ 32 - 1)"
proof (induction ts arbitrary: b)
  case Nil
  then show ?case using unat_le_max [of "br_failures b"] by simp
next
  case (Cons t ts)
  have "\<not> window_expired t b" using Cons.prems by (rule spaced_not_expired)
  then have f: "br_failures (record_failure t b) = sat_add (br_failures b) 1"
    by (simp add: record_failure_in_window)
  show ?case using Cons.IH [of "record_failure t b"] Cons.prems by (simp add: f unat_sat_add)
qed

lemma is_open_tracks_count:
  "spaced (br_window b) (br_last_failure b) ts \<Longrightarrow>
   (is_open b \<longleftrightarrow> br_threshold b \<le> br_failures b) \<Longrightarrow>
   (is_open (record_failures ts b) \<longleftrightarrow> br_threshold b \<le> br_failures (record_failures ts b))"
proof (induction ts arbitrary: b)
  case Nil
  then show ?case by simp
next
  case (Cons t ts)
  have w: "\<not> window_expired t b" using Cons.prems(1) by (rule spaced_not_expired)
  have "is_open (record_failure t b) \<longleftrightarrow> br_threshold b \<le> br_failures (record_failure t b)"
    using Cons.prems(2) sat_add_1_ge [of "br_failures b"]
    by (auto simp: record_failure_in_window [OF w] is_open_def dest: order_trans split: breaker_state.splits)
  then show ?case using Cons.IH [of "record_failure t b"] Cons.prems(1) by simp
qed

text \<open>A run of \<open>threshold\<close> failures opens a fresh breaker, and fewer do not.\<close>

lemma fresh_opens_at_threshold:
  assumes "th \<noteq> 0" and "spaced w None ts" and "length ts < 2 ^ 32"
  shows "is_open (record_failures ts (breaker_new th w c)) \<longleftrightarrow> unat th \<le> length ts"
proof -
  let ?b = "breaker_new th w c"
  have sp: "spaced (br_window ?b) (br_last_failure ?b) ts"
    using assms(2) by (simp add: breaker_new_def)
  have o: "is_open ?b \<longleftrightarrow> br_threshold ?b \<le> br_failures ?b"
    using assms(1) by (simp add: breaker_new_def is_open_def)
  have n: "unat (br_failures (record_failures ts ?b)) = length ts"
    using record_failures_count [OF sp] assms(3) by (simp add: breaker_new_def)
  show ?thesis
    using is_open_tracks_count [OF sp o] n by (simp add: breaker_new_def word_le_nat_alt)
qed

text \<open>What the pre-check answers, state by state.\<close>

lemma pre_check_open_waits:
  "br_state b = Open t \<Longrightarrow> t \<le> now \<Longrightarrow> now < t + br_cooldown b \<Longrightarrow>
   pre_check now b = (Some (t + br_cooldown b - now), b)"
  by (auto simp: pre_check_def Let_def checked_duration_since_def)

lemma pre_check_open_elapsed:
  "br_state b = Open t \<Longrightarrow> t + br_cooldown b \<le> now \<Longrightarrow>
   pre_check now b = (None, b\<lparr>br_state := HalfOpen\<rparr>)"
  by (auto simp: pre_check_def Let_def checked_duration_since_def)

lemma pre_check_not_open: "\<not> is_open b \<Longrightarrow> pre_check now b = (None, b)"
  by (auto simp: pre_check_def is_open_def split: breaker_state.splits)

section \<open>Lemmas on the configuration\<close>

lemma breaker_config_env_round_trip:
  "breaker_config_from_env_str
     (join_with CHR '':'' (map show_nat [unat th, unat w, unat c]))
   = Inr \<lparr>bc_threshold = th, bc_window = from_secs w, bc_cooldown = from_secs c\<rparr>"
  unfolding breaker_config_from_env_str_def env_fields_join_nats
  by (simp add: parse_u32_show parse_u64_show)

section \<open>Lemmas on the registry\<close>

lemma breaker_for_simps:
  "fst (breaker_for r p rl) = fst (reg_get_or_insert (\<lambda>_. breaker_of_config (default_config r)) (by_pair r) (p, rl))"
  "by_pair (snd (breaker_for r p rl)) = snd (reg_get_or_insert (\<lambda>_. breaker_of_config (default_config r)) (by_pair r) (p, rl))"
  "default_config (snd (breaker_for r p rl)) = default_config r"
  by (simp_all add: breaker_for_def split: prod.split)

lemma breaker_for_known: "reg_index (by_pair r) (p, rl) = Some a \<Longrightarrow> breaker_for r p rl = (a, r)"
  by (simp add: breaker_for_def reg_get_known)

interpretation breakers: keyed_cells
  "\<lambda>r k. breaker_for r (fst k) (snd k)" breaker_cell breaker_update
  "\<lambda>r. reg_peek (by_pair r)" "\<lambda>r. reg_index (by_pair r)"
  "\<lambda>r. reg_wf (by_pair r) \<and> default_config r = c" "\<lambda>_. breaker_of_config c" for c
  by unfold_locales
     (auto simp: breaker_for_simps breaker_for_known breaker_cell_def breaker_update_def reg_laws, simp add: reg_peek_def)

section \<open>Properties\<close>

text \<open>In every state a breaker can reach, whatever the events and their times, it is open or
  half-open only with its failure counter at the threshold or above, closed only with the
  counter at zero or below the threshold, and its configuration is the one it was built
  with.\<close>

lemma breaker_reachable:
  "let b = foldl breaker_step (breaker_new th w c) es
   in breaker_inv b \<and> br_threshold b = th \<and> br_window b = w \<and> br_cooldown b = c"
proof -
  have "br_threshold (foldl breaker_step b es) = br_threshold b \<and>
      br_window (foldl breaker_step b es) = br_window b \<and>
      br_cooldown (foldl breaker_step b es) = br_cooldown b" for b
    by (induction es arbitrary: b) (simp_all add: breaker_config_step)
  moreover have "breaker_inv (foldl breaker_step (breaker_new th w c) es)"
    by (rule breaker_machine.run_inv) simp
  ultimately show ?thesis by (simp add: breaker_new_def Let_def)
qed

text \<open>C3: A fresh breaker opens exactly at its threshold: after a run of failures of which none
  is further from the one before than the window, it is open if and only if there were at
  least \<open>threshold\<close> of them.\<close>

theorem breaker_opens_exactly_at_threshold:
  assumes "th \<noteq> 0" and "spaced w None ts" and "length ts < 2 ^ 32"
  shows "is_open (record_failures ts (breaker_new th w c)) \<longleftrightarrow> unat th \<le> length ts"
  using assms by (rule fresh_opens_at_threshold)

lemma breaker_opens_exactly_at_threshold_witness:
  "is_open (record_failures [0, 5] (breaker_new 2 10 30)) \<and> \<not> is_open (record_failures [0] (breaker_new 2 10 30))"
  using breaker_opens_exactly_at_threshold [of 2 10 "[0, 5]" 30]
    breaker_opens_exactly_at_threshold [of 2 10 "[0]" 30] by simp

text \<open>The cooldown is exact: on a breaker opened at \<open>t\<close> the pre-check refuses with the time
  that is left before \<open>t + cooldown\<close> and changes nothing, and from then on it admits the
  call and turns the breaker half-open.\<close>

lemma breaker_cooldown_exact:
  assumes "br_state b = Open t" and "t \<le> now"
  shows "pre_check now b =
    (if now < t + br_cooldown b then (Some (t + br_cooldown b - now), b)
     else (None, b\<lparr>br_state := HalfOpen\<rparr>))"
  using pre_check_open_waits [OF assms] pre_check_open_elapsed [OF assms(1), of now] by auto

text \<open>What a half-open breaker does with its probe: a success closes it and clears its
  counter; a failure reopens it at the time of the failure, unless the last failure is
  older than the window and the threshold is above one, in which case the counter restarts
  and the breaker is closed.\<close>

lemma half_open_probe:
  assumes "b = foldl breaker_step (breaker_new th w c) es" and "br_state b = HalfOpen"
  shows "br_state (record_success b) = Closed \<and> br_failures (record_success b) = 0 \<and>
    br_state (record_failure t b) = (if window_expired t b \<and> 1 < th then Closed else Open t)"
proof -
  have "br_threshold (foldl breaker_step b es) = br_threshold b" for b
    by (induction es arbitrary: b) (simp_all add: breaker_config_step)
  then have th: "br_threshold b = th" using assms(1) by (simp add: breaker_new_def)
  have "breaker_inv b" unfolding assms(1) by (rule breaker_machine.run_inv) simp
  then have ge: "th \<le> br_failures b" using assms(2) th by (simp add: breaker_inv_def)
  have "th \<le> sat_add (br_failures b) 1" using ge sat_add_1_ge [of "br_failures b"] by (rule order_trans)
  moreover have "(sat_add 0 1 :: u32) = 1" by (simp add: sat_add_def)
  ultimately show ?thesis
    using assms(2) by (auto simp: record_success_def record_failure_def Let_def th)
qed

definition demo_half_open :: breaker where
  "demo_half_open = foldl breaker_step (breaker_new 2 10 30) [Ev_Failure 0, Ev_Failure 5, Ev_PreCheck 40]"

text \<open>The registry hands out one breaker per (provider, role): a trip through a handle is
  seen by the next check of the same pair, and the snapshot of every other pair is
  untouched by it.\<close>

lemma breaker_registry_shares:
  assumes "reg_wf (by_pair r)"
  shows "(let r' = breaker_update (snd (breaker_for r p rl)) (fst (breaker_for r p rl)) (trip t)
          in fst (registry_is_open r' p rl) \<and>
             (\<forall>q ql. (q, ql) \<noteq> (p, rl) \<longrightarrow> breaker_snapshot r' q ql = breaker_snapshot r q ql))"
proof -
  have i: "reg_wf (by_pair r) \<and> default_config r = default_config r" using assms by simp
  note al = breakers.handles_alias [OF i, of "(p, rl)" "trip t", simplified]
  note ind = breakers.handles_independent [OF i]
  have "fst (registry_is_open (breaker_update (snd (breaker_for r p rl)) (fst (breaker_for r p rl)) (trip t)) p rl)"
    using al by (simp add: registry_is_open_def breaker_cell_def is_open_def trip_def)
  then show ?thesis
    using ind [of _ "(p, rl)" "trip t"] by (simp add: Let_def breaker_snapshot_def)
qed

end
