(* ===== verification/Governor.thy ===== *)
theory Governor imports Errors Roles Shared_Registry begin

text \<open>
  The adaptive throttle of \<open>src/llm/governor.rs\<close>: its configuration (constructor,
  per-role defaults, environment form, the conversion from the config layer), the
  per-(provider, role) governor with its AIMD state, the per-provider saturation gate, and
  the registry of both. Clock readings, the jitter drawn by \<open>fastrand\<close> and the sleeps
  are arguments or results of the operations. The lemmas give the bounds of the
  concurrency estimate and of the backoff, the doubling and decay of both curves, and the
  behaviour of the registry's handles.
\<close>

section \<open>Configuration\<close>

record throttle_config =
  tc_initial_concurrency :: u32
  tc_max_concurrency :: u32
  tc_initial_backoff_ms :: u64
  tc_max_backoff_ms :: u64
  tc_additive_after_ms :: u64
  tc_jitter_ms :: u64

definition throttle_config_new :: "u32 \<Rightarrow> u32 \<Rightarrow> u64 \<Rightarrow> u64 \<Rightarrow> u64 \<Rightarrow> u64 \<Rightarrow> throttle_config" where
  "throttle_config_new initial_concurrency max_concurrency initial_backoff_ms max_backoff_ms additive_after_ms jitter_ms =
     (let initial_concurrency = max initial_concurrency 1;
          max_concurrency = max max_concurrency initial_concurrency;
          initial_backoff_ms = min initial_backoff_ms max_backoff_ms
      in \<lparr>tc_initial_concurrency = initial_concurrency, tc_max_concurrency = max_concurrency,
          tc_initial_backoff_ms = initial_backoff_ms, tc_max_backoff_ms = max_backoff_ms,
          tc_additive_after_ms = additive_after_ms, tc_jitter_ms = jitter_ms\<rparr>)"

definition throttle_config_default_for_role :: "role \<Rightarrow> throttle_config" where
  "throttle_config_default_for_role r =
     (if r = Role_Thesis then throttle_config_new 2 8 500 30000 5000 500
      else throttle_config_new 1 2 500 30000 5000 500)"

text \<open>The config layer's row (\<open>config::ThrottleConfig\<close>), and the field-by-field conversion.\<close>

record config_throttle =
  ct_initial_concurrency :: u32
  ct_max_concurrency :: u32
  ct_initial_backoff_ms :: u64
  ct_max_backoff_ms :: u64
  ct_additive_after_ms :: u64
  ct_jitter_ms :: u64

definition config_throttle_default :: config_throttle where
  "config_throttle_default =
     \<lparr>ct_initial_concurrency = 4, ct_max_concurrency = 16, ct_initial_backoff_ms = 500,
      ct_max_backoff_ms = 30000, ct_additive_after_ms = 5000, ct_jitter_ms = 500\<rparr>"

definition throttle_config_from :: "config_throttle \<Rightarrow> throttle_config" where
  "throttle_config_from c =
     \<lparr>tc_initial_concurrency = ct_initial_concurrency c, tc_max_concurrency = ct_max_concurrency c,
      tc_initial_backoff_ms = ct_initial_backoff_ms c, tc_max_backoff_ms = ct_max_backoff_ms c,
      tc_additive_after_ms = ct_additive_after_ms c, tc_jitter_ms = ct_jitter_ms c\<rparr>"

definition throttle_field_missing :: "string \<Rightarrow> error" where
  "throttle_field_missing name = Err_Provider (''throttle: missing '' @ name) None"

definition throttle_field_bad :: "string \<Rightarrow> parse_int_error \<Rightarrow> error" where
  "throttle_field_bad name e = Err_Provider (''throttle: '' @ name @ '': '' @ parse_int_error_text e) None"

definition read_throttle_field ::
  "string \<Rightarrow> (string \<Rightarrow> parse_int_error + 'v) \<Rightarrow> string list \<Rightarrow> ('v \<times> string list) result" where
  "read_throttle_field name parse ts =
     read_field (throttle_field_missing name) (throttle_field_bad name) parse ts"

definition throttle_config_from_env_str :: "string \<Rightarrow> throttle_config result" where
  "throttle_config_from_env_str s =
     rbind (read_throttle_field ''initial_concurrency'' parse_u32 (env_fields s)) (\<lambda>(initial, ts).
     rbind (read_throttle_field ''max_concurrency'' parse_u32 ts) (\<lambda>(mx, ts).
     rbind (read_throttle_field ''initial_backoff_ms'' parse_u64 ts) (\<lambda>(initial_backoff, ts).
     rbind (read_throttle_field ''max_backoff_ms'' parse_u64 ts) (\<lambda>(max_backoff, ts).
     rbind (read_throttle_field ''additive_after_ms'' parse_u64 ts) (\<lambda>(additive_after, ts).
     rbind (read_throttle_field ''jitter_ms'' parse_u64 ts) (\<lambda>(jitter, ts).
     Inr (throttle_config_new initial mx initial_backoff max_backoff additive_after jitter)))))))"

section \<open>Governor\<close>

record governor_state =
  gs_current_concurrency :: u32
  gs_current_backoff_ms :: u64
  gs_consecutive_429s :: u32
  gs_consecutive_ok :: u32
  gs_last_429_at :: "instant option"

record throttle_governor =
  tg_config :: throttle_config
  tg_state :: governor_state

definition governor_new :: "throttle_config \<Rightarrow> throttle_governor" where
  "governor_new config =
     \<lparr>tg_config = config,
      tg_state = \<lparr>gs_current_concurrency = tc_initial_concurrency config, gs_current_backoff_ms = 0,
                  gs_consecutive_429s = 0, gs_consecutive_ok = 0, gs_last_429_at = None\<rparr>\<rparr>"

text \<open>
  The sleep before a call. \<open>draw\<close> is \<open>fastrand::u64(0..=jitter_ms)\<close>: a function of the
  inclusive bound.
\<close>

definition governor_pre_call :: "(u64 \<Rightarrow> u64) \<Rightarrow> throttle_governor \<Rightarrow> duration" where
  "governor_pre_call draw g =
     (let backoff_ms = gs_current_backoff_ms (tg_state g)
      in if backoff_ms = 0 then 0
         else let jitter = (if 0 < tc_jitter_ms (tg_config g) then draw (tc_jitter_ms (tg_config g)) else 0)
              in from_millis (sat_add backoff_ms jitter))"

definition on_transient_429 :: "instant \<Rightarrow> duration option \<Rightarrow> throttle_governor \<Rightarrow> throttle_governor" where
  "on_transient_429 now retry_after g =
     (let c = tg_config g; s = tg_state g;
          doubled = (if gs_current_backoff_ms s = 0 then tc_initial_backoff_ms c
                     else sat_mul (gs_current_backoff_ms s) 2);
          nxt = min doubled (tc_max_backoff_ms c);
          backoff = (case retry_after of
                       Some r \<Rightarrow> (let r_ms = as_millis_u64 r
                                  in if nxt < r_ms then min r_ms (tc_max_backoff_ms c) else nxt)
                     | None \<Rightarrow> nxt)
      in g\<lparr>tg_state := s\<lparr>gs_consecutive_429s := sat_add (gs_consecutive_429s s) 1,
                        gs_consecutive_ok := 0,
                        gs_last_429_at := Some now,
                        gs_current_concurrency := max (gs_current_concurrency s div 2) 1,
                        gs_current_backoff_ms := backoff\<rparr>\<rparr>)"

definition governor_on_success :: "instant \<Rightarrow> throttle_governor \<Rightarrow> throttle_governor" where
  "governor_on_success now g =
     (let c = tg_config g; s = tg_state g;
          backoff = sat_mul (gs_current_backoff_ms s) 3 div 4;
          s1 = s\<lparr>gs_consecutive_429s := 0, gs_consecutive_ok := sat_add (gs_consecutive_ok s) 1,
                 gs_current_backoff_ms := backoff\<rparr>;
          raise = (case gs_last_429_at s of
                     Some t \<Rightarrow> from_millis (tc_additive_after_ms c) \<le> duration_since now t
                   | None \<Rightarrow> True)
      in g\<lparr>tg_state :=
            (if backoff = 0 \<and> gs_current_concurrency s < tc_max_concurrency c \<and> raise
             then s1\<lparr>gs_current_concurrency := gs_current_concurrency s + 1\<rparr> else s1)\<rparr>)"

record governor_snapshot =
  snap_current_concurrency :: u32
  snap_current_backoff_ms :: u64
  snap_consecutive_429s :: u32
  snap_consecutive_ok :: u32

definition snapshot :: "throttle_governor \<Rightarrow> governor_snapshot" where
  "snapshot g =
     (let s = tg_state g in
      \<lparr>snap_current_concurrency = gs_current_concurrency s, snap_current_backoff_ms = gs_current_backoff_ms s,
       snap_consecutive_429s = gs_consecutive_429s s, snap_consecutive_ok = gs_consecutive_ok s\<rparr>)"

datatype governor_event = Gov_429 instant "duration option" | Gov_Success instant

primrec governor_step :: "throttle_governor \<Rightarrow> governor_event \<Rightarrow> throttle_governor" where
  "governor_step g (Gov_429 t ra) = on_transient_429 t ra g"
| "governor_step g (Gov_Success t) = governor_on_success t g"

section \<open>Provider gate\<close>

record provider_gate =
  pg_backoff_ms :: u64
  pg_until :: "instant option"
  pg_initial_backoff_ms :: u64
  pg_max_backoff_ms :: u64
  pg_jitter_ms :: u64

definition gate_new :: "u64 \<Rightarrow> u64 \<Rightarrow> u64 \<Rightarrow> provider_gate" where
  "gate_new initial_backoff_ms max_backoff_ms jitter_ms =
     \<lparr>pg_backoff_ms = 0, pg_until = None,
      pg_initial_backoff_ms = min initial_backoff_ms max_backoff_ms,
      pg_max_backoff_ms = max_backoff_ms, pg_jitter_ms = jitter_ms\<rparr>"

definition gate_pre_call :: "(u64 \<Rightarrow> u64) \<Rightarrow> instant \<Rightarrow> provider_gate \<Rightarrow> duration" where
  "gate_pre_call draw now g =
     (let wait = (case pg_until g of
                    Some t \<Rightarrow> (case checked_duration_since t now of Some d \<Rightarrow> d | None \<Rightarrow> 0)
                  | None \<Rightarrow> 0)
      in if wait = 0 then 0
         else let jitter = (if 0 < pg_jitter_ms g then draw (pg_jitter_ms g) else 0)
              in wait + from_millis jitter)"

definition gate_on_429 :: "instant \<Rightarrow> provider_gate \<Rightarrow> u64 \<times> provider_gate" where
  "gate_on_429 now g =
     (let before = pg_backoff_ms g;
          nxt = (if before = 0 then pg_initial_backoff_ms g else sat_mul before 2);
          backoff = min nxt (pg_max_backoff_ms g);
          until = now + from_millis backoff;
          until' = (case pg_until g of Some prev \<Rightarrow> (if until < prev then prev else until) | None \<Rightarrow> until)
      in (backoff, g\<lparr>pg_backoff_ms := backoff, pg_until := Some until'\<rparr>))"

definition gate_on_success :: "provider_gate \<Rightarrow> provider_gate" where
  "gate_on_success g =
     (if pg_backoff_ms g = 0 then g
      else let backoff = sat_mul (pg_backoff_ms g) 3 div 4
           in g\<lparr>pg_backoff_ms := backoff, pg_until := (if backoff = 0 then None else pg_until g)\<rparr>)"

definition provider_gate_default :: provider_gate where
  "provider_gate_default = gate_new 500 30000 500"

datatype gate_event = Gate_429 instant | Gate_Success

primrec gate_step :: "provider_gate \<Rightarrow> gate_event \<Rightarrow> provider_gate" where
  "gate_step g (Gate_429 t) = snd (gate_on_429 t g)"
| "gate_step g Gate_Success = gate_on_success g"

section \<open>Registry\<close>

record governor_registry =
  gov_by_pair :: "(string \<times> role, throttle_governor) registry"
  gov_gates :: "(string, provider_gate) registry"
  gov_default_initial_concurrency :: u32
  gov_default_max_concurrency :: u32

definition governor_registry_new :: governor_registry where
  "governor_registry_new =
     \<lparr>gov_by_pair = reg_empty, gov_gates = reg_empty,
      gov_default_initial_concurrency = 2, gov_default_max_concurrency = 8\<rparr>"

definition provider_gate_for :: "governor_registry \<Rightarrow> string \<Rightarrow> nat \<times> governor_registry" where
  "provider_gate_for r provider =
     (case reg_get_or_insert (\<lambda>_. provider_gate_default) (gov_gates r) provider of
        (a, p) \<Rightarrow> (a, r\<lparr>gov_gates := p\<rparr>))"

definition governor_for :: "governor_registry \<Rightarrow> string \<Rightarrow> role \<Rightarrow> nat \<times> governor_registry" where
  "governor_for r provider rl =
     (case reg_get_or_insert (\<lambda>(_, rl). governor_new (throttle_config_default_for_role rl)) (gov_by_pair r) (provider, rl) of
        (a, p) \<Rightarrow> (a, r\<lparr>gov_by_pair := p\<rparr>))"

definition with_config_for :: "governor_registry \<Rightarrow> string \<Rightarrow> role \<Rightarrow> throttle_config \<Rightarrow> governor_registry" where
  "with_config_for r provider rl cfg = r\<lparr>gov_by_pair := reg_insert (gov_by_pair r) (provider, rl) (governor_new cfg)\<rparr>"

definition snapshot_of :: "governor_registry \<Rightarrow> string \<times> role \<Rightarrow> governor_snapshot option" where
  "snapshot_of r k = map_option snapshot (reg_peek (gov_by_pair r) k)"

definition gov_cell :: "governor_registry \<Rightarrow> nat \<Rightarrow> throttle_governor" where
  "gov_cell r = reg_cell (gov_by_pair r)"

definition gov_update :: "governor_registry \<Rightarrow> nat \<Rightarrow> (throttle_governor \<Rightarrow> throttle_governor) \<Rightarrow> governor_registry" where
  "gov_update r a f = r\<lparr>gov_by_pair := reg_update (gov_by_pair r) a f\<rparr>"

definition gate_cell :: "governor_registry \<Rightarrow> nat \<Rightarrow> provider_gate" where
  "gate_cell r = reg_cell (gov_gates r)"

definition gate_update :: "governor_registry \<Rightarrow> nat \<Rightarrow> (provider_gate \<Rightarrow> provider_gate) \<Rightarrow> governor_registry" where
  "gate_update r a f = r\<lparr>gov_gates := reg_update (gov_gates r) a f\<rparr>"

section \<open>Lemmas on the governor\<close>

definition throttle_config_wf :: "throttle_config \<Rightarrow> bool" where
  "throttle_config_wf c \<longleftrightarrow>
     1 \<le> tc_initial_concurrency c \<and> tc_initial_concurrency c \<le> tc_max_concurrency c \<and>
     tc_initial_backoff_ms c \<le> tc_max_backoff_ms c"

definition governor_inv :: "throttle_governor \<Rightarrow> bool" where
  "governor_inv g \<longleftrightarrow>
     throttle_config_wf (tg_config g) \<and>
     1 \<le> gs_current_concurrency (tg_state g) \<and>
     gs_current_concurrency (tg_state g) \<le> tc_max_concurrency (tg_config g) \<and>
     gs_current_backoff_ms (tg_state g) \<le> tc_max_backoff_ms (tg_config g)"

lemma throttle_config_new_wf [simp]: "throttle_config_wf (throttle_config_new a b c d e f)"
  by (simp add: throttle_config_wf_def throttle_config_new_def Let_def)

lemma throttle_config_new_id:
  "throttle_config_wf \<lparr>tc_initial_concurrency = a, tc_max_concurrency = b, tc_initial_backoff_ms = c,
      tc_max_backoff_ms = d, tc_additive_after_ms = e, tc_jitter_ms = f\<rparr> \<Longrightarrow>
   throttle_config_new a b c d e f = \<lparr>tc_initial_concurrency = a, tc_max_concurrency = b, tc_initial_backoff_ms = c,
      tc_max_backoff_ms = d, tc_additive_after_ms = e, tc_jitter_ms = f\<rparr>"
  by (simp add: throttle_config_wf_def throttle_config_new_def Let_def max_absorb1 min_absorb1)

lemma throttle_config_default_for_role_wf: "throttle_config_wf (throttle_config_default_for_role r)"
  by (simp add: throttle_config_default_for_role_def)

lemma throttle_env_round_trip:
  "throttle_config_from_env_str
     (join_with CHR '':'' (map show_nat [unat a, unat b, unat c, unat d, unat e, unat f]))
   = Inr (throttle_config_new a b c d e f)"
  unfolding throttle_config_from_env_str_def env_fields_join_nats read_throttle_field_def
  by (simp add: parse_u32_show parse_u64_show)

lemma three_quarters_le: "sat_mul b 3 div 4 \<le> b" for b :: u64
proof -
  have "min (3 * unat b) (2 ^ 64 - 1) div 4 \<le> 3 * unat b div 4" by (intro div_le_mono) simp
  then show ?thesis by (simp add: word_le_nat_alt unat_ops mult.commute)
qed

lemma half_le: "c div 2 \<le> c" for c :: u32
  by (simp add: word_le_nat_alt unat_ops)

lemma governor_inv_new: "throttle_config_wf c \<Longrightarrow> governor_inv (governor_new c)"
  by (simp add: governor_inv_def governor_new_def throttle_config_wf_def)

lemma governor_inv_429:
  assumes "governor_inv g"
  shows "governor_inv (on_transient_429 t ra g)"
proof -
  have "gs_current_concurrency (tg_state g) div 2 \<le> tc_max_concurrency (tg_config g)"
    using half_le assms order_trans unfolding governor_inv_def by blast
  with assms show ?thesis
    by (auto simp: governor_inv_def on_transient_429_def Let_def throttle_config_wf_def
        intro: order_trans split: option.split)
qed

lemma inc_le_of_less: "a < b \<Longrightarrow> a + 1 \<le> b" for a b :: u32
  by (simp add: word_le_nat_alt word_less_nat_alt unat_inc_below)

lemma governor_inv_success:
  assumes "governor_inv g"
  shows "governor_inv (governor_on_success t g)"
proof -
  have b: "sat_mul (gs_current_backoff_ms (tg_state g)) 3 div 4 \<le> tc_max_backoff_ms (tg_config g)"
    using three_quarters_le assms order_trans unfolding governor_inv_def by blast
  have c: "1 \<le> gs_current_concurrency (tg_state g) + 1" 
    if "gs_current_concurrency (tg_state g) < tc_max_concurrency (tg_config g)"
    using that by (simp add: word_le_nat_alt unat_inc_below)
  from assms b c show ?thesis
    by (auto simp: governor_inv_def governor_on_success_def Let_def inc_le_of_less)
qed

lemma governor_inv_step: "governor_inv g \<Longrightarrow> governor_inv (governor_step g e)"
  by (cases e) (simp_all add: governor_inv_429 governor_inv_success)

interpretation governor_machine: event_machine governor_step governor_inv
  by unfold_locales (rule governor_inv_step)

lemma governor_config_429 [simp]: "tg_config (on_transient_429 t ra g) = tg_config g"
  by (simp add: on_transient_429_def Let_def)

lemma governor_config_success [simp]: "tg_config (governor_on_success t g) = tg_config g"
  by (simp add: governor_on_success_def Let_def)

definition governor_level :: "throttle_governor \<Rightarrow> nat" where
  "governor_level g = unat (gs_current_backoff_ms (tg_state g))"

lemma min_cap: "c \<le> m \<Longrightarrow> min (min a m) c = min a c" for a c m :: nat
  by (simp add: min_def)

lemma governor_level_429:
  "governor_level (on_transient_429 t None g) =
     min (if governor_level g = 0 then unat (tc_initial_backoff_ms (tg_config g)) else 2 * governor_level g)
         (unat (tc_max_backoff_ms (tg_config g)))"
  using unat_le_max [of "tc_max_backoff_ms (tg_config g)"]
  by (simp add: governor_level_def on_transient_429_def Let_def unat_ops min_cap mult.commute)

lemma governor_level_success:
  "governor_level (governor_on_success t g) = min (3 * governor_level g) (2 ^ 64 - 1) div 4"
  by (simp add: governor_level_def governor_on_success_def Let_def unat_ops mult.commute)

interpretation governor_curve: backoff_curve governor_level "\<lambda>t. on_transient_429 t None" governor_on_success
  "\<lambda>g. tg_config g = c" "unat (tc_initial_backoff_ms c)" "unat (tc_max_backoff_ms c)" "2 ^ 64 - 1" for c
  by unfold_locales (auto simp: governor_level_429 governor_level_success)

text \<open>The upstream's \<open>Retry-After\<close> hint is a floor, within the cap.\<close>

lemma governor_429_honours_hint:
  "min (as_millis_u64 r) (tc_max_backoff_ms (tg_config g))
     \<le> gs_current_backoff_ms (tg_state (on_transient_429 t (Some r) g))"
  by (auto simp: on_transient_429_def Let_def min_le_iff_disj)

lemma governor_429_hint_only_raises:
  "governor_level (on_transient_429 t None g) \<le> governor_level (on_transient_429 t (Some r) g)"
  by (auto simp: governor_level_def on_transient_429_def Let_def simp flip: word_le_nat_alt)

lemma governor_pre_call_bounds:
  assumes "\<And>b. draw b \<le> b"
  shows "governor_pre_call draw g \<le> (unat (gs_current_backoff_ms (tg_state g)) + unat (tc_jitter_ms (tg_config g))) * 1000000"
    and "gs_current_backoff_ms (tg_state g) = 0 \<longleftrightarrow> governor_pre_call draw g = 0"
proof -
  have "unat (draw (tc_jitter_ms (tg_config g))) \<le> unat (tc_jitter_ms (tg_config g))"
    using assms by (simp add: word_le_nat_alt)
  then have "unat (sat_add (gs_current_backoff_ms (tg_state g)) (draw (tc_jitter_ms (tg_config g))))
      \<le> unat (gs_current_backoff_ms (tg_state g)) + unat (tc_jitter_ms (tg_config g))"
    by (simp add: unat_sat_add)
  moreover have "unat (sat_add (gs_current_backoff_ms (tg_state g)) 0) \<le> unat (gs_current_backoff_ms (tg_state g))"
    by (simp add: unat_sat_add)
  ultimately show "governor_pre_call draw g \<le> (unat (gs_current_backoff_ms (tg_state g)) + unat (tc_jitter_ms (tg_config g))) * 1000000"
    by (auto simp: governor_pre_call_def Let_def from_millis_def)
  show "gs_current_backoff_ms (tg_state g) = 0 \<longleftrightarrow> governor_pre_call draw g = 0"
    by (auto simp: governor_pre_call_def Let_def from_millis_def unat_ops)
qed

section \<open>Lemmas on the gate\<close>

definition gate_inv :: "provider_gate \<Rightarrow> bool" where
  "gate_inv g \<longleftrightarrow> pg_initial_backoff_ms g \<le> pg_max_backoff_ms g \<and> pg_backoff_ms g \<le> pg_max_backoff_ms g"

lemma gate_inv_new [simp]: "gate_inv (gate_new a b c)"
  by (simp add: gate_inv_def gate_new_def)

lemma gate_inv_step: "gate_inv g \<Longrightarrow> gate_inv (gate_step g e)"
  using three_quarters_le [of "pg_backoff_ms g"]
  by (cases e) (auto simp: gate_inv_def gate_on_429_def gate_on_success_def Let_def intro: order_trans)

interpretation gate_machine: event_machine gate_step gate_inv
  by unfold_locales (rule gate_inv_step)

definition gate_level :: "provider_gate \<Rightarrow> nat" where
  "gate_level g = unat (pg_backoff_ms g)"

definition gate_params :: "provider_gate \<Rightarrow> u64 \<times> u64 \<times> u64" where
  "gate_params g = (pg_initial_backoff_ms g, pg_max_backoff_ms g, pg_jitter_ms g)"

lemma gate_level_429:
  "gate_level (snd (gate_on_429 t g)) =
     min (if gate_level g = 0 then unat (pg_initial_backoff_ms g) else 2 * gate_level g) (unat (pg_max_backoff_ms g))"
  using unat_le_max [of "pg_max_backoff_ms g"]
  by (simp add: gate_level_def gate_on_429_def Let_def unat_ops min_cap mult.commute)

lemma gate_level_success: "gate_level (gate_on_success g) = min (3 * gate_level g) (2 ^ 64 - 1) div 4"
  by (simp add: gate_level_def gate_on_success_def Let_def unat_ops mult.commute)

lemma gate_params_D:
  "gate_params g = (i, m, j) \<Longrightarrow> pg_initial_backoff_ms g = i \<and> pg_max_backoff_ms g = m \<and> pg_jitter_ms g = j"
  by (simp add: gate_params_def)

lemma gate_params_step [simp]: "gate_params (gate_step g e) = gate_params g"
  by (cases e) (simp_all add: gate_params_def gate_on_429_def gate_on_success_def Let_def)

lemma gate_params_429 [simp]: "gate_params (snd (gate_on_429 t g)) = gate_params g"
  using gate_params_step [of g "Gate_429 t"] by simp

lemma gate_params_success [simp]: "gate_params (gate_on_success g) = gate_params g"
  using gate_params_step [of g Gate_Success] by simp

interpretation gate_curve: backoff_curve gate_level "\<lambda>t g. snd (gate_on_429 t g)" "\<lambda>_ :: unit. gate_on_success"
  "\<lambda>g. gate_params g = (i, m, j)" "unat i" "unat m" "2 ^ 64 - 1" for i m j
  by unfold_locales (auto simp: gate_level_429 gate_level_success dest: gate_params_D)

text \<open>A refusal never shortens a cooldown that is already installed.\<close>

lemma gate_429_until:
  "\<exists>u. pg_until (snd (gate_on_429 now g)) = Some u \<and> now + from_millis (pg_backoff_ms (snd (gate_on_429 now g))) \<le> u \<and>
       (\<forall>p. pg_until g = Some p \<longrightarrow> p \<le> u)"
  by (auto simp: gate_on_429_def Let_def split: option.split)

lemma gate_pre_call_waits:
  "pg_until g = Some u \<Longrightarrow> now < u \<Longrightarrow> u - now \<le> gate_pre_call draw now g"
  by (simp add: gate_pre_call_def checked_duration_since_def Let_def)

lemma gate_pre_call_free: "pg_until g = None \<or> (\<exists>u. pg_until g = Some u \<and> u \<le> now) \<Longrightarrow> gate_pre_call draw now g = 0"
  by (auto simp: gate_pre_call_def checked_duration_since_def Let_def)

section \<open>Lemmas on the registry\<close>

lemma governor_for_simps:
  "fst (governor_for r p rl) = fst (reg_get_or_insert (\<lambda>(_, rl). governor_new (throttle_config_default_for_role rl)) (gov_by_pair r) (p, rl))"
  "gov_by_pair (snd (governor_for r p rl)) = snd (reg_get_or_insert (\<lambda>(_, rl). governor_new (throttle_config_default_for_role rl)) (gov_by_pair r) (p, rl))"
  "gov_gates (snd (governor_for r p rl)) = gov_gates r"
  by (simp_all add: governor_for_def split: prod.split)

lemma governor_for_known: "reg_index (gov_by_pair r) (p, rl) = Some a \<Longrightarrow> governor_for r p rl = (a, r)"
  by (simp add: governor_for_def reg_get_known)

interpretation governors: keyed_cells
  "\<lambda>r k. governor_for r (fst k) (snd k)" gov_cell gov_update
  "\<lambda>r. reg_peek (gov_by_pair r)" "\<lambda>r. reg_index (gov_by_pair r)"
  "\<lambda>r. reg_wf (gov_by_pair r)" "\<lambda>(_, rl). governor_new (throttle_config_default_for_role rl)"
  by unfold_locales
     (auto simp: governor_for_simps governor_for_known gov_cell_def gov_update_def reg_laws, simp add: reg_peek_def)

lemma provider_gate_for_simps:
  "fst (provider_gate_for r p) = fst (reg_get_or_insert (\<lambda>_. provider_gate_default) (gov_gates r) p)"
  "gov_gates (snd (provider_gate_for r p)) = snd (reg_get_or_insert (\<lambda>_. provider_gate_default) (gov_gates r) p)"
  "gov_by_pair (snd (provider_gate_for r p)) = gov_by_pair r"
  by (simp_all add: provider_gate_for_def split: prod.split)

lemma provider_gate_for_known: "reg_index (gov_gates r) p = Some a \<Longrightarrow> provider_gate_for r p = (a, r)"
  by (simp add: provider_gate_for_def reg_get_known)

interpretation gates: keyed_cells
  provider_gate_for gate_cell gate_update
  "\<lambda>r. reg_peek (gov_gates r)" "\<lambda>r. reg_index (gov_gates r)"
  "\<lambda>r. reg_wf (gov_gates r)" "\<lambda>_. provider_gate_default"
  by unfold_locales
     (auto simp: provider_gate_for_simps provider_gate_for_known gate_cell_def gate_update_def reg_laws, simp add: reg_peek_def)

section \<open>Properties\<close>

text \<open>Whatever the answers of the upstream and their times, a governor built from a
  constructor-made configuration keeps its concurrency estimate between one and the maximum
  and its backoff within the cap.\<close>

lemma governor_reachable_bounds:
  "governor_inv (foldl governor_step (governor_new (throttle_config_new a b c d e f)) es)"
  by (rule governor_machine.run_inv) (simp add: governor_inv_new)

text \<open>The backoff curve: the \<open>n\<close>-th consecutive 429 without a hint on a fresh governor sets
  the backoff to the initial step doubled \<open>n - 1\<close> times, up to the cap.\<close>

lemma governor_backoff_doubles:
  assumes "tc_initial_backoff_ms c \<noteq> 0" and "throttle_config_wf c" and "ts \<noteq> []"
  shows "governor_level (fold (\<lambda>t. on_transient_429 t None) ts (governor_new c))
     = min (2 ^ (length ts - 1) * unat (tc_initial_backoff_ms c)) (unat (tc_max_backoff_ms c))"
proof -
  obtain t us where ts: "ts = t # us" using assms(3) by (cases ts) auto
  have i: "0 < unat (tc_initial_backoff_ms c)" "unat (tc_initial_backoff_ms c) \<le> unat (tc_max_backoff_ms c)"
    using assms(1,2) by (simp_all add: throttle_config_wf_def word_le_nat_alt unat_gt_0)
  have "governor_level (governor_new c) = 0" "tg_config (governor_new c) = c"
    by (simp_all add: governor_new_def governor_level_def)
  with governor_curve.refusals_from_idle [of "governor_new c" c t us] i show ?thesis by (simp add: ts)
qed

text \<open>The backoff decays to zero: every success takes it down by a quarter at least, so a
  run of successes as long as the backoff (in milliseconds) clears it, for the governor and
  for the provider gate, and no success raises it.\<close>

lemma backoff_clears:
  "governor_level (fold governor_on_success ts g) \<le> governor_level g - length ts \<and>
   gate_level (((\<lambda>g. gate_on_success g) ^^ n) p) \<le> gate_level p - n \<and>
   governor_level (governor_on_success t g) \<le> 3 * governor_level g div 4"
proof -
  have "((\<lambda>g. gate_on_success g) ^^ n) p = fold (\<lambda>_ :: unit. gate_on_success) (replicate n ()) p"
    by (induction n arbitrary: p) (simp_all add: funpow_swap1)
  moreover obtain i m j where "gate_params p = (i, m, j)" by (cases "gate_params p")
  ultimately show ?thesis
    using governor_curve.succeeds_bound [of g "tg_config g" ts] gate_curve.succeeds_bound [of p i m j "replicate n ()"]
    by (simp add: governor_level_success div_le_mono)
qed

text \<open>The upstream's \<open>Retry-After\<close> is a floor: after a 429 with a hint of \<open>ms\<close>
  milliseconds the next call on the same governor sleeps at least that long, up to the
  backoff cap, and never less than it would have slept without the hint.\<close>

lemma retry_after_is_floor:
  "from_millis (min ms (tc_max_backoff_ms (tg_config g)))
     \<le> governor_pre_call draw (on_transient_429 t (Some (from_millis ms)) g) \<and>
   governor_level (on_transient_429 t None g)
     \<le> governor_level (on_transient_429 t (Some (from_millis ms)) g)"
proof -
  have ms: "as_millis_u64 (from_millis ms) = ms" by (simp add: as_millis_u64_def from_millis_def)
  have fm: "from_millis a \<le> from_millis b \<longleftrightarrow> a \<le> b" for a b
    by (simp add: from_millis_def word_le_nat_alt)
  have sa: "b \<le> sat_add b x" for b x :: u64
    using unat_le_max [of b] by (simp add: word_le_nat_alt unat_sat_add)
  let ?g = "on_transient_429 t (Some (from_millis ms)) g"
  have "from_millis (gs_current_backoff_ms (tg_state ?g)) \<le> governor_pre_call draw ?g"
    using sa by (auto simp: governor_pre_call_def Let_def fm from_millis_def [of 0])
  moreover have "min ms (tc_max_backoff_ms (tg_config g)) \<le> gs_current_backoff_ms (tg_state ?g)"
    using governor_429_honours_hint [of "from_millis ms" g t] by (simp only: ms)
  ultimately show ?thesis
    using fm order_trans governor_429_hint_only_raises by blast
qed

text \<open>A throttle configuration written as six decimal numbers joined by colons is read back
  as the normalised configuration of those numbers.\<close>

lemma throttle_env_reads_back:
  "throttle_config_from_env_str
     (join_with CHR '':'' (map show_nat [unat a, unat b, unat c, unat d, unat e, unat f]))
   = Inr (throttle_config_new a b c d e f)"
  by (rule throttle_env_round_trip)

end
