(* ===== verification/Retry_Budget.thy ===== *)
theory Retry_Budget imports Errors begin

text \<open>
  The run modes of \<open>src/cli/mod.rs\<close>, the retry-budget matrix of
  \<open>src/llm/retry_budget.rs\<close> with its classification of errors, and the retry predicate of
  \<open>src/phases/phase.rs\<close>. The lemmas bound the budgets, say where the JSON repair pass is
  enabled, and which rows of the matrix a retried error can select.
\<close>

datatype mode = Fast | Standard | Deep | Explore | Batch

primrec mode_as_str :: "mode \<Rightarrow> string" where
  "mode_as_str Fast = ''fast''"
| "mode_as_str Standard = ''standard''"
| "mode_as_str Deep = ''deep''"
| "mode_as_str Explore = ''explore''"
| "mode_as_str Batch = ''batch''"

definition runs_theses :: "mode \<Rightarrow> bool" where
  "runs_theses m \<longleftrightarrow> m \<noteq> Fast"

primrec desired_proposals :: "mode \<Rightarrow> nat" where
  "desired_proposals Fast = 3"
| "desired_proposals Standard = 3"
| "desired_proposals Deep = 5"
| "desired_proposals Explore = 0"
| "desired_proposals Batch = 3"

primrec desired_theses :: "mode \<Rightarrow> nat" where
  "desired_theses Fast = 0"
| "desired_theses Standard = 4"
| "desired_theses Deep = 6"
| "desired_theses Explore = 12"
| "desired_theses Batch = 4"

definition parse_mode_str :: "string \<Rightarrow> mode" where
  "parse_mode_str s =
     (if s = ''fast'' then Fast
      else if s = ''standard'' then Standard
      else if s = ''deep'' then Deep
      else if s = ''explore'' then Explore
      else if s = ''batch'' then Batch
      else Standard)"

datatype retry_reason =
    Reason_Transport | Reason_RateLimit | Reason_Parse | Reason_Schema | Reason_Timeout | Reason_Truncated

record retry_budget =
  max_attempts :: u32
  use_json_repair :: bool

definition repair_attempts :: u32 where "repair_attempts = 5"
definition short_transient :: u32 where "short_transient = 3"
definition short_truncated :: u32 where "short_truncated = 1"

definition budget_for :: "mode \<Rightarrow> retry_reason \<Rightarrow> retry_budget" where
  "budget_for m r =
     (case (m, r) of
        (Fast, Reason_Parse) \<Rightarrow> \<lparr>max_attempts = repair_attempts, use_json_repair = True\<rparr>
      | (Fast, Reason_Schema) \<Rightarrow> \<lparr>max_attempts = repair_attempts, use_json_repair = True\<rparr>
      | (Fast, Reason_Truncated) \<Rightarrow> \<lparr>max_attempts = short_truncated, use_json_repair = False\<rparr>
      | (Fast, _) \<Rightarrow> \<lparr>max_attempts = short_transient, use_json_repair = False\<rparr>
      | (Standard, Reason_Parse) \<Rightarrow> \<lparr>max_attempts = repair_attempts, use_json_repair = True\<rparr>
      | (Standard, Reason_Schema) \<Rightarrow> \<lparr>max_attempts = repair_attempts, use_json_repair = True\<rparr>
      | (Standard, Reason_RateLimit) \<Rightarrow> \<lparr>max_attempts = 4, use_json_repair = False\<rparr>
      | (Standard, Reason_Truncated) \<Rightarrow> \<lparr>max_attempts = 2, use_json_repair = False\<rparr>
      | (Standard, _) \<Rightarrow> \<lparr>max_attempts = short_transient, use_json_repair = False\<rparr>
      | (Deep, Reason_Parse) \<Rightarrow> \<lparr>max_attempts = repair_attempts, use_json_repair = True\<rparr>
      | (Deep, Reason_Schema) \<Rightarrow> \<lparr>max_attempts = repair_attempts, use_json_repair = True\<rparr>
      | (Deep, Reason_RateLimit) \<Rightarrow> \<lparr>max_attempts = 6, use_json_repair = False\<rparr>
      | (Deep, Reason_Truncated) \<Rightarrow> \<lparr>max_attempts = 2, use_json_repair = False\<rparr>
      | (Deep, _) \<Rightarrow> \<lparr>max_attempts = 4, use_json_repair = False\<rparr>
      | (Explore, Reason_Parse) \<Rightarrow> \<lparr>max_attempts = repair_attempts, use_json_repair = True\<rparr>
      | (Explore, Reason_Schema) \<Rightarrow> \<lparr>max_attempts = repair_attempts, use_json_repair = True\<rparr>
      | (Explore, Reason_Truncated) \<Rightarrow> \<lparr>max_attempts = short_truncated, use_json_repair = False\<rparr>
      | (Explore, _) \<Rightarrow> \<lparr>max_attempts = short_transient, use_json_repair = False\<rparr>
      | (Batch, Reason_Parse) \<Rightarrow> \<lparr>max_attempts = repair_attempts, use_json_repair = True\<rparr>
      | (Batch, Reason_Schema) \<Rightarrow> \<lparr>max_attempts = repair_attempts, use_json_repair = True\<rparr>
      | (Batch, Reason_Truncated) \<Rightarrow> \<lparr>max_attempts = short_truncated, use_json_repair = False\<rparr>
      | (Batch, _) \<Rightarrow> \<lparr>max_attempts = short_transient, use_json_repair = False\<rparr>)"

definition reason_from_error :: "error \<Rightarrow> retry_reason" where
  "reason_from_error e =
     (case e of
        Err_Timeout _ _ \<Rightarrow> Reason_Timeout
      | Err_PlanExhausted _ _ \<Rightarrow> Reason_RateLimit
      | Err_Throttled _ _ _ \<Rightarrow> Reason_RateLimit
      | Err_SchemaViolation _ \<Rightarrow> Reason_Schema
      | Err_MockExhausted \<Rightarrow> Reason_Truncated
      | _ \<Rightarrow> Reason_Transport)"

definition error_code_is_retriable :: "error_code option \<Rightarrow> bool" where
  "error_code_is_retriable c = (case c of Some c \<Rightarrow> code_is_retriable c | None \<Rightarrow> True)"

definition should_retry_error :: "error \<Rightarrow> bool" where
  "should_retry_error e \<longleftrightarrow>
     error_code_is_retriable (Some (err_code e)) \<or>
     (case e of Err_Provider _ _ \<Rightarrow> True | Err_PlanExhausted _ _ \<Rightarrow> True | _ \<Rightarrow> False)"

section \<open>Lemmas\<close>

lemma mode_round_trip: "parse_mode_str (mode_as_str m) = m"
  by (cases m) (simp_all add: parse_mode_str_def)

lemmas budget_defs = budget_for_def repair_attempts_def short_transient_def short_truncated_def

lemma budget_bounds:
  "1 \<le> max_attempts (budget_for m r)" "max_attempts (budget_for m r) \<le> 6"
  by (cases m; cases r; simp add: budget_defs)+

lemma budget_bound_nat: "unat (max_attempts (budget_for m r)) \<le> 6"
  using budget_bounds(2) [of m r] by (simp add: word_le_nat_alt)

lemma budget_positive_nat: "1 \<le> unat (max_attempts (budget_for m r))"
  using budget_bounds(1) [of m r] by (simp add: word_le_nat_alt)

lemma budget_repair_iff: "use_json_repair (budget_for m r) \<longleftrightarrow> r = Reason_Parse \<or> r = Reason_Schema"
  by (cases m; cases r; simp add: budget_defs)

lemma should_retry_error_iff:
  "should_retry_error e \<longleftrightarrow>
     (case e of Err_Throttled _ _ _ \<Rightarrow> True | Err_Timeout _ _ \<Rightarrow> True
              | Err_Provider _ _ \<Rightarrow> True | Err_PlanExhausted _ _ \<Rightarrow> True | _ \<Rightarrow> False)"
  by (cases e) (simp_all add: should_retry_error_def error_code_is_retriable_def code_is_retriable_def)

lemma retried_reason:
  "should_retry_error e \<Longrightarrow> reason_from_error e \<in> {Reason_Transport, Reason_RateLimit, Reason_Timeout}"
  by (cases e) (simp_all add: should_retry_error_iff reason_from_error_def)

end
