(* ===== verification/Retry_Loop.thy ===== *)
theory Retry_Loop imports Retry_Budget Roles begin

text \<open>
  The call loop of \<open>src/phases/phase.rs\<close>: the recovery strategies of
  \<open>src/llm/json_strategy.rs\<close>, the focused continuation of truncated responses
  (\<open>continue_truncated_response\<close>) and the retrying parse loop
  (\<open>call_with_retry_parse\<close>). What the loop consults (the provider's answers, the parsers,
  the prefill retry, the repair call) is the environment; every call it issues and every
  warning it emits is an event of its trace. The lemmas give termination with a bound on
  the calls, what a success and a failure mean, and that the budget is spent exactly.
\<close>

section \<open>Recovery strategies\<close>

datatype json_strategy = Strict | Lenient | Continuation | PromptPrefill

definition strategy_by_model :: "(string \<times> json_strategy) list" where
  "strategy_by_model =
    [(''kimi-k2.7-code'', Lenient), (''kimi-k3'', Lenient), (''kimi-k2.6'', Lenient),
     (''glm-5.1'', Lenient), (''glm-5.2'', Lenient), (''hy3'', Lenient),
     (''mimo-v2.5'', Lenient), (''mimo-v2.5-pro'', Lenient),
     (''deepseek-v4-pro'', PromptPrefill), (''deepseek-v4-flash'', PromptPrefill),
     (''minimax-m3'', Continuation), (''minimax-m2.7'', Continuation), (''minimax-m2.5'', Continuation),
     (''gpt-5.6-luna'', Strict)]"

definition default_strategy :: json_strategy where
  "default_strategy = Lenient"

definition strategy_for :: "string \<Rightarrow> (string \<Rightarrow> json_strategy option) option \<Rightarrow> json_strategy" where
  "strategy_for model overrides =
     (case Option.bind overrides (\<lambda>m. m model) of
        Some s \<Rightarrow> s
      | None \<Rightarrow> (case find (\<lambda>(k, _). eq_ignore_ascii_case model k) strategy_by_model of
                  Some (_, s) \<Rightarrow> s
                | None \<Rightarrow> default_strategy))"

definition needs_assistant_prefill :: "json_strategy \<Rightarrow> bool" where
  "needs_assistant_prefill s \<longleftrightarrow> s = PromptPrefill"

primrec max_continuation_attempts :: "json_strategy \<Rightarrow> u8" where
  "max_continuation_attempts Strict = 0"
| "max_continuation_attempts Lenient = 0"
| "max_continuation_attempts Continuation = 2"
| "max_continuation_attempts PromptPrefill = 0"

section \<open>Responses\<close>

record usage =
  input_tokens :: u64
  output_tokens :: u64
  cache_read :: u64
  cache_creation :: u64

record response =
  resp_text :: string
  resp_finish_reason :: "string option"
  resp_truncated :: bool
  resp_usage :: usage
  resp_http_status :: u16

definition usage_add :: "usage \<Rightarrow> usage \<Rightarrow> usage" where
  "usage_add u v =
     \<lparr>input_tokens = sat_add (input_tokens u) (input_tokens v),
      output_tokens = sat_add (output_tokens u) (output_tokens v),
      cache_read = sat_add (cache_read u) (cache_read v),
      cache_creation = sat_add (cache_creation u) (cache_creation v)\<rparr>"

text \<open>
  \<open>safe_tail\<close>: the last \<open>max_bytes\<close> bytes, moved forward to a character boundary. A byte
  starts a character unless it is a UTF-8 continuation byte.
\<close>

definition is_continuation_byte :: "char \<Rightarrow> bool" where
  "is_continuation_byte c \<longleftrightarrow> (let k = (of_char c :: nat) in 128 \<le> k \<and> k < 192)"

definition safe_tail :: "string \<Rightarrow> nat \<Rightarrow> string" where
  "safe_tail s max_bytes =
     (if length s \<le> max_bytes then s
      else dropWhile is_continuation_byte (drop (length s - max_bytes) s))"

section \<open>The environment of the loop\<close>

text \<open>
  What the loop calls: the provider dispatches (\<open>ce_send\<close> for attempt \<open>n\<close>, through the
  cache at attempt 0; \<open>ce_continue\<close> for continuation \<open>i\<close> of attempt \<open>n\<close> with its excerpt;
  the prefilled request; the repair request for a payload), \<open>serde_json\<close> on documents and on
  typed values, the traced lenient chain (the repair kinds it applied and its outcome), and
  \<open>char::is_whitespace\<close> trimming. Every call the loop issues and every warning it records is
  an event.
\<close>

datatype call_event =
    Send nat
  | Continue nat u8
  | Prefill
  | Repair
  | Warn string "nat option"

record ('j, 'v) call_env =
  ce_send :: "nat \<Rightarrow> response result"
  ce_continue :: "nat \<Rightarrow> u8 \<Rightarrow> string \<Rightarrow> response result"
  ce_continuation_report :: "string \<Rightarrow> (string \<times> bool) option"
  ce_from_str :: "string \<Rightarrow> string + 'j"
  ce_lenient :: "string \<Rightarrow> string list \<times> (string + 'j)"
  ce_shape :: "role \<Rightarrow> 'j \<Rightarrow> string option"
  ce_from_value :: "'j \<Rightarrow> string + 'v"
  ce_type_name :: string
  ce_prefill_send :: "response result"
  ce_repair_send :: "string \<Rightarrow> response result"
  ce_repair_report :: "string \<Rightarrow> string option"
  ce_blank :: "string \<Rightarrow> bool"

record call_config =
  cc_role :: role
  cc_model :: string
  cc_mode :: string
  cc_ceiling :: u32
  cc_json_repair_v2 :: bool

section \<open>Continuation of truncated responses\<close>

definition excerpt_bytes :: nat where "excerpt_bytes = 500"

record cont_state =
  cs_accumulated :: string
  cs_truncated :: bool
  cs_finish_reason :: "string option"
  cs_usage :: usage

text \<open>
  One turn of the loop: \<open>Inl\<close> leaves the loop (a \<open>break\<close>), \<open>Inr\<close> goes on with the next
  attempt index.
\<close>

definition cont_turn ::
  "('j, 'v) call_env \<Rightarrow> nat \<Rightarrow> u8 \<Rightarrow> cont_state \<Rightarrow> (cont_state + cont_state) \<times> call_event list"
where
  "cont_turn env attempt idx s =
     (let excerpt = safe_tail (cs_accumulated s) excerpt_bytes;
          ev = [Warn ''model.continuation_attempt'' (Some (unat idx)), Continue attempt idx]
      in case ce_continue env attempt idx excerpt of
           Inl _ \<Rightarrow> (Inl s, ev @ [Warn ''model.continuation_failed'' (Some (unat idx))])
         | Inr r \<Rightarrow>
             (let s1 = s\<lparr>cs_usage := usage_add (cs_usage s) (resp_usage r),
                         cs_finish_reason := (case resp_finish_reason r of Some fr \<Rightarrow> Some fr
                                              | None \<Rightarrow> cs_finish_reason s)\<rparr>
              in case ce_continuation_report env (resp_text r) of
                   None \<Rightarrow> (Inl s1, ev @ [Warn ''model.continuation_failed'' (Some (unat idx))])
                 | Some (continued, finished) \<Rightarrow>
                     (let s2 = s1\<lparr>cs_accumulated := cs_accumulated s1 @ continued,
                                  cs_truncated := (if finished then False else resp_truncated r)\<rparr>
                      in (if cs_truncated s2 then Inr s2 else Inl s2, ev))))"

function cont_loop ::
  "('j, 'v) call_env \<Rightarrow> nat \<Rightarrow> u8 \<Rightarrow> u8 \<Rightarrow> cont_state \<Rightarrow> cont_state \<times> call_event list"
where
  "cont_loop env attempt mx idx s =
     (if idx < mx \<and> cs_truncated s then
        (case cont_turn env attempt idx s of
           (Inl s', ev) \<Rightarrow> (s', ev)
         | (Inr s', ev) \<Rightarrow> (case cont_loop env attempt mx (sat_add idx 1) s' of (s'', ev') \<Rightarrow> (s'', ev @ ev')))
      else (s, []))"
  by pat_completeness auto
termination
proof (relation "measure (\<lambda>(env, attempt, mx, idx, s). unat mx - unat idx)")
  fix env :: "('j, 'v) call_env" and attempt :: nat and mx idx :: u8 and s s' :: cont_state
    and p :: "(cont_state + cont_state) \<times> call_event list" and r :: "cont_state + cont_state"
    and ev :: "call_event list"
  assume "idx < mx \<and> cs_truncated s"
  then show "((env, attempt, mx, sat_add idx 1, s'), env, attempt, mx, idx, s)
      \<in> measure (\<lambda>(env, attempt, mx, idx, s). unat mx - unat idx)"
    using unat_le_max [of mx] by (auto simp: unat_sat_add word_less_nat_alt)
qed simp

declare cont_loop.simps [simp del]

definition continue_truncated_response ::
  "('j, 'v) call_env \<Rightarrow> nat \<Rightarrow> response \<Rightarrow> u8 \<Rightarrow> response \<times> call_event list"
where
  "continue_truncated_response env attempt original mx =
     (case cont_loop env attempt mx 0
             \<lparr>cs_accumulated = resp_text original, cs_truncated = resp_truncated original,
              cs_finish_reason = resp_finish_reason original, cs_usage = resp_usage original\<rparr> of
        (s, ev) \<Rightarrow>
          (\<lparr>resp_text = cs_accumulated s, resp_finish_reason = cs_finish_reason s,
            resp_truncated = cs_truncated s, resp_usage = cs_usage s, resp_http_status = 200\<rparr>, ev))"


section \<open>Parsing a response\<close>

text \<open>\<open>Role::validate_json\<close>: the role's domain type must accept the value.\<close>

definition validate_json :: "('j, 'v) call_env \<Rightarrow> role \<Rightarrow> 'j \<Rightarrow> unit result" where
  "validate_json env role j =
     (case ce_shape env role j of
        Some e \<Rightarrow> Inl (Err_SchemaViolation
                  (''role='' @ role_as_str role @ '' schema mismatch: '' @ e @ ''; expected ''
                   @ role_schema_description role))
      | None \<Rightarrow> Inr ())"

definition parse_value :: "('j, 'v) call_env \<Rightarrow> json_strategy \<Rightarrow> string \<Rightarrow> string list \<times> (string + 'j)" where
  "parse_value env strategy raw =
     (if strategy = Strict then ([], ce_from_str env raw) else ce_lenient env raw)"

definition parse_with_strategy_inner ::
  "('j, 'v) call_env \<Rightarrow> json_strategy \<Rightarrow> string \<Rightarrow> role \<Rightarrow> 'v result \<times> call_event list"
where
  "parse_with_strategy_inner env strategy raw role =
     (case parse_value env strategy raw of
        (kinds, v) \<Rightarrow>
          (let ev = map (\<lambda>k. Warn ''model.json_repair_applied'' None) kinds
           in case v of
                Inl msg \<Rightarrow> (Inl (Err_SchemaViolation (''model output is not valid JSON: '' @ msg)), ev)
              | Inr j \<Rightarrow>
                  (case validate_json env role j of
                     Inl e \<Rightarrow> (Inl e, ev @ [Warn ''model.schema_mismatch'' None])
                   | Inr _ \<Rightarrow>
                       (case ce_from_value env j of
                          Inl e \<Rightarrow> (Inl (Err_SchemaViolation
                                    (''model output did not deserialise into '' @ ce_type_name env
                                     @ '': '' @ e)), ev)
                        | Inr x \<Rightarrow> (Inr x, ev)))))"

text \<open>
  The one-shot retry with an assistant prefill: \<open>Inl\<close> when its dispatch failed, \<open>None\<close> when
  the strategy has no prefill or its answer does not parse.
\<close>

definition retry_with_assistant_prefill ::
  "('j, 'v) call_env \<Rightarrow> call_config \<Rightarrow> 'v option result \<times> call_event list"
where
  "retry_with_assistant_prefill env cfg =
     (if \<not> needs_assistant_prefill (strategy_for (cc_model cfg) None) then (Inr None, [])
      else case ce_prefill_send env of
             Inl e \<Rightarrow> (Inl e, [Prefill])
           | Inr r \<Rightarrow> (case parse_with_strategy_inner env Lenient (resp_text r) (cc_role cfg) of
                         (Inr v, ev) \<Rightarrow> (Inr (Some v), Prefill # ev)
                       | (Inl _, ev) \<Rightarrow> (Inr None, Prefill # ev)))"

text \<open>The repair call: the repaired field of its report, or else its whole text, is parsed.\<close>

definition repaired_text :: "('j, 'v) call_env \<Rightarrow> string \<Rightarrow> string option" where
  "repaired_text env text =
     (case ce_repair_report env text of
        Some r \<Rightarrow> if \<not> ce_blank env r then Some r
                   else if \<not> ce_blank env text then Some text else None
      | None \<Rightarrow> if \<not> ce_blank env text then Some text else None)"

definition call_json_repair_v2 :: "('j, 'v) call_env \<Rightarrow> call_config \<Rightarrow> string \<Rightarrow> 'v option" where
  "call_json_repair_v2 env cfg raw =
     (case ce_repair_send env raw of
        Inl _ \<Rightarrow> None
      | Inr r \<Rightarrow>
          (case repaired_text env (resp_text r) of
             None \<Rightarrow> None
           | Some repaired \<Rightarrow>
               (case ce_from_str env repaired of
                  Inl _ \<Rightarrow> None
                | Inr j \<Rightarrow>
                    (case validate_json env (cc_role cfg) j of
                       Inl _ \<Rightarrow> None
                     | Inr _ \<Rightarrow> (case ce_from_value env j of Inl _ \<Rightarrow> None | Inr v \<Rightarrow> Some v)))))"

definition json_repair_v2_enabled_for_mode :: "bool \<Rightarrow> string \<Rightarrow> bool" where
  "json_repair_v2_enabled_for_mode flag md = (if md = ''discover'' then True else flag)"

section \<open>The retrying parse loop\<close>

record loop_state =
  ls_attempt :: nat
  ls_budget :: "retry_budget option"
  ls_prefill_attempted :: bool

definition loop_init :: loop_state where
  "loop_init = \<lparr>ls_attempt = 0, ls_budget = None, ls_prefill_attempted = False\<rparr>"

text \<open>
  The answer of one attempt, with the continuation of a truncated one. The attempt counter
  stays below the cap, so it never wraps and is a natural number here; the ceiling's
  \<open>ceiling + 1\<close> is taken at its width.
\<close>

definition attempt_response ::
  "('j, 'v) call_env \<Rightarrow> json_strategy \<Rightarrow> nat \<Rightarrow> response result \<times> call_event list"
where
  "attempt_response env strategy attempt =
     (let mx = max_continuation_attempts strategy
      in case ce_send env attempt of
           Inl e \<Rightarrow> (Inl e, [Send attempt])
         | Inr resp \<Rightarrow>
             (if resp_truncated resp \<and> resp_text resp \<noteq> [] \<and> 0 < mx then
                (case continue_truncated_response env attempt resp mx of
                   (resp', ev) \<Rightarrow> (Inr resp', Send attempt # ev))
              else (Inr resp, [Send attempt])))"

definition attempt_cap :: "retry_budget \<Rightarrow> u32 \<Rightarrow> nat" where
  "attempt_cap b ceiling = unat (min (max_attempts b) (ceiling + 1))"

definition frozen_budget :: "call_config \<Rightarrow> loop_state \<Rightarrow> retry_reason \<Rightarrow> retry_budget" where
  "frozen_budget cfg s reason =
     (case ls_budget s of Some b \<Rightarrow> b | None \<Rightarrow> budget_for (parse_mode_str (cc_mode cfg)) reason)"

definition parse_reason :: "('j, 'v) call_env \<Rightarrow> string \<Rightarrow> retry_reason" where
  "parse_reason env text =
     (case ce_from_str env text of Inr _ \<Rightarrow> Reason_Schema | Inl _ \<Rightarrow> Reason_Parse)"

text \<open>
  A failed parse: the prefill retry if it is due, then the budget. \<open>Inl\<close> returns from the
  loop, \<open>Inr\<close> is \<open>Decision::Retry\<close>.
\<close>

definition parse_budget_step ::
  "('j, 'v) call_env \<Rightarrow> call_config \<Rightarrow> loop_state \<Rightarrow> string \<Rightarrow> error
     \<Rightarrow> ('v result + loop_state) \<times> call_event list"
where
  "parse_budget_step env cfg s text e =
     (let b = frozen_budget cfg s (parse_reason env text);
          cap = attempt_cap b (cc_ceiling cfg)
      in if cap \<le> ls_attempt s + 1 then
           (if use_json_repair b \<and> json_repair_v2_enabled_for_mode (cc_json_repair_v2 cfg) (cc_mode cfg)
            then (case call_json_repair_v2 env cfg text of
                    Some v \<Rightarrow> (Inl (Inr v), [Repair])
                  | None \<Rightarrow> (Inl (Inl e), [Repair]))
            else (Inl (Inl e), []))
         else (Inr (s\<lparr>ls_budget := Some b, ls_attempt := ls_attempt s + 1\<rparr>),
               [Warn ''model.retry_parse'' (Some (ls_attempt s))]))"

definition parse_failure_step ::
  "('j, 'v) call_env \<Rightarrow> call_config \<Rightarrow> loop_state \<Rightarrow> string \<Rightarrow> error
     \<Rightarrow> ('v result + loop_state) \<times> call_event list"
where
  "parse_failure_step env cfg s text e =
     (if strategy_for (cc_model cfg) None = PromptPrefill \<and> \<not> ls_prefill_attempted s then
        (case retry_with_assistant_prefill env cfg of
           (Inr (Some v), ev) \<Rightarrow>
             (Inl (Inr v), ev @ [Warn ''model.prefill_recovered'' (Some (ls_attempt s))])
         | (_, ev) \<Rightarrow>
             (case parse_budget_step env cfg (s\<lparr>ls_prefill_attempted := True\<rparr>) text e of
                (r, ev') \<Rightarrow> (r, ev @ ev')))
      else parse_budget_step env cfg s text e)"

definition send_failure_step ::
  "call_config \<Rightarrow> loop_state \<Rightarrow> error \<Rightarrow> ('v result + loop_state) \<times> call_event list"
where
  "send_failure_step cfg s e =
     (if \<not> should_retry_error e then (Inl (Inl e), [])
      else let b = frozen_budget cfg s (reason_from_error e);
               cap = attempt_cap b (cc_ceiling cfg)
           in if cap \<le> ls_attempt s + 1 then (Inl (Inl e), [])
              else (Inr (s\<lparr>ls_budget := Some b, ls_attempt := ls_attempt s + 1\<rparr>),
                    [Warn ''model.retry_provider'' (Some (ls_attempt s))]))"

definition loop_step ::
  "('j, 'v) call_env \<Rightarrow> call_config \<Rightarrow> loop_state \<Rightarrow> ('v result + loop_state) \<times> call_event list"
where
  "loop_step env cfg s =
     (let strategy = strategy_for (cc_model cfg) None
      in case attempt_response env strategy (ls_attempt s) of
           (Inr resp, ev) \<Rightarrow>
             (case parse_with_strategy_inner env strategy (resp_text resp) (cc_role cfg) of
                (Inr v, ev') \<Rightarrow>
                  (Inl (Inr v), ev @ ev' @
                     (if 0 < ls_attempt s
                      then [Warn ''model.recovered_after_retry'' (Some (ls_attempt s))] else []))
              | (Inl e, ev') \<Rightarrow>
                  (case parse_failure_step env cfg s (resp_text resp) e of
                     (r, ev'') \<Rightarrow> (r, ev @ ev' @ ev'')))
         | (Inl e, ev) \<Rightarrow>
             (case send_failure_step cfg s e of (r, ev') \<Rightarrow> (r, ev @ ev')))"


section \<open>Steps of the loop\<close>

lemma parse_budget_step_Inr:
  assumes "parse_budget_step env cfg s text e = (Inr s', ev)"
  shows "ls_attempt s' = Suc (ls_attempt s)"
    and "ls_budget s' = Some (frozen_budget cfg s (parse_reason env text))"
    and "Suc (ls_attempt s) < attempt_cap (the (ls_budget s')) (cc_ceiling cfg)"
  using assms
  by (auto simp: parse_budget_step_def Let_def split: if_splits option.splits)

lemma send_failure_step_Inr:
  assumes "send_failure_step cfg s e = (Inr s', ev)"
  shows "ls_attempt s' = Suc (ls_attempt s)"
    and "ls_budget s' = Some (frozen_budget cfg s (reason_from_error e))"
    and "Suc (ls_attempt s) < attempt_cap (the (ls_budget s')) (cc_ceiling cfg)"
  using assms
  by (auto simp: send_failure_step_def Let_def split: if_splits)

lemma parse_failure_step_Inr:
  assumes "parse_failure_step env cfg s text e = (Inr s', ev)"
  obtains s0 ev0 where "parse_budget_step env cfg s0 text e = (Inr s', ev0)"
    "ls_attempt s0 = ls_attempt s" "ls_budget s0 = ls_budget s"
  using assms
  by (fastforce simp: parse_failure_step_def split: if_splits prod.splits sum.splits option.splits)

lemma loop_step_Inr:
  fixes env :: "('j, 'v) call_env"
  assumes "loop_step env cfg s = (Inr s', ev)"
  obtains b r where "ls_attempt s' = Suc (ls_attempt s)" "ls_budget s' = Some b"
    "b = frozen_budget cfg s r" "Suc (ls_attempt s) < attempt_cap b (cc_ceiling cfg)"
proof -
  consider (snd) e ev0 where "(send_failure_step cfg s e :: ('v result + loop_state) \<times> _) = (Inr s', ev0)"
    | (ans) body e ev0 where "parse_failure_step env cfg s body e = (Inr s', ev0)"
    using assms by (auto simp: loop_step_def Let_def split: sum.splits prod.splits)
  then show thesis
  proof cases
    case snd
    with send_failure_step_Inr [OF snd] that show ?thesis by simp
  next
    case ans
    then obtain s0 ev1 where s0: "parse_budget_step env cfg s0 body e = (Inr s', ev1)"
      "ls_attempt s0 = ls_attempt s" "ls_budget s0 = ls_budget s"
      by (rule parse_failure_step_Inr)
    with parse_budget_step_Inr [OF s0(1)] that show ?thesis
      by (simp add: frozen_budget_def)
  qed
qed

lemma loop_step_decreases:
  assumes "loop_step env cfg s = (Inr s', ev)"
  shows "2 ^ 32 - ls_attempt s' < 2 ^ 32 - ls_attempt s"
proof -
  obtain b where b: "ls_attempt s' = Suc (ls_attempt s)"
    "Suc (ls_attempt s) < attempt_cap b (cc_ceiling cfg)"
    using loop_step_Inr [OF assms] by blast
  moreover have "attempt_cap b (cc_ceiling cfg) < 2 ^ 32"
    using unat_lt_pow [of "min (max_attempts b) (cc_ceiling cfg + 1)"] by (simp add: attempt_cap_def)
  ultimately show ?thesis by linarith
qed

function retry_loop ::
  "('j, 'v) call_env \<Rightarrow> call_config \<Rightarrow> loop_state \<Rightarrow> 'v result \<times> call_event list"
where
  "retry_loop env cfg s =
     (case loop_step env cfg s of
        (Inl r, ev) \<Rightarrow> (r, ev)
      | (Inr s', ev) \<Rightarrow> (case retry_loop env cfg s' of (r, ev') \<Rightarrow> (r, ev @ ev')))"
  by pat_completeness auto
termination
  by (relation "measure (\<lambda>(env, cfg, s). 2 ^ 32 - ls_attempt s)")
    (auto dest: loop_step_decreases [OF sym] loop_step_decreases)

declare retry_loop.simps [simp del]

definition call_with_retry_parse ::
  "('j, 'v) call_env \<Rightarrow> call_config \<Rightarrow> 'v result \<times> call_event list"
where
  "call_with_retry_parse env cfg = retry_loop env cfg loop_init"


section \<open>What the trace records\<close>

fun sends :: "call_event list \<Rightarrow> nat list" where
  "sends [] = []"
| "sends (Send n # ev) = n # sends ev"
| "sends (_ # ev) = sends ev"

primrec is_call :: "call_event \<Rightarrow> bool" where
  "is_call (Send _) = True"
| "is_call (Continue _ _) = True"
| "is_call Prefill = True"
| "is_call Repair = True"
| "is_call (Warn _ _) = False"

definition calls :: "call_event list \<Rightarrow> nat" where
  "calls ev = length (filter is_call ev)"

named_theorems trace_simps \<open>sends and calls of the parts of the loop\<close>

lemma sends_append [trace_simps]: "sends (ev @ ev') = sends ev @ sends ev'"
  by (induction ev rule: sends.induct) simp_all

lemma calls_simps [trace_simps]:
  "calls [] = 0" "calls (x # ev) = (if is_call x then 1 else 0) + calls ev"
  "calls (ev @ ev') = calls ev + calls ev'"
  by (simp_all add: calls_def)

lemma warnings_trace [trace_simps]:
  "sends (map (\<lambda>k. Warn (f k) None) ks) = []" "calls (map (\<lambda>k. Warn (f k) None) ks) = 0"
  by (induction ks) (simp_all add: calls_def)

lemma cont_turn_trace:
  "sends (snd (cont_turn env a i s)) = []" "calls (snd (cont_turn env a i s)) = 1"
  by (auto simp: cont_turn_def Let_def trace_simps split: sum.splits option.splits)

lemma cont_loop_trace:
  "sends (snd (cont_loop env a mx i s)) = [] \<and> calls (snd (cont_loop env a mx i s)) \<le> unat mx - unat i"
proof (induction env a mx i s rule: cont_loop.induct)
  case (1 env a mx i s)
  show ?case
  proof (cases "i < mx \<and> cs_truncated s")
    case True
    obtain r ev where t: "cont_turn env a i s = (r, ev)" by (cases "cont_turn env a i s")
    from True have lt: "unat i < unat mx" by (simp add: word_less_nat_alt)
    have ev: "sends ev = []" "calls ev = 1" using cont_turn_trace [of env a i s] t by simp_all
    show ?thesis
    proof (cases r)
      case (Inl s')
      with True t lt ev show ?thesis by (simp add: cont_loop.simps [of env a mx i s])
    next
      case (Inr s')
      have "sends (snd (cont_loop env a mx (sat_add i 1) s')) = [] \<and>
          calls (snd (cont_loop env a mx (sat_add i 1) s')) \<le> unat mx - unat (sat_add i 1)"
        using "1.IH" [OF True t [symmetric] Inr] .
      moreover have "unat (sat_add i 1) = unat i + 1"
        using lt unat_le_max [of mx] by (simp add: unat_sat_add)
      ultimately show ?thesis using True t lt ev Inr
        by (auto simp: cont_loop.simps [of env a mx i s] trace_simps split: prod.splits)
    qed
  qed (auto simp: cont_loop.simps [of env a mx i s] trace_simps)
qed

lemma continue_trace:
  assumes "continue_truncated_response env a r mx = (r', ev)"
  shows "sends ev = []" "calls ev \<le> unat mx"
  using assms cont_loop_trace [of env a mx 0 "\<lparr>cs_accumulated = resp_text r, cs_truncated = resp_truncated r,
      cs_finish_reason = resp_finish_reason r, cs_usage = resp_usage r\<rparr>"]
  by (auto simp: continue_truncated_response_def split: prod.splits)

lemma max_continuation_le: "unat (max_continuation_attempts st) \<le> (if st = Continuation then 2 else 0)"
  by (cases st) simp_all

lemma attempt_response_trace:
  assumes "attempt_response env st a = (r, ev)"
  shows "sends ev = [a]" "calls ev \<le> (if st = Continuation then 3 else 1)"
  using assms max_continuation_le [of st]
  by (auto simp: attempt_response_def Let_def trace_simps word_less_nat_alt
      dest: continue_trace split: sum.splits if_splits prod.splits)

lemma parse_inner_trace:
  assumes "parse_with_strategy_inner env st raw role = (r, ev)"
  shows "sends ev = []" "calls ev = 0"
  using assms
  by (auto simp: parse_with_strategy_inner_def Let_def trace_simps split: prod.splits sum.splits)

lemma prefill_trace:
  assumes "retry_with_assistant_prefill env cfg = (r, ev)"
  shows "sends ev = []" "calls ev \<le> 1"
  using assms
  by (auto simp: retry_with_assistant_prefill_def trace_simps
      dest: parse_inner_trace split: if_splits sum.splits prod.splits)

lemma parse_budget_trace:
  assumes "parse_budget_step env cfg s body e = (r, ev)"
  shows "sends ev = []" "calls ev \<le> (if isl r then 1 else 0)"
  using assms
  by (auto simp: parse_budget_step_def Let_def trace_simps split: if_splits option.splits)

lemma parse_failure_trace:
  assumes "parse_failure_step env cfg s body e = (r, ev)"
  shows "sends ev = []"
    and "calls ev \<le> (if strategy_for (cc_model cfg) None = PromptPrefill then 1 else 0)
                    + (if isl r then 1 else 0)"
  using assms
  by (fastforce simp: parse_failure_step_def trace_simps
      dest: prefill_trace parse_budget_trace split: if_splits prod.splits sum.splits option.splits)+

lemma send_failure_trace:
  assumes "send_failure_step cfg s e = (r, ev)"
  shows "sends ev = []" "calls ev = 0"
  using assms by (auto simp: send_failure_step_def Let_def trace_simps split: if_splits)

lemma loop_step_trace:
  assumes "loop_step env cfg s = (r, ev)"
  shows "sends ev = [ls_attempt s]" "calls ev \<le> 3 + (if isl r then 1 else 0)"
  using assms
  by (fastforce simp: loop_step_def Let_def trace_simps
      dest: attempt_response_trace parse_inner_trace parse_failure_trace send_failure_trace
      split: if_splits prod.splits sum.splits)+


section \<open>What the loop guarantees\<close>

definition budget_frozen :: "loop_state \<Rightarrow> bool" where
  "budget_frozen s \<longleftrightarrow> (case ls_budget s of None \<Rightarrow> True | Some b \<Rightarrow> unat (max_attempts b) \<le> 6)"

lemma frozen_budget_le: "budget_frozen s \<Longrightarrow> unat (max_attempts (frozen_budget cfg s r)) \<le> 6"
  by (auto simp: budget_frozen_def frozen_budget_def budget_bound_nat split: option.splits)

lemma loop_step_bounds:
  assumes "loop_step env cfg s = (Inr s', ev)" "budget_frozen s"
  shows "ls_attempt s' = Suc (ls_attempt s)" "budget_frozen s'"
    "Suc (ls_attempt s) < min 6 (unat (cc_ceiling cfg + 1))"
proof -
  obtain b r where b: "ls_attempt s' = Suc (ls_attempt s)" "ls_budget s' = Some b"
    "b = frozen_budget cfg s r" "Suc (ls_attempt s) < attempt_cap b (cc_ceiling cfg)"
    using loop_step_Inr [OF assms(1)] by blast
  have "unat (max_attempts b) \<le> 6" using frozen_budget_le [OF assms(2)] b(3) by simp
  then show "ls_attempt s' = Suc (ls_attempt s)" "budget_frozen s'"
    "Suc (ls_attempt s) < min 6 (unat (cc_ceiling cfg + 1))"
    using b by (auto simp: budget_frozen_def attempt_cap_def unat_min_word)
qed

lemma retry_loop_sends:
  assumes "budget_frozen s"
  shows "\<exists>k. 1 \<le> k \<and> (k = 1 \<or> ls_attempt s + k \<le> min 6 (unat (cc_ceiling cfg + 1))) \<and>
     sends (snd (retry_loop env cfg s)) = [ls_attempt s ..< ls_attempt s + k] \<and>
     calls (snd (retry_loop env cfg s)) \<le> 3 * k + 1"
  using assms
proof (induction env cfg s rule: retry_loop.induct)
  case (1 env cfg s)
  obtain r ev where st: "loop_step env cfg s = (r, ev)" by (cases "loop_step env cfg s")
  note tr = loop_step_trace [OF st]
  show ?case
  proof (cases r)
    case (Inl v)
    with st tr show ?thesis
      by (intro exI [of _ 1]) (simp add: retry_loop.simps [of env cfg s] upt_rec)
  next
    case (Inr s')
    note b = loop_step_bounds [OF st [unfolded Inr] "1.prems"]
    from "1.IH" [OF st [symmetric] Inr b(2)] b(1) obtain k where k: "1 \<le> k"
      "k = 1 \<or> Suc (ls_attempt s) + k \<le> min 6 (unat (cc_ceiling cfg + 1))"
      "sends (snd (retry_loop env cfg s')) = [Suc (ls_attempt s) ..< Suc (ls_attempt s) + k]"
      "calls (snd (retry_loop env cfg s')) \<le> 3 * k + 1" by auto
    have "snd (retry_loop env cfg s) = ev @ snd (retry_loop env cfg s')"
      using st Inr by (simp add: retry_loop.simps [of env cfg s] split: prod.split)
    with tr k b(3) Inr show ?thesis
      by (intro exI [of _ "Suc k"]) (auto simp: trace_simps upt_conv_Cons)
  qed
qed

text \<open>A value leaves the parser only when it passed the role's validation.\<close>

definition validated :: "('j, 'v) call_env \<Rightarrow> role \<Rightarrow> 'v \<Rightarrow> bool" where
  "validated env role v \<longleftrightarrow> (\<exists>j. validate_json env role j = Inr () \<and> ce_from_value env j = Inr v)"

lemma parse_inner_validated:
  "parse_with_strategy_inner env st raw role = (Inr v, ev) \<Longrightarrow> validated env role v"
  by (auto simp: parse_with_strategy_inner_def validated_def Let_def split: prod.splits sum.splits)

lemma parse_inner_error:
  "parse_with_strategy_inner env st raw role = (Inl e, ev) \<Longrightarrow> \<exists>m. e = Err_SchemaViolation m"
  by (auto simp: parse_with_strategy_inner_def validate_json_def Let_def
      split: prod.splits sum.splits option.splits)

lemma prefill_validated:
  "retry_with_assistant_prefill env cfg = (Inr (Some v), ev) \<Longrightarrow> validated env (cc_role cfg) v"
  by (auto simp: retry_with_assistant_prefill_def dest: parse_inner_validated
      split: if_splits sum.splits prod.splits)

lemma repair_validated: "call_json_repair_v2 env cfg raw = Some v \<Longrightarrow> validated env (cc_role cfg) v"
  by (auto simp: call_json_repair_v2_def validated_def split: sum.splits option.splits)

lemma parse_budget_return:
  assumes "parse_budget_step env cfg s body e = (Inl r, ev)"
  shows "r = Inl e \<or> (\<exists>v. r = Inr v \<and> validated env (cc_role cfg) v)"
  using assms
  by (auto simp: parse_budget_step_def Let_def dest: repair_validated split: if_splits option.splits)

lemma parse_failure_return:
  assumes "parse_failure_step env cfg s body e = (Inl r, ev)"
  shows "r = Inl e \<or> (\<exists>v. r = Inr v \<and> validated env (cc_role cfg) v)"
  using assms
  by (fastforce simp: parse_failure_step_def dest: prefill_validated parse_budget_return
      split: if_splits prod.splits sum.splits option.splits)

definition outcome_ok :: "('j, 'v) call_env \<Rightarrow> call_config \<Rightarrow> nat \<Rightarrow> 'v result \<Rightarrow> bool" where
  "outcome_ok env cfg n r \<longleftrightarrow>
     (case r of Inr v \<Rightarrow> validated env (cc_role cfg) v
      | Inl e \<Rightarrow> ce_send env n = Inl e \<or> (\<exists>m. e = Err_SchemaViolation m))"

lemma attempt_response_Inl:
  "attempt_response env st a = (Inl e, ev) \<Longrightarrow> ce_send env a = Inl e \<and> ev = [Send a]"
  by (auto simp: attempt_response_def Let_def split: sum.splits if_splits prod.splits)

lemma loop_step_return:
  assumes "loop_step env cfg s = (Inl r, ev)"
  shows "outcome_ok env cfg (ls_attempt s) r"
  using assms
  by (fastforce simp: loop_step_def outcome_ok_def Let_def send_failure_step_def
      dest: parse_inner_validated parse_inner_error parse_failure_return attempt_response_Inl
      split: prod.splits sum.splits if_splits)

lemma retry_loop_sends_Nil: "sends (snd (retry_loop env cfg s)) \<noteq> []"
  by (auto simp: retry_loop.simps [of env cfg s] trace_simps dest: loop_step_trace(1)
      split: prod.split sum.split)

lemma retry_loop_outcome:
  "outcome_ok env cfg (last (sends (snd (retry_loop env cfg s)))) (fst (retry_loop env cfg s))"
proof (induction env cfg s rule: retry_loop.induct)
  case (1 env cfg s)
  obtain r ev where st: "loop_step env cfg s = (r, ev)" by (cases "loop_step env cfg s")
  note tr = loop_step_trace(1) [OF st]
  show ?case
  proof (cases r)
    case (Inl v)
    with st tr loop_step_return [OF st [unfolded Inl]] show ?thesis
      by (simp add: retry_loop.simps [of env cfg s])
  next
    case (Inr s')
    obtain q ev' where rest: "retry_loop env cfg s' = (q, ev')" by (cases "retry_loop env cfg s'")
    with "1.IH" [OF st [symmetric] Inr] st tr Inr retry_loop_sends_Nil [of env cfg s'] show ?thesis
      by (simp add: retry_loop.simps [of env cfg s] trace_simps)
  qed
qed

text \<open>While every send fails with the same retried error, the loop runs to its cap.\<close>

lemma failed_send_step:
  assumes "ce_send env (ls_attempt s) = Inl e" "should_retry_error e"
    and "frozen_budget cfg s (reason_from_error e) = b"
  shows "loop_step env cfg s =
    (if attempt_cap b (cc_ceiling cfg) \<le> Suc (ls_attempt s) then (Inl (Inl e), [Send (ls_attempt s)])
     else (Inr (s\<lparr>ls_budget := Some b, ls_attempt := Suc (ls_attempt s)\<rparr>),
           [Send (ls_attempt s), Warn ''model.retry_provider'' (Some (ls_attempt s))]))"
  using assms by (simp add: loop_step_def attempt_response_def send_failure_step_def Let_def)

lemma retry_loop_persistent:
  assumes "\<And>n. ce_send env n = Inl e" "should_retry_error e"
    and "frozen_budget cfg s (reason_from_error e) = b"
  shows "fst (retry_loop env cfg s) = Inl e \<and>
    sends (snd (retry_loop env cfg s))
      = [ls_attempt s ..< max (Suc (ls_attempt s)) (attempt_cap b (cc_ceiling cfg))]"
  using assms(3)
proof (induction "attempt_cap b (cc_ceiling cfg) - ls_attempt s" arbitrary: s rule: less_induct)
  case less
  note st = failed_send_step [OF assms(1,2) less.prems]
  let ?s' = "s\<lparr>ls_budget := Some b, ls_attempt := Suc (ls_attempt s)\<rparr>"
  show ?case
  proof (cases "attempt_cap b (cc_ceiling cfg) \<le> Suc (ls_attempt s)")
    case True
    with st show ?thesis by (simp add: retry_loop.simps [of env cfg s] upt_rec max_def)
  next
    case False
    then have "fst (retry_loop env cfg ?s') = Inl e \<and> sends (snd (retry_loop env cfg ?s')) =
        [Suc (ls_attempt s) ..< max (Suc (Suc (ls_attempt s))) (attempt_cap b (cc_ceiling cfg))]"
      using less.hyps [of ?s'] by (simp add: frozen_budget_def)
    with False st show ?thesis
      by (auto simp: retry_loop.simps [of env cfg s] max_def upt_conv_Cons split: prod.splits)
  qed
qed

lemma parsed_step:
  assumes "ce_send env (ls_attempt s) = Inr r" "\<not> resp_truncated r"
    and "fst (parse_with_strategy_inner env (strategy_for (cc_model cfg) None) (resp_text r) (cc_role cfg)) = Inr v"
  shows "\<exists>ev. loop_step env cfg s = (Inl (Inr v), ev)"
  using assms
  by (cases "parse_with_strategy_inner env (strategy_for (cc_model cfg) None) (resp_text r) (cc_role cfg)")
    (simp add: loop_step_def attempt_response_def Let_def)

lemma retry_loop_recovers:
  assumes "\<And>n. ls_attempt s \<le> n \<Longrightarrow> n < k \<Longrightarrow> ce_send env n = Inl (e n) \<and> should_retry_error (e n)"
    and "ce_send env k = Inr r" "\<not> resp_truncated r"
    and "fst (parse_with_strategy_inner env (strategy_for (cc_model cfg) None) (resp_text r) (cc_role cfg)) = Inr v"
    and "ls_attempt s \<le> k" "k < attempt_cap b (cc_ceiling cfg)"
    and "ls_attempt s < k \<Longrightarrow> frozen_budget cfg s (reason_from_error (e (ls_attempt s))) = b"
  shows "fst (retry_loop env cfg s) = Inr v"
  using assms(1,5,7)
proof (induction "k - ls_attempt s" arbitrary: s)
  case 0
  then have k: "k = ls_attempt s" by simp
  with parsed_step [of env s r cfg v] assms(2-4) show ?case
    by (auto simp: retry_loop.simps [of env cfg s])
next
  case (Suc d)
  let ?s' = "s\<lparr>ls_budget := Some b, ls_attempt := Suc (ls_attempt s)\<rparr>"
  have "loop_step env cfg s = (Inr ?s', [Send (ls_attempt s), Warn ''model.retry_provider'' (Some (ls_attempt s))])"
    using failed_send_step [of env s "e (ls_attempt s)" cfg b] Suc.prems Suc.hyps(2) assms(6) by simp
  moreover have "fst (retry_loop env cfg ?s') = Inr v"
    using Suc.hyps(1) [of ?s'] Suc.hyps(2) Suc.prems by (simp add: frozen_budget_def)
  ultimately show ?case by (auto simp: retry_loop.simps [of env cfg s] split: prod.split)
qed

section \<open>Properties\<close>

text \<open>C6: Every run of the retrying call sends the request at least once and at most
  \<open>min 6 (ceiling + 1)\<close> times (once when the ceiling plus one wraps to zero), numbers its sends
  0, 1, 2, ... without a gap or a repetition, and issues at most \<open>3 n + 1\<close> provider calls
  of any kind (sends, continuations, the prefill and the repair) for \<open>n\<close> sends.\<close>

theorem retry_sends_bounded:
  "\<exists>n. 1 \<le> n \<and> n \<le> max 1 (min 6 (unat (cc_ceiling cfg + 1))) \<and>
       sends (snd (call_with_retry_parse env cfg)) = [0..<n] \<and>
       calls (snd (call_with_retry_parse env cfg)) \<le> 3 * n + 1"
proof -
  have "budget_frozen loop_init" "ls_attempt loop_init = 0"
    by (simp_all add: loop_init_def budget_frozen_def)
  with retry_loop_sends [of loop_init cfg env] show ?thesis
    by (auto simp: call_with_retry_parse_def max_def)
qed

text \<open>C7: What the retrying call returns: a value it returns was decoded from a JSON document
  that passed the validation of the call's role, whichever path it came by (a first answer, a
  retried one, a continued one, the prefill retry or the repair call), and an error it returns
  is either the error its last send was answered with or a schema violation.\<close>

theorem retry_outcome:
  "case fst (call_with_retry_parse env cfg) of
     Inr v \<Rightarrow> \<exists>j. validate_json env (cc_role cfg) j = Inr () \<and> ce_from_value env j = Inr v
   | Inl e \<Rightarrow> ce_send env (last (sends (snd (call_with_retry_parse env cfg)))) = Inl e \<or>
              (\<exists>m. e = Err_SchemaViolation m)"
  using retry_loop_outcome [of env cfg loop_init]
  by (simp add: call_with_retry_parse_def outcome_ok_def validated_def split: sum.splits)

text \<open>C1: When every send fails with the same retried error, the call spends exactly the budget
  of that error's row (never less, never more, at least one send) and returns the error.\<close>

theorem retry_persistent_error:
  assumes "\<And>n. ce_send env n = Inl e" "should_retry_error e"
  shows "fst (call_with_retry_parse env cfg) = Inl e \<and>
    sends (snd (call_with_retry_parse env cfg)) =
      [0 ..< max 1 (attempt_cap (budget_for (parse_mode_str (cc_mode cfg)) (reason_from_error e))
                                (cc_ceiling cfg))]"
  using retry_loop_persistent [OF assms refl, of cfg loop_init]
  by (simp add: call_with_retry_parse_def loop_init_def frozen_budget_def)

text \<open>C8: Transient failures are recovered: when sends 0 to \<open>k - 1\<close> fail with retried errors,
  send \<open>k\<close> is answered in full by a text that parses, and \<open>k\<close> is within the budget frozen
  at the first error, the call returns the parsed value.\<close>

theorem retry_recovers:
  assumes "\<And>n. n < k \<Longrightarrow> ce_send env n = Inl (e n) \<and> should_retry_error (e n)"
    and "ce_send env k = Inr r" "\<not> resp_truncated r"
    and "fst (parse_with_strategy_inner env (strategy_for (cc_model cfg) None) (resp_text r) (cc_role cfg)) = Inr v"
    and "k < attempt_cap (budget_for (parse_mode_str (cc_mode cfg)) (reason_from_error (e 0))) (cc_ceiling cfg)"
  shows "fst (call_with_retry_parse env cfg) = Inr v"
  using assms retry_loop_recovers [of loop_init k env e r cfg v
      "budget_for (parse_mode_str (cc_mode cfg)) (reason_from_error (e 0))"]
  by (simp add: call_with_retry_parse_def loop_init_def frozen_budget_def)

text \<open>An error that is not retried ends the call after its first send, with that error, no
  warning and no other call.\<close>

lemma retry_fatal_error:
  assumes "ce_send env 0 = Inl e" "\<not> should_retry_error e"
  shows "call_with_retry_parse env cfg = (Inl e, [Send 0])"
  using assms
  by (subst call_with_retry_parse_def, subst retry_loop.simps)
    (simp add: loop_init_def loop_step_def attempt_response_def send_failure_step_def Let_def)

section \<open>Witnesses\<close>

definition demo_usage :: usage where
  "demo_usage = \<lparr>input_tokens = 3, output_tokens = 4, cache_read = 0, cache_creation = 0\<rparr>"

definition demo_response :: "string \<Rightarrow> response" where
  "demo_response t = \<lparr>resp_text = t, resp_finish_reason = None, resp_truncated = False,
                      resp_usage = demo_usage, resp_http_status = 200\<rparr>"

definition demo_env :: "(nat \<Rightarrow> response result) \<Rightarrow> (string, string) call_env" where
  "demo_env f = \<lparr>ce_send = f, ce_continue = \<lambda>_ _ _. Inl Err_Cancel, ce_continuation_report = \<lambda>_. None,
     ce_from_str = (\<lambda>t. if t = ''ok'' then Inr t else Inl ''expected value''),
     ce_lenient = (\<lambda>t. ([], if t = ''ok'' then Inr t else Inl ''no JSON'')),
     ce_shape = \<lambda>_ _. None, ce_from_value = Inr, ce_type_name = ''String'',
     ce_prefill_send = Inl Err_Cancel, ce_repair_send = \<lambda>_. Inl Err_Cancel,
     ce_repair_report = \<lambda>_. None, ce_blank = (\<lambda>t. t = [])\<rparr>"

definition demo_config :: call_config where
  "demo_config = \<lparr>cc_role = Role_Judge, cc_model = ''glm-5.2'', cc_mode = ''standard'',
                  cc_ceiling = 9, cc_json_repair_v2 = False\<rparr>"

lemma demo_strategy: "strategy_for (cc_model demo_config) None = Lenient"
  by (simp add: demo_config_def strategy_for_def strategy_by_model_def eq_ignore_ascii_case_def
      ascii_lower_def Let_def)

lemma demo_throttled_cap:
  "attempt_cap (budget_for (parse_mode_str (cc_mode demo_config)) (reason_from_error (Err_Throttled h b st)))
     (cc_ceiling demo_config) = 4"
  by (simp add: demo_config_def parse_mode_str_def reason_from_error_def budget_defs attempt_cap_def min_def)

lemma demo_throttled_retried: "should_retry_error (Err_Throttled h b st)"
  by (simp add: should_retry_error_iff)

lemma retry_persistent_error_witness:
  "sends (snd (call_with_retry_parse (demo_env (\<lambda>_. Inl (Err_Throttled None ''slow down'' (Some 429))))
      demo_config)) = [0, 1, 2, 3]"
  using retry_persistent_error [of "demo_env (\<lambda>_. Inl (Err_Throttled None ''slow down'' (Some 429)))"
      "Err_Throttled None ''slow down'' (Some 429)" demo_config]
  by (simp add: demo_throttled_cap demo_throttled_retried demo_env_def upt_rec)

lemma retry_recovers_witness:
  "fst (call_with_retry_parse
      (demo_env (\<lambda>n. if n < 3 then Inl (Err_Throttled None ''slow down'' (Some 429))
                     else Inr (demo_response ''ok''))) demo_config) = Inr ''ok''"
  by (rule retry_recovers [of 3 _ "\<lambda>_. Err_Throttled None ''slow down'' (Some 429)" "demo_response ''ok''"])
    (simp_all add: demo_throttled_cap demo_throttled_retried demo_strategy demo_env_def demo_response_def
      parse_with_strategy_inner_def parse_value_def validate_json_def)

end
