(* ===== verification/Dispatch.thy ===== *)
theory Dispatch imports Circuit_Breaker Governor begin

text \<open>
  The wrapper every provider call of \<open>src/phases/phase.rs\<close> runs in
  (\<open>dispatch_with_governors_for\<close> and its default-provider form): the breaker check, the
  shared provider gate, the per-role governor, the inner call and the bookkeeping of its
  outcome. The wrapper awaits three times (the two sleeps and the inner call), and other
  calls run meanwhile, so it is split there: \<open>dispatch_begin\<close>, \<open>dispatch_throttle\<close> and
  \<open>dispatch_finish\<close> are the segments between two awaits, and a run is any sequence of
  segments of any number of calls. \<open>dispatch_with_governors_for\<close> is their composition with
  nothing in between.
\<close>

section \<open>State\<close>

record saturation_event =
  sat_provider :: string
  sat_role :: string
  sat_backoff_ms :: u64
  sat_retry_after :: "u64 option"

record in_flight =
  fl_section :: string
  fl_role :: role
  fl_governor :: nat
  fl_gate :: nat

record dispatch_state =
  ds_breakers :: breaker_registry
  ds_throttle :: governor_registry
  ds_saturation :: "saturation_event list"
  ds_flights :: "nat \<Rightarrow> in_flight option"

section \<open>The wrapper\<close>

definition circuit_open_error :: "string \<Rightarrow> role \<Rightarrow> error" where
  "circuit_open_error sec rl =
     Err_PlanExhausted (''circuit open: provider '' @ [CHR 0x27] @ sec @ [CHR 0x27] @ '' role ''
        @ [CHR 0x27] @ role_as_str rl @ [CHR 0x27] @ '' sidelined'') None"

text \<open>Up to the gate's sleep: refused by an open breaker, or the handles and the sleep.\<close>

definition dispatch_begin ::
  "(u64 \<Rightarrow> u64) \<Rightarrow> instant \<Rightarrow> string \<Rightarrow> role \<Rightarrow> dispatch_state
     \<Rightarrow> (in_flight \<times> duration) result \<times> dispatch_state"
where
  "dispatch_begin draw now sec rl s =
     (case registry_is_open (ds_breakers s) sec rl of
        (was_open, br) \<Rightarrow>
          (let s1 = s\<lparr>ds_breakers := br\<rparr>
           in if was_open then (Inl (circuit_open_error sec rl), s1)
              else
                (case governor_for (ds_throttle s1) sec rl of
                   (g, thr1) \<Rightarrow>
                     (case provider_gate_for thr1 sec of
                        (p, thr2) \<Rightarrow>
                          (Inr (\<lparr>fl_section = sec, fl_role = rl, fl_governor = g, fl_gate = p\<rparr>,
                                gate_pre_call draw now (gate_cell thr2 p)),
                           s1\<lparr>ds_throttle := thr2\<rparr>)))))"

text \<open>After the gate's sleep: the governor's sleep.\<close>

definition dispatch_throttle :: "(u64 \<Rightarrow> u64) \<Rightarrow> in_flight \<Rightarrow> dispatch_state \<Rightarrow> duration" where
  "dispatch_throttle draw fl s = governor_pre_call draw (gov_cell (ds_throttle s) (fl_governor fl))"

definition record_saturation_429 ::
  "string \<Rightarrow> role \<Rightarrow> u64 \<Rightarrow> u64 option \<Rightarrow> dispatch_state \<Rightarrow> dispatch_state"
where
  "record_saturation_429 provider rl backoff_ms retry_after s =
     s\<lparr>ds_saturation := ds_saturation s @
        [\<lparr>sat_provider = provider, sat_role = role_as_str rl, sat_backoff_ms = backoff_ms,
          sat_retry_after = retry_after\<rparr>]\<rparr>"

definition gate_refuse :: "instant \<Rightarrow> in_flight \<Rightarrow> u64 option \<Rightarrow> dispatch_state \<Rightarrow> dispatch_state" where
  "gate_refuse now fl retry_after s =
     (let backoff_ms = fst (gate_on_429 now (gate_cell (ds_throttle s) (fl_gate fl)));
          s1 = s\<lparr>ds_throttle := gate_update (ds_throttle s) (fl_gate fl) (\<lambda>g. snd (gate_on_429 now g))\<rparr>
      in record_saturation_429 (fl_section fl) (fl_role fl) backoff_ms retry_after s1)"

text \<open>
  After the inner call: \<open>now1\<close> and \<open>now2\<close> are the clock readings of the gate and of the
  governor.
\<close>

definition dispatch_finish ::
  "instant \<Rightarrow> instant \<Rightarrow> in_flight \<Rightarrow> 'v result \<Rightarrow> dispatch_state \<Rightarrow> dispatch_state"
where
  "dispatch_finish now1 now2 fl r s =
     (case r of
        Inr _ \<Rightarrow>
          s\<lparr>ds_throttle := gate_update (gov_update (ds_throttle s) (fl_governor fl) (governor_on_success now2))
                            (fl_gate fl) gate_on_success\<rparr>
      | Inl e \<Rightarrow>
          (case err_provider_cause e of
             Some (Cause_Throttled retry_after _) \<Rightarrow>
               (let s1 = gate_refuse now1 fl retry_after s
                in s1\<lparr>ds_throttle := gov_update (ds_throttle s1) (fl_governor fl)
                        (on_transient_429 now2 (map_option from_millis retry_after))\<rparr>)
           | Some (Cause_PlanExhausted _) \<Rightarrow> gate_refuse now1 fl None s
           | _ \<Rightarrow> s))"

definition dispatch_with_governors_for ::
  "(u64 \<Rightarrow> u64) \<Rightarrow> instant \<Rightarrow> instant \<Rightarrow> instant \<Rightarrow> string \<Rightarrow> role \<Rightarrow> 'v result \<Rightarrow> dispatch_state
     \<Rightarrow> 'v result \<times> (duration \<times> duration) option \<times> dispatch_state"
where
  "dispatch_with_governors_for draw now0 now1 now2 sec rl inner s =
     (case dispatch_begin draw now0 sec rl s of
        (Inl e, s1) \<Rightarrow> (Inl e, None, s1)
      | (Inr (fl, gate_sleep), s1) \<Rightarrow>
          (inner, Some (gate_sleep, dispatch_throttle draw fl s1), dispatch_finish now1 now2 fl inner s1))"

definition dispatch_with_governors ::
  "string \<Rightarrow> (u64 \<Rightarrow> u64) \<Rightarrow> instant \<Rightarrow> instant \<Rightarrow> instant \<Rightarrow> role \<Rightarrow> 'v result \<Rightarrow> dispatch_state
     \<Rightarrow> 'v result \<times> (duration \<times> duration) option \<times> dispatch_state"
where
  "dispatch_with_governors default_provider draw now0 now1 now2 rl inner s =
     dispatch_with_governors_for draw now0 now1 now2 default_provider rl inner s"

section \<open>Interleaved calls\<close>

text \<open>
  A call \<open>i\<close> begins, sleeps and finishes with other calls in between. A finish of a call
  that is not in flight (it was refused, or has finished) is no event of the program and
  leaves the state as it is.
\<close>

datatype dispatch_event =
    D_Begin nat instant string role
  | D_Finish nat instant instant "unit result"

primrec dispatch_step :: "(u64 \<Rightarrow> u64) \<Rightarrow> dispatch_state \<Rightarrow> dispatch_event \<Rightarrow> dispatch_state" where
  "dispatch_step draw s (D_Begin i now sec rl) =
     (case dispatch_begin draw now sec rl s of
        (Inl _, s1) \<Rightarrow> s1
      | (Inr (fl, _), s1) \<Rightarrow> s1\<lparr>ds_flights := (ds_flights s1)(i \<mapsto> fl)\<rparr>)"
| "dispatch_step draw s (D_Finish i now1 now2 r) =
     (case ds_flights s i of
        None \<Rightarrow> s
      | Some fl \<Rightarrow> (dispatch_finish now1 now2 fl r s)\<lparr>ds_flights := (ds_flights s)(i := None)\<rparr>)"


section \<open>The invariant of a run\<close>

definition flight_ok :: "dispatch_state \<Rightarrow> in_flight \<Rightarrow> bool" where
  "flight_ok s fl \<longleftrightarrow>
     reg_index (gov_by_pair (ds_throttle s)) (fl_section fl, fl_role fl) = Some (fl_governor fl) \<and>
     reg_index (gov_gates (ds_throttle s)) (fl_section fl) = Some (fl_gate fl)"

definition breakers_closed :: "breaker_registry \<Rightarrow> bool" where
  "breakers_closed r \<longleftrightarrow> reg_wf (by_pair r) \<and> (\<forall>k b. reg_peek (by_pair r) k = Some b \<longrightarrow> \<not> is_open b)"

definition throttle_ok :: "governor_registry \<Rightarrow> bool" where
  "throttle_ok r \<longleftrightarrow> reg_wf (gov_by_pair r) \<and> reg_wf (gov_gates r) \<and>
     (\<forall>k g. reg_peek (gov_by_pair r) k = Some g \<longrightarrow> governor_inv g) \<and>
     (\<forall>k g. reg_peek (gov_gates r) k = Some g \<longrightarrow> gate_inv g)"

definition dispatch_inv :: "dispatch_state \<Rightarrow> bool" where
  "dispatch_inv s \<longleftrightarrow> breakers_closed (ds_breakers s) \<and> throttle_ok (ds_throttle s) \<and>
     (\<forall>i fl. ds_flights s i = Some fl \<longrightarrow> flight_ok s fl)"

lemma fresh_breaker_closed: "\<not> is_open (breaker_of_config c)"
  by (simp add: breaker_of_config_def breaker_new_def is_open_def)

lemma breakers_closed_for:
  assumes "breakers_closed r"
  shows "breakers_closed (snd (breaker_for r p rl))"
    and "\<not> is_open (reg_cell (by_pair (snd (breaker_for r p rl))) (fst (breaker_for r p rl)))"
proof -
  have i: "reg_wf (by_pair r) \<and> default_config r = default_config r" using assms by (simp add: breakers_closed_def)
  have all: "\<forall>k b. reg_peek (by_pair (snd (breaker_for r p rl))) k = Some b \<longrightarrow> \<not> is_open b"
    using breakers.all_cells_get [OF i, of "\<lambda>b. \<not> is_open b" "(p, rl)"] assms fresh_breaker_closed
    by (simp add: breakers_closed_def)
  then show "breakers_closed (snd (breaker_for r p rl))"
    using breakers.get_inv [OF i, of "(p, rl)"] by (simp add: breakers_closed_def)
  show "\<not> is_open (reg_cell (by_pair (snd (breaker_for r p rl))) (fst (breaker_for r p rl)))"
    using all [rule_format, of "(p, rl)"] breakers.get_handle [OF i, of "(p, rl)"]
    by (simp add: reg_peek_def)
qed

lemma registry_is_open_closed:
  assumes "breakers_closed r"
  shows "registry_is_open r p rl = (False, snd (breaker_for r p rl))"
  using breakers_closed_for [OF assms, of p rl]
  by (cases "breaker_for r p rl") (simp add: registry_is_open_def)

lemma throttle_ok_governor_for:
  assumes "throttle_ok r"
  shows "throttle_ok (snd (governor_for r p rl))"
  using assms governors.get_inv [of r "(p, rl)"]
    governors.all_cells_get [of r governor_inv "(p, rl)"]
  by (simp add: throttle_ok_def governor_for_simps governor_inv_new throttle_config_default_for_role_wf)

lemma throttle_ok_gate_for:
  assumes "throttle_ok r"
  shows "throttle_ok (snd (provider_gate_for r p))"
  using assms gates.get_inv [of r p] gates.all_cells_get [of r gate_inv p]
  by (simp add: throttle_ok_def provider_gate_for_simps provider_gate_default_def)

lemma throttle_ok_gov_update:
  assumes "throttle_ok r" "reg_index (gov_by_pair r) k = Some a" "\<And>g. governor_inv g \<Longrightarrow> governor_inv (f g)"
  shows "throttle_ok (gov_update r a f)"
proof -
  have wf: "reg_wf (gov_by_pair r)" and all: "\<forall>k g. reg_peek (gov_by_pair r) k = Some g \<longrightarrow> governor_inv g"
    using assms(1) by (simp_all add: throttle_ok_def)
  show ?thesis
    using governors.all_cells_update [OF wf assms(2) all assms(3)] reg_wf_update [OF wf, of a f] assms(1)
    by (simp add: throttle_ok_def gov_update_def)
qed

lemma throttle_ok_gate_update:
  assumes "throttle_ok r" "reg_index (gov_gates r) k = Some a" "\<And>g. gate_inv g \<Longrightarrow> gate_inv (f g)"
  shows "throttle_ok (gate_update r a f)"
proof -
  have wf: "reg_wf (gov_gates r)" and all: "\<forall>k g. reg_peek (gov_gates r) k = Some g \<longrightarrow> gate_inv g"
    using assms(1) by (simp_all add: throttle_ok_def)
  show ?thesis
    using gates.all_cells_update [OF wf assms(2) all assms(3)] reg_wf_update [OF wf, of a f] assms(1)
    by (simp add: throttle_ok_def gate_update_def)
qed

lemma update_index [simp]:
  "reg_index (gov_by_pair (gov_update r a f)) = reg_index (gov_by_pair r)"
  "gov_gates (gov_update r a f) = gov_gates r"
  "reg_index (gov_gates (gate_update r a h)) = reg_index (gov_gates r)"
  "gov_by_pair (gate_update r a h) = gov_by_pair r"
  by (simp_all add: gov_update_def gate_update_def)

text \<open>The begin segment: never refused, and the handles it returns are those of its keys.\<close>

lemma dispatch_begin_eq:
  assumes "breakers_closed (ds_breakers s)"
  shows "dispatch_begin draw now sec rl s =
    (let g = fst (governor_for (ds_throttle s) sec rl);
         thr1 = snd (governor_for (ds_throttle s) sec rl);
         p = fst (provider_gate_for thr1 sec);
         thr2 = snd (provider_gate_for thr1 sec)
     in (Inr (\<lparr>fl_section = sec, fl_role = rl, fl_governor = g, fl_gate = p\<rparr>,
              gate_pre_call draw now (gate_cell thr2 p)),
         s\<lparr>ds_breakers := snd (breaker_for (ds_breakers s) sec rl), ds_throttle := thr2\<rparr>))"
  by (simp add: dispatch_begin_def registry_is_open_closed [OF assms] Let_def split: prod.split)

lemma dispatch_begin_ok:
  assumes "dispatch_inv s" "dispatch_begin draw now sec rl s = (r, s')"
  obtains fl d where "r = Inr (fl, d)" "dispatch_inv s'" "flight_ok s' fl"
    "fl_section fl = sec" "fl_role fl = rl" "ds_flights s' = ds_flights s"
    "ds_saturation s' = ds_saturation s"
proof -
  define g thr1 p thr2 where defs: "g = fst (governor_for (ds_throttle s) sec rl)"
    "thr1 = snd (governor_for (ds_throttle s) sec rl)"
    "p = fst (provider_gate_for thr1 sec)" "thr2 = snd (provider_gate_for thr1 sec)"
  let ?fl = "\<lparr>fl_section = sec, fl_role = rl, fl_governor = g, fl_gate = p\<rparr>"
  have bc: "breakers_closed (ds_breakers s)" and ok: "throttle_ok (ds_throttle s)"
    and fl: "\<And>i fl. ds_flights s i = Some fl \<Longrightarrow> flight_ok s fl"
    using assms(1) by (auto simp: dispatch_inv_def)
  have ok1: "throttle_ok thr1" unfolding defs by (rule throttle_ok_governor_for [OF ok])
  have ok2: "throttle_ok thr2" unfolding defs(4) by (rule throttle_ok_gate_for [OF ok1])
  have wf: "reg_wf (gov_by_pair (ds_throttle s))" "reg_wf (gov_gates thr1)"
    using ok ok1 by (simp_all add: throttle_ok_def)
  have gi: "gov_gates thr1 = gov_gates (ds_throttle s)" "gov_by_pair thr2 = gov_by_pair thr1"
    by (simp_all add: defs governor_for_simps provider_gate_for_simps)
  have s': "r = Inr (?fl, gate_pre_call draw now (gate_cell thr2 p))"
    "s' = s\<lparr>ds_breakers := snd (breaker_for (ds_breakers s) sec rl), ds_throttle := thr2\<rparr>"
    using assms(2) dispatch_begin_eq [OF bc, of draw now sec rl] by (simp_all add: defs Let_def)
  have "flight_ok s' ?fl"
    using governors.get_handle [OF wf(1), of "(sec, rl)"] gates.get_handle [OF wf(2), of sec]
    by (simp add: flight_ok_def s' gi flip: defs)
  moreover have "flight_ok s' f" if "ds_flights s' i = Some f" for i f
  proof -
    have "flight_ok s f" using fl that s' by simp
    then show ?thesis
      using governors.handle_kept [OF wf(1), of _ _ "(sec, rl)"] gates.handle_kept [OF wf(2), of _ _ sec]
      by (simp add: flight_ok_def s' gi) (simp add: defs governor_for_simps)
  qed
  ultimately show thesis
    using that [of ?fl] s' ok2 breakers_closed_for(1) [OF bc] by (simp add: dispatch_inv_def)
qed

lemma gate_inv_429: "gate_inv g \<Longrightarrow> gate_inv (snd (gate_on_429 t g))"
  using gate_inv_step [of g "Gate_429 t"] by simp

lemma gate_inv_success: "gate_inv g \<Longrightarrow> gate_inv (gate_on_success g)"
  using gate_inv_step [of g Gate_Success] by simp

lemma dispatch_finish_frame:
  "ds_breakers (dispatch_finish n1 n2 fl r s) = ds_breakers s"
  "ds_flights (dispatch_finish n1 n2 fl r s) = ds_flights s"
  "reg_index (gov_by_pair (ds_throttle (dispatch_finish n1 n2 fl r s))) = reg_index (gov_by_pair (ds_throttle s))"
  "reg_index (gov_gates (ds_throttle (dispatch_finish n1 n2 fl r s))) = reg_index (gov_gates (ds_throttle s))"
  by (auto simp: dispatch_finish_def gate_refuse_def record_saturation_429_def Let_def
      split: sum.split option.split provider_cause.split)

lemma throttle_ok_finish:
  assumes "throttle_ok (ds_throttle s)" "flight_ok s fl"
  shows "throttle_ok (ds_throttle (dispatch_finish n1 n2 fl r s))"
  using assms
  by (auto simp: dispatch_finish_def gate_refuse_def record_saturation_429_def flight_ok_def Let_def
      intro!: throttle_ok_gov_update throttle_ok_gate_update gate_inv_429 gate_inv_success
        governor_inv_429 governor_inv_success
      split: sum.split option.split provider_cause.split)

lemma flight_ok_finish: "flight_ok (dispatch_finish n1 n2 fl r s) = flight_ok s"
  by (rule ext) (simp add: flight_ok_def dispatch_finish_frame)

lemma dispatch_inv_finish:
  assumes "dispatch_inv s" "flight_ok s fl"
  shows "dispatch_inv (dispatch_finish n1 n2 fl r s)"
  using assms throttle_ok_finish [of s fl n1 n2 r]
  by (simp add: dispatch_inv_def dispatch_finish_frame flight_ok_finish)

lemma flight_ok_flights [simp]: "flight_ok (s\<lparr>ds_flights := f\<rparr>) = flight_ok s"
  by (rule ext) (simp add: flight_ok_def)

lemma dispatch_inv_step: "dispatch_inv s \<Longrightarrow> dispatch_inv (dispatch_step draw s e)"
proof (cases e)
  case (D_Begin i now sec rl)
  assume inv: "dispatch_inv s"
  obtain r s' where b: "dispatch_begin draw now sec rl s = (r, s')" by (cases "dispatch_begin draw now sec rl s")
  obtain fl d where "r = Inr (fl, d)" "dispatch_inv s'" "flight_ok s' fl"
    using dispatch_begin_ok [OF inv b] by metis
  then show ?thesis
    using D_Begin b by (auto simp: dispatch_inv_def)
next
  case (D_Finish i n1 n2 r)
  assume inv: "dispatch_inv s"
  show ?thesis
  proof (cases "ds_flights s i")
    case (Some fl)
    then have "flight_ok s fl" using inv by (simp add: dispatch_inv_def)
    from dispatch_inv_finish [OF inv this, of n1 n2 r] show ?thesis
      using D_Finish Some by (auto simp: dispatch_inv_def dispatch_finish_frame flight_ok_finish split: if_splits)
  qed (use inv D_Finish in simp)
qed

interpretation dispatch_machine: event_machine "dispatch_step draw" dispatch_inv for draw
  by unfold_locales (rule dispatch_inv_step)


section \<open>The contract of the wrapper\<close>

text \<open>
  What the wrapper promises, with the shared objects and their handles abstracted away: a
  governor per (provider, role), a gate per provider, the calls in flight by their keys and
  the saturation events.
\<close>

record throttle_spec =
  sp_governors :: "string \<times> role \<Rightarrow> throttle_governor option"
  sp_gates :: "string \<Rightarrow> provider_gate option"
  sp_flights :: "nat \<Rightarrow> (string \<times> role) option"
  sp_saturation :: "saturation_event list"

definition abs_dispatch :: "dispatch_state \<Rightarrow> throttle_spec" where
  "abs_dispatch s =
     \<lparr>sp_governors = reg_peek (gov_by_pair (ds_throttle s)), sp_gates = reg_peek (gov_gates (ds_throttle s)),
      sp_flights = (\<lambda>i. map_option (\<lambda>fl. (fl_section fl, fl_role fl)) (ds_flights s i)),
      sp_saturation = ds_saturation s\<rparr>"

definition or_default :: "'v \<Rightarrow> 'v option \<Rightarrow> 'v" where
  "or_default d x = (case x of None \<Rightarrow> d | Some v \<Rightarrow> v)"

definition spec_begin :: "nat \<Rightarrow> string \<Rightarrow> role \<Rightarrow> throttle_spec \<Rightarrow> throttle_spec" where
  "spec_begin i sec rl a =
     a\<lparr>sp_governors := (sp_governors a)((sec, rl) \<mapsto>
         or_default (governor_new (throttle_config_default_for_role rl)) (sp_governors a (sec, rl))),
       sp_gates := (sp_gates a)(sec \<mapsto> or_default provider_gate_default (sp_gates a sec)),
       sp_flights := (sp_flights a)(i \<mapsto> (sec, rl))\<rparr>"

definition spec_refuse :: "instant \<Rightarrow> string \<Rightarrow> role \<Rightarrow> u64 option \<Rightarrow> throttle_spec \<Rightarrow> throttle_spec" where
  "spec_refuse t sec rl ra a =
     (let g = gate_on_429 t (the (sp_gates a sec))
      in a\<lparr>sp_gates := (sp_gates a)(sec \<mapsto> snd g),
           sp_saturation := sp_saturation a @
             [\<lparr>sat_provider = sec, sat_role = role_as_str rl, sat_backoff_ms = fst g, sat_retry_after = ra\<rparr>]\<rparr>)"

definition spec_finish :: "instant \<Rightarrow> instant \<Rightarrow> string \<Rightarrow> role \<Rightarrow> 'v result \<Rightarrow> throttle_spec \<Rightarrow> throttle_spec" where
  "spec_finish t1 t2 sec rl r a =
     (case r of
        Inr _ \<Rightarrow>
          a\<lparr>sp_governors := (sp_governors a)((sec, rl) \<mapsto> governor_on_success t2 (the (sp_governors a (sec, rl)))),
            sp_gates := (sp_gates a)(sec \<mapsto> gate_on_success (the (sp_gates a sec)))\<rparr>
      | Inl e \<Rightarrow>
          (case err_provider_cause e of
             Some (Cause_Throttled ra _) \<Rightarrow>
               (spec_refuse t1 sec rl ra a)\<lparr>sp_governors := (sp_governors a)((sec, rl) \<mapsto>
                  on_transient_429 t2 (map_option from_millis ra) (the (sp_governors a (sec, rl))))\<rparr>
           | Some (Cause_PlanExhausted _) \<Rightarrow> spec_refuse t1 sec rl None a
           | _ \<Rightarrow> a))"

primrec spec_step :: "throttle_spec \<Rightarrow> dispatch_event \<Rightarrow> throttle_spec" where
  "spec_step a (D_Begin i now sec rl) = spec_begin i sec rl a"
| "spec_step a (D_Finish i t1 t2 r) =
     (case sp_flights a i of
        None \<Rightarrow> a
      | Some (sec, rl) \<Rightarrow> (spec_finish t1 t2 sec rl r a)\<lparr>sp_flights := (sp_flights a)(i := None)\<rparr>)"

text \<open>The registries as maps.\<close>

lemma peek_gov_get:
  "reg_wf (gov_by_pair r) \<Longrightarrow> reg_peek (gov_by_pair (snd (governor_for r sec rl))) =
     (reg_peek (gov_by_pair r))((sec, rl) \<mapsto>
        or_default (governor_new (throttle_config_default_for_role rl)) (reg_peek (gov_by_pair r) (sec, rl)))"
  using governors.get_value [of r "(sec, rl)"] governors.get_other [of r _ "(sec, rl)"]
  by (auto simp: or_default_def fun_eq_iff split: option.splits)

lemma peek_gate_get:
  "reg_wf (gov_gates r) \<Longrightarrow> reg_peek (gov_gates (snd (provider_gate_for r sec))) =
     (reg_peek (gov_gates r))(sec \<mapsto> or_default provider_gate_default (reg_peek (gov_gates r) sec))"
  using gates.get_value [of r sec] gates.get_other [of r _ sec]
  by (auto simp: or_default_def fun_eq_iff split: option.splits)

lemma peek_gov_update:
  "reg_wf (gov_by_pair r) \<Longrightarrow> reg_index (gov_by_pair r) k = Some a \<Longrightarrow>
   reg_peek (gov_by_pair (gov_update r a f)) =
     (reg_peek (gov_by_pair r))(k \<mapsto> f (the (reg_peek (gov_by_pair r) k)))"
  using governors.update_other [of r k a _ f] governors.update_same [of r k a f]
  by (auto simp: fun_eq_iff reg_peek_def gov_cell_def)

lemma peek_gate_update:
  "reg_wf (gov_gates r) \<Longrightarrow> reg_index (gov_gates r) k = Some a \<Longrightarrow>
   reg_peek (gov_gates (gate_update r a f)) =
     (reg_peek (gov_gates r))(k \<mapsto> f (the (reg_peek (gov_gates r) k)))"
  using gates.update_other [of r k a _ f] gates.update_same [of r k a f]
  by (auto simp: fun_eq_iff reg_peek_def gate_cell_def)

lemma abs_finish:
  assumes "dispatch_inv s" "flight_ok s fl"
  shows "abs_dispatch (dispatch_finish t1 t2 fl r s) = spec_finish t1 t2 (fl_section fl) (fl_role fl) r (abs_dispatch s)"
proof -
  have wf: "reg_wf (gov_by_pair (ds_throttle s))" "reg_wf (gov_gates (ds_throttle s))"
    using assms(1) by (simp_all add: dispatch_inv_def throttle_ok_def)
  have ix: "reg_index (gov_by_pair (ds_throttle s)) (fl_section fl, fl_role fl) = Some (fl_governor fl)"
    "reg_index (gov_gates (ds_throttle s)) (fl_section fl) = Some (fl_gate fl)"
    using assms(2) by (simp_all add: flight_ok_def)
  have cell: "gate_cell (ds_throttle s) (fl_gate fl) = the (reg_peek (gov_gates (ds_throttle s)) (fl_section fl))"
    using ix(2) by (simp add: gate_cell_def reg_peek_def)
  show ?thesis
    using wf ix
    by (auto simp: dispatch_finish_def spec_finish_def gate_refuse_def spec_refuse_def record_saturation_429_def
        abs_dispatch_def Let_def cell peek_gov_update peek_gate_update
        split: sum.split option.split provider_cause.split)
qed

lemma abs_begin:
  assumes "dispatch_inv s" "dispatch_begin draw now sec rl s = (Inr (fl, d), s')"
  shows "abs_dispatch (s'\<lparr>ds_flights := (ds_flights s')(i \<mapsto> fl)\<rparr>) = spec_begin i sec rl (abs_dispatch s)"
proof -
  have bc: "breakers_closed (ds_breakers s)"
    and wf: "reg_wf (gov_by_pair (ds_throttle s))" "reg_wf (gov_gates (ds_throttle s))"
    using assms(1) by (simp_all add: dispatch_inv_def throttle_ok_def)
  have "reg_wf (gov_gates (snd (governor_for (ds_throttle s) sec rl)))"
    using wf(2) by (simp add: governor_for_simps)
  then show ?thesis
    using assms(2) dispatch_begin_eq [OF bc, of draw now sec rl] wf peek_gov_get [OF wf(1), of sec rl]
    by (auto simp: abs_dispatch_def spec_begin_def Let_def peek_gate_get provider_gate_for_simps(3)
        governor_for_simps(3) fun_eq_iff)
qed

lemma abs_step:
  assumes "dispatch_inv s"
  shows "abs_dispatch (dispatch_step draw s e) = spec_step (abs_dispatch s) e"
proof (cases e)
  case (D_Begin i now sec rl)
  obtain r s' where b: "dispatch_begin draw now sec rl s = (r, s')" by (cases "dispatch_begin draw now sec rl s")
  obtain fl d where "r = Inr (fl, d)" using dispatch_begin_ok [OF assms b] by metis
  with D_Begin b abs_begin [OF assms, of draw now sec rl fl d s' i] show ?thesis by simp
next
  case (D_Finish i t1 t2 r)
  show ?thesis
  proof (cases "ds_flights s i")
    case None
    then show ?thesis using D_Finish by (simp add: abs_dispatch_def)
  next
    case (Some fl)
    then have "flight_ok s fl" using assms by (simp add: dispatch_inv_def)
    note f = abs_finish [OF assms this, of t1 t2 r]
    have "abs_dispatch (s'\<lparr>ds_flights := (ds_flights s)(i := None)\<rparr>)
        = (abs_dispatch s')\<lparr>sp_flights := (sp_flights (abs_dispatch s))(i := None)\<rparr>" for s'
      by (auto simp: abs_dispatch_def fun_eq_iff)
    then show ?thesis using D_Finish Some f by (simp add: abs_dispatch_def [of s] fun_eq_iff)
  qed
qed

definition dispatch_init :: "breaker_config \<Rightarrow> (string \<times> role \<times> breaker_config) list \<Rightarrow> dispatch_state" where
  "dispatch_init c pre =
     \<lparr>ds_breakers = foldl (\<lambda>r (p, rl, cfg). pre_create r p rl cfg) (breaker_registry_new_with_config c) pre,
      ds_throttle = governor_registry_new, ds_saturation = [], ds_flights = (\<lambda>_. None)\<rparr>"

lemma breakers_closed_pre_create: "breakers_closed r \<Longrightarrow> breakers_closed (pre_create r p rl cfg)"
  by (auto simp: breakers_closed_def pre_create_def reg_wf_insert reg_peek_insert fresh_breaker_closed split: if_splits)

lemma breakers_closed_pre_creates:
  "breakers_closed r \<Longrightarrow> breakers_closed (foldl (\<lambda>r (p, rl, cfg). pre_create r p rl cfg) r pre)"
  by (induction pre arbitrary: r) (auto simp: breakers_closed_pre_create)

lemma reg_peek_empty [simp]: "reg_peek reg_empty k = None"
  by (simp add: reg_peek_def reg_empty_def)

lemma breakers_closed_new: "breakers_closed (breaker_registry_new_with_config c)"
  by (simp add: breakers_closed_def breaker_registry_new_with_config_def)

lemma throttle_ok_new: "throttle_ok governor_registry_new"
  by (simp add: throttle_ok_def governor_registry_new_def)

lemma dispatch_inv_init: "dispatch_inv (dispatch_init c pre)"
  by (simp add: dispatch_inv_def dispatch_init_def throttle_ok_new
      breakers_closed_pre_creates [OF breakers_closed_new])

lemma dispatch_inv_run: "dispatch_inv (foldl (dispatch_step draw) (dispatch_init c pre) es)"
  by (rule dispatch_machine.run_inv [OF dispatch_inv_init])

section \<open>Properties\<close>

text \<open>C38: No dispatch is ever refused by a breaker: after any interleaving of any number of
  provider calls, whatever their outcomes (exhausted plans included) and whatever breakers
  were configured at startup, the breaker check of the next call passes. Nothing on the
  dispatch path records a failure or trips a breaker.\<close>

theorem dispatch_never_refused:
  "\<exists>fl d. fst (dispatch_begin draw now sec rl (foldl (dispatch_step draw') (dispatch_init c pre) es))
       = Inr (fl, d)"
proof -
  let ?s = "foldl (dispatch_step draw') (dispatch_init c pre) es"
  obtain r s' where b: "dispatch_begin draw now sec rl ?s = (r, s')" by (cases "dispatch_begin draw now sec rl ?s")
  obtain fl d where "r = Inr (fl, d)" using dispatch_begin_ok [OF dispatch_inv_run b] by metis
  with b show ?thesis by simp
qed

text \<open>C37: The wrapper with its shared, aliased governors and gates refines its contract: the
  abstraction of the state after any interleaving of calls is what the contract's steps
  (a governor per provider and role, a gate per provider, updated by key) compute.\<close>

theorem dispatch_refines_contract:
  "abs_dispatch (foldl (dispatch_step draw) (dispatch_init c pre) es)
     = foldl spec_step (abs_dispatch (dispatch_init c pre)) es"
proof -
  have "dispatch_inv s \<Longrightarrow> abs_dispatch (foldl (dispatch_step draw) s es) = foldl spec_step (abs_dispatch s) es" for s
    by (induction es arbitrary: s) (simp_all add: abs_step dispatch_inv_step)
  then show ?thesis using dispatch_inv_init by blast
qed

text \<open>In every reachable state every governor keeps its concurrency estimate between one and
  its maximum and its backoff within its cap, and every gate keeps its backoff within its cap.\<close>

lemma dispatch_throttles_bounded:
  "throttle_ok (ds_throttle (foldl (dispatch_step draw) (dispatch_init c pre) es))"
  using dispatch_inv_run by (simp add: dispatch_inv_def)

definition begin_sleep :: "(u64 \<Rightarrow> u64) \<Rightarrow> instant \<Rightarrow> string \<Rightarrow> role \<Rightarrow> dispatch_state \<Rightarrow> duration option" where
  "begin_sleep draw now sec rl s =
     (case fst (dispatch_begin draw now sec rl s) of Inl _ \<Rightarrow> None | Inr (_, d) \<Rightarrow> Some d)"

lemma begin_sleep_eq:
  assumes "dispatch_inv s"
  shows "begin_sleep draw now sec rl s =
    Some (gate_pre_call draw now (or_default provider_gate_default (sp_gates (abs_dispatch s) sec)))"
proof -
  have bc: "breakers_closed (ds_breakers s)" and wf: "reg_wf (gov_gates (ds_throttle s))"
    using assms by (simp_all add: dispatch_inv_def throttle_ok_def)
  have "reg_wf (gov_gates (snd (governor_for (ds_throttle s) sec rl)))"
    using wf by (simp add: governor_for_simps)
  then show ?thesis
    using dispatch_begin_eq [OF bc, of draw now sec rl] gates.cell_of_get
    by (simp add: begin_sleep_def Let_def abs_dispatch_def governor_for_simps(3) or_default_def)
qed

lemma gate_429_sleep:
  "t + from_millis (fst (gate_on_429 t g)) \<le> now + gate_pre_call draw now (snd (gate_on_429 t g))"
proof -
  obtain u where u: "pg_until (snd (gate_on_429 t g)) = Some u" "t + from_millis (fst (gate_on_429 t g)) \<le> u"
    using gate_429_until [of t g] by (auto simp: gate_on_429_def Let_def)
  show ?thesis
    using gate_pre_call_waits [OF u(1), of now draw] u(2) by (cases "now < u") auto
qed

text \<open>C4: A 429 holds the whole provider: when a call is refused by the upstream with a 429 read
  at \<open>t\<close>, a call of any role on the same provider that begins next sleeps until at least
  the cooldown recorded with the saturation event is over, and a call on another provider
  sleeps as it would have slept without the refusal.\<close>

theorem throttled_call_holds_provider:
  assumes "s = foldl (dispatch_step draw) (dispatch_init c pre) es" and "ds_flights s i = Some fl"
    and "err_provider_cause e = Some (Cause_Throttled ra m)"
    and "s' = dispatch_step draw s (D_Finish i t t' (Inl e))"
  shows "(\<exists>d. begin_sleep draw now (fl_section fl) rl s' = Some d \<and>
            t + from_millis (sat_backoff_ms (last (ds_saturation s'))) \<le> now + d) \<and>
         (\<forall>p. p \<noteq> fl_section fl \<longrightarrow> begin_sleep draw now p rl s' = begin_sleep draw now p rl s)"
proof -
  have inv: "dispatch_inv s" unfolding assms(1) by (rule dispatch_inv_run)
  have inv': "dispatch_inv s'" unfolding assms(4) by (rule dispatch_inv_step [OF inv])
  have a: "abs_dispatch s' = spec_step (abs_dispatch s) (D_Finish i t t' (Inl e))"
    unfolding assms(4) by (rule abs_step [OF inv])
  let ?g = "the (sp_gates (abs_dispatch s) (fl_section fl))"
  have fl: "sp_flights (abs_dispatch s) i = Some (fl_section fl, fl_role fl)"
    using assms(2) by (simp add: abs_dispatch_def)
  have gates: "sp_gates (abs_dispatch s') = (sp_gates (abs_dispatch s))(fl_section fl \<mapsto> snd (gate_on_429 t ?g))"
    and sat: "sat_backoff_ms (last (sp_saturation (abs_dispatch s'))) = fst (gate_on_429 t ?g)"
    unfolding a using fl assms(3) by (simp_all add: spec_finish_def spec_refuse_def Let_def)
  have "ds_saturation s' = sp_saturation (abs_dispatch s')" by (simp add: abs_dispatch_def)
  then show ?thesis
    using gate_429_sleep [of t ?g now draw]
    by (simp add: begin_sleep_eq [OF inv] begin_sleep_eq [OF inv'] gates sat or_default_def)
qed

text \<open>The bookkeeping of one call touches only its own keys: governors of other providers or
  roles and gates of other providers are left as they were, and an outcome that is neither a
  success, a 429 nor an exhausted plan changes nothing at all.\<close>

lemma dispatch_finish_isolated:
  assumes "s = foldl (dispatch_step draw) (dispatch_init c pre) es" and "ds_flights s i = Some fl"
  shows "(\<forall>k. k \<noteq> (fl_section fl, fl_role fl) \<longrightarrow>
            sp_governors (abs_dispatch (dispatch_finish t t' fl r s)) k = sp_governors (abs_dispatch s) k) \<and>
         (\<forall>p. p \<noteq> fl_section fl \<longrightarrow>
            sp_gates (abs_dispatch (dispatch_finish t t' fl r s)) p = sp_gates (abs_dispatch s) p) \<and>
         (case r of
            Inl e \<Rightarrow> (case err_provider_cause e of
                        Some (Cause_Throttled _ _) \<Rightarrow> True
                      | Some (Cause_PlanExhausted _) \<Rightarrow>
                          sp_governors (abs_dispatch (dispatch_finish t t' fl r s)) = sp_governors (abs_dispatch s)
                      | _ \<Rightarrow> dispatch_finish t t' fl r s = s)
          | Inr _ \<Rightarrow> True)"
proof -
  have inv: "dispatch_inv s" unfolding assms(1) by (rule dispatch_inv_run)
  then have "flight_ok s fl" using assms(2) by (simp add: dispatch_inv_def)
  note f = abs_finish [OF inv this, of t t' r]
  show ?thesis unfolding f
    by (auto simp: spec_finish_def spec_refuse_def dispatch_finish_def Let_def
        split: sum.split option.split provider_cause.split)
qed

section \<open>Witnesses\<close>

definition demo_state :: dispatch_state where
  "demo_state = foldl (dispatch_step (\<lambda>_. 0)) (dispatch_init breaker_config_default [])
                  [D_Begin 0 0 ''minimax'' Role_Judge]"

lemma demo_flight:
  "ds_flights demo_state 0 =
     Some \<lparr>fl_section = ''minimax'', fl_role = Role_Judge, fl_governor = 0, fl_gate = 0\<rparr>"
  by (simp add: demo_state_def dispatch_begin_def dispatch_init_def registry_is_open_def breaker_for_def
      reg_get_or_insert_def breaker_registry_new_with_config_def reg_empty_def reg_insert_def is_open_def
      reg_cell_def breaker_of_config_def breaker_new_def governor_for_def governor_registry_new_def
      provider_gate_for_def)

lemma throttled_call_holds_provider_witness:
  "\<exists>d. begin_sleep (\<lambda>_. 0) 7 ''minimax'' Role_Propose
        (dispatch_step (\<lambda>_. 0) demo_state (D_Finish 0 5 6 (Inl (Err_Throttled None ''slow'' (Some 429))))) = Some d"
  using throttled_call_holds_provider [OF demo_state_def demo_flight, of "Err_Throttled None ''slow'' (Some 429)"
      None "''slow''" _ 5 6 7 Role_Propose]
  by (auto simp: err_provider_cause_def)

end
