(* ===== verification/Dag.thy ===== *)
theory Dag imports Errors begin

text \<open>
  The deep-mode phase graph of \<open>src/phases/dag.rs\<close>: the phases and their names, the
  canonical graph, Kahn's layering and the layered executor. The graph type is the
  directed multigraph of \<open>petgraph\<close>: nodes are numbered from 0 in the order they were
  added, edges are kept in the order they were added, and \<open>neighbors_directed\<close> lists the
  other ends of a node's edges, the most recently added first. The lemmas give termination
  on every graph, the correctness and minimality of the layers, the exactness of the cycle
  report, and what the executor has run when it stops.
\<close>

section \<open>Phases\<close>

datatype (plugins only: code size) phase_id =
    Ph_Intake | Ph_Clarify | Ph_Route | Ph_Decompose | Ph_Thesis | Ph_Propose
  | Ph_Validate | Ph_ClusterProposals | Ph_Synthesize | Ph_Gate | Ph_Critique
  | Ph_Repair | Ph_Judge | Ph_Adversary | Ph_Rank | Ph_Deliver

primrec phase_as_str :: "phase_id \<Rightarrow> string" where
  "phase_as_str Ph_Intake = ''intake''"
| "phase_as_str Ph_Clarify = ''clarify''"
| "phase_as_str Ph_Route = ''route''"
| "phase_as_str Ph_Decompose = ''decompose''"
| "phase_as_str Ph_Thesis = ''thesis''"
| "phase_as_str Ph_Propose = ''propose''"
| "phase_as_str Ph_Validate = ''validate''"
| "phase_as_str Ph_ClusterProposals = ''cluster_proposals''"
| "phase_as_str Ph_Synthesize = ''synthesize''"
| "phase_as_str Ph_Gate = ''gate''"
| "phase_as_str Ph_Critique = ''critique''"
| "phase_as_str Ph_Repair = ''repair''"
| "phase_as_str Ph_Judge = ''judge''"
| "phase_as_str Ph_Adversary = ''adversary''"
| "phase_as_str Ph_Rank = ''rank''"
| "phase_as_str Ph_Deliver = ''deliver''"

definition phase_from_name :: "string \<Rightarrow> phase_id option" where
  "phase_from_name s =
     (if s = ''intake'' then Some Ph_Intake
      else if s = ''clarify'' then Some Ph_Clarify
      else if s = ''route'' then Some Ph_Route
      else if s = ''decompose'' then Some Ph_Decompose
      else if s = ''thesis'' then Some Ph_Thesis
      else if s = ''propose'' then Some Ph_Propose
      else if s = ''validate'' then Some Ph_Validate
      else if s = ''cluster_proposals'' then Some Ph_ClusterProposals
      else if s = ''synthesize'' then Some Ph_Synthesize
      else if s = ''gate'' then Some Ph_Gate
      else if s = ''critique'' then Some Ph_Critique
      else if s = ''repair'' then Some Ph_Repair
      else if s = ''judge'' then Some Ph_Judge
      else if s = ''adversary'' then Some Ph_Adversary
      else if s = ''rank'' then Some Ph_Rank
      else if s = ''deliver'' then Some Ph_Deliver
      else None)"

datatype edge_kind = Edge_Data | Edge_Order

section \<open>Graphs\<close>

record phase_graph =
  pg_nodes :: "phase_id list"
  pg_edges :: "(nat \<times> nat \<times> edge_kind) list"

definition graph_new :: phase_graph where
  "graph_new = \<lparr>pg_nodes = [], pg_edges = []\<rparr>"

definition add_node :: "phase_graph \<Rightarrow> phase_id \<Rightarrow> nat \<times> phase_graph" where
  "add_node g p = (length (pg_nodes g), g\<lparr>pg_nodes := pg_nodes g @ [p]\<rparr>)"

definition add_edge :: "phase_graph \<Rightarrow> nat \<Rightarrow> nat \<Rightarrow> edge_kind \<Rightarrow> phase_graph" where
  "add_edge g u v k = g\<lparr>pg_edges := pg_edges g @ [(u, v, k)]\<rparr>"

definition arcs :: "phase_graph \<Rightarrow> (nat \<times> nat) list" where
  "arcs g = rev (map (\<lambda>(u, v, _). (u, v)) (pg_edges g))"

definition successors :: "phase_graph \<Rightarrow> nat \<Rightarrow> nat list" where
  "successors g u = map snd (filter (\<lambda>(a, _). a = u) (arcs g))"

definition predecessors :: "phase_graph \<Rightarrow> nat \<Rightarrow> nat list" where
  "predecessors g v = map fst (filter (\<lambda>(_, b). b = v) (arcs g))"

definition canonical_order :: "phase_id list" where
  "canonical_order =
    [Ph_Intake, Ph_Clarify, Ph_Route, Ph_Decompose, Ph_Thesis, Ph_Propose, 
     Ph_Validate, Ph_ClusterProposals, Ph_Synthesize, Ph_Gate, Ph_Critique, Ph_Repair, 
     Ph_Judge, Ph_Adversary, Ph_Rank, Ph_Deliver]"

definition canonical_pairs :: "(phase_id \<times> phase_id) list" where
  "canonical_pairs =
    [(Ph_Intake, Ph_Clarify), (Ph_Clarify, Ph_Route), (Ph_Route, Ph_Decompose), 
     (Ph_Decompose, Ph_Thesis), (Ph_Thesis, Ph_Propose), (Ph_Propose, Ph_Validate), 
     (Ph_Validate, Ph_ClusterProposals), (Ph_ClusterProposals, Ph_Synthesize), (Ph_Synthesize, Ph_Gate), 
     (Ph_Gate, Ph_Critique), (Ph_Critique, Ph_Repair), (Ph_Repair, Ph_Judge), 
     (Ph_Judge, Ph_Adversary), (Ph_Adversary, Ph_Rank), (Ph_Rank, Ph_Deliver)]"

definition add_nodes :: "phase_id list \<Rightarrow> phase_graph \<times> (phase_id \<rightharpoonup> nat) \<Rightarrow> phase_graph \<times> (phase_id \<rightharpoonup> nat)" where
  "add_nodes ps s = foldl (\<lambda>(g, idx) p. case add_node g p of (node, g') \<Rightarrow> (g', idx(p \<mapsto> node))) s ps"

text \<open>\<open>idx[&from]\<close> panics on a missing key; every pair names phases of the order.\<close>

definition build_dag_for_deep_mode :: phase_graph where
  "build_dag_for_deep_mode =
     (case add_nodes canonical_order (graph_new, \<lambda>_. None) of
        (g, idx) \<Rightarrow>
          foldl (\<lambda>g (from, to). add_edge g (the (idx from)) (the (idx to)) Edge_Data) g canonical_pairs)"

section \<open>Kahn's layers\<close>

type_synonym degrees = "nat \<rightharpoonup> nat"

definition initial_degrees :: "phase_graph \<Rightarrow> degrees" where
  "initial_degrees g v = (if v < length (pg_nodes g) then Some (length (predecessors g v)) else None)"

definition relax :: "nat \<Rightarrow> degrees \<times> nat list \<Rightarrow> degrees \<times> nat list" where
  "relax succ s =
     (case s of (deg, next_layer) \<Rightarrow>
        (case deg succ of
           None \<Rightarrow> (deg, next_layer)
         | Some d \<Rightarrow> (deg(succ \<mapsto> d - 1), if d - 1 = 0 then next_layer @ [succ] else next_layer)))"

definition place :: "phase_graph \<Rightarrow> nat \<Rightarrow> degrees \<times> nat list \<Rightarrow> degrees \<times> nat list" where
  "place g node s = (case s of (deg, next_layer) \<Rightarrow> fold relax (successors g node) (deg(node := None), next_layer))"

partial_function (option) kahn_loop ::
  "phase_graph \<Rightarrow> degrees \<Rightarrow> nat list list \<Rightarrow> nat list \<Rightarrow> nat \<Rightarrow> (degrees \<times> nat list list \<times> nat) option"
where
  "kahn_loop g deg layers current placed =
     (if current = [] then Some (deg, layers, placed)
      else case fold (place g) current (deg, []) of
             (deg', next_layer) \<Rightarrow>
               kahn_loop g deg' (layers @ [current]) (sort next_layer) (placed + length current))"

declare kahn_loop.simps [code]

definition cycle_error :: "string list \<Rightarrow> error" where
  "cycle_error stuck =
     Err_InvalidState (''phase DAG is not a DAG (cycle suspected); stuck at: ['' @ join_str '', '' stuck @ '']'')"

definition topological_layers :: "phase_graph \<Rightarrow> nat list list result option" where
  "topological_layers g =
     (let n = length (pg_nodes g);
          deg = initial_degrees g;
          current = filter (\<lambda>v. deg v = Some 0) [0..<n]
      in case kahn_loop g deg [] current 0 of
           None \<Rightarrow> None
         | Some (deg', layers, placed) \<Rightarrow>
             Some (if placed < n
                   then Inl (cycle_error (map (\<lambda>v. phase_as_str (pg_nodes g ! v))
                                (filter (\<lambda>v. deg' v \<noteq> None) [0..<n])))
                   else Inr layers))"

definition phase_node :: "phase_graph \<Rightarrow> string \<Rightarrow> nat option" where
  "phase_node g name = find (\<lambda>v. phase_as_str (pg_nodes g ! v) = name) [0..<length (pg_nodes g)]"

section \<open>The executor\<close>

text \<open>
  A supplied phase is its name and the outcome of its \<open>execute\<close>. The trace lists the nodes
  in the order their layers were started; the phases of a layer run concurrently and all of
  them run to their end (\<open>join_all\<close>).
\<close>

definition phase_table :: "(string \<times> 'o result) list \<Rightarrow> string \<rightharpoonup> 'o result" where
  "phase_table phases = foldl (\<lambda>m (name, p). m(name \<mapsto> p)) (\<lambda>_. None) phases"

definition no_implementation :: "string \<Rightarrow> error" where
  "no_implementation name =
     Err_InvalidState (''phase DAG references '' @ [CHR 0x22] @ name @ [CHR 0x22] @
       '' but no implementation was supplied; add the phase to the pipeline or remove the node from the graph'')"

definition run_node :: "phase_graph \<Rightarrow> (string \<rightharpoonup> 'o result) \<Rightarrow> nat \<Rightarrow> 'o result" where
  "run_node g table v =
     (let name = phase_as_str (pg_nodes g ! v)
      in case table name of Some r \<Rightarrow> r | None \<Rightarrow> Inl (no_implementation name))"

fun collect_results :: "'o list \<Rightarrow> 'o result list \<Rightarrow> 'o list result" where
  "collect_results outputs [] = Inr outputs"
| "collect_results outputs (Inl e # _) = Inl e"
| "collect_results outputs (Inr x # rs) = collect_results (outputs @ [x]) rs"

fun run_layers :: "phase_graph \<Rightarrow> (string \<rightharpoonup> 'o result) \<Rightarrow> 'o list \<Rightarrow> nat list list \<Rightarrow> 'o list result \<times> nat list list" where
  "run_layers g table outputs [] = (Inr outputs, [])"
| "run_layers g table outputs (layer # rest) =
     (case collect_results outputs (map (run_node g table) layer) of
        Inl e \<Rightarrow> (Inl e, [layer])
      | Inr outputs' \<Rightarrow> (case run_layers g table outputs' rest of (r, tr) \<Rightarrow> (r, layer # tr)))"

definition execute_dag ::
  "phase_graph \<Rightarrow> (string \<times> 'o result) list \<Rightarrow> ('o list result \<times> nat list list) option"
where
  "execute_dag g phases =
     (case topological_layers g of
        None \<Rightarrow> None
      | Some (Inl e) \<Rightarrow> Some (Inl e, [])
      | Some (Inr layers) \<Rightarrow> Some (run_layers g (phase_table phases) [] layers))"


section \<open>Correctness of the layers\<close>

definition graph_wf :: "phase_graph \<Rightarrow> bool" where
  "graph_wf g \<longleftrightarrow> list_all (\<lambda>(u, v). u < length (pg_nodes g) \<and> v < length (pg_nodes g)) (arcs g)"

text \<open>The edges into a node whose source is not yet placed.\<close>

definition open_indegree :: "phase_graph \<Rightarrow> nat set \<Rightarrow> nat \<Rightarrow> nat" where
  "open_indegree g P v = length (filter (\<lambda>(a, b). b = v \<and> a \<notin> P) (arcs g))"

definition degrees_ok :: "phase_graph \<Rightarrow> nat set \<Rightarrow> nat list \<Rightarrow> degrees \<Rightarrow> bool" where
  "degrees_ok g P ss deg \<longleftrightarrow>
     (\<forall>v. deg v = (if v < length (pg_nodes g) \<and> v \<notin> P
                 then Some (open_indegree g P v + count_list ss v) else None))"

definition frontier_ok :: "nat list \<Rightarrow> nat list \<Rightarrow> degrees \<Rightarrow> bool" where
  "frontier_ok next_layer rest deg \<longleftrightarrow>
     distinct (next_layer @ rest) \<and> (\<forall>v. deg v = Some 0 \<longleftrightarrow> v \<in> set next_layer \<union> set rest)"

lemma relax_ok:
  assumes "degrees_ok g P (x # ss) deg" "frontier_ok nl rest deg" "relax x (deg, nl) = (deg', nl')"
  shows "degrees_ok g P ss deg' \<and> frontier_ok nl' rest deg'"
proof (cases "deg x")
  case None
  then have "\<not> (x < length (pg_nodes g) \<and> x \<notin> P)" using assms(1) by (auto simp: degrees_ok_def split: if_splits)
  then have "degrees_ok g P ss deg" using assms(1) by (auto simp: degrees_ok_def)
  then show ?thesis using None assms by (simp add: relax_def)
next
  case (Some d)
  then have x: "x < length (pg_nodes g)" "x \<notin> P" "d = Suc (open_indegree g P x + count_list ss x)"
    using assms(1) by (auto simp: degrees_ok_def split: if_splits)
  have "deg x \<noteq> Some 0" using Some x(3) by simp
  then have "x \<notin> set nl \<union> set rest" using assms(2) by (simp add: frontier_ok_def)
  moreover have r: "deg' = deg(x \<mapsto> d - 1)" "nl' = (if d - 1 = 0 then nl @ [x] else nl)"
    using assms(3) Some by (simp_all add: relax_def)
  ultimately have "frontier_ok nl' rest deg'"
    using assms(2) by (simp add: frontier_ok_def)
  moreover have "degrees_ok g P ss deg'"
    using assms(1) x unfolding degrees_ok_def r(1) by simp
  ultimately show ?thesis by simp
qed

lemma fold_relax_ok:
  "degrees_ok g P ss deg \<Longrightarrow> frontier_ok nl rest deg \<Longrightarrow> fold relax ss (deg, nl) = (deg', nl') \<Longrightarrow>
   degrees_ok g P [] deg' \<and> frontier_ok nl' rest deg'"
proof (induction ss arbitrary: deg nl)
  case (Cons x ss)
  obtain deg1 nl1 where r: "relax x (deg, nl) = (deg1, nl1)" by (cases "relax x (deg, nl)")
  from relax_ok [OF Cons.prems(1,2) r] have "degrees_ok g P ss deg1" "frontier_ok nl1 rest deg1" by auto
  with Cons.IH [OF this] Cons.prems(3) r show ?case by simp
qed simp

lemma open_indegree_insert:
  assumes "u \<notin> P"
  shows "open_indegree g P v = open_indegree g (insert u P) v + count_list (successors g u) v"
proof -
  have "length (filter (\<lambda>(a, b). b = v \<and> a \<notin> P) es) =
      length (filter (\<lambda>(a, b). b = v \<and> a \<notin> insert u P) es)
      + count_list (map snd (filter (\<lambda>(a, _). a = u) es)) v" for es :: "(nat \<times> nat) list"
    using assms by (induction es) auto
  then show ?thesis by (simp add: open_indegree_def successors_def)
qed

lemma place_ok:
  assumes "degrees_ok g P [] deg" "frontier_ok nl (u # rest) deg" "place g u (deg, nl) = (deg', nl')"
  shows "degrees_ok g (insert u P) [] deg' \<and> frontier_ok nl' rest deg'"
proof -
  have "deg u = Some 0" using assms(2) by (simp add: frontier_ok_def)
  then have "u \<notin> P" using assms(1) by (auto simp: degrees_ok_def split: if_splits)
  then have d: "degrees_ok g (insert u P) (successors g u) (deg(u := None))"
    using assms(1) open_indegree_insert [of u P g] by (auto simp: degrees_ok_def)
  have f: "frontier_ok nl rest (deg(u := None))"
    using assms(2) by (auto simp: frontier_ok_def)
  from fold_relax_ok [OF d f] assms(3) show ?thesis by (simp add: place_def)
qed

lemma fold_place_ok:
  "degrees_ok g P [] deg \<Longrightarrow> frontier_ok nl cur deg \<Longrightarrow> fold (place g) cur (deg, nl) = (deg', nl') \<Longrightarrow>
   degrees_ok g (set cur \<union> P) [] deg' \<and> frontier_ok nl' [] deg'"
proof (induction cur arbitrary: P deg nl)
  case (Cons u cur)
  obtain deg1 nl1 where r: "place g u (deg, nl) = (deg1, nl1)" by (cases "place g u (deg, nl)")
  from place_ok [OF Cons.prems(1,2) r]
  have "degrees_ok g (insert u P) [] deg1" "frontier_ok nl1 cur deg1" by auto
  with Cons.IH [OF this] Cons.prems(3) r show ?case by simp
qed simp

text \<open>
  What the layers promise: a node's predecessors all lie in earlier layers, and a node of a
  later layer has a predecessor in the layer just before it (no layer is later than it must
  be).
\<close>

definition layer_ok :: "phase_graph \<Rightarrow> nat list list \<Rightarrow> nat list \<Rightarrow> bool" where
  "layer_ok g before layer \<longleftrightarrow> layer \<noteq> [] \<and>
     (\<forall>v \<in> set layer. set (predecessors g v) \<subseteq> set (concat before) \<and>
        (before \<noteq> [] \<longrightarrow> (\<exists>u \<in> set (last before). u \<in> set (predecessors g v))))"

definition layers_ok :: "phase_graph \<Rightarrow> nat list list \<Rightarrow> bool" where
  "layers_ok g layers \<longleftrightarrow> (\<forall>i < length layers. layer_ok g (take i layers) (layers ! i))"

lemma layers_ok_Nil [simp]: "layers_ok g []"
  by (simp add: layers_ok_def)

lemma layers_ok_snoc: "layers_ok g layers \<Longrightarrow> layer_ok g layers l \<Longrightarrow> layers_ok g (layers @ [l])"
  by (auto simp: layers_ok_def nth_append less_Suc_eq)

lemma open_indegree_0: "open_indegree g P v = 0 \<longleftrightarrow> set (predecessors g v) \<subseteq> P"
  by (auto simp: open_indegree_def predecessors_def filter_empty_conv)

definition loop_inv :: "phase_graph \<Rightarrow> degrees \<Rightarrow> nat list list \<Rightarrow> nat list \<Rightarrow> nat \<Rightarrow> bool" where
  "loop_inv g deg layers current placed \<longleftrightarrow>
     degrees_ok g (set (concat layers)) [] deg \<and> frontier_ok [] current deg \<and>
     layers_ok g layers \<and> distinct (concat layers) \<and> placed = length (concat layers) \<and>
     set (concat layers) \<subseteq> {..<length (pg_nodes g)} \<and>
     (layers \<noteq> [] \<longrightarrow> (\<forall>v \<in> set current. \<exists>u \<in> set (last layers). u \<in> set (predecessors g v)))"

lemma loop_inv_current:
  assumes "loop_inv g deg layers current placed" "v \<in> set current"
  shows "v < length (pg_nodes g)" "v \<notin> set (concat layers)" "set (predecessors g v) \<subseteq> set (concat layers)"
proof -
  have "deg v = Some 0" using assms by (auto simp: loop_inv_def frontier_ok_def)
  then show "v < length (pg_nodes g)" "v \<notin> set (concat layers)" "set (predecessors g v) \<subseteq> set (concat layers)"
    using assms(1) open_indegree_0 [of g "set (concat layers)" v]
    by (auto simp: loop_inv_def degrees_ok_def split: if_splits)
qed

lemma loop_inv_step:
  assumes inv: "loop_inv g deg layers current placed" and "current \<noteq> []"
    and fold: "fold (place g) current (deg, []) = (deg', nl)"
  shows "loop_inv g deg' (layers @ [current]) (sort nl) (placed + length current)"
proof -
  let ?P = "set (concat layers)"
  have d: "degrees_ok g ?P [] deg" and f: "frontier_ok [] current deg" using inv by (simp_all add: loop_inv_def)
  have "degrees_ok g (set current \<union> ?P) [] deg'" and nl: "frontier_ok nl [] deg'"
    using fold_place_ok [OF d f fold] by simp_all
  then have d': "degrees_ok g (set (concat (layers @ [current]))) [] deg'" by (simp add: Un_commute)
  have cur: "layer_ok g layers current"
    using inv loop_inv_current(3) [OF inv] assms(2) by (auto simp: layer_ok_def loop_inv_def)
  have late: "\<exists>u \<in> set current. u \<in> set (predecessors g v)" if "v \<in> set nl" for v
  proof -
    have v0: "deg' v = Some 0" using nl that by (simp add: frontier_ok_def)
    then have v: "v < length (pg_nodes g)" "v \<notin> set current \<union> ?P" "set (predecessors g v) \<subseteq> set current \<union> ?P"
      using d' open_indegree_0 [of g "set current \<union> ?P" v]
      by (auto simp: degrees_ok_def Un_commute split: if_splits)
    have "deg v \<noteq> Some 0" using f v(2) by (simp add: frontier_ok_def)
    then have "\<not> set (predecessors g v) \<subseteq> ?P"
      using d v(1,2) by (auto simp: degrees_ok_def open_indegree_0)
    then show ?thesis using v(3) by auto
  qed
  have "set (concat (layers @ [current])) \<subseteq> {..<length (pg_nodes g)}" "distinct (concat (layers @ [current]))"
    using inv loop_inv_current(1,2) [OF inv] by (auto simp: loop_inv_def frontier_ok_def)
  then show ?thesis
    using inv d' nl late layers_ok_snoc [OF _ cur] by (auto simp: loop_inv_def frontier_ok_def)
qed

lemma kahn_loop_total:
  assumes "loop_inv g deg layers current placed"
  shows "\<exists>deg' layers' placed'. kahn_loop g deg layers current placed = Some (deg', layers', placed') \<and>
     loop_inv g deg' layers' [] placed'"
  using assms
proof (induction "length (pg_nodes g) - length (concat layers)" arbitrary: deg layers current placed rule: less_induct)
  case less
  show ?case
  proof (cases "current = []")
    case True
    then show ?thesis using less.prems by (simp add: kahn_loop.simps)
  next
    case False
    obtain deg' nl where f: "fold (place g) current (deg, []) = (deg', nl)" by (cases "fold (place g) current (deg, [])")
    note inv' = loop_inv_step [OF less.prems False f]
    have "distinct (concat (layers @ [current]))" "set (concat (layers @ [current])) \<subseteq> {..<length (pg_nodes g)}"
      using inv' unfolding loop_inv_def by blast+
    then have "length (concat (layers @ [current])) \<le> length (pg_nodes g)"
      using distinct_card [of "concat (layers @ [current])"] card_mono [of "{..<length (pg_nodes g)}"]
      by (metis card_lessThan finite_lessThan)
    then have "length (pg_nodes g) - length (concat (layers @ [current])) < length (pg_nodes g) - length (concat layers)"
      using False by (cases current) auto
    from less.hyps [OF this inv'] False f show ?thesis by (simp add: kahn_loop.simps [of g deg])
  qed
qed

lemma loop_inv_init:
  "loop_inv g (initial_degrees g) [] (filter (\<lambda>v. initial_degrees g v = Some 0) [0..<length (pg_nodes g)]) 0"
  by (auto simp: loop_inv_def degrees_ok_def initial_degrees_def frontier_ok_def open_indegree_def
      predecessors_def split: if_splits)


lemma topological_layers_cases:
  obtains (ok) ls where "topological_layers g = Some (Inr ls)" "layers_ok g ls" "distinct (concat ls)"
      "set (concat ls) = {..<length (pg_nodes g)}"
  | (stuck) vs where "topological_layers g = Some (Inl (cycle_error (map (\<lambda>v. phase_as_str (pg_nodes g ! v)) vs)))"
      "vs \<noteq> []" "set vs \<subseteq> {..<length (pg_nodes g)}"
      "\<forall>v \<in> set vs. \<exists>u \<in> set (predecessors g v). u \<in> set vs \<or> length (pg_nodes g) \<le> u"
proof -
  let ?n = "length (pg_nodes g)"
  obtain deg ls placed where k: "kahn_loop g (initial_degrees g) []
      (filter (\<lambda>v. initial_degrees g v = Some 0) [0..<?n]) 0 = Some (deg, ls, placed)"
    and inv: "loop_inv g deg ls [] placed"
    using kahn_loop_total [OF loop_inv_init [of g]] by auto
  have P: "set (concat ls) \<subseteq> {..<?n}" "distinct (concat ls)" "placed = length (concat ls)" "layers_ok g ls"
    and d: "degrees_ok g (set (concat ls)) [] deg" and f: "frontier_ok [] [] deg"
    using inv by (simp_all add: loop_inv_def)
  have card: "length (concat ls) = card (set (concat ls))" by (rule distinct_card [OF P(2), symmetric])
  show thesis
  proof (cases "placed < ?n")
    case False
    then have "card {..<?n} \<le> card (set (concat ls))" using P(3) card by simp
    then have "set (concat ls) = {..<?n}" using P(1) card_seteq [OF finite_lessThan] by blast
    then show ?thesis using ok [of ls] k False P(2,4) by (simp add: topological_layers_def Let_def)
  next
    case True
    let ?vs = "filter (\<lambda>v. deg v \<noteq> None) [0..<?n]"
    have vs: "set ?vs = {..<?n} - set (concat ls)" using d by (auto simp: degrees_ok_def split: if_splits)
    have "set (concat ls) \<noteq> {..<?n}" using True P(3) card by (metis card_lessThan less_irrefl)
    then have "?vs \<noteq> []" using vs P(1) by (metis Diff_eq_empty_iff list.set(1) subset_antisym)
    moreover have "\<exists>u \<in> set (predecessors g v). u \<in> set ?vs \<or> ?n \<le> u" if "v \<in> set ?vs" for v
    proof -
      have "v < ?n" "v \<notin> set (concat ls)" using that vs by auto
      then have "deg v = Some (open_indegree g (set (concat ls)) v)" using d by (simp add: degrees_ok_def)
      moreover have "deg v \<noteq> Some 0" using f by (simp add: frontier_ok_def)
      ultimately have "\<not> set (predecessors g v) \<subseteq> set (concat ls)" by (simp add: open_indegree_0 [symmetric])
      then show ?thesis using vs by (auto simp: not_le)
    qed
    ultimately show ?thesis using stuck [of ?vs] k True by (auto simp: topological_layers_def Let_def)
  qed
qed

lemma predecessors_iff: "u \<in> set (predecessors g v) \<longleftrightarrow> (u, v) \<in> set (arcs g)"
  by (force simp: predecessors_def)

lemma layers_ok_before:
  assumes "layers_ok g ls" "i < length ls" "v \<in> set (ls ! i)" "u \<in> set (predecessors g v)"
  shows "u \<in> set (concat (take i ls))"
  using assms unfolding layers_ok_def layer_ok_def by blast

text \<open>The index of the layer a node is in.\<close>

definition layer_of :: "nat list list \<Rightarrow> nat \<Rightarrow> nat" where
  "layer_of ls v = length (takeWhile (\<lambda>l. v \<notin> set l) ls)"

lemma layer_of_less: "v \<in> set (concat ls) \<Longrightarrow> layer_of ls v < length ls \<and> v \<in> set (ls ! layer_of ls v)"
  by (induction ls) (auto simp: layer_of_def)

lemma layer_of_le: "i < length ls \<Longrightarrow> v \<in> set (ls ! i) \<Longrightarrow> layer_of ls v \<le> i"
  unfolding layer_of_def by (metis linorder_not_le nth_mem nth_length_takeWhile length_takeWhile_le
      set_takeWhileD takeWhile_nth)

lemma layers_ok_increasing:
  assumes "layers_ok g ls" "(u, v) \<in> set (arcs g)" "v \<in> set (concat ls)"
  shows "layer_of ls u < layer_of ls v"
proof -
  have v: "layer_of ls v < length ls" "v \<in> set (ls ! layer_of ls v)" using layer_of_less [OF assms(3)] by auto
  have "u \<in> set (concat (take (layer_of ls v) ls))"
    using layers_ok_before [OF assms(1) v] assms(2) by (simp add: predecessors_iff)
  then obtain i where "i < layer_of ls v" "u \<in> set (ls ! i)"
    by (auto simp: in_set_conv_nth) (metis nth_take)
  then show ?thesis using layer_of_le [of i ls u] v(1) by linarith
qed

lemma graph_wf_arcs: "graph_wf g \<Longrightarrow> (u, v) \<in> set (arcs g) \<Longrightarrow> u < length (pg_nodes g) \<and> v < length (pg_nodes g)"
  by (auto simp: graph_wf_def list_all_iff)

lemma layered_acyclic:
  assumes "graph_wf g" "layers_ok g ls" "set (concat ls) = {..<length (pg_nodes g)}"
  shows "acyclic (set (arcs g))"
proof -
  have "layer_of ls u < layer_of ls v" if "(u, v) \<in> set (arcs g)" for u v
  proof (rule layers_ok_increasing [OF assms(2) that])
    show "v \<in> set (concat ls)" using graph_wf_arcs [OF assms(1) that] unfolding assms(3) by simp
  qed
  then have "set (arcs g) \<subseteq> measure (layer_of ls)" by auto
  then show ?thesis by (meson acyclic_subset wf_acyclic wf_measure)
qed

lemma stuck_cyclic:
  assumes "graph_wf g" "vs \<noteq> []"
    and "\<forall>v \<in> set vs. \<exists>u \<in> set (predecessors g v). u \<in> set vs \<or> length (pg_nodes g) \<le> u"
  shows "\<not> acyclic (set (arcs g))"
proof
  assume "acyclic (set (arcs g))"
  then have "wf (set (arcs g))" by (simp add: finite_acyclic_wf)
  moreover obtain v where "v \<in> set vs" using assms(2) by (cases vs) auto
  ultimately obtain z where z: "z \<in> set vs" "\<And>y. (y, z) \<in> set (arcs g) \<Longrightarrow> y \<notin> set vs"
    by (rule wfE_min) auto
  from assms(3) z(1) obtain u where u: "u \<in> set (predecessors g z)" "u \<in> set vs \<or> length (pg_nodes g) \<le> u"
    by auto
  then show False using z(2) graph_wf_arcs [OF assms(1)] by (auto simp: predecessors_iff not_less [symmetric])
qed

section \<open>The executor\<close>

lemma collect_results_Inr:
  "collect_results os rs = Inr os' \<Longrightarrow> map Inr os' = map Inr os @ rs"
  by (induction os rs rule: collect_results.induct) auto

lemma collect_results_Inl:
  "collect_results os rs = Inl e \<Longrightarrow> \<exists>xs rest. rs = map Inr xs @ Inl e # rest"
proof (induction os rs rule: collect_results.induct)
  case (3 os x rs)
  then obtain xs rest where "rs = map Inr xs @ Inl e # rest" by auto
  then have "Inr x # rs = map Inr (x # xs) @ Inl e # rest" by simp
  then show ?case by blast
qed auto

text \<open>The run stopped in the last started layer, whose first failure is \<open>e\<close>.\<close>

definition stopped_at :: "phase_graph \<Rightarrow> (string \<rightharpoonup> 'o result) \<Rightarrow> nat list list \<Rightarrow> nat list list \<Rightarrow> error \<Rightarrow> bool" where
  "stopped_at g t ls tr e \<longleftrightarrow>
     (\<exists>don layer rest. ls = don @ layer # rest \<and> tr = don @ [layer] \<and>
        (\<forall>v \<in> set (concat don). \<not> isl (run_node g t v)) \<and>
        (\<exists>xs rest'. map (run_node g t) layer = map Inr xs @ Inl e # rest'))"

lemma stopped_at_here:
  "map (run_node g t) l = map Inr xs @ Inl e # rest' \<Longrightarrow> stopped_at g t (l # rest) [l] e"
  unfolding stopped_at_def by (intro exI [of _ "[]"] exI [of _ l] exI [of _ rest]) auto

lemma stopped_at_later:
  assumes "stopped_at g t rest tr e" "\<And>v. v \<in> set l \<Longrightarrow> \<not> isl (run_node g t v)"
  shows "stopped_at g t (l # rest) (l # tr) e"
proof -
  obtain don layer rs where d: "rest = don @ layer # rs" "tr = don @ [layer]"
    "\<forall>v \<in> set (concat don). \<not> isl (run_node g t v)"
    "\<exists>xs rest'. map (run_node g t) layer = map Inr xs @ Inl e # rest'"
    using assms(1) unfolding stopped_at_def by blast
  have "\<forall>v \<in> set (concat (l # don)). \<not> isl (run_node g t v)"
    using d(3) assms(2) unfolding concat.simps set_append by blast
  then show ?thesis
    unfolding stopped_at_def using d(1,2,4)
    by (intro exI [of _ "l # don"] exI [of _ layer] exI [of _ rs]) simp
qed

lemma run_layers_trace:
  "run_layers g t os ls = (r, tr) \<Longrightarrow>
     (case r of
        Inr os' \<Rightarrow> tr = ls \<and> map Inr os' = map Inr os @ map (run_node g t) (concat ls)
      | Inl e \<Rightarrow> stopped_at g t ls tr e)"
proof (induction g t os ls arbitrary: r tr rule: run_layers.induct)
  case (2 g t os layer rest)
  show ?case
  proof (cases "collect_results os (map (run_node g t) layer)")
    case (Inl e)
    then have "r = Inl e" "tr = [layer]" using "2.prems" by simp_all
    then show ?thesis using collect_results_Inl [OF Inl] stopped_at_here by (metis sum.case(1))
  next
    case (Inr os')
    obtain r' tr' where rec: "run_layers g t os' rest = (r', tr')" by (cases "run_layers g t os' rest")
    then have eq: "r = r'" "tr = layer # tr'" using "2.prems" Inr by simp_all
    note ih = "2.IH" [OF Inr rec]
    note c = collect_results_Inr [OF Inr]
    have "\<not> isl (run_node g t v)" if "v \<in> set layer" for v
    proof -
      have "run_node g t v \<in> set (map Inr os')" unfolding c using that by simp
      then show ?thesis by auto
    qed
    then have "stopped_at g t rest tr' e \<Longrightarrow> stopped_at g t (layer # rest) (layer # tr') e" for e
      using stopped_at_later by blast
    then show ?thesis using ih c eq by (cases r') simp_all
  qed
qed auto

section \<open>Properties\<close>

text \<open>C5: Kahn's layering ends on every graph and decides acyclicity: it returns layers exactly
  when the graph has no cycle, and otherwise an invalid-state error naming phases of which
  each has a predecessor among them (so they contain a cycle).\<close>

theorem topological_layers_decides:
  assumes "graph_wf g"
  shows "if acyclic (set (arcs g)) then \<exists>ls. topological_layers g = Some (Inr ls)
     else \<exists>vs. topological_layers g = Some (Inl (cycle_error (map (\<lambda>v. phase_as_str (pg_nodes g ! v)) vs))) \<and>
              vs \<noteq> [] \<and> (\<forall>v. v \<in> set vs \<longrightarrow> (\<exists>u. u \<in> set vs \<and> (u, v) \<in> set (arcs g)))"
proof (cases rule: topological_layers_cases [of g])
  case (ok ls)
  then show ?thesis using layered_acyclic [OF assms] by auto
next
  case (stuck vs)
  have "\<exists>u. u \<in> set vs \<and> (u, v) \<in> set (arcs g)" if "v \<in> set vs" for v
    using stuck(4) that graph_wf_arcs [OF assms] by (metis linorder_not_le predecessors_iff)
  then show ?thesis using stuck(1,2) stuck_cyclic [OF assms stuck(2,4)] by auto
qed

text \<open>C2: The layers are a partition of the nodes in dependency order, and the coarsest one:
  every node is in exactly one layer, each of its predecessors is in an earlier layer, and
  each node of a layer after the first has a predecessor in the layer just before.\<close>

theorem topological_layers_correct:
  assumes "topological_layers g = Some (Inr ls)"
  shows "distinct (concat ls) \<and> set (concat ls) = {..<length (pg_nodes g)} \<and> layers_ok g ls"
proof (cases rule: topological_layers_cases [of g])
  case (ok ls')
  then show ?thesis using assms by simp
qed (use assms in simp)

text \<open>The canonical deep-mode graph is well formed and is laid out in sixteen layers of one
  phase each, in the canonical order.\<close>

lemma canonical_dag_layers:
  "graph_wf build_dag_for_deep_mode \<and>
   map_option (map_sum id (map (map (\<lambda>v. pg_nodes build_dag_for_deep_mode ! v))))
      (topological_layers build_dag_for_deep_mode)
     = Some (Inr (map (\<lambda>p. [p]) canonical_order))"
proof
  show "graph_wf build_dag_for_deep_mode" by code_simp
  show "map_option (map_sum id (map (map (\<lambda>v. pg_nodes build_dag_for_deep_mode ! v))))
      (topological_layers build_dag_for_deep_mode) = Some (Inr (map (\<lambda>p. [p]) canonical_order))"
    by code_simp
qed

text \<open>C9: The executor never runs a phase before the phases it depends on have succeeded:
  whatever the supplied implementations return, the predecessors of every node it started
  were started in an earlier layer and returned a result.\<close>

theorem execute_dag_respects_dependencies:
  assumes "execute_dag g phases = Some (r, tr)"
    and "i < length tr" and "v \<in> set (tr ! i)" and "u \<in> set (predecessors g v)"
  shows "(\<exists>j<i. u \<in> set (tr ! j)) \<and> (\<exists>x. run_node g (phase_table phases) u = Inr x)"
proof (cases rule: topological_layers_cases [of g])
  case (stuck vs)
  then show ?thesis using assms(1,2) by (simp add: execute_dag_def)
next
  case (ok ls)
  then have run: "run_layers g (phase_table phases) [] ls = (r, tr)"
    using assms(1) by (simp add: execute_dag_def)
  note t = run_layers_trace [OF run]
  have pre: "\<exists>rest. ls = tr @ rest" using t by (cases r) (auto simp: stopped_at_def)
  then have nth: "i < length ls" "ls ! i = tr ! i" "take i ls = take i tr"
    using assms(2) by (auto simp: nth_append)
  have "u \<in> set (concat (take i tr))"
    using layers_ok_before [OF ok(2) nth(1)] assms(3,4) nth(2,3) by simp
  then obtain j where j: "j < i" "u \<in> set (tr ! j)"
    using assms(2) by (auto simp: in_set_conv_nth) (metis nth_take)
  have "\<not> isl (run_node g (phase_table phases) u)"
  proof (cases r)
    case (Inl e)
    then obtain don layer rest where d: "tr = don @ [layer]"
      "\<forall>v \<in> set (concat don). \<not> isl (run_node g (phase_table phases) v)"
      using t unfolding stopped_at_def by auto
    then have "j < length don" using assms(2) j(1) by simp
    then have "u \<in> set (concat don)" using j(2) d(1) by (auto simp: nth_append in_set_conv_nth intro!: bexI)
    then show ?thesis using d(2) by blast
  next
    case (Inr os)
    then have m: "tr = ls" "map Inr os = map (run_node g (phase_table phases)) (concat ls)" using t by simp_all
    have "tr ! j \<in> set ls" using j(1) assms(2) m(1) by simp
    then have "u \<in> set (concat ls)" using j(2) by auto
    then have "run_node g (phase_table phases) u \<in> set (map Inr os)" unfolding m(2) by simp
    then show ?thesis by auto
  qed
  then show ?thesis using j by (auto simp: isl_def) (metis sum.exhaust)
qed

section \<open>Witnesses\<close>

definition demo_diamond :: phase_graph where
  "demo_diamond = \<lparr>pg_nodes = [Ph_Intake, Ph_Thesis, Ph_Critique, Ph_Rank],
     pg_edges = [(0, 1, Edge_Data), (0, 2, Edge_Data), (1, 3, Edge_Data), (2, 3, Edge_Order)]\<rparr>"

definition demo_cycle :: phase_graph where
  "demo_cycle = \<lparr>pg_nodes = [Ph_Intake, Ph_Critique, Ph_Repair],
     pg_edges = [(0, 1, Edge_Data), (1, 2, Edge_Data), (2, 1, Edge_Data)]\<rparr>"

lemma demo_diamond_layers: "topological_layers demo_diamond = Some (Inr [[0], [1, 2], [3]])"
  by code_simp

lemma topological_layers_decides_witness:
  "\<exists>vs. topological_layers demo_cycle
     = Some (Inl (cycle_error (map (\<lambda>v. phase_as_str (pg_nodes demo_cycle ! v)) vs))) \<and> vs \<noteq> []"
proof -
  have wf: "graph_wf demo_cycle" by code_simp
  have "(1, 2) \<in> set (arcs demo_cycle)" "(2, 1) \<in> set (arcs demo_cycle)"
    by (simp_all add: arcs_def demo_cycle_def)
  then have "\<not> acyclic (set (arcs demo_cycle))"
    by (meson acyclic_def trancl.r_into_trancl trancl.trancl_into_trancl)
  then show ?thesis using topological_layers_decides [OF wf] by auto
qed

lemma topological_layers_correct_witness:
  "set (concat [[0], [1, 2], [3 :: nat]]) = {..<length (pg_nodes demo_diamond)}"
  using topological_layers_correct [OF demo_diamond_layers] by blast

definition demo_phases :: "(string \<times> nat result) list" where
  "demo_phases = [(''intake'', Inr 1), (''thesis'', Inr 2), (''critique'', Inl Err_Cancel), (''rank'', Inr 4)]"

lemma demo_execution: "execute_dag demo_diamond demo_phases = Some (Inl Err_Cancel, [[0], [1, 2]])"
  by (simp add: execute_dag_def demo_diamond_layers demo_phases_def phase_table_def run_node_def)
    (simp add: demo_diamond_def run_node_def)

lemma execute_dag_respects_dependencies_witness:
  "\<exists>x. run_node demo_diamond (phase_table demo_phases) 0 = Inr x"
  using execute_dag_respects_dependencies [OF demo_execution, of 1 2 0]
  by (simp add: predecessors_def arcs_def demo_diamond_def)

end
