(* ===== verification/Cancel_Handles.thy ===== *)
theory Cancel_Handles imports Errors Interfaces begin

text \<open>
  Cooperative cancellation, \<open>src/cancel.rs\<close>: the shared handles with their token, reason
  cell and registry of process groups, the cancellation tiers, and the task that sends the
  final signal. Handles of one family share their cells, so the cells live in stores and a
  handle holds addresses. The token itself is the library's: a tree in which cancelling a
  token cancels its descendants, those created later included. The lemmas say which handles
  a cancellation reaches, what the reason cell shows, and which signals are sent when.
\<close>

section \<open>Reasons and tiers\<close>

datatype cancel_reason =
    UserInterrupt | TotalTimeout | PhaseTimeout string | PlanExhaustedReason | ApiKeySwitch | Requested

datatype cancel_tier = Soft | Normal | Hard

datatype pause_reason =
    Pause_HumanCheckpoint | Pause_TimeoutPhase | Pause_TimeoutTotal | Pause_PlanExceeded
  | Pause_BudgetExhausted | Pause_ProviderError | Pause_UserPause | Pause_HostilePrompt | Pause_NeedsInput

primrec pause_reason_from :: "cancel_reason \<Rightarrow> pause_reason" where
  "pause_reason_from UserInterrupt = Pause_UserPause"
| "pause_reason_from Requested = Pause_UserPause"
| "pause_reason_from TotalTimeout = Pause_TimeoutTotal"
| "pause_reason_from (PhaseTimeout _) = Pause_TimeoutPhase"
| "pause_reason_from PlanExhaustedReason = Pause_PlanExceeded"
| "pause_reason_from ApiKeySwitch = Pause_ProviderError"

primrec cancel_reason_text :: "cancel_reason \<Rightarrow> string" where
  "cancel_reason_text UserInterrupt = ''user interrupt''"
| "cancel_reason_text TotalTimeout = ''total timeout''"
| "cancel_reason_text (PhaseTimeout phase) = ''phase timeout: '' @ phase"
| "cancel_reason_text PlanExhaustedReason = ''plan exhausted''"
| "cancel_reason_text ApiKeySwitch = ''api key switch''"
| "cancel_reason_text Requested = ''requested''"

section \<open>Tokens\<close>

text \<open>A token is its parent and its own flag; parents are older than their children.\<close>

type_synonym token_store = "(nat option \<times> bool) list"

function token_cancelled :: "token_store \<Rightarrow> nat \<Rightarrow> bool" where
  "token_cancelled ts t =
     (t < length ts \<and>
      (snd (ts ! t) \<or>
       (case fst (ts ! t) of None \<Rightarrow> False | Some p \<Rightarrow> if p < t then token_cancelled ts p else False)))"
  by pat_completeness auto
termination by (relation "measure (\<lambda>(ts, t). t)") auto

function descends :: "token_store \<Rightarrow> nat \<Rightarrow> nat \<Rightarrow> bool" where
  "descends ts a t =
     (t = a \<or> (t < length ts \<and>
       (case fst (ts ! t) of None \<Rightarrow> False | Some p \<Rightarrow> if p < t then descends ts a p else False)))"
  by pat_completeness auto
termination by (relation "measure (\<lambda>(ts, a, t). t)") auto

declare token_cancelled.simps [simp del] descends.simps [simp del]

definition token_new :: "token_store \<Rightarrow> nat \<times> token_store" where
  "token_new ts = (length ts, ts @ [(None, False)])"

definition token_child :: "nat \<Rightarrow> token_store \<Rightarrow> nat \<times> token_store" where
  "token_child p ts = (length ts, ts @ [(Some p, False)])"

definition token_cancel :: "nat \<Rightarrow> token_store \<Rightarrow> token_store" where
  "token_cancel t ts = ts[t := (fst (ts ! t), True)]"

section \<open>Handles\<close>

record cancel_handle =
  ch_token :: nat
  ch_reason :: nat
  ch_pgids :: nat

datatype signal = SIGTERM | SIGKILL

record kill_task =
  kt_deadline :: instant
  kt_token :: nat
  kt_pgids :: "int list"

text \<open>
  The stores, the signals sent so far (time, signal, process group) and the spawned kill
  tasks that have not run yet.
\<close>

record cancel_world =
  cw_tokens :: token_store
  cw_reasons :: "cancel_reason option list"
  cw_pgids :: "int list list"
  cw_signals :: "(instant \<times> signal \<times> int) list"
  cw_kill_tasks :: "kill_task list"

definition hard_kill_grace :: duration where
  "hard_kill_grace = from_secs 2"

definition cancel_new :: "cancel_world \<Rightarrow> cancel_handle \<times> cancel_world" where
  "cancel_new w =
     (case token_new (cw_tokens w) of
        (t, ts) \<Rightarrow>
          (\<lparr>ch_token = t, ch_reason = length (cw_reasons w), ch_pgids = length (cw_pgids w)\<rparr>,
           w\<lparr>cw_tokens := ts, cw_reasons := cw_reasons w @ [None], cw_pgids := cw_pgids w @ [[]]\<rparr>))"

definition cancel_child :: "cancel_handle \<Rightarrow> cancel_world \<Rightarrow> cancel_handle \<times> cancel_world" where
  "cancel_child h w =
     (case token_child (ch_token h) (cw_tokens w) of
        (t, ts) \<Rightarrow> (h\<lparr>ch_token := t\<rparr>, w\<lparr>cw_tokens := ts\<rparr>))"

definition cancel_child_token :: "cancel_handle \<Rightarrow> cancel_world \<Rightarrow> nat \<times> cancel_world" where
  "cancel_child_token h w =
     (case token_child (ch_token h) (cw_tokens w) of (t, ts) \<Rightarrow> (t, w\<lparr>cw_tokens := ts\<rparr>))"

definition cancel :: "cancel_reason \<Rightarrow> cancel_handle \<Rightarrow> cancel_world \<Rightarrow> cancel_world" where
  "cancel reason h w =
     w\<lparr>cw_reasons := (cw_reasons w)[ch_reason h := Some reason],
       cw_tokens := token_cancel (ch_token h) (cw_tokens w)\<rparr>"

text \<open>
  \<open>cancel_with_tier\<close> on Unix. The set of process groups is a list without repetitions in
  the order of registration; the code's set has no order, and nothing below depends on it.
\<close>

definition cancel_with_tier :: "instant \<Rightarrow> cancel_reason \<Rightarrow> cancel_tier \<Rightarrow> cancel_handle \<Rightarrow> cancel_world \<Rightarrow> cancel_world" where
  "cancel_with_tier now reason tier h w =
     (let w1 = cancel reason h w
      in if tier \<noteq> Hard then w1
         else let pgids = cw_pgids w1 ! ch_pgids h
              in if pgids = [] then w1
                 else w1\<lparr>cw_signals := cw_signals w1 @ map (\<lambda>p. (now, SIGTERM, p)) pgids,
                         cw_kill_tasks := cw_kill_tasks w1 @
                           [\<lparr>kt_deadline = now + hard_kill_grace, kt_token = ch_token h, kt_pgids = pgids\<rparr>]\<rparr>)"

text \<open>The \<open>select!\<close> of a kill task: the sleep is over, or its token is cancelled.\<close>

definition kill_task_ready :: "instant \<Rightarrow> cancel_world \<Rightarrow> kill_task \<Rightarrow> bool" where
  "kill_task_ready now w k \<longleftrightarrow> kt_deadline k \<le> now \<or> token_cancelled (cw_tokens w) (kt_token k)"

definition poll_kill_tasks :: "instant \<Rightarrow> cancel_world \<Rightarrow> cancel_world" where
  "poll_kill_tasks now w =
     (let ready = filter (kill_task_ready now w) (cw_kill_tasks w)
      in w\<lparr>cw_signals := cw_signals w @ map (\<lambda>p. (now, SIGKILL, p)) (concat (map kt_pgids ready)),
           cw_kill_tasks := filter (\<lambda>k. \<not> kill_task_ready now w k) (cw_kill_tasks w)\<rparr>)"

definition register_child :: "int \<Rightarrow> cancel_handle \<Rightarrow> cancel_world \<Rightarrow> cancel_world" where
  "register_child pgid h w =
     w\<lparr>cw_pgids := (cw_pgids w)[ch_pgids h := List.insert pgid (cw_pgids w ! ch_pgids h)]\<rparr>"

definition unregister_child :: "int \<Rightarrow> cancel_handle \<Rightarrow> cancel_world \<Rightarrow> cancel_world" where
  "unregister_child pgid h w =
     w\<lparr>cw_pgids := (cw_pgids w)[ch_pgids h := removeAll pgid (cw_pgids w ! ch_pgids h)]\<rparr>"

definition is_cancelled :: "cancel_world \<Rightarrow> cancel_handle \<Rightarrow> bool" where
  "is_cancelled w h = token_cancelled (cw_tokens w) (ch_token h)"

definition cancel_reason_of :: "cancel_world \<Rightarrow> cancel_handle \<Rightarrow> cancel_reason option" where
  "cancel_reason_of w h = cw_reasons w ! ch_reason h"

definition into_error :: "cancel_world \<Rightarrow> cancel_handle \<Rightarrow> error" where
  "into_error w h =
     (case cancel_reason_of w h of
        Some r \<Rightarrow> Err_Cancelled (cancel_reason_text r)
      | None \<Rightarrow> Err_Cancelled ''cancelled'')"

section \<open>Runs\<close>

datatype cancel_op =
    Op_New
  | Op_Child cancel_handle
  | Op_ChildToken cancel_handle
  | Op_Cancel instant cancel_reason cancel_tier cancel_handle
  | Op_Register int cancel_handle
  | Op_Unregister int cancel_handle
  | Op_Poll instant

definition handle_ok :: "cancel_world \<Rightarrow> cancel_handle \<Rightarrow> bool" where
  "handle_ok w h \<longleftrightarrow> ch_token h < length (cw_tokens w) \<and> ch_reason h < length (cw_reasons w) \<and>
     ch_pgids h < length (cw_pgids w)"

definition cancel_empty :: cancel_world where
  "cancel_empty = \<lparr>cw_tokens = [], cw_reasons = [], cw_pgids = [], cw_signals = [], cw_kill_tasks = []\<rparr>"

text \<open>An operation on a handle that was never handed out is no event of the program.\<close>

primrec cancel_step :: "cancel_world \<Rightarrow> cancel_op \<Rightarrow> cancel_world" where
  "cancel_step w Op_New = snd (cancel_new w)"
| "cancel_step w (Op_Child h) = (if handle_ok w h then snd (cancel_child h w) else w)"
| "cancel_step w (Op_ChildToken h) = (if handle_ok w h then snd (cancel_child_token h w) else w)"
| "cancel_step w (Op_Cancel now r tier h) = (if handle_ok w h then cancel_with_tier now r tier h w else w)"
| "cancel_step w (Op_Register p h) = (if handle_ok w h then register_child p h w else w)"
| "cancel_step w (Op_Unregister p h) = (if handle_ok w h then unregister_child p h w else w)"
| "cancel_step w (Op_Poll now) = poll_kill_tasks now w"

section \<open>Lemmas on tokens\<close>

definition tokens_wf :: "token_store \<Rightarrow> bool" where
  "tokens_wf ts \<longleftrightarrow> (\<forall>t < length ts. case fst (ts ! t) of None \<Rightarrow> True | Some p \<Rightarrow> p < t)"

lemma tokens_wf_new: "tokens_wf ts \<Longrightarrow> tokens_wf (snd (token_new ts))"
  by (auto simp: tokens_wf_def token_new_def nth_append less_Suc_eq)

lemma tokens_wf_child: "tokens_wf ts \<Longrightarrow> p < length ts \<Longrightarrow> tokens_wf (snd (token_child p ts))"
  by (auto simp: tokens_wf_def token_child_def nth_append less_Suc_eq)

lemma tokens_wf_cancel: "tokens_wf ts \<Longrightarrow> tokens_wf (token_cancel t ts)"
  by (cases "t < length ts") (auto simp: tokens_wf_def token_cancel_def nth_list_update split: option.split)

lemma token_cancelled_cancel:
  assumes "a < length ts"
  shows "token_cancelled (token_cancel a ts) t \<longleftrightarrow> token_cancelled ts t \<or> (t < length ts \<and> descends ts a t)"
proof (induction t rule: less_induct)
  case (less t)
  show ?case
  proof (cases "t < length ts")
    case True
    have "fst (token_cancel a ts ! t) = fst (ts ! t)" "snd (token_cancel a ts ! t) \<longleftrightarrow> t = a \<or> snd (ts ! t)"
      "length (token_cancel a ts) = length ts"
      using assms True by (auto simp: token_cancel_def nth_list_update)
    then show ?thesis
      using True less.IH
      by (auto simp: token_cancelled.simps [of "token_cancel a ts" t] token_cancelled.simps [of ts t]
          descends.simps [of ts a t] split: option.split)
  next
    case False
    then show ?thesis by (simp add: token_cancelled.simps token_cancel_def)
  qed
qed

lemma token_cancelled_append:
  "t < length ts \<Longrightarrow> token_cancelled (ts @ us) t = token_cancelled ts t"
proof (induction t rule: less_induct)
  case (less t)
  then show ?case
    by (auto simp: token_cancelled.simps [of "ts @ us" t] token_cancelled.simps [of ts t] nth_append
        split: option.split)
qed

lemma token_child_cancelled:
  "p < length ts \<Longrightarrow> token_cancelled (snd (token_child p ts)) (fst (token_child p ts)) = token_cancelled ts p"
  by (simp add: token_child_def token_cancelled.simps [of _ "length ts"] token_cancelled_append)

lemma token_new_cancelled: "\<not> token_cancelled (snd (token_new ts)) (fst (token_new ts))"
  by (simp add: token_new_def token_cancelled.simps)

lemma token_cancelled_length: "token_cancelled ts t \<Longrightarrow> t < length ts"
  by (simp add: token_cancelled.simps)


lemma descends_older: "t < a \<Longrightarrow> \<not> descends ts a t"
proof (induction t rule: less_induct)
  case (less t)
  then show ?case by (auto simp: descends.simps [of ts a t] split: option.split)
qed

section \<open>The invariant of a run\<close>

definition cancel_inv :: "cancel_world \<Rightarrow> bool" where
  "cancel_inv w \<longleftrightarrow> tokens_wf (cw_tokens w) \<and>
     (\<forall>k \<in> set (cw_kill_tasks w). token_cancelled (cw_tokens w) (kt_token k) \<and>
        (\<forall>p \<in> set (kt_pgids k). \<exists>t. (t, SIGTERM, p) \<in> set (cw_signals w))) \<and>
     (\<forall>t p. (t, SIGKILL, p) \<in> set (cw_signals w) \<longrightarrow> (\<exists>t'. (t', SIGTERM, p) \<in> set (cw_signals w)))"

lemmas cancel_ops = cancel_new_def cancel_child_def cancel_child_token_def cancel_def register_child_def
  unregister_child_def token_new_def token_child_def Let_def

lemma tokens_wf_step:
  "tokens_wf (cw_tokens w) \<Longrightarrow> tokens_wf (cw_tokens (cancel_step w op))"
proof (cases op)
  case (Op_Cancel now r tier h)
  assume "tokens_wf (cw_tokens w)"
  then show ?thesis using Op_Cancel
    by (simp add: cancel_with_tier_def cancel_def Let_def tokens_wf_cancel)
qed (use tokens_wf_new tokens_wf_child in
    \<open>force simp: cancel_new_def cancel_child_def cancel_child_token_def register_child_def unregister_child_def
       poll_kill_tasks_def Let_def handle_ok_def split: prod.splits\<close>)+

lemma token_cancelled_step:
  "token_cancelled (cw_tokens w) t \<Longrightarrow> token_cancelled (cw_tokens (cancel_step w op)) t"
  using token_cancelled_length [of "cw_tokens w" t]
  by (cases op)
    (auto simp: cancel_ops cancel_with_tier_def poll_kill_tasks_def token_cancelled_append
      token_cancelled_cancel handle_ok_def)

lemma cancel_inv_poll: "cancel_inv w \<Longrightarrow> cancel_inv (poll_kill_tasks now w)"
  by (fastforce simp: cancel_inv_def poll_kill_tasks_def Let_def)

lemma cancel_inv_cancel:
  assumes "cancel_inv w" "handle_ok w h"
  shows "cancel_inv (cancel_with_tier now r tier h w)"
proof -
  let ?ts = "token_cancel (ch_token h) (cw_tokens w)"
  have wf: "tokens_wf ?ts" using assms(1) by (simp add: cancel_inv_def tokens_wf_cancel)
  have a: "ch_token h < length (cw_tokens w)" using assms(2) by (simp add: handle_ok_def)
  have self: "token_cancelled ?ts (ch_token h)"
    using a by (simp add: token_cancelled_cancel descends.simps)
  have up: "token_cancelled ?ts t" if "token_cancelled (cw_tokens w) t" for t
    using that a by (simp add: token_cancelled_cancel)
  show ?thesis
    using assms(1) wf self up
    by (fastforce simp: cancel_inv_def cancel_with_tier_def cancel_def Let_def)
qed

lemma cancel_inv_step: "cancel_inv w \<Longrightarrow> cancel_inv (cancel_step w op)"
proof (cases op)
  case (Op_Cancel now r tier h)
  assume "cancel_inv w"
  then show ?thesis using Op_Cancel cancel_inv_cancel by simp
next
  case (Op_Poll now)
  assume "cancel_inv w"
  then show ?thesis using Op_Poll cancel_inv_poll by simp
qed (use tokens_wf_step [of w op] token_cancelled_step [of w _ op] in
    \<open>auto simp: cancel_inv_def cancel_ops split: if_splits\<close>)

interpretation cancel_machine: event_machine cancel_step cancel_inv
  by unfold_locales (rule cancel_inv_step)

lemma cancel_inv_empty: "cancel_inv cancel_empty"
  by (simp add: cancel_inv_def cancel_empty_def tokens_wf_def)

text \<open>The process groups a run registered.\<close>

definition registered :: "cancel_op list \<Rightarrow> int set" where
  "registered es = {p. \<exists>h. Op_Register p h \<in> set es}"

definition signals_within :: "int set \<Rightarrow> cancel_world \<Rightarrow> bool" where
  "signals_within R w \<longleftrightarrow>
     (\<forall>ps \<in> set (cw_pgids w). set ps \<subseteq> R) \<and> (\<forall>k \<in> set (cw_kill_tasks w). set (kt_pgids k) \<subseteq> R) \<and>
     (\<forall>t s p. (t, s, p) \<in> set (cw_signals w) \<longrightarrow> p \<in> R)"

lemma all_set_update: "\<forall>y \<in> set ys. P y \<Longrightarrow> P x \<Longrightarrow> \<forall>y \<in> set (ys[i := x]). P y"
  using set_update_subset_insert [of ys i x] by blast

lemma signals_within_step:
  assumes "signals_within R w" "\<And>p h. op = Op_Register p h \<Longrightarrow> p \<in> R"
  shows "signals_within R (cancel_step w op)"
proof (cases op)
  case (Op_Cancel now r tier h)
  then show ?thesis
    using assms(1) nth_mem [of "ch_pgids h" "cw_pgids w"]
    by (auto simp: signals_within_def cancel_with_tier_def cancel_def handle_ok_def Let_def)
next
  case (Op_Register p h)
  show ?thesis
  proof (cases "handle_ok w h")
    case True
    then have "set (cw_pgids w ! ch_pgids h) \<subseteq> R"
      using assms(1) by (simp add: signals_within_def handle_ok_def)
    then show ?thesis
      using assms Op_Register True
      by (simp add: signals_within_def register_child_def) (intro all_set_update; auto)
  qed (use assms(1) Op_Register in simp)
next
  case (Op_Unregister p h)
  show ?thesis
  proof (cases "handle_ok w h")
    case True
    then have "set (cw_pgids w ! ch_pgids h) \<subseteq> R"
      using assms(1) by (simp add: signals_within_def handle_ok_def)
    then show ?thesis
      using assms Op_Unregister True
      by (simp add: signals_within_def unregister_child_def) (intro all_set_update; auto)
  qed (use assms(1) Op_Unregister in simp)
next
  case (Op_Poll now)
  then show ?thesis using assms(1) by (fastforce simp: signals_within_def poll_kill_tasks_def Let_def)
qed (use assms(1) in \<open>auto simp: signals_within_def cancel_ops\<close>)

lemma registered_Cons: "registered es \<subseteq> registered (e # es)" "e = Op_Register p h \<Longrightarrow> p \<in> registered (e # es)"
  by (auto simp: registered_def)

lemma signals_within_run:
  "signals_within R w \<Longrightarrow> registered es \<subseteq> R \<Longrightarrow> signals_within R (foldl cancel_step w es)"
proof (induction es arbitrary: w)
  case (Cons e es)
  have "signals_within R (cancel_step w e)"
    using Cons.prems registered_Cons(2) [of e _ _ es] by (intro signals_within_step) auto
  moreover have "registered es \<subseteq> R" using Cons.prems(2) registered_Cons(1) [of es e] by simp
  ultimately show ?case using Cons.IH by simp
qed simp

section \<open>Properties\<close>

text \<open>C39: A cancellation reaches exactly the descendants: cancelling a handle cancels it and every
  handle derived from it, at any depth, and no other handle (not its parent, not a sibling).\<close>

theorem cancel_reaches_descendants:
  assumes "handle_ok w h" and "handle_ok w h'"
  shows "is_cancelled (cancel_with_tier now r tier h w) h' \<longleftrightarrow>
    is_cancelled w h' \<or> descends (cw_tokens w) (ch_token h) (ch_token h')"
  using assms
  by (auto simp: is_cancelled_def cancel_with_tier_def cancel_def Let_def handle_ok_def token_cancelled_cancel)

text \<open>Cancellation is permanent and inherited: a cancelled handle stays cancelled through every
  later run, and a child made from it, then or later, is cancelled from the start.\<close>

lemma cancel_permanent:
  assumes "handle_ok w h" and "is_cancelled w h"
  shows "is_cancelled (foldl cancel_step w es) h \<and>
    (let (c, w') = cancel_child h (foldl cancel_step w es) in is_cancelled w' c)"
proof -
  have c: "token_cancelled (cw_tokens (foldl cancel_step w es)) (ch_token h)"
    using assms(2) unfolding is_cancelled_def
    by (induction es arbitrary: w) (auto dest: token_cancelled_step)
  then show ?thesis
    using token_child_cancelled [OF token_cancelled_length [OF c]]
    by (auto simp: is_cancelled_def cancel_child_def Let_def split: prod.split)
qed

text \<open>C40: A hard cancellation gives no grace: every process group registered with the handle gets
  SIGTERM, and the kill task, whose token the same call has cancelled first, sends SIGKILL
  to all of them at its first poll, at whatever time that is, the time of the cancellation
  included.\<close>

theorem hard_cancel_kills_at_once:
  assumes "handle_ok w h" and "p \<in> set (cw_pgids w ! ch_pgids h)"
  shows "(now, SIGTERM, p) \<in> set (cw_signals (cancel_with_tier now r Hard h w)) \<and>
         (later, SIGKILL, p) \<in> set (cw_signals (poll_kill_tasks later (cancel_with_tier now r Hard h w)))"
proof -
  let ?ts = "token_cancel (ch_token h) (cw_tokens w)"
  have self: "token_cancelled ?ts (ch_token h)"
    using assms(1) by (simp add: token_cancelled_cancel descends.simps handle_ok_def)
  let ?w = "cancel_with_tier now r Hard h w"
  let ?k = "\<lparr>kt_deadline = now + hard_kill_grace, kt_token = ch_token h, kt_pgids = cw_pgids w ! ch_pgids h\<rparr>"
  have w: "cw_kill_tasks ?w = cw_kill_tasks w @ [?k]" "cw_tokens ?w = ?ts"
    "cw_signals ?w = cw_signals w @ map (\<lambda>p. (now, SIGTERM, p)) (cw_pgids w ! ch_pgids h)"
    using assms(2) by (auto simp: cancel_with_tier_def cancel_def Let_def)
  have "?k \<in> set (filter (kill_task_ready later ?w) (cw_kill_tasks ?w))"
    using self by (simp add: w kill_task_ready_def)
  then have "p \<in> set (concat (map kt_pgids (filter (kill_task_ready later ?w) (cw_kill_tasks ?w))))"
    using assms(2) by force
  then show ?thesis
    using assms(2) unfolding poll_kill_tasks_def Let_def by (simp add: w(3))
qed

text \<open>Signals stay within what was asked for: in every run a signal goes only to a process
  group that was registered, SIGKILL only to one that has been sent SIGTERM, and a run
  without a hard cancellation sends no signal at all.\<close>

lemma signals_only_to_registered:
  "let w = foldl cancel_step cancel_empty es
   in signals_within (registered es) w \<and>
      {p. \<exists>t. (t, SIGKILL, p) \<in> set (cw_signals w)} \<subseteq> {p. \<exists>t. (t, SIGTERM, p) \<in> set (cw_signals w)}"
  using signals_within_run [of "registered es" cancel_empty es]
    cancel_machine.run_inv [OF cancel_inv_empty, of es]
  by (auto simp: signals_within_def cancel_empty_def cancel_inv_def Let_def)

text \<open>The reason cell is shared upwards: cancelling a child leaves its parent as cancelled or
  live as it was, but the parent's recorded reason, and with it the error it translates to,
  becomes the child's.\<close>

lemma child_reason_reaches_parent:
  assumes "handle_ok w h" and "cancel_child h w = (c, w1)"
  shows "is_cancelled (cancel_with_tier now r tier c w1) h = is_cancelled w h \<and>
    into_error (cancel_with_tier now r tier c w1) h = Err_Cancelled (cancel_reason_text r)"
proof -
  have c: "c = h\<lparr>ch_token := length (cw_tokens w)\<rparr>" "w1 = w\<lparr>cw_tokens := cw_tokens w @ [(Some (ch_token h), False)]\<rparr>"
    using assms(2) by (simp_all add: cancel_child_def token_child_def)
  have lt: "ch_token h < length (cw_tokens w)" "ch_reason h < length (cw_reasons w)"
    using assms(1) by (simp_all add: handle_ok_def)
  note nd = descends_older
  have "is_cancelled (cancel_with_tier now r tier c w1) h = is_cancelled w h"
    using lt nd [OF lt(1)]
    by (simp add: is_cancelled_def cancel_with_tier_def cancel_def Let_def c token_cancelled_cancel token_cancelled_append)
  moreover have "into_error (cancel_with_tier now r tier c w1) h = Err_Cancelled (cancel_reason_text r)"
    using lt(2) by (simp add: into_error_def cancel_reason_of_def cancel_with_tier_def cancel_def Let_def c)
  ultimately show ?thesis ..
qed

section \<open>Witnesses\<close>

text \<open>A run handle, a child of it, and one process group registered.\<close>

definition demo_handle :: cancel_handle where
  "demo_handle = \<lparr>ch_token = 0, ch_reason = 0, ch_pgids = 0\<rparr>"

definition demo_child :: cancel_handle where
  "demo_child = \<lparr>ch_token = 1, ch_reason = 0, ch_pgids = 0\<rparr>"

definition demo_world :: cancel_world where
  "demo_world = foldl cancel_step cancel_empty [Op_New, Op_Child demo_handle, Op_Register 4711 demo_handle]"

lemma demo_world_eq:
  "demo_world = \<lparr>cw_tokens = [(None, False), (Some 0, False)], cw_reasons = [None], cw_pgids = [[4711]],
     cw_signals = [], cw_kill_tasks = []\<rparr>"
  by (simp add: demo_world_def cancel_empty_def demo_handle_def handle_ok_def cancel_ops)

lemma cancel_reaches_descendants_witness:
  "is_cancelled (cancel_with_tier 3 UserInterrupt Soft demo_handle demo_world) demo_child \<and>
   \<not> is_cancelled (cancel_with_tier 3 UserInterrupt Soft demo_child demo_world) demo_handle"
  using cancel_reaches_descendants [of demo_world demo_handle demo_child 3 UserInterrupt Soft]
    cancel_reaches_descendants [of demo_world demo_child demo_handle 3 UserInterrupt Soft]
  by (simp add: demo_world_eq demo_handle_def demo_child_def handle_ok_def is_cancelled_def
      descends.simps token_cancelled.simps)

lemma hard_cancel_kills_at_once_witness:
  "(3, SIGKILL, 4711) \<in> set (cw_signals (poll_kill_tasks 3
      (cancel_with_tier 3 UserInterrupt Hard demo_handle demo_world)))"
  using hard_cancel_kills_at_once [of demo_world demo_handle 4711 3 UserInterrupt 3]
  by (simp add: demo_world_eq demo_handle_def handle_ok_def)

end
