(* ===== verification/Lease.thy ===== *)
theory Lease imports Errors Decimal begin

text \<open>
  Run leases and process locks: the \<open>process_locks\<close> table with the three families of
  operations that share it, from \<open>src/storage/sqlite.rs\<close> (the caller-fenced lock and the
  run lease) and \<open>src/storage/lease.rs\<close> (the RAII guard and the typed process lease), and
  the heartbeat loop of \<open>src/telemetry/heartbeat.rs\<close> with the lease it is given in
  \<open>src/phases/phase.rs\<close>. Each operation is one critical section on the database. What the
  database chooses is a parameter: \<open>pick\<close> takes one of several rows that tie in a query
  (\<open>LIMIT 1\<close>), \<open>cast\<close> is SQL's \<open>CAST(text AS INTEGER)\<close>. The lemmas give mutual exclusion
  of the holders of a run, the fencing of stale holders, and where the families collide.
\<close>

section \<open>The table\<close>

record lock_row =
  lr_holder :: string
  lr_acquired :: int
  lr_expires :: int
  lr_fence :: string
  lr_heartbeat :: int

record lease_db =
  ld_version :: int
  ld_locks :: "lock_row list"

definition i64_max :: int where "i64_max = 2 ^ 63 - 1"

definition wrap_i64 :: "int \<Rightarrow> int" where
  "wrap_i64 x = (x + 2 ^ 63) mod 2 ^ 64 - 2 ^ 63"

definition find_row :: "string \<Rightarrow> lock_row list \<Rightarrow> lock_row option" where
  "find_row k rows = find (\<lambda>r. lr_holder r = k) rows"

definition update_row :: "string \<Rightarrow> (lock_row \<Rightarrow> lock_row) \<Rightarrow> lock_row list \<Rightarrow> lock_row list" where
  "update_row k f rows = map (\<lambda>r. if lr_holder r = k then f r else r) rows"

definition delete_row :: "string \<Rightarrow> lock_row list \<Rightarrow> lock_row list" where
  "delete_row k rows = filter (\<lambda>r. lr_holder r \<noteq> k) rows"

definition sqlite_error :: "string \<Rightarrow> error" where
  "sqlite_error m = Err_Provider (''sqlite: '' @ m) None"

text \<open>\<open>holder LIKE 'p%'\<close> for a prefix without wildcards: the comparison ignores ASCII case.\<close>

definition like_prefix :: "string \<Rightarrow> string \<Rightarrow> bool" where
  "like_prefix p k \<longleftrightarrow> length p \<le> length k \<and> eq_ignore_ascii_case (take (length p) k) p"

definition strip_prefix :: "string \<Rightarrow> string \<Rightarrow> string option" where
  "strip_prefix p k = (if take (length p) k = p then Some (drop (length p) k) else None)"

definition run_prefix :: "string \<Rightarrow> string" where
  "run_prefix run_id = run_id @ ''|''"

definition lock_key :: "string \<Rightarrow> string \<Rightarrow> string" where
  "lock_key run_id holder = run_id @ ''|'' @ holder"

section \<open>Run leases\<close>

text \<open>\<open>ORDER BY acquired_at_unix DESC LIMIT 1\<close> over the rows of a run.\<close>

definition newest_rows :: "string \<Rightarrow> lock_row list \<Rightarrow> lock_row list" where
  "newest_rows run_id rows =
     (let cands = filter (\<lambda>r. like_prefix (run_prefix run_id) (lr_holder r)) rows
      in filter (\<lambda>r. list_all (\<lambda>s. lr_acquired s \<le> lr_acquired r) cands) cands)"

definition lease_expiry :: "int \<Rightarrow> u64 \<Rightarrow> int result" where
  "lease_expiry now ttl_secs =
     (if i64_max < uint ttl_secs then Inl (Err_InvalidArgs ''lease TTL exceeds SQLite timestamp range'')
      else if i64_max < now + uint ttl_secs then Inl (Err_InvalidArgs ''lease TTL overflows timestamp'')
      else Inr (now + uint ttl_secs))"

definition renew_lease ::
  "(lock_row list \<Rightarrow> lock_row) \<Rightarrow> int \<Rightarrow> string \<Rightarrow> string \<Rightarrow> u64 \<Rightarrow> u64 option \<Rightarrow> lease_db \<Rightarrow> u64 result \<times> lease_db"
where
  "renew_lease pick now run_id holder ttl_secs expected db =
     (if ld_version db < 8 then (Inr 1, db)
      else case lease_expiry now ttl_secs of
        Inl e \<Rightarrow> (Inl e, db)
      | Inr expires \<Rightarrow>
          (let rows = ld_locks db; key = lock_key run_id holder in
           if newest_rows run_id rows = [] then
             (if expected \<noteq> None then (Inl (Err_LockHeld run_id), db)
              else (Inr 1, db\<lparr>ld_locks := rows @
                      [\<lparr>lr_holder = key, lr_acquired = now, lr_expires = expires, lr_fence = ''1'',
                        lr_heartbeat = 0\<rparr>]\<rparr>))
           else
             (let row = pick (newest_rows run_id rows);
                  stored_holder = (case strip_prefix (run_prefix run_id) (lr_holder row) of
                                     Some h \<Rightarrow> h | None \<Rightarrow> []);
                  active = now < lr_expires row
              in case parse_u64 (lr_fence row) of
                   Inl _ \<Rightarrow> (Inl (sqlite_error ''invalid lease fence''), db)
                 | Inr current_fence \<Rightarrow>
                     (if (case expected of
                            Some f \<Rightarrow> stored_holder \<noteq> holder \<or> current_fence \<noteq> f \<or> \<not> active
                          | None \<Rightarrow> active \<and> stored_holder \<noteq> holder)
                      then (Inl (Err_LockHeld run_id), db)
                      else case checked_add current_fence 1 of
                             None \<Rightarrow> (Inl (sqlite_error ''lease fence overflow''), db)
                           | Some next_fence \<Rightarrow>
                               (if lr_holder row \<noteq> key \<and> find_row key rows \<noteq> None
                                then (Inl (sqlite_error ''UNIQUE constraint failed: process_locks.holder''), db)
                                else (Inr next_fence,
                                      db\<lparr>ld_locks := update_row (lr_holder row)
                                           (\<lambda>r. r\<lparr>lr_holder := key, lr_acquired := now, lr_expires := expires,
                                                  lr_fence := show_nat (unat next_fence)\<rparr>) rows\<rparr>))))))"

definition release_run_lease :: "string \<Rightarrow> string \<Rightarrow> lease_db \<Rightarrow> bool \<times> lease_db" where
  "release_run_lease run_id holder db =
     (if ld_version db < 8 then (True, db)
      else (find_row (lock_key run_id holder) (ld_locks db) \<noteq> None,
            db\<lparr>ld_locks := delete_row (lock_key run_id holder) (ld_locks db)\<rparr>))"

definition lease_fence :: "string \<Rightarrow> string \<Rightarrow> lease_db \<Rightarrow> u64 option result" where
  "lease_fence run_id holder db =
     (if ld_version db < 8 then Inr None
      else case find_row (lock_key run_id holder) (ld_locks db) of
             None \<Rightarrow> Inr None
           | Some r \<Rightarrow> (case parse_u64 (lr_fence r) of
                         Inl _ \<Rightarrow> Inl (sqlite_error ''invalid lease fence'')
                       | Inr f \<Rightarrow> Inr (Some f)))"

section \<open>The guard and the heartbeat\<close>

text \<open>
  \<open>wall\<close> is the clock of \<open>now_unix_secs\<close>, \<open>clk\<close> the reading of the monotonic clock the
  guard keeps.
\<close>

record lease_guard =
  lg_run :: string
  lg_holder :: string
  lg_fence :: u64
  lg_acquired_at :: instant
  lg_ttl :: duration

definition ttl_as_secs :: "duration \<Rightarrow> u64" where
  "ttl_as_secs d = of_nat (d div 1000000000)"

definition lease_guard_acquire ::
  "(lock_row list \<Rightarrow> lock_row) \<Rightarrow> int \<Rightarrow> instant \<Rightarrow> string \<Rightarrow> string \<Rightarrow> duration \<Rightarrow> lease_db
     \<Rightarrow> lease_guard result \<times> lease_db"
where
  "lease_guard_acquire pick wall clk run_id holder ttl db =
     (case renew_lease pick wall run_id holder (ttl_as_secs ttl) None db of
        (Inl e, db') \<Rightarrow> (Inl e, db')
      | (Inr f, db') \<Rightarrow> (Inr \<lparr>lg_run = run_id, lg_holder = holder, lg_fence = f, lg_acquired_at = clk,
                              lg_ttl = ttl\<rparr>, db'))"

definition lease_guard_renew ::
  "(lock_row list \<Rightarrow> lock_row) \<Rightarrow> int \<Rightarrow> instant \<Rightarrow> lease_guard \<Rightarrow> lease_db \<Rightarrow> lease_guard result \<times> lease_db"
where
  "lease_guard_renew pick wall clk g db =
     (case renew_lease pick wall (lg_run g) (lg_holder g) (ttl_as_secs (lg_ttl g)) (Some (lg_fence g)) db of
        (Inl e, db') \<Rightarrow> (Inl e, db')
      | (Inr f, db') \<Rightarrow> (Inr (g\<lparr>lg_fence := f, lg_acquired_at := clk\<rparr>), db'))"

definition lease_guard_is_expired :: "instant \<Rightarrow> lease_guard \<Rightarrow> bool" where
  "lease_guard_is_expired clk g \<longleftrightarrow> lg_ttl g < clk - lg_acquired_at g"

definition lease_guard_drop :: "lease_guard \<Rightarrow> lease_db \<Rightarrow> lease_db" where
  "lease_guard_drop g db = snd (release_run_lease (lg_run g) (lg_holder g) db)"

text \<open>
  One tick of the heartbeat task: it exits, fails, or goes on with the renewed guard. The
  task owns the guard, so leaving the task drops it and releases the row.
\<close>

datatype heartbeat_outcome = Heartbeat_Exit | Heartbeat_Failed error | Heartbeat_Renewed lease_guard

definition heartbeat_tick ::
  "(lock_row list \<Rightarrow> lock_row) \<Rightarrow> int \<Rightarrow> instant \<Rightarrow> lease_guard \<Rightarrow> lease_db \<Rightarrow> heartbeat_outcome \<times> lease_db"
where
  "heartbeat_tick pick wall clk g db =
     (if lease_guard_is_expired clk g then (Heartbeat_Exit, lease_guard_drop g db)
      else case lease_guard_renew pick wall clk g db of
             (Inl e, db') \<Rightarrow> (Heartbeat_Failed e, lease_guard_drop g db')
           | (Inr g', db') \<Rightarrow> (Heartbeat_Renewed g', db'))"

text \<open>The lease and the period \<open>ensure_heartbeat\<close> asks for.\<close>

definition heartbeat_ttl :: "u64 \<Rightarrow> duration" where
  "heartbeat_ttl interval_secs = from_secs (max interval_secs 60)"

definition heartbeat_period :: "u64 \<Rightarrow> duration" where
  "heartbeat_period interval_secs = from_secs (max interval_secs 1)"

section \<open>Process leases\<close>

record process_lease =
  pl_run :: string
  pl_holder :: string
  pl_token :: u64
  pl_acquired :: int
  pl_heartbeat :: int
  pl_expires :: int

definition process_expiry :: "int \<Rightarrow> u64 \<Rightarrow> int result" where
  "process_expiry now ttl_secs =
     (if i64_max < uint ttl_secs then Inl (Err_InvalidArgs ''ttl_secs overflows i64'')
      else if i64_max < now + uint ttl_secs
        then Inl (Err_InvalidArgs ''ttl_secs pushes expires_at past i64::MAX'')
      else Inr (now + uint ttl_secs))"

definition held_error :: "string \<Rightarrow> string \<Rightarrow> string \<Rightarrow> error" where
  "held_error what run_id holder =
     Err_LockHeld (''process lock '' @ what @ '' run='' @ run_id @ '' holder='' @ holder)"

definition max_fence :: "(string \<Rightarrow> int) \<Rightarrow> lock_row list \<Rightarrow> int" where
  "max_fence cast rows =
     (case rows of [] \<Rightarrow> 0 | r # rs \<Rightarrow> foldl (\<lambda>m s. max m (cast (lr_fence s))) (cast (lr_fence r)) rs)"

definition upsert_row :: "lock_row \<Rightarrow> lock_row list \<Rightarrow> lock_row list" where
  "upsert_row r rows =
     (if find_row (lr_holder r) rows = None then rows @ [r] else update_row (lr_holder r) (\<lambda>_. r) rows)"

definition acquire_process_lock ::
  "(string \<Rightarrow> int) \<Rightarrow> int \<Rightarrow> string \<Rightarrow> string \<Rightarrow> u64 \<Rightarrow> lease_db \<Rightarrow> process_lease result \<times> lease_db"
where
  "acquire_process_lock cast now run_id holder ttl_secs db =
     (case process_expiry now ttl_secs of
        Inl e \<Rightarrow> (Inl e, db)
      | Inr expires \<Rightarrow>
          (let key = lock_key run_id holder;
               held = (case find_row key (ld_locks db) of Some r \<Rightarrow> now < lr_expires r | None \<Rightarrow> False)
           in if held then (Inl (held_error ''held for'' run_id holder), db)
              else
                (let next = max_fence cast (ld_locks db) + 1
                 in if i64_max < next then (Inl (sqlite_error ''invalid column type Real''), db)
                    else if next < 0
                      then (Inl (Err_Provider ''process lock fence overflowed u64'' None), db)
                    else
                      (Inr \<lparr>pl_run = run_id, pl_holder = holder, pl_token = of_int next, pl_acquired = now,
                            pl_heartbeat = now, pl_expires = expires\<rparr>,
                       db\<lparr>ld_locks := upsert_row
                            \<lparr>lr_holder = key, lr_acquired = now, lr_expires = expires,
                             lr_fence = show_nat (nat next), lr_heartbeat = now\<rparr> (ld_locks db)\<rparr>))))"

definition bad_process_fence :: error where
  "bad_process_fence = Err_Provider ''process lock fence is not a u64'' None"

definition heartbeat_process_lock ::
  "int \<Rightarrow> string \<Rightarrow> string \<Rightarrow> u64 \<Rightarrow> lease_db \<Rightarrow> process_lease result \<times> lease_db"
where
  "heartbeat_process_lock now run_id holder token db =
     (let key = lock_key run_id holder
      in case find_row key (ld_locks db) of
           None \<Rightarrow> (Inl (held_error ''not held for'' run_id holder), db)
         | Some r \<Rightarrow>
             (case parse_u64 (lr_fence r) of
                Inl _ \<Rightarrow> (Inl bad_process_fence, db)
              | Inr f \<Rightarrow>
                  (if f \<noteq> token \<or> lr_expires r \<le> now
                   then (Inl (held_error ''fence mismatch or expired for'' run_id holder), db)
                   else
                     (Inr \<lparr>pl_run = run_id, pl_holder = holder, pl_token = f, pl_acquired = lr_acquired r,
                           pl_heartbeat = now, pl_expires = lr_expires r\<rparr>,
                      db\<lparr>ld_locks := update_row key (\<lambda>r. r\<lparr>lr_heartbeat := now\<rparr>) (ld_locks db)\<rparr>))))"

definition release_process_lock ::
  "int \<Rightarrow> string \<Rightarrow> string \<Rightarrow> u64 \<Rightarrow> lease_db \<Rightarrow> unit result \<times> lease_db"
where
  "release_process_lock now run_id holder token db =
     (let key = lock_key run_id holder
      in case find_row key (ld_locks db) of
           None \<Rightarrow> (Inr (), db)
         | Some r \<Rightarrow>
             (case parse_u64 (lr_fence r) of
                Inl _ \<Rightarrow> (Inl bad_process_fence, db)
              | Inr f \<Rightarrow>
                  (if f \<noteq> token \<or> lr_expires r \<le> now
                   then (Inl (held_error ''fence mismatch or expired for'' run_id holder), db)
                   else (Inr (), db\<lparr>ld_locks := delete_row key (ld_locks db)\<rparr>))))"

section \<open>The caller-fenced lock\<close>

text \<open>\<open>now + ttl_secs as i64\<close> wraps; \<open>SELECT holder ... LIMIT 1\<close> takes any row.\<close>

definition db_acquire_process_lock ::
  "(lock_row list \<Rightarrow> lock_row) \<Rightarrow> int \<Rightarrow> string \<Rightarrow> u64 \<Rightarrow> string \<Rightarrow> lease_db \<Rightarrow> bool \<times> lease_db"
where
  "db_acquire_process_lock pick now holder ttl_secs fence db =
     (if ld_version db < 8 then (True, db)
      else
        (let expires = wrap_i64 (now + wrap_i64 (uint ttl_secs));
             rows = filter (\<lambda>r. now < lr_expires r) (ld_locks db);
             db1 = db\<lparr>ld_locks := rows\<rparr>
         in if rows = [] then
              (True, db1\<lparr>ld_locks := [\<lparr>lr_holder = holder, lr_acquired = now, lr_expires = expires,
                                       lr_fence = fence, lr_heartbeat = 0\<rparr>]\<rparr>)
            else if lr_holder (pick rows) = holder then
              (True, db1\<lparr>ld_locks := update_row holder
                       (\<lambda>r. r\<lparr>lr_acquired := now, lr_expires := expires, lr_fence := fence\<rparr>) rows\<rparr>)
            else (False, db1)))"

definition db_release_process_lock :: "string \<Rightarrow> lease_db \<Rightarrow> bool \<times> lease_db" where
  "db_release_process_lock holder db =
     (if ld_version db < 8 then (True, db)
      else (find_row holder (ld_locks db) \<noteq> None, db\<lparr>ld_locks := delete_row holder (ld_locks db)\<rparr>))"


section \<open>Lemmas on the table\<close>

lemma find_row_None: "find_row k rows = None \<longleftrightarrow> (\<forall>r \<in> set rows. lr_holder r \<noteq> k)"
  by (auto simp: find_row_def find_None_iff)

lemma find_row_Some: "find_row k rows = Some r \<Longrightarrow> r \<in> set rows \<and> lr_holder r = k"
  by (auto simp: find_row_def find_Some_iff)

lemma find_row_append: "find_row k rows = None \<Longrightarrow> find_row k (rows @ us) = find_row k us"
  by (induction rows) (auto simp: find_row_def split: if_splits)

lemma find_row_update:
  "(\<And>r. lr_holder (f r) = lr_holder r) \<Longrightarrow> find_row k (update_row k f rows) = map_option f (find_row k rows)"
  by (induction rows) (auto simp: find_row_def update_row_def)

lemma find_row_delete [simp]: "find_row k (delete_row k rows) = None"
  by (auto simp: find_row_None delete_row_def)

lemma delete_row_absent: "find_row k rows = None \<Longrightarrow> delete_row k rows = rows"
  by (simp add: find_row_None delete_row_def filter_id_conv)

lemma eq_ignore_refl [simp]: "eq_ignore_ascii_case s s"
  by (simp add: eq_ignore_ascii_case_def)

lemma key_like [simp]: "like_prefix (run_prefix rid) (lock_key rid h)"
  by (simp add: like_prefix_def run_prefix_def lock_key_def)

lemma strip_key [simp]: "strip_prefix (run_prefix rid) (lock_key rid h) = Some h"
  by (simp add: strip_prefix_def run_prefix_def lock_key_def)

lemma strip_key_iff: "strip_prefix (run_prefix rid) k = Some h \<longleftrightarrow> k = lock_key rid h"
proof
  assume "strip_prefix (run_prefix rid) k = Some h"
  then have "take (length (run_prefix rid)) k = run_prefix rid" "h = drop (length (run_prefix rid)) k"
    by (auto simp: strip_prefix_def split: if_splits)
  then have "k = run_prefix rid @ h" by (metis append_take_drop_id)
  then show "k = lock_key rid h" by (simp add: lock_key_def run_prefix_def)
qed simp

lemma lock_key_inj: "lock_key rid h = lock_key rid h' \<longleftrightarrow> h = h'"
  by (simp add: lock_key_def)

text \<open>The documented choice of the database: one of the rows that tie.\<close>

definition picks_a_row :: "(lock_row list \<Rightarrow> lock_row) \<Rightarrow> bool" where
  "picks_a_row pick \<longleftrightarrow> (\<forall>rows. rows \<noteq> [] \<longrightarrow> pick rows \<in> set rows)"

lemma newest_rows_sub:
  "r \<in> set (newest_rows rid rows) \<Longrightarrow> r \<in> set rows \<and> like_prefix (run_prefix rid) (lr_holder r)"
  by (simp add: newest_rows_def)

lemma newest_rows_empty:
  "newest_rows rid rows = [] \<longleftrightarrow> (\<forall>r \<in> set rows. \<not> like_prefix (run_prefix rid) (lr_holder r))"
proof
  let ?c = "filter (\<lambda>r. like_prefix (run_prefix rid) (lr_holder r)) rows"
  assume e: "newest_rows rid rows = []"
  show "\<forall>r \<in> set rows. \<not> like_prefix (run_prefix rid) (lr_holder r)"
  proof (rule ccontr)
    assume "\<not> ?thesis"
    then have "lr_acquired ` set ?c \<noteq> {}" by auto
    then have "Max (lr_acquired ` set ?c) \<in> lr_acquired ` set ?c" by (intro Max_in) simp_all
    then obtain r where r: "r \<in> set ?c" "lr_acquired r = Max (lr_acquired ` set ?c)" by auto
    then have "list_all (\<lambda>s. lr_acquired s \<le> lr_acquired r) ?c" by (simp add: list_all_iff)
    with r(1) have "r \<in> set (newest_rows rid rows)" by (simp add: newest_rows_def)
    with e show False by simp
  qed
qed (simp add: newest_rows_def)

lemma newest_row_unique:
  assumes "r \<in> set rows" "like_prefix (run_prefix rid) (lr_holder r)"
    and "\<And>s. s \<in> set rows \<Longrightarrow> like_prefix (run_prefix rid) (lr_holder s) \<Longrightarrow> s = r"
    and "picks_a_row pick"
  shows "newest_rows rid rows \<noteq> []" "pick (newest_rows rid rows) = r"
proof -
  show ne: "newest_rows rid rows \<noteq> []" using assms(1,2) by (auto simp: newest_rows_empty)
  with assms(4) have "pick (newest_rows rid rows) \<in> set (newest_rows rid rows)" by (simp add: picks_a_row_def)
  then show "pick (newest_rows rid rows) = r" using newest_rows_sub assms(3) by blast
qed

section \<open>Lemmas on run leases\<close>

lemma lease_expiry_Inr: "lease_expiry now ttl = Inr x \<Longrightarrow> x = now + uint ttl"
  by (simp add: lease_expiry_def split: if_splits)

text \<open>The two ways a renewal succeeds: a first row, or the update of the newest one.\<close>

definition stored_holder :: "string \<Rightarrow> lock_row \<Rightarrow> string" where
  "stored_holder rid row = (case strip_prefix (run_prefix rid) (lr_holder row) of Some h \<Rightarrow> h | None \<Rightarrow> [])"

lemma stored_holder_key: "stored_holder rid row = h \<Longrightarrow> h \<noteq> [] \<Longrightarrow> lr_holder row = lock_key rid h"
  by (auto simp: stored_holder_def strip_key_iff split: option.splits)

lemma renew_lease_Inr:
  assumes "renew_lease pick now rid h ttl ex db = (Inr f, db')" "8 \<le> ld_version db"
  obtains (first) "newest_rows rid (ld_locks db) = []" "ex = None" "f = 1"
      "ld_locks db' = ld_locks db @ [\<lparr>lr_holder = lock_key rid h, lr_acquired = now,
         lr_expires = now + uint ttl, lr_fence = ''1'', lr_heartbeat = 0\<rparr>]"
  | (renewed) row g where "newest_rows rid (ld_locks db) \<noteq> []" "row = pick (newest_rows rid (ld_locks db))"
      "parse_u64 (lr_fence row) = Inr g" "checked_add g 1 = Some f"
      "ex \<noteq> None \<Longrightarrow> stored_holder rid row = h \<and> g = the ex \<and> now < lr_expires row"
      "ex = None \<Longrightarrow> now < lr_expires row \<Longrightarrow> stored_holder rid row = h"
      "lr_holder row = lock_key rid h \<or> find_row (lock_key rid h) (ld_locks db) = None"
      "ld_locks db' = update_row (lr_holder row)
         (\<lambda>r. r\<lparr>lr_holder := lock_key rid h, lr_acquired := now, lr_expires := now + uint ttl,
                lr_fence := show_nat (unat f)\<rparr>) (ld_locks db)"
proof -
  have v: "\<not> ld_version db < 8" using assms(2) by simp
  obtain x where x: "lease_expiry now ttl = Inr x"
    using assms(1) v by (cases "lease_expiry now ttl") (simp_all add: renew_lease_def)
  then have xe: "x = now + uint ttl" by (rule lease_expiry_Inr)
  show thesis
  proof (cases "newest_rows rid (ld_locks db) = []")
    case True
    show thesis
      using assms(1) v x True by (intro first) (auto simp: renew_lease_def Let_def xe split: if_splits)
  next
    case False
    define row where "row = pick (newest_rows rid (ld_locks db))"
    note u = assms(1) [unfolded renew_lease_def Let_def, folded row_def stored_holder_def]
    obtain g where g: "parse_u64 (lr_fence row) = Inr g"
      using u v x False by (cases "parse_u64 (lr_fence row)") simp_all
    have ok: "\<not> (case ex of Some f \<Rightarrow> stored_holder rid row \<noteq> h \<or> g \<noteq> f \<or> \<not> now < lr_expires row
               | None \<Rightarrow> now < lr_expires row \<and> stored_holder rid row \<noteq> h)"
    proof
      assume "case ex of Some f \<Rightarrow> stored_holder rid row \<noteq> h \<or> g \<noteq> f \<or> \<not> now < lr_expires row
               | None \<Rightarrow> now < lr_expires row \<and> stored_holder rid row \<noteq> h"
      with u v x False g show False by simp
    qed
    obtain n where n: "checked_add g 1 = Some n"
      using u v x False g ok by (cases "checked_add g 1") simp_all
    have other: "\<not> (lr_holder row \<noteq> lock_key rid h \<and> find_row (lock_key rid h) (ld_locks db) \<noteq> None)"
    proof
      assume "lr_holder row \<noteq> lock_key rid h \<and> find_row (lock_key rid h) (ld_locks db) \<noteq> None"
      with u v x False g ok n show False by simp
    qed
    have f: "f = n" "ld_locks db' = update_row (lr_holder row)
         (\<lambda>r. r\<lparr>lr_holder := lock_key rid h, lr_acquired := now, lr_expires := x,
                lr_fence := show_nat (unat n)\<rparr>) (ld_locks db)"
      using u v x False g ok n other by auto
    show thesis
      using False row_def g n f ok other xe by (intro renewed [of row g]) (auto split: option.splits)
  qed
qed

text \<open>After a successful renewal, the row of the key carries the new fence and expiry.\<close>

lemma renew_lease_row:
  assumes "renew_lease pick now rid h ttl ex db = (Inr f, db')" "8 \<le> ld_version db"
    and "r \<in> set (ld_locks db')" "lr_holder r = lock_key rid h"
  shows "parse_u64 (lr_fence r) = Inr f \<and> lr_expires r = now + uint ttl"
  using assms(1,2)
proof (cases rule: renew_lease_Inr)
  case first
  then have "\<forall>s \<in> set (ld_locks db). lr_holder s \<noteq> lock_key rid h"
    by (auto simp: newest_rows_empty)
  then have "lr_fence r = ''1''" "lr_expires r = now + uint ttl" using first assms(3,4) by auto
  moreover have "parse_u64 ''1'' = Inr 1"
  proof -
    have "show_nat 1 = ''1''" by code_simp
    then show ?thesis using parse_u64_show [of 1] by simp
  qed
  ultimately show ?thesis using first(3) by simp
next
  case (renewed row g)
  then have "lr_fence r = show_nat (unat f) \<and> lr_expires r = now + uint ttl"
    using assms(3,4) by (auto simp: update_row_def find_row_None split: if_splits)
  then show ?thesis by (simp add: parse_u64_show)
qed

text \<open>A renewal with an expected fence needs the holder's own live row with that fence.\<close>

lemma renew_lease_needs_row:
  assumes "renew_lease pick now rid h ttl (Some f) db = (Inr f', db')" "8 \<le> ld_version db"
    and "h \<noteq> []" "picks_a_row pick"
  shows "\<exists>r \<in> set (ld_locks db). lr_holder r = lock_key rid h \<and> parse_u64 (lr_fence r) = Inr f \<and>
           now < lr_expires r \<and> unat f' = Suc (unat f)"
  using assms(1,2)
proof (cases rule: renew_lease_Inr)
  case (renewed row g)
  then have "row \<in> set (ld_locks db)"
    using assms(4) newest_rows_sub unfolding picks_a_row_def by blast
  moreover have "lr_holder row = lock_key rid h" using renewed(5) assms(3) by (intro stored_holder_key) auto
  ultimately show ?thesis using renewed(3,5) checked_add_Some [OF renewed(4)] by force
qed simp

lemma renew_lease_error_unchanged:
  assumes "renew_lease pick now rid h ttl ex db = (Inl e, db')"
  shows "db' = db"
  using assms by (simp add: renew_lease_def Let_def split: sum.splits if_splits option.splits)

lemma renew_lease_version: "ld_version (snd (renew_lease pick now rid h ttl ex db)) = ld_version db"
  by (simp add: renew_lease_def Let_def split: sum.split option.split)


text \<open>A guard whose row is gone or has another fence loses its lease at the next tick and drops it.\<close>

lemma heartbeat_tick_lost:
  assumes "8 \<le> ld_version db" "picks_a_row pick" "lg_holder g \<noteq> []"
    and "\<And>r. r \<in> set (ld_locks db) \<Longrightarrow> lr_holder r = lock_key (lg_run g) (lg_holder g) \<Longrightarrow>
           parse_u64 (lr_fence r) \<noteq> Inr (lg_fence g)"
  shows "\<exists>oc. heartbeat_tick pick wall clk g db = (oc, lease_guard_drop g db) \<and> (\<forall>g'. oc \<noteq> Heartbeat_Renewed g')"
proof (cases "lease_guard_is_expired clk g")
  case True
  then show ?thesis by (simp add: heartbeat_tick_def)
next
  case False
  obtain r db' where r: "renew_lease pick wall (lg_run g) (lg_holder g) (ttl_as_secs (lg_ttl g)) (Some (lg_fence g)) db
      = (r, db')"
    by (cases "renew_lease pick wall (lg_run g) (lg_holder g) (ttl_as_secs (lg_ttl g)) (Some (lg_fence g)) db")
  show ?thesis
  proof (cases r)
    case (Inl e)
    with r False renew_lease_error_unchanged [OF r [unfolded Inl]] show ?thesis
      by (simp add: heartbeat_tick_def lease_guard_renew_def)
  next
    case (Inr f)
    from renew_lease_needs_row [OF r [unfolded Inr] assms(1,3,2)] assms(4) show ?thesis by blast
  qed
qed

section \<open>Lemmas on process leases\<close>

lemma max_fence_ge: "r \<in> set rows \<Longrightarrow> cast (lr_fence r) \<le> max_fence cast rows"
proof -
  have fold: "m \<le> foldl (\<lambda>m s. max m (cast (lr_fence s))) m ss \<and>
      (\<forall>s \<in> set ss. cast (lr_fence s) \<le> foldl (\<lambda>m s. max m (cast (lr_fence s))) m ss)" for m ss
  proof (induction ss arbitrary: m)
    case (Cons s ss)
    from Cons.IH [of "max m (cast (lr_fence s))"] show ?case by simp
  qed simp
  show "r \<in> set rows \<Longrightarrow> cast (lr_fence r) \<le> max_fence cast rows"
    using fold by (cases rows) (auto simp: max_fence_def)
qed

text \<open>SQL's cast reads back the decimal numerals that fit its integers.\<close>

definition casts_numerals :: "(string \<Rightarrow> int) \<Rightarrow> bool" where
  "casts_numerals cast \<longleftrightarrow> (\<forall>n. int n \<le> i64_max \<longrightarrow> cast (show_nat n) = int n)"

lemma acquire_process_lock_Inr:
  assumes "acquire_process_lock cast now rid h ttl db = (Inr l, db')"
  shows "l = \<lparr>pl_run = rid, pl_holder = h, pl_token = of_int (max_fence cast (ld_locks db) + 1),
              pl_acquired = now, pl_heartbeat = now, pl_expires = now + uint ttl\<rparr>"
    and "uint (pl_token l) = max_fence cast (ld_locks db) + 1" "uint (pl_token l) \<le> i64_max"
    and "ld_locks db' = upsert_row \<lparr>lr_holder = lock_key rid h, lr_acquired = now, lr_expires = now + uint ttl,
           lr_fence = show_nat (unat (pl_token l)), lr_heartbeat = now\<rparr> (ld_locks db)"
    and "case find_row (lock_key rid h) (ld_locks db) of Some r \<Rightarrow> lr_expires r \<le> now | None \<Rightarrow> True"
proof -
  let ?n = "max_fence cast (ld_locks db) + 1"
  have e: "process_expiry now ttl = Inr (now + uint ttl)"
    using assms by (auto simp: acquire_process_lock_def process_expiry_def split: if_splits)
  show l: "l = \<lparr>pl_run = rid, pl_holder = h, pl_token = of_int ?n, pl_acquired = now, pl_heartbeat = now,
              pl_expires = now + uint ttl\<rparr>"
    using assms by (auto simp: acquire_process_lock_def e Let_def split: if_splits)
  have n: "0 \<le> ?n" "?n \<le> i64_max"
    using assms by (auto simp: acquire_process_lock_def e Let_def split: if_splits)
  then have u: "uint (of_int ?n :: u64) = ?n"
    by (simp add: uint_word_of_int_eq take_bit_eq_mod i64_max_def del: of_int_add)
  then show "uint (pl_token l) = ?n" "uint (pl_token l) \<le> i64_max" using n l by simp_all
  have "nat ?n = unat (pl_token l)" using u l by (simp add: unat_eq_nat_uint)
  then show "ld_locks db' = upsert_row \<lparr>lr_holder = lock_key rid h, lr_acquired = now,
      lr_expires = now + uint ttl, lr_fence = show_nat (unat (pl_token l)), lr_heartbeat = now\<rparr> (ld_locks db)"
    using assms by (auto simp: acquire_process_lock_def e Let_def split: if_splits)
  show "case find_row (lock_key rid h) (ld_locks db) of Some r \<Rightarrow> lr_expires r \<le> now | None \<Rightarrow> True"
    using assms by (auto simp: acquire_process_lock_def e Let_def split: if_splits option.splits)
qed

lemma find_row_upsert: "find_row (lr_holder r) (upsert_row r rows) = Some r"
proof (cases "find_row (lr_holder r) rows")
  case None
  then show ?thesis by (simp add: upsert_row_def find_row_append) (simp add: find_row_def)
next
  case (Some s)
  then show ?thesis
    by (induction rows) (auto simp: upsert_row_def update_row_def find_row_def split: if_splits)
qed

lemma acquired_row:
  assumes "acquire_process_lock cast now rid h ttl db = (Inr l, db')"
  shows "find_row (lock_key rid h) (ld_locks db') =
    Some \<lparr>lr_holder = lock_key rid h, lr_acquired = now, lr_expires = now + uint ttl,
          lr_fence = show_nat (unat (pl_token l)), lr_heartbeat = now\<rparr>"
  using find_row_upsert [of "\<lparr>lr_holder = lock_key rid h, lr_acquired = now, lr_expires = now + uint ttl,
      lr_fence = show_nat (unat (pl_token l)), lr_heartbeat = now\<rparr>"]
  by (simp add: acquire_process_lock_Inr(4) [OF assms])

section \<open>Properties\<close>

text \<open>C10: Fencing of a run lease: after a successful renewal the fence grew by one, and a renewal
  by the same holder with any other fence (a stale guard) is refused without touching the
  table.\<close>

theorem run_lease_fenced:
  assumes "8 \<le> ld_version db" and "picks_a_row pick" and "holder \<noteq> []"
    and "renew_lease pick now rid holder ttl (Some f) db = (Inr f', db')" and "g \<noteq> f'"
  shows "unat f' = Suc (unat f) \<and>
    (\<exists>e. renew_lease pick now' rid holder ttl' (Some g) db' = (Inl e, db'))"
proof -
  have v: "8 \<le> ld_version db'"
    using renew_lease_version [of pick now rid holder ttl "Some f" db] assms(1,4) by simp
  have "unat f' = Suc (unat f)" using renew_lease_needs_row [OF assms(4,1,3,2)] by blast
  moreover obtain r db'' where r: "renew_lease pick now' rid holder ttl' (Some g) db' = (r, db'')"
    by (cases "renew_lease pick now' rid holder ttl' (Some g) db'")
  have "\<not> (\<exists>x. r = Inr x)"
  proof
    assume "\<exists>x. r = Inr x"
    then obtain x where "renew_lease pick now' rid holder ttl' (Some g) db' = (Inr x, db'')" using r by auto
    from renew_lease_needs_row [OF this v assms(3,2)] obtain row where
      "row \<in> set (ld_locks db')" "lr_holder row = lock_key rid holder" "parse_u64 (lr_fence row) = Inr g" by blast
    with renew_lease_row [OF assms(4,1)] assms(5) show False by auto
  qed
  ultimately show ?thesis using r renew_lease_error_unchanged by (cases r) auto
qed

text \<open>A heartbeat interval of sixty seconds or more loses its lease: the lease it asks for lasts
  exactly one period, so the first renewal a period after a grant (of an acquisition or a
  renewal) finds the row expired, whatever else happened to the monotonic clock.\<close>

lemma slow_heartbeat_loses_lease:
  assumes "8 \<le> ld_version db" and "picks_a_row pick" and "holder \<noteq> []"
    and "renew_lease pick wall rid holder (ttl_as_secs (heartbeat_ttl interval)) ex db = (Inr f, db')"
    and "60 \<le> interval" and "wall + uint interval \<le> wall'"
  shows "\<exists>e. lease_guard_renew pick wall' clk \<lparr>lg_run = rid, lg_holder = holder, lg_fence = f,
      lg_acquired_at = clk0, lg_ttl = heartbeat_ttl interval\<rparr> db' = (Inl e, db')"
proof -
  have ttl: "ttl_as_secs (heartbeat_ttl interval) = interval"
    using assms(5) by (simp add: ttl_as_secs_def heartbeat_ttl_def from_secs_def max_absorb1)
  have v: "8 \<le> ld_version db'"
    using renew_lease_version [of pick wall rid holder "ttl_as_secs (heartbeat_ttl interval)" ex db] assms(1,4) by simp
  obtain r db'' where r: "renew_lease pick wall' rid holder interval (Some f) db' = (r, db'')"
    by (cases "renew_lease pick wall' rid holder interval (Some f) db'")
  have "\<not> (\<exists>x. r = Inr x)"
  proof
    assume "\<exists>x. r = Inr x"
    then obtain x where "renew_lease pick wall' rid holder interval (Some f) db' = (Inr x, db'')" using r by auto
    from renew_lease_needs_row [OF this v assms(3,2)] obtain row where
      "row \<in> set (ld_locks db')" "lr_holder row = lock_key rid holder" "wall' < lr_expires row" by blast
    with renew_lease_row [OF assms(4,1)] assms(6) show False by (auto simp: ttl)
  qed
  then obtain e where "r = Inl e" by (cases r) auto
  then show ?thesis
    using r renew_lease_error_unchanged by (auto simp: lease_guard_renew_def ttl)
qed


text \<open>The row of a run lease, and the first two grants of a run to one holder.\<close>

definition lease_row :: "string \<Rightarrow> string \<Rightarrow> int \<Rightarrow> u64 \<Rightarrow> u64 \<Rightarrow> lock_row" where
  "lease_row rid h t ttl f = \<lparr>lr_holder = lock_key rid h, lr_acquired = t, lr_expires = t + uint ttl,
     lr_fence = show_nat (unat f), lr_heartbeat = 0\<rparr>"

lemma lease_row_simps [simp]:
  "lr_holder (lease_row rid h t ttl f) = lock_key rid h"
  "lr_expires (lease_row rid h t ttl f) = t + uint ttl"
  "parse_u64 (lr_fence (lease_row rid h t ttl f)) = Inr f"
  by (simp_all add: lease_row_def parse_u64_show)

lemma show_one: "show_nat (Suc 0) = ''1''"
  by code_simp

lemma renew_lease_first:
  assumes "8 \<le> ld_version db" "newest_rows rid (ld_locks db) = []" "lease_expiry t ttl = Inr (t + uint ttl)"
  shows "renew_lease pick t rid h ttl None db
    = (Inr 1, db\<lparr>ld_locks := ld_locks db @ [lease_row rid h t ttl 1]\<rparr>)"
  using assms by (simp add: renew_lease_def lease_row_def show_one)

lemma renew_lease_own:
  assumes "8 \<le> ld_version db" "newest_rows rid rows = []" "ld_locks db = rows @ [lease_row rid h t ttl f]"
    and "lease_expiry t' ttl' = Inr (t' + uint ttl')" "picks_a_row pick" "checked_add f 1 = Some f'"
    and "ex = None \<or> ex = Some f \<and> t' < t + uint ttl"
  shows "renew_lease pick t' rid h ttl' ex db
    = (Inr f', db\<lparr>ld_locks := rows @ [lease_row rid h t' ttl' f']\<rparr>)"
proof -
  let ?row = "lease_row rid h t ttl f"
  have absent: "\<not> like_prefix (run_prefix rid) (lr_holder r)" if "r \<in> set rows" for r
    using assms(2) that by (simp add: newest_rows_empty)
  have u: "newest_rows rid (ld_locks db) \<noteq> []" "pick (newest_rows rid (ld_locks db)) = ?row"
    by (rule newest_row_unique [of ?row "ld_locks db" rid pick]; use assms(3,5) absent in auto)+
  have "lr_holder r \<noteq> lock_key rid h" if "r \<in> set rows" for r
    using absent [OF that] key_like [of rid h] by metis
  then have "map (\<lambda>r. if lr_holder r = lock_key rid h then g r else r) rows = rows" for g
    by (intro map_idI) simp
  then have upd: "update_row (lock_key rid h) g (ld_locks db) = rows @ [g ?row]" for g
    by (simp add: assms(3) update_row_def)
  have "renew_lease pick t' rid h ttl' ex db
      = (Inr f', db\<lparr>ld_locks := rows @ [?row\<lparr>lr_holder := lock_key rid h, lr_acquired := t',
           lr_expires := t' + uint ttl', lr_fence := show_nat (unat f')\<rparr>]\<rparr>)"
    using assms(1,4,6,7) u by (auto simp: renew_lease_def Let_def upd)
  then show ?thesis by (simp add: lease_row_def)
qed

text \<open>Two processes on one run destroy each other's lease. Every heartbeat uses the same holder
  name, so the second process's acquisition of the live lease succeeds; the first process's
  next tick does not renew, and on leaving its task drops its guard, which deletes the row
  the second process holds; the second process's next tick does not renew either.\<close>

lemma second_heartbeat_kills_both:
  assumes "8 \<le> ld_version db" and "picks_a_row pick"
    and "newest_rows rid (ld_locks db) = []"
    and "t1 + uint (ttl_as_secs ttl) \<le> i64_max" and "t2 + uint (ttl_as_secs ttl) \<le> i64_max"
    and "uint (ttl_as_secs ttl) \<le> i64_max"
  shows "\<exists>a db1 b db2 o1 db3.
     lease_guard_acquire pick t1 c1 rid ''heartbeat'' ttl db = (Inr a, db1) \<and>
     lease_guard_acquire pick t2 c2 rid ''heartbeat'' ttl db1 = (Inr b, db2) \<and>
     heartbeat_tick pick t3 c3 a db2 = (o1, db3) \<and> (\<nexists>g. o1 = Heartbeat_Renewed g) \<and>
     (\<nexists>g. fst (heartbeat_tick pick t4 c4 b db3) = Heartbeat_Renewed g)"
proof -
  let ?h = "''heartbeat''" and ?n = "ttl_as_secs ttl"
  have e: "lease_expiry t1 ?n = Inr (t1 + uint ?n)" "lease_expiry t2 ?n = Inr (t2 + uint ?n)"
    using assms(4-6) by (simp_all add: lease_expiry_def)
  have absent: "lr_holder r \<noteq> lock_key rid ?h" if "r \<in> set (ld_locks db)" for r
    using assms(3) that key_like [of rid ?h] by (metis newest_rows_empty)
  let ?db1 = "db\<lparr>ld_locks := ld_locks db @ [lease_row rid ?h t1 ?n 1]\<rparr>"
  let ?db2 = "db\<lparr>ld_locks := ld_locks db @ [lease_row rid ?h t2 ?n 2]\<rparr>"
  let ?a = "\<lparr>lg_run = rid, lg_holder = ?h, lg_fence = 1, lg_acquired_at = c1, lg_ttl = ttl\<rparr>"
  let ?b = "\<lparr>lg_run = rid, lg_holder = ?h, lg_fence = 2, lg_acquired_at = c2, lg_ttl = ttl\<rparr>"
  let ?db3 = "lease_guard_drop ?a ?db2"
  have a: "lease_guard_acquire pick t1 c1 rid ?h ttl db = (Inr ?a, ?db1)"
    by (simp add: lease_guard_acquire_def renew_lease_first [OF assms(1,3) e(1)])
  have b: "lease_guard_acquire pick t2 c2 rid ?h ttl ?db1 = (Inr ?b, ?db2)"
    using renew_lease_own [of ?db1 rid "ld_locks db" ?h t1 ?n 1 t2 ?n pick 2 None] assms(1-3) e(2)
    by (simp add: lease_guard_acquire_def checked_add_def)
  have "parse_u64 (lr_fence r) \<noteq> Inr 1" if "r \<in> set (ld_locks ?db2)" "lr_holder r = lock_key rid ?h" for r
    using that absent by auto
  then obtain o1 where o1: "heartbeat_tick pick t3 c3 ?a ?db2 = (o1, ?db3)" "\<forall>g. o1 \<noteq> Heartbeat_Renewed g"
    using heartbeat_tick_lost [of ?db2 pick ?a t3 c3] assms(1,2) by auto
  have "8 \<le> ld_version ?db3" "\<And>r. r \<in> set (ld_locks ?db3) \<Longrightarrow> lr_holder r \<noteq> lock_key rid ?h"
    using assms(1) by (auto simp: lease_guard_drop_def release_run_lease_def delete_row_def)
  then obtain o2 where o2: "heartbeat_tick pick t4 c4 ?b ?db3 = (o2, lease_guard_drop ?b ?db3)"
    "\<forall>g. o2 \<noteq> Heartbeat_Renewed g"
    using heartbeat_tick_lost [of ?db3 pick ?b t4 c4] assms(2) by auto
  show ?thesis
  proof (intro exI conjI)
    show "lease_guard_acquire pick t1 c1 rid ?h ttl db = (Inr ?a, ?db1)" by (rule a)
    show "lease_guard_acquire pick t2 c2 rid ?h ttl ?db1 = (Inr ?b, ?db2)" by (rule b)
    show "heartbeat_tick pick t3 c3 ?a ?db2 = (o1, ?db3)" by (rule o1(1))
    show "\<nexists>g. o1 = Heartbeat_Renewed g" using o1(2) by simp
    show "\<nexists>g. fst (heartbeat_tick pick t4 c4 ?b ?db3) = Heartbeat_Renewed g" using o2 by simp
  qed
qed

text \<open>The calls on process locks that any task can make, with the time each reads.\<close>

datatype process_lock_op =
    Lock_Acquire string string u64
  | Lock_Heartbeat string string u64
  | Lock_Release string string u64

definition process_lock_step :: "(string \<Rightarrow> int) \<Rightarrow> int \<times> process_lock_op \<Rightarrow> lease_db \<Rightarrow> lease_db" where
  "process_lock_step cast = (\<lambda>(t, op) db.
     (case op of
        Lock_Acquire rid holder ttl \<Rightarrow> snd (acquire_process_lock cast t rid holder ttl db)
      | Lock_Heartbeat rid holder token \<Rightarrow> snd (heartbeat_process_lock t rid holder token db)
      | Lock_Release rid holder token \<Rightarrow> snd (release_process_lock t rid holder token db)))"

lemma find_row_update_other:
  "k \<noteq> k' \<Longrightarrow> (\<And>r. lr_holder r = k' \<Longrightarrow> lr_holder (f r) = k') \<Longrightarrow> find_row k (update_row k' f rows) = find_row k rows"
  by (induction rows) (auto simp: find_row_def update_row_def)

lemma find_row_delete_other: "k \<noteq> k' \<Longrightarrow> find_row k (delete_row k' rows) = find_row k rows"
  by (induction rows) (auto simp: find_row_def delete_row_def)

lemma find_row_upsert_other: "k \<noteq> lr_holder r \<Longrightarrow> find_row k (upsert_row r rows) = find_row k rows"
  unfolding upsert_row_def by (simp add: find_row_update_other) (induction rows; simp add: find_row_def)

text \<open>A live row of a lock keeps its token and its deadline under every call but the release of that token.\<close>

definition holds_lock :: "string \<Rightarrow> u64 \<Rightarrow> int \<Rightarrow> int \<Rightarrow> lease_db \<Rightarrow> bool" where
  "holds_lock key token acquired expires db \<longleftrightarrow>
     (\<exists>r. find_row key (ld_locks db) = Some r \<and> parse_u64 (lr_fence r) = Inr token \<and>
        lr_acquired r = acquired \<and> lr_expires r = expires)"

lemma holds_lock_step:
  assumes "holds_lock key token acquired expires db" "t < expires"
    and "\<forall>rid holder. op = Lock_Release rid holder token \<longrightarrow> lock_key rid holder \<noteq> key"
  shows "holds_lock key token acquired expires (process_lock_step cast (t, op) db)"
proof (cases op)
  case (Lock_Acquire rid h ttl)
  show ?thesis
  proof (cases "fst (acquire_process_lock cast t rid h ttl db)")
    case (Inl e)
    then have "snd (acquire_process_lock cast t rid h ttl db) = db"
      by (auto simp: acquire_process_lock_def Let_def split: sum.splits if_splits)
    with assms(1) Lock_Acquire show ?thesis by (simp add: process_lock_step_def)
  next
    case (Inr l)
    then have a: "acquire_process_lock cast t rid h ttl db = (Inr l, snd (acquire_process_lock cast t rid h ttl db))"
      by (metis prod.collapse)
    have "lock_key rid h \<noteq> key"
      using acquire_process_lock_Inr(5) [OF a] assms(1,2) by (auto simp: holds_lock_def)
    then have "find_row key (ld_locks (snd (acquire_process_lock cast t rid h ttl db))) = find_row key (ld_locks db)"
      unfolding acquire_process_lock_Inr(4) [OF a] by (intro find_row_upsert_other) simp
    with assms(1) Lock_Acquire show ?thesis by (simp add: process_lock_step_def holds_lock_def)
  qed
next
  case (Lock_Heartbeat rid h tok)
  have "find_row key (update_row (lock_key rid h) (\<lambda>r. r\<lparr>lr_heartbeat := t\<rparr>) (ld_locks db)) =
      (if lock_key rid h = key then map_option (\<lambda>r. r\<lparr>lr_heartbeat := t\<rparr>) (find_row key (ld_locks db)) else find_row key (ld_locks db))"
    by (simp add: find_row_update find_row_update_other)
  with assms(1) Lock_Heartbeat show ?thesis
    by (auto simp: process_lock_step_def holds_lock_def heartbeat_process_lock_def Let_def split: option.split sum.split)
next
  case (Lock_Release rid h tok)
  have tok: "tok \<noteq> token" if "lock_key rid h = key" using that assms(3) Lock_Release by auto
  show ?thesis
  proof (cases "lock_key rid h = key")
    case True
    with assms(1) tok [OF True] Lock_Release show ?thesis
      by (auto simp: process_lock_step_def holds_lock_def release_process_lock_def Let_def)
  next
    case False
    then have "find_row key (delete_row (lock_key rid h) rows) = find_row key rows" for rows
      by (intro find_row_delete_other) simp
    with assms(1) Lock_Release show ?thesis
      by (auto simp: process_lock_step_def holds_lock_def release_process_lock_def Let_def split: option.split sum.split)
  qed
qed

lemma holds_lock_run:
  "holds_lock key token acquired expires db \<Longrightarrow>
   \<forall>(t, op) \<in> set ops. t < expires \<and> (\<forall>rid holder. op = Lock_Release rid holder token \<longrightarrow> lock_key rid holder \<noteq> key) \<Longrightarrow>
   holds_lock key token acquired expires (fold (process_lock_step cast) ops db)"
proof (induction ops arbitrary: db)
  case (Cons x ops)
  obtain t op where x: "x = (t, op)" by (cases x)
  have "holds_lock key token acquired expires (process_lock_step cast x db)"
    unfolding x by (rule holds_lock_step [OF Cons.prems(1)]) (use Cons.prems(2) x in auto)
  then show ?case using Cons.IH Cons.prems(2) by simp
qed simp

text \<open>C11: A granted process lease excludes every other grant of its key until it expires: whatever calls on
  process locks are made before then, by anyone and in any order, except a release that shows its
  token, another acquisition of the key is still refused. A heartbeat is accepted exactly before the
  deadline and changes nothing in the table but the row's heartbeat, so no heartbeat moves the deadline.
  The token is above every fence that was in the table.\<close>

theorem process_lease_granted:
  assumes "acquire_process_lock cast now rid holder ttl db = (Inr l, db0)"
    and "\<forall>(u, op) \<in> set ops. u < pl_expires l \<and>
      (\<forall>rid' holder'. op = Lock_Release rid' holder' (pl_token l) \<longrightarrow> lock_key rid' holder' \<noteq> lock_key rid holder)"
    and "db' = fold (process_lock_step cast) ops db0"
  shows "pl_expires l = now + uint ttl \<and>
    list_all (\<lambda>r. cast (lr_fence r) < uint (pl_token l)) (ld_locks db) \<and>
    (t < pl_expires l \<longrightarrow> isl (fst (acquire_process_lock cast t rid holder ttl' db'))) \<and>
    heartbeat_process_lock t rid holder (pl_token l) db' =
       (if t < pl_expires l
        then (Inr (l\<lparr>pl_heartbeat := t\<rparr>),
              db'\<lparr>ld_locks := update_row (lock_key rid holder) (\<lambda>r. r\<lparr>lr_heartbeat := t\<rparr>) (ld_locks db')\<rparr>)
        else (Inl (held_error ''fence mismatch or expired for'' rid holder), db'))"
proof -
  note a = acquire_process_lock_Inr [OF assms(1)]
  have fences: "list_all (\<lambda>r. cast (lr_fence r) < uint (pl_token l)) (ld_locks db)"
    using max_fence_ge [of _ "ld_locks db" cast] a(2) by (fastforce simp: list_all_iff)
  have "holds_lock (lock_key rid holder) (pl_token l) now (pl_expires l) db0"
    using acquired_row [OF assms(1)] a(1) by (simp add: holds_lock_def parse_u64_show)
  then have "holds_lock (lock_key rid holder) (pl_token l) now (pl_expires l) db'"
    unfolding assms(3) using assms(2) by (rule holds_lock_run)
  then obtain r where r: "find_row (lock_key rid holder) (ld_locks db') = Some r" "parse_u64 (lr_fence r) = Inr (pl_token l)"
    "lr_acquired r = now" "lr_expires r = pl_expires l" by (auto simp: holds_lock_def)
  have "t < pl_expires l \<longrightarrow> isl (fst (acquire_process_lock cast t rid holder ttl' db'))"
    using r by (simp add: acquire_process_lock_def split: sum.split)
  moreover have "heartbeat_process_lock t rid holder (pl_token l) db' =
       (if t < pl_expires l
        then (Inr (l\<lparr>pl_heartbeat := t\<rparr>),
              db'\<lparr>ld_locks := update_row (lock_key rid holder) (\<lambda>r. r\<lparr>lr_heartbeat := t\<rparr>) (ld_locks db')\<rparr>)
        else (Inl (held_error ''fence mismatch or expired for'' rid holder), db'))"
    using r arg_cong [OF a(1), of pl_run] arg_cong [OF a(1), of pl_holder] a(1) by (simp add: heartbeat_process_lock_def)
  ultimately show ?thesis using a(1) fences by simp
qed

text \<open>A stale process lease is fenced: when the same key is granted a second time, the first
  lease had expired, the second token is strictly larger, and the first lease's heartbeat
  and release are refused at every later time.\<close>

lemma process_lease_takeover:
  assumes "casts_numerals cast"
    and "acquire_process_lock cast t1 rid holder ttl1 db = (Inr l1, db1)"
    and "acquire_process_lock cast t2 rid holder ttl2 db1 = (Inr l2, db2)"
  shows "pl_expires l1 \<le> t2 \<and> pl_token l1 < pl_token l2 \<and>
    isl (fst (heartbeat_process_lock t rid holder (pl_token l1) db2)) \<and>
    release_process_lock t rid holder (pl_token l1) db2
      = (Inl (held_error ''fence mismatch or expired for'' rid holder), db2)"
proof -
  note a1 = acquire_process_lock_Inr [OF assms(2)] and a2 = acquire_process_lock_Inr [OF assms(3)]
  note r1 = acquired_row [OF assms(2)] and r2 = acquired_row [OF assms(3)]
  have "cast (show_nat (unat (pl_token l1))) = int (unat (pl_token l1))"
    using assms(1) a1(3) by (simp add: casts_numerals_def)
  then have "uint (pl_token l1) \<le> max_fence cast (ld_locks db1)"
    using max_fence_ge [of _ "ld_locks db1" cast] find_row_Some [OF r1] by fastforce
  then have lt: "pl_token l1 < pl_token l2" using a2(2) by (simp add: word_less_def)
  moreover have "pl_expires l1 \<le> t2" using a2(5) r1 a1(1) by simp
  moreover have "pl_token l2 \<noteq> pl_token l1" using lt by simp
  ultimately show ?thesis
    using r2 by (simp add: heartbeat_process_lock_def release_process_lock_def parse_u64_show)
qed

text \<open>The two lease families do collide: while a process lease of a run is alive and no other
  lease of the run exists, acquiring the run lease under any other holder name is refused.\<close>

lemma process_lease_blocks_run_lease:
  assumes "8 \<le> ld_version db" and "picks_a_row pick" and "newest_rows rid (ld_locks db) = []"
    and "acquire_process_lock cast now rid uuid ttl db = (Inr l, db')"
    and "t < pl_expires l" and "holder \<noteq> uuid"
  shows "\<exists>e. renew_lease pick t rid holder ttl' None db' = (Inl e, db')"
proof -
  note a = acquire_process_lock_Inr [OF assms(4)]
  have absent: "\<not> like_prefix (run_prefix rid) (lr_holder r)" if "r \<in> set (ld_locks db)" for r
    using assms(3) that by (simp add: newest_rows_empty)
  define row where "row = \<lparr>lr_holder = lock_key rid uuid, lr_acquired = now, lr_expires = now + uint ttl,
           lr_fence = show_nat (unat (pl_token l)), lr_heartbeat = now\<rparr>"
  have "find_row (lock_key rid uuid) (ld_locks db) = None"
    using absent key_like by (fastforce simp: find_row_None)
  then have locks: "ld_locks db' = ld_locks db @ [row]" using a(4) by (simp add: upsert_row_def row_def)
  have u: "newest_rows rid (ld_locks db') \<noteq> []" "pick (newest_rows rid (ld_locks db')) = row"
    using newest_row_unique [of row "ld_locks db'" rid pick] assms(2) absent by (auto simp: locks row_def)
  have act: "t < lr_expires row" "stored_holder rid row = uuid" "parse_u64 (lr_fence row) = Inr (pl_token l)"
    using assms(5) a(1) by (simp_all add: row_def stored_holder_def parse_u64_show)
  have v: "8 \<le> ld_version db'"
    using assms(1,4) by (auto simp: acquire_process_lock_def Let_def split: sum.splits if_splits)
  obtain r db'' where r: "renew_lease pick t rid holder ttl' None db' = (r, db'')"
    by (cases "renew_lease pick t rid holder ttl' None db'")
  have "\<not> (\<exists>x. r = Inr x)"
  proof
    assume "\<exists>x. r = Inr x"
    then obtain x where "renew_lease pick t rid holder ttl' None db' = (Inr x, db'')" using r by auto
    then show False using v act assms(6) u by (cases rule: renew_lease_Inr) auto
  qed
  then obtain e where "r = Inl e" by (cases r) auto
  then show ?thesis using r renew_lease_error_unchanged by blast
qed


section \<open>Witnesses\<close>

definition demo_db :: lease_db where
  "demo_db = \<lparr>ld_version = 19, ld_locks = []\<rparr>"

definition demo_leased :: lease_db where
  "demo_leased = demo_db\<lparr>ld_locks := [lease_row ''run'' ''heartbeat'' 100 60 1]\<rparr>"

definition demo_cast :: "string \<Rightarrow> int" where
  "demo_cast s = (case parse_u64 s of Inr n \<Rightarrow> uint n | Inl _ \<Rightarrow> 0)"

lemma demo_picks: "picks_a_row hd"
  by (simp add: picks_a_row_def)

lemma demo_casts: "casts_numerals demo_cast"
proof -
  have "demo_cast (show_nat n) = int n" if "int n \<le> i64_max" for n
  proof -
    have "unat (of_nat n :: u64) = n"
      using that by (simp add: i64_max_def unat_of_nat take_bit_eq_mod)
    moreover from this have "parse_u64 (show_nat n) = Inr (of_nat n)"
      using parse_u64_show [of "of_nat n :: u64"] by simp
    ultimately show ?thesis by (metis demo_cast_def of_nat_unat sum.case(2))
  qed
  then show ?thesis by (simp add: casts_numerals_def)
qed

lemma demo_first_grant: "renew_lease hd 100 ''run'' ''heartbeat'' 60 None demo_db = (Inr 1, demo_leased)"
  by (simp add: renew_lease_first demo_db_def demo_leased_def newest_rows_empty lease_expiry_def i64_max_def)

lemma demo_renewal:
  "renew_lease hd 130 ''run'' ''heartbeat'' 60 (Some 1) demo_leased
     = (Inr 2, demo_leased\<lparr>ld_locks := [lease_row ''run'' ''heartbeat'' 130 60 2]\<rparr>)"
  using renew_lease_own [of demo_leased "''run''" "[]" "''heartbeat''" 100 60 1 130 60 hd 2 "Some 1"] demo_picks
  by (simp add: demo_leased_def demo_db_def newest_rows_empty lease_expiry_def i64_max_def checked_add_def)

lemma run_lease_fenced_witness:
  "isl (fst (renew_lease hd 140 ''run'' ''heartbeat'' 60 (Some 1)
     (demo_leased\<lparr>ld_locks := [lease_row ''run'' ''heartbeat'' 130 60 2]\<rparr>)))"
proof -
  have "8 \<le> ld_version demo_leased" by (simp add: demo_leased_def demo_db_def)
  from run_lease_fenced [OF this demo_picks _ demo_renewal, of 1 140 60] show ?thesis by auto
qed

lemma demo_process_lease:
  "\<exists>l db'. acquire_process_lock demo_cast 100 ''run'' ''uuid'' 60 demo_db = (Inr l, db')"
  by (simp add: acquire_process_lock_def process_expiry_def demo_db_def find_row_def max_fence_def i64_max_def)

lemma process_lease_granted_witness:
  "\<exists>l db'. acquire_process_lock demo_cast 100 ''run'' ''uuid'' 60 demo_db = (Inr l, db') \<and>
     isl (fst (acquire_process_lock demo_cast 159 ''run'' ''uuid'' 60
       (fold (process_lock_step demo_cast) [(120, Lock_Heartbeat ''run'' ''uuid'' (pl_token l)), (150, Lock_Acquire ''run'' ''other'' 9)] db')))"
proof -
  obtain l db' where a: "acquire_process_lock demo_cast 100 ''run'' ''uuid'' 60 demo_db = (Inr l, db')"
    using demo_process_lease by blast
  have e: "pl_expires l = 160" using acquire_process_lock_Inr(1) [OF a] by simp
  let ?ops = "[(120, Lock_Heartbeat ''run'' ''uuid'' (pl_token l)), (150, Lock_Acquire ''run'' ''other'' 9)]"
  have "\<forall>(u, op) \<in> set ?ops. u < pl_expires l \<and>
      (\<forall>rid' holder'. op = Lock_Release rid' holder' (pl_token l) \<longrightarrow> lock_key rid' holder' \<noteq> lock_key ''run'' ''uuid'')"
    by (simp add: e)
  from process_lease_granted [OF a this refl, of 159 60] a e show ?thesis by auto
qed

end
