(* ===== verification/Text.thy ===== *)
theory Text imports Prelude "HOL-Library.Sublist" begin

text \<open>
  The methods of Rust's \<open>str\<close> that the components call, on the UTF-8 bytes of the text. White
  space is Unicode's \<open>White_Space\<close>: six ASCII bytes, two characters of two bytes and the
  seventeen of three bytes. In UTF-8 the bytes of such a character cannot occur across two
  other characters, so trimming and skipping act on the byte list.
\<close>

section \<open>White space\<close>

definition ascii_space :: "char \<Rightarrow> bool" where
  "ascii_space c \<longleftrightarrow> (let k = (of_char c :: nat) in (9 \<le> k \<and> k \<le> 13) \<or> k = 32)"

text \<open>\<open>is_ascii_whitespace\<close> lacks the vertical tab.\<close>

definition is_ascii_whitespace :: "char \<Rightarrow> bool" where
  "is_ascii_whitespace c \<longleftrightarrow> (of_char c :: nat) \<in> {9, 10, 12, 13, 32}"

definition wide_space :: "nat \<Rightarrow> nat \<Rightarrow> nat \<Rightarrow> bool" where
  "wide_space a b c \<longleftrightarrow>
     (a = 0xE1 \<and> b = 0x9A \<and> c = 0x80) \<or>
     (a = 0xE2 \<and> b = 0x80 \<and> ((0x80 \<le> c \<and> c \<le> 0x8A) \<or> c \<in> {0xA8, 0xA9, 0xAF})) \<or>
     (a = 0xE2 \<and> b = 0x81 \<and> c = 0x9F) \<or>
     (a = 0xE3 \<and> b = 0x80 \<and> c = 0x80)"

text \<open>The number of bytes of the white-space character the text starts with, 0 if none.\<close>

fun space_len :: "string \<Rightarrow> nat" where
  "space_len [] = 0"
| "space_len [a] = (if ascii_space a then 1 else 0)"
| "space_len [a, b] =
     (if ascii_space a then 1
      else if of_char a = (0xC2 :: nat) \<and> of_char b \<in> {0x85, 0xA0 :: nat} then 2 else 0)"
| "space_len (a # b # c # s) =
     (if ascii_space a then 1
      else if of_char a = (0xC2 :: nat) \<and> of_char b \<in> {0x85, 0xA0 :: nat} then 2
      else if wide_space (of_char a) (of_char b) (of_char c) then 3 else 0)"

lemma space_len_le: "space_len s \<le> length s"
  by (cases s rule: space_len.cases) auto

lemma space_len_ascii: "ascii_space c \<Longrightarrow> space_len (c # s) = 1"
  by (cases "c # s" rule: space_len.cases) auto

function trim_start :: "string \<Rightarrow> string" where
  "trim_start s = (if space_len s = 0 then s else trim_start (drop (space_len s) s))"
  by pat_completeness auto
termination
proof (relation "measure length")
  fix s :: string
  assume "space_len s \<noteq> 0"
  then show "(drop (space_len s) s, s) \<in> measure length" using space_len_le [of s] by simp
qed simp

declare trim_start.simps [simp del]

text \<open>The same at the end of the text, on the reversed bytes.\<close>

fun space_len_rev :: "string \<Rightarrow> nat" where
  "space_len_rev [] = 0"
| "space_len_rev [a] = (if ascii_space a then 1 else 0)"
| "space_len_rev [b, a] = (if ascii_space b then 1
      else if of_char a = (0xC2 :: nat) \<and> of_char b \<in> {0x85, 0xA0 :: nat} then 2 else 0)"
| "space_len_rev (c # b # a # s) =
     (if ascii_space c then 1
      else if of_char b = (0xC2 :: nat) \<and> of_char c \<in> {0x85, 0xA0 :: nat} then 2
      else if wide_space (of_char a) (of_char b) (of_char c) then 3 else 0)"

lemma space_len_rev_le: "space_len_rev s \<le> length s"
  by (cases s rule: space_len_rev.cases) auto

function trim_rev :: "string \<Rightarrow> string" where
  "trim_rev s = (if space_len_rev s = 0 then s else trim_rev (drop (space_len_rev s) s))"
  by pat_completeness auto
termination
proof (relation "measure length")
  fix s :: string
  assume "space_len_rev s \<noteq> 0"
  then show "(drop (space_len_rev s) s, s) \<in> measure length" using space_len_rev_le [of s] by simp
qed simp

declare trim_rev.simps [simp del]

definition trim_end :: "string \<Rightarrow> string" where
  "trim_end s = rev (trim_rev (rev s))"

definition trim :: "string \<Rightarrow> string" where
  "trim s = trim_end (trim_start s)"

text \<open>\<open>trim_end_matches\<close> and \<open>trim_start_matches\<close> of a set of ASCII characters.\<close>

definition trim_end_matches :: "char list \<Rightarrow> string \<Rightarrow> string" where
  "trim_end_matches cs s = rev (dropWhile (\<lambda>c. c \<in> set cs) (rev s))"

definition trim_start_matches :: "char list \<Rightarrow> string \<Rightarrow> string" where
  "trim_start_matches cs s = dropWhile (\<lambda>c. c \<in> set cs) s"

lemma trim_start_suffix: "\<exists>p. s = p @ trim_start s"
proof (induction s rule: trim_start.induct)
  case (1 s)
  show ?case
  proof (cases "space_len s = 0")
    case True
    then show ?thesis by (simp add: trim_start.simps [of s])
  next
    case False
    then obtain p where "drop (space_len s) s = p @ trim_start (drop (space_len s) s)" using 1 by blast
    then have "s = (take (space_len s) s @ p) @ trim_start s"
      using False append_take_drop_id [of "space_len s" s] by (simp add: trim_start.simps [of s])
    then show ?thesis by blast
  qed
qed

lemma trim_start_length: "length (trim_start s) \<le> length s"
  using trim_start_suffix [of s] by (metis le_add2 length_append)

lemma trim_start_space: "space_len (trim_start s) = 0"
proof (induction s rule: trim_start.induct)
  case (1 s)
  then show ?case by (cases "space_len s = 0") (simp_all add: trim_start.simps [of s])
qed

lemma trim_start_id: "space_len s = 0 \<Longrightarrow> trim_start s = s"
  by (simp add: trim_start.simps [of s])

lemma trim_start_idem: "trim_start (trim_start s) = trim_start s"
  by (rule trim_start_id [OF trim_start_space])

lemma trim_rev_suffix: "suffix (trim_rev s) s"
proof (induction s rule: trim_rev.induct)
  case (1 s)
  show ?case
  proof (cases "space_len_rev s = 0")
    case False
    then have "suffix (trim_rev s) (drop (space_len_rev s) s)" using 1 by (simp add: trim_rev.simps [of s])
    then show ?thesis using suffix_drop suffix_order.trans by blast
  qed (simp add: trim_rev.simps [of s])
qed

lemma trim_sublist: "sublist (trim s) s"
proof -
  have "prefix (trim_end t) t" for t using trim_rev_suffix [of "rev t"] by (simp add: trim_end_def suffix_to_prefix)
  then have "sublist (trim_end (trim_start s)) (trim_start s)" by (rule prefix_imp_sublist)
  moreover have "suffix (trim_start s) s" using trim_start_suffix [of s] by (auto simp: suffix_def)
  ultimately show ?thesis unfolding trim_def using suffix_imp_sublist sublist_order.order.trans by blast
qed

section \<open>ASCII classes\<close>

definition is_ascii_digit :: "char \<Rightarrow> bool" where
  "is_ascii_digit c \<longleftrightarrow> (let k = (of_char c :: nat) in 48 \<le> k \<and> k \<le> 57)"

definition is_ascii_alphanumeric :: "char \<Rightarrow> bool" where
  "is_ascii_alphanumeric c \<longleftrightarrow>
     (let k = (of_char c :: nat) in is_ascii_digit c \<or> (65 \<le> k \<and> k \<le> 90) \<or> (97 \<le> k \<and> k \<le> 122))"

definition is_ascii_lowercase :: "char \<Rightarrow> bool" where
  "is_ascii_lowercase c \<longleftrightarrow> (let k = (of_char c :: nat) in 97 \<le> k \<and> k \<le> 122)"

definition ascii_upper :: "char \<Rightarrow> char" where
  "ascii_upper c = (if is_ascii_lowercase c then char_of ((of_char c :: nat) - 32) else c)"

section \<open>Searching\<close>

definition strip_prefix_str :: "string \<Rightarrow> string \<Rightarrow> string option" where
  "strip_prefix_str p s = (if prefix p s then Some (drop (length p) s) else None)"

definition strip_suffix_str :: "string \<Rightarrow> string \<Rightarrow> string option" where
  "strip_suffix_str p s = (if suffix p s then Some (take (length s - length p) s) else None)"

text \<open>\<open>find\<close>, \<open>rfind\<close> and \<open>contains\<close> of a pattern.\<close>

fun find_str :: "string \<Rightarrow> string \<Rightarrow> nat option" where
  "find_str p [] = (if p = [] then Some 0 else None)"
| "find_str p (c # s) = (if prefix p (c # s) then Some 0 else map_option Suc (find_str p s))"

fun rfind_str :: "string \<Rightarrow> string \<Rightarrow> nat option" where
  "rfind_str p [] = (if p = [] then Some 0 else None)"
| "rfind_str p (c # s) =
     (case rfind_str p s of Some i \<Rightarrow> Some (Suc i) | None \<Rightarrow> if prefix p (c # s) then Some 0 else None)"

definition contains :: "string \<Rightarrow> string \<Rightarrow> bool" where
  "contains p s \<longleftrightarrow> find_str p s \<noteq> None"

text \<open>\<open>split_once\<close>.\<close>

definition split_once :: "string \<Rightarrow> string \<Rightarrow> (string \<times> string) option" where
  "split_once p s = map_option (\<lambda>i. (take i s, drop (i + length p) s)) (find_str p s)"

definition to_ascii_lowercase :: "string \<Rightarrow> string" where
  "to_ascii_lowercase s = map ascii_lower s"

lemma find_str_Some:
  "find_str p s = Some i \<Longrightarrow> i \<le> length s \<and> prefix p (drop i s)"
  by (induction p s arbitrary: i rule: find_str.induct) (auto split: if_splits)

lemma rfind_str_Some:
  "rfind_str p s = Some i \<Longrightarrow> i \<le> length s \<and> prefix p (drop i s)"
  by (induction p s arbitrary: i rule: rfind_str.induct) (auto split: if_splits option.splits)

lemma contains_sublist: "contains p s \<longleftrightarrow> sublist p s"
proof -
  have "find_str p s \<noteq> None \<longleftrightarrow> sublist p s"
    by (induction p s rule: find_str.induct) (auto simp: sublist_Cons_right)
  then show ?thesis by (simp add: contains_def)
qed

lemma strip_prefix_str_Some: "strip_prefix_str p s = Some r \<longleftrightarrow> s = p @ r"
  by (auto simp: strip_prefix_str_def prefix_def)

section \<open>Splitting\<close>

text \<open>\<open>split(c)\<close> on one ASCII character and \<open>lines()\<close>.\<close>

fun split_on :: "char \<Rightarrow> string \<Rightarrow> string list" where
  "split_on c [] = [[]]"
| "split_on c (x # xs) =
     (if x = c then [] # split_on c xs
      else case split_on c xs of [] \<Rightarrow> [[x]] | w # ws \<Rightarrow> (x # w) # ws)"

lemma split_on_not_Nil [simp]: "split_on c s \<noteq> []"
  by (induction s) (auto split: list.splits)

lemma join_split: "join_str [c] (split_on c s) = s"
proof (induction s)
  case (Cons x xs)
  then show ?case by (cases "split_on c xs" rule: list.exhaust; cases "tl (split_on c xs)") auto
qed simp

lemma split_on_plain: "c \<notin> set w \<Longrightarrow> split_on c w = [w]"
  by (induction w) auto

lemma split_on_append: "c \<notin> set w \<Longrightarrow> split_on c (w @ c # s) = w # split_on c s"
  by (induction w) auto

lemma split_on_join:
  "ws \<noteq> [] \<Longrightarrow> (\<And>w. w \<in> set ws \<Longrightarrow> c \<notin> set w) \<Longrightarrow> split_on c (join_str [c] ws) = ws"
proof (induction "[c]" ws rule: join_str.induct)
  case (3 x y xs)
  then show ?case using split_on_append [of c x "join_str [c] (y # xs)"] by simp
qed (auto simp: split_on_plain)

lemma find_str_char: "c \<notin> set p \<Longrightarrow> find_str [c] (p @ c # s) = Some (length p)"
  by (induction p) auto

lemma split_once_char: "c \<notin> set p \<Longrightarrow> split_once [c] (p @ c # s) = Some (p, s)"
  by (simp add: split_once_def find_str_char)

text \<open>\<open>split_whitespace\<close>: the words between runs of white space.\<close>

fun word_len :: "string \<Rightarrow> nat" where
  "word_len [] = 0"
| "word_len (c # s) = (if space_len (c # s) \<noteq> 0 then 0 else Suc (word_len s))"

function split_whitespace :: "string \<Rightarrow> string list" where
  "split_whitespace s =
     (let t = trim_start s; n = word_len t
      in if t = [] then [] else take n t # split_whitespace (drop n t))"
  by pat_completeness auto
termination
proof (relation "measure length")
  fix s t :: string and n
  assume t: "t = trim_start s" "t \<noteq> []" and n: "n = word_len t"
  have "space_len t = 0" unfolding t(1) by (rule trim_start_space)
  then have "0 < n" using t(2) unfolding n by (cases t) auto
  moreover have "0 < length t" "length t \<le> length s" using t trim_start_length [of s] by auto
  ultimately show "(drop n t, s) \<in> measure length" by (simp only: in_measure length_drop)
qed simp

declare split_whitespace.simps [simp del]

section \<open>Visible ASCII\<close>

text \<open>Bytes that neither are white space nor belong to a wide white-space character.\<close>

definition visible :: "char \<Rightarrow> bool" where
  "visible c \<longleftrightarrow> 33 \<le> (of_char c :: nat) \<and> (of_char c :: nat) < 128"

lemma space_len_visible: "visible c \<Longrightarrow> space_len (c # s) = 0"
  by (cases "c # s" rule: space_len.cases) (auto simp: visible_def ascii_space_def wide_space_def Let_def)

lemma space_len_rev_visible: "visible c \<Longrightarrow> space_len_rev (c # s) = 0"
  by (cases "c # s" rule: space_len_rev.cases) (auto simp: visible_def ascii_space_def wide_space_def Let_def)

lemma trim_visible:
  assumes "s \<noteq> [] \<Longrightarrow> visible (hd s) \<and> visible (last s)"
  shows "trim s = s"
proof (cases "s = []")
  case True
  then show ?thesis by (simp add: trim_def trim_end_def trim_start.simps [of "[]"] trim_rev.simps [of "[]"])
next
  case False
  then have "trim_start s = s"
    using assms by (cases s) (simp_all add: trim_start_id space_len_visible)
  moreover obtain c r where r: "rev s = c # r" "c = last s"
    using False by (metis hd_rev list.collapse rev_is_Nil_conv)
  have "space_len_rev (rev s) = 0"
    unfolding r(1) using assms False r(2) by (simp add: space_len_rev_visible)
  then have "trim_rev (rev s) = rev s" by (simp add: trim_rev.simps [of "rev s"])
  ultimately show ?thesis by (simp add: trim_def trim_end_def)
qed

lemma digit_visible: "is_ascii_digit c \<Longrightarrow> visible c"
  by (simp add: visible_def is_ascii_digit_def Let_def)

lemma lowercase_visible: "is_ascii_lowercase c \<Longrightarrow> visible c"
  by (simp add: visible_def is_ascii_lowercase_def Let_def)

lemma upper_visible: "visible c \<Longrightarrow> visible (ascii_upper c)"
proof -
  assume v: "visible c"
  have m: "(of_char (char_of n :: char) :: nat) = n" if "n < 256" for n
    using that by (simp add: of_char_of)
  show ?thesis
    using v m [of "of_char c - 32"] by (auto simp: visible_def ascii_upper_def is_ascii_lowercase_def Let_def)
qed

end
