(* ===== verification/Json_Extractor.thy ===== *)
theory Json_Extractor imports Text begin

text \<open>
  The tolerant JSON extractor of \<open>src/llm/json_extractor.rs\<close> and the two cleaning passes of
  \<open>src/llm/control_tokens.rs\<close>, over chat-template markers and over control bytes. The input is a list of bytes and positions are byte offsets,
  as in the code. The two scanning loops of the code treat comments, strings and escapes
  alike; that part is \<open>lex_step\<close>, with \<open>None\<close> for a byte outside of them. The lemmas give
  the shape of the range, its independence of what follows it, and idempotence.
\<close>

section \<open>Comments\<close>

function line_end :: "string \<Rightarrow> nat \<Rightarrow> nat" where
  "line_end bs j = (if j < length bs \<and> bs ! j \<noteq> CHR 0x0A then line_end bs (j + 1) else j)"
  by pat_completeness auto
termination by (relation "measure (\<lambda>(bs, j). length bs - j)") auto

function block_scan :: "string \<Rightarrow> nat \<Rightarrow> nat" where
  "block_scan bs j =
     (if j + 1 < length bs \<and> \<not> (bs ! j = CHR ''*'' \<and> bs ! (j + 1) = CHR ''/'')
      then block_scan bs (j + 1) else j)"
  by pat_completeness auto
termination by (relation "measure (\<lambda>(bs, j). length bs - j)") auto

declare line_end.simps [simp del] block_scan.simps [simp del]

definition block_end :: "string \<Rightarrow> nat \<Rightarrow> nat" where
  "block_end bs j = min (block_scan bs j + 2) (length bs)"

text \<open>The new position when a comment starts at \<open>i\<close> and no string is open.\<close>

definition skip_js_comment :: "string \<Rightarrow> nat \<Rightarrow> bool \<Rightarrow> nat option" where
  "skip_js_comment bs i in_string =
     (if in_string \<or> length bs \<le> i + 1 \<or> bs ! i \<noteq> CHR ''/'' then None
      else if bs ! (i + 1) = CHR ''/'' then Some (line_end bs (i + 2))
      else if bs ! (i + 1) = CHR ''*'' then Some (block_end bs (i + 2))
      else None)"

definition lex_step :: "string \<Rightarrow> nat \<Rightarrow> bool \<Rightarrow> bool \<Rightarrow> (nat \<times> bool \<times> bool) option" where
  "lex_step bs i in_string escape =
     (case skip_js_comment bs i in_string of
        Some i' \<Rightarrow> Some (i', in_string, escape)
      | None \<Rightarrow>
          (if escape then Some (i + 1, in_string, False)
           else if bs ! i = CHR 0x5C \<and> in_string then Some (i + 1, in_string, True)
           else if bs ! i = CHR 0x22 then Some (i + 1, \<not> in_string, escape)
           else if in_string then Some (i + 1, in_string, escape)
           else None))"

lemma line_end_ge: "j \<le> line_end bs j"
proof (induction bs j rule: line_end.induct)
  case (1 bs j)
  then show ?case by (subst line_end.simps) auto
qed

lemma block_scan_ge: "j \<le> block_scan bs j"
proof (induction bs j rule: block_scan.induct)
  case (1 bs j)
  then show ?case by (subst block_scan.simps) auto
qed

lemma skip_js_comment_inc: "skip_js_comment bs i s = Some i' \<Longrightarrow> i < i'"
  using line_end_ge [of "i + 2" bs] block_scan_ge [of "i + 2" bs]
  by (auto simp: skip_js_comment_def block_end_def split: if_splits)

lemma lex_step_inc: "lex_step bs i s e = Some (i', s', e') \<Longrightarrow> i < i'"
  using skip_js_comment_inc by (auto simp: lex_step_def split: option.splits if_splits)

section \<open>The extractor\<close>

text \<open>\<open>char::is_whitespace\<close> on a byte read as a character: the Latin-1 white space.\<close>

definition byte_whitespace :: "char \<Rightarrow> bool" where
  "byte_whitespace c \<longleftrightarrow>
     (let k = (of_char c :: nat) in (9 \<le> k \<and> k \<le> 13) \<or> k = 32 \<or> k = 133 \<or> k = 160)"

datatype extract_error = NoJsonFound | UnbalancedBraces | ParseFailed string

primrec extract_error_text :: "extract_error \<Rightarrow> string" where
  "extract_error_text NoJsonFound = ''no JSON delimiter found in input''"
| "extract_error_text UnbalancedBraces = ''unbalanced braces in candidate JSON''"
| "extract_error_text (ParseFailed m) = ''JSON parse failed: '' @ m"

function find_first_json_delim ::
  "string \<Rightarrow> nat \<Rightarrow> nat \<Rightarrow> bool \<Rightarrow> bool \<Rightarrow> (nat \<times> char \<times> nat) option"
where
  "find_first_json_delim bs start i in_string escape =
     (if length bs \<le> i then None
      else case lex_step bs i in_string escape of
             Some (i', in_string', escape') \<Rightarrow> find_first_json_delim bs start i' in_string' escape'
           | None \<Rightarrow>
               (if (bs ! i = CHR 0x7B \<or> bs ! i = CHR 0x5B) \<and> (i \<le> start \<or> byte_whitespace (bs ! (i - 1)))
                then Some (i, bs ! i, i + 1)
                else find_first_json_delim bs start (i + 1) in_string escape))"
  by pat_completeness auto
termination
  by (relation "measure (\<lambda>(bs, start, i, s, e). length bs - i)") (auto dest: lex_step_inc)

function skip_whitespace :: "string \<Rightarrow> nat \<Rightarrow> nat" where
  "skip_whitespace bs i = (if i < length bs \<and> byte_whitespace (bs ! i) then skip_whitespace bs (i + 1) else i)"
  by pat_completeness auto
termination by (relation "measure (\<lambda>(bs, i). length bs - i)") auto

definition looks_like_json_after_open :: "string \<Rightarrow> nat \<Rightarrow> char \<Rightarrow> bool" where
  "looks_like_json_after_open bs start open_char =
     (let i = skip_whitespace bs start
      in if length bs \<le> i then False
         else let b = bs ! i
              in if open_char = CHR 0x7B then b = CHR 0x22 \<or> b = CHR 0x7B \<or> b = CHR 0x7D
                 else if open_char = CHR 0x5B
                   then b \<in> set (CHR 0x22 # ''{[]-+.tfn'') \<or> b \<in> set ''0123456789''
                 else False)"

definition close_of :: "char \<Rightarrow> char option" where
  "close_of c = (if c = CHR 0x7B then Some (CHR 0x7D) else if c = CHR 0x5B then Some (CHR 0x5D) else None)"

text \<open>
  The balancing loop. \<open>depth\<close> is a 32-bit counter in the code; it counts delimiters of the
  input, so it cannot overflow on an input of less than two gigabytes.
\<close>

function balance_loop :: "string \<Rightarrow> char \<Rightarrow> char \<Rightarrow> int \<Rightarrow> nat \<Rightarrow> bool \<Rightarrow> bool \<Rightarrow> nat option" where
  "balance_loop bs open_char close_char depth i in_string escape =
     (if length bs \<le> i then None
      else case lex_step bs i in_string escape of
             Some (i', in_string', escape') \<Rightarrow> balance_loop bs open_char close_char depth i' in_string' escape'
           | None \<Rightarrow>
               (if bs ! i = open_char
                then balance_loop bs open_char close_char (depth + 1) (i + 1) in_string escape
                else if bs ! i = close_char
                then (if depth - 1 = 0 then Some (i + 1)
                      else balance_loop bs open_char close_char (depth - 1) (i + 1) in_string escape)
                else balance_loop bs open_char close_char depth (i + 1) in_string escape))"
  by pat_completeness auto
termination
  by (relation "measure (\<lambda>(bs, p, c, d, i, s, e). length bs - i)") (auto dest: lex_step_inc)

declare find_first_json_delim.simps [simp del] skip_whitespace.simps [simp del] balance_loop.simps [simp del]

definition find_balanced_end :: "string \<Rightarrow> nat \<Rightarrow> char \<Rightarrow> nat option" where
  "find_balanced_end bs start open_char =
     (case close_of open_char of
        None \<Rightarrow> None
      | Some close_char \<Rightarrow> balance_loop bs open_char close_char 1 start False False)"

definition bom_offset :: "string \<Rightarrow> nat" where
  "bom_offset bs = (if take 3 bs = [CHR 0xEF, CHR 0xBB, CHR 0xBF] then 3 else 0)"

definition extract_tolerant_json :: "string \<Rightarrow> extract_error + nat \<times> nat" where
  "extract_tolerant_json bs =
     (let offset = bom_offset bs
      in case find_first_json_delim bs offset offset False False of
           None \<Rightarrow> Inl NoJsonFound
         | Some (start, open_char, after_open) \<Rightarrow>
             (if \<not> looks_like_json_after_open bs after_open open_char then Inl UnbalancedBraces
              else case find_balanced_end bs after_open open_char of
                     None \<Rightarrow> Inl UnbalancedBraces
                   | Some abs_end \<Rightarrow> Inr (start, abs_end)))"

text \<open>\<open>&input[start..end]\<close> and the parse of the slice by the JSON library.\<close>

definition slice :: "string \<Rightarrow> nat \<Rightarrow> nat \<Rightarrow> string" where
  "slice bs s e = drop s (take e bs)"

definition extract_and_parse :: "(string \<Rightarrow> string + 'v) \<Rightarrow> string \<Rightarrow> extract_error + 'v" where
  "extract_and_parse from_str bs =
     (case extract_tolerant_json bs of
        Inl e \<Rightarrow> Inl e
      | Inr (s, e) \<Rightarrow> map_err ParseFailed (from_str (slice bs s e)))"

section \<open>Control bytes\<close>

text \<open>
  \<open>strip\<close> removes characters below 0x20 (but line feed, carriage return and tab) and 0x7F.
  All of them are single bytes and no byte of a longer character is one of them, so the
  strip acts on bytes.
\<close>

definition should_keep :: "char \<Rightarrow> bool" where
  "should_keep c \<longleftrightarrow>
     (let k = (of_char c :: nat) in k = 10 \<or> k = 13 \<or> k = 9 \<or> (32 \<le> k \<and> k \<noteq> 127))"

definition needs_strip :: "string \<Rightarrow> bool" where
  "needs_strip s \<longleftrightarrow> list_ex (\<lambda>c. \<not> should_keep c) s"

definition strip :: "string \<Rightarrow> string" where
  "strip s = (if \<not> needs_strip s then s else filter should_keep s)"

section \<open>Chat-template markers\<close>

text \<open>
  The alternation \<open>CHAT_TEMPLATE_MARKERS\<close>, read at the start of a text: the function returns what
  follows the marker. Without case, the letter S of the bracket tokens has a third form, the long s
  (U+017F), two bytes.
\<close>

definition any_case :: "char \<Rightarrow> string \<Rightarrow> string option" where
  "any_case c s = (case s of x # r \<Rightarrow> if ascii_lower x = c then Some r else None | [] \<Rightarrow> None)"

definition any_case_s :: "string \<Rightarrow> string option" where
  "any_case_s s =
     (case any_case CHR ''s'' s of Some r \<Rightarrow> Some r | None \<Rightarrow> strip_prefix_str [CHR 0xC5, CHR 0xBF] s)"

definition optional_space :: "string \<Rightarrow> string option" where
  "optional_space s = (case strip_prefix_str '' '' s of Some r \<Rightarrow> Some r | None \<Rightarrow> Some s)"

fun chain_match :: "(string \<Rightarrow> string option) list \<Rightarrow> string \<Rightarrow> string option" where
  "chain_match [] s = Some s"
| "chain_match (p # ps) s = (case p s of None \<Rightarrow> None | Some r \<Rightarrow> chain_match ps r)"

fun first_match :: "(string \<Rightarrow> string option) list \<Rightarrow> string \<Rightarrow> string option" where
  "first_match [] s = None"
| "first_match (p # ps) s = (case p s of Some r \<Rightarrow> Some r | None \<Rightarrow> first_match ps s)"

definition chat_template_markers :: "(string \<Rightarrow> string option) list" where
  "chat_template_markers =
     [chain_match [strip_prefix_str ''['', any_case CHR ''b'', any_case CHR ''o'', optional_space, any_case_s, strip_prefix_str '']''],
      chain_match [strip_prefix_str ''['', any_case CHR ''e'', any_case CHR ''o'', any_case_s, optional_space, strip_prefix_str '']''],
      strip_prefix_str ''<|im_start|>'', strip_prefix_str ''<|im_end|>'', strip_prefix_str ''<|eot_id|>'',
      strip_prefix_str ''<|end_of_turn|>'', strip_prefix_str ''<|endoftext|>'',
      strip_prefix_str ''<system>'', strip_prefix_str ''</system>'', strip_prefix_str ''<assistant>'',
      strip_prefix_str ''</assistant>'', strip_prefix_str ''<user>'', strip_prefix_str ''</user>'']"

lemma any_case_Some: "any_case c s = Some r \<Longrightarrow> \<exists>x. s = x # r"
  by (auto simp: any_case_def split: list.splits if_splits)

lemma chain_match_suffix:
  "(\<And>p s r. p \<in> set ps \<Longrightarrow> p s = Some r \<Longrightarrow> suffix r s) \<Longrightarrow> chain_match ps s = Some r \<Longrightarrow> suffix r s"
proof (induction ps arbitrary: s)
  case (Cons p ps)
  from Cons.prems(2) obtain u where "p s = Some u" "chain_match ps u = Some r" by (auto split: option.splits)
  then show ?case using Cons by (meson list.set_intros suffix_order.trans)
qed simp

lemma first_match_mem: "first_match ps s = Some r \<Longrightarrow> \<exists>p\<in>set ps. p s = Some r"
  by (induction ps) (auto split: option.splits)

lemma parts_suffix:
  "strip_prefix_str p s = Some r \<Longrightarrow> suffix r s"
  "any_case c s = Some r \<Longrightarrow> suffix r s"
  "any_case_s s = Some r \<Longrightarrow> suffix r s"
  "optional_space s = Some r \<Longrightarrow> suffix r s"
  by (auto simp: strip_prefix_str_Some any_case_def any_case_s_def optional_space_def suffix_def
      split: list.splits if_splits option.splits)

text \<open>A marker is the start of the text and not empty.\<close>

lemma marker_rest:
  assumes "first_match chat_template_markers s = Some r"
  shows "suffix r s" "length r < length s"
proof -
  have lit: "suffix r s \<and> length r < length s" if "strip_prefix_str p s = Some r" "p \<noteq> []" for p
    using that by (auto simp: strip_prefix_str_Some suffix_def)
  have br: "suffix r s \<and> length r < length s"
    if c: "chain_match (strip_prefix_str ''['' # ps) s = Some r"
      and ps: "set ps \<subseteq> {any_case CHR ''b'', any_case CHR ''e'', any_case CHR ''o'', any_case_s, optional_space, strip_prefix_str '']''}" for ps
  proof -
    obtain u where u: "s = CHR ''['' # u" "chain_match ps u = Some r"
      using c by (auto simp: strip_prefix_str_Some split: option.splits)
    have "suffix r u" by (rule chain_match_suffix [OF _ u(2)]) (use ps parts_suffix in blast)
    then show ?thesis using u(1) suffix_length_le by (fastforce intro: suffix_ConsI)
  qed
  obtain p where p: "p \<in> set chat_template_markers" "p s = Some r" using first_match_mem [OF assms] by blast
  have "(\<exists>ps. p = chain_match (strip_prefix_str ''['' # ps) \<and>
        set ps \<subseteq> {any_case CHR ''b'', any_case CHR ''e'', any_case CHR ''o'', any_case_s, optional_space, strip_prefix_str '']''}) \<or>
      (\<exists>l. p = strip_prefix_str l \<and> l \<noteq> [])"
    using p(1) unfolding chat_template_markers_def by fastforce
  then have "suffix r s \<and> length r < length s" using p(2) lit br by blast
  then show "suffix r s" "length r < length s" by simp_all
qed

text \<open>\<open>strip_chat_template_tokens\<close>: \<open>replace_all\<close> goes through the text from the left and takes the first
  match at each place. Every marker starts with an ASCII byte, so looking at every byte is looking
  at every character.\<close>

function strip_chat_template_tokens :: "string \<Rightarrow> string" where
  "strip_chat_template_tokens [] = []"
| "strip_chat_template_tokens (c # s) =
     (case first_match chat_template_markers (c # s) of
        Some rest \<Rightarrow> CHR '' '' # strip_chat_template_tokens rest
      | None \<Rightarrow> c # strip_chat_template_tokens s)"
  by pat_completeness auto
termination
proof (relation "measure length")
  show "(rest, c # s) \<in> measure length" if "first_match chat_template_markers (c # s) = Some rest" for c s rest
    using marker_rest(2) [OF that] by simp
qed simp_all

lemma strip_markers_examples:
  "strip_chat_template_tokens ''<|im_start|>{[BOS]1}</user>[eos ][EO S]'' = '' { 1}  [EO S]''"
  "strip_chat_template_tokens [CHR ''['', CHR ''b'', CHR ''O'', CHR '' '', CHR 0xC5, CHR 0xBF, CHR '']''] = '' ''"
  by code_simp+

definition strip_response_text :: "string \<Rightarrow> string" where
  "strip_response_text input = strip (strip_chat_template_tokens input)"

section \<open>The range\<close>

lemma lex_step_None:
  "lex_step bs i s e = None \<Longrightarrow> \<not> s \<and> \<not> e \<and> skip_js_comment bs i s = None \<and> bs ! i \<noteq> CHR 0x22"
  by (auto simp: lex_step_def split: option.splits if_splits)

lemma find_first_range:
  "find_first_json_delim bs start i s e = Some (p, c, a) \<Longrightarrow>
   i \<le> p \<and> p < length bs \<and> c = bs ! p \<and> (c = CHR 0x7B \<or> c = CHR 0x5B) \<and> a = p + 1 \<and>
   (p \<le> start \<or> byte_whitespace (bs ! (p - 1)))"
proof (induction bs start i s e rule: find_first_json_delim.induct)
  case (1 bs start i s e)
  show ?case
  proof (cases "lex_step bs i s e")
    case None
    let ?hit = "(bs ! i = CHR 0x7B \<or> bs ! i = CHR 0x5B) \<and> (i \<le> start \<or> byte_whitespace (bs ! (i - 1)))"
    have i: "\<not> length bs \<le> i"
      using "1.prems" by (auto simp: find_first_json_delim.simps [of bs start i])
    show ?thesis
    proof (cases ?hit)
      case True
      then show ?thesis using "1.prems" None i by (auto simp: find_first_json_delim.simps [of bs start i])
    next
      case False
      then have "find_first_json_delim bs start (i + 1) s e = Some (p, c, a)"
        using "1.prems" None i by (simp only: find_first_json_delim.simps [of bs start i]) (simp split: if_splits)
      from "1.IH"(1) [OF i None False this] show ?thesis by auto
    qed
  next
    case (Some x)
    then obtain i' s' e' where x: "lex_step bs i s e = Some (i', s', e')" by (cases x) auto
    with "1.IH"(2) [OF _ x refl refl] "1.prems" lex_step_inc [OF x] show ?thesis
      by (auto simp: find_first_json_delim.simps [of bs start i] split: if_splits)
  qed
qed

lemma balance_loop_range:
  "balance_loop bs p c d i s e = Some r \<Longrightarrow> i < r \<and> r \<le> length bs \<and> bs ! (r - 1) = c"
proof (induction bs p c d i s e rule: balance_loop.induct)
  case (1 bs p c d i s e)
  show ?case
  proof (cases "lex_step bs i s e")
    case None
    have i: "\<not> length bs \<le> i" using "1.prems" by (auto simp: balance_loop.simps [of bs p c d i])
    note step = "1.prems" [unfolded balance_loop.simps [of bs p c d i], simplified i None, simplified]
    consider "bs ! i = p" | "bs ! i \<noteq> p" "bs ! i = c" "d - 1 = 0"
      | "bs ! i \<noteq> p" "bs ! i = c" "d - 1 \<noteq> 0" | "bs ! i \<noteq> p" "bs ! i \<noteq> c"
      by blast
    then show ?thesis
    proof cases
      case 1
      with step "1.IH"(1) [OF i None 1] show ?thesis by simp
    next
      case 2
      with step i show ?thesis by auto
    next
      case 3
      with step "1.IH"(2) [OF i None 3] show ?thesis by simp
    next
      case 4
      with step "1.IH"(3) [OF i None 4] show ?thesis by simp
    qed
  next
    case (Some x)
    then obtain i' s' e' where x: "lex_step bs i s e = Some (i', s', e')" by (cases x) auto
    with "1.IH"(4) [OF _ x refl refl] "1.prems" lex_step_inc [OF x] show ?thesis
      by (auto simp: balance_loop.simps [of bs p c d i] split: if_splits)
  qed
qed

lemma extract_Inr:
  assumes "extract_tolerant_json bs = Inr (s, e)"
  obtains c where "find_first_json_delim bs (bom_offset bs) (bom_offset bs) False False = Some (s, bs ! s, s + 1)"
    "looks_like_json_after_open bs (s + 1) (bs ! s)" "close_of (bs ! s) = Some c"
    "balance_loop bs (bs ! s) c 1 (s + 1) False False = Some e"
proof -
  obtain p a where f: "find_first_json_delim bs (bom_offset bs) (bom_offset bs) False False = Some (s, p, a)"
    and l: "looks_like_json_after_open bs a p" and b: "find_balanced_end bs a p = Some e"
    using assms by (auto simp: extract_tolerant_json_def Let_def split: option.splits if_splits)
  have "p = bs ! s" "a = s + 1" using find_first_range [OF f] by auto
  with f l b that show thesis by (auto simp: find_balanced_end_def split: option.splits)
qed

section \<open>Agreement on a prefix\<close>

definition agree_to :: "nat \<Rightarrow> string \<Rightarrow> string \<Rightarrow> bool" where
  "agree_to n bs cs \<longleftrightarrow> n \<le> length bs \<and> n \<le> length cs \<and> (\<forall>i < n. bs ! i = cs ! i)"

lemma line_end_agree: "agree_to n bs cs \<Longrightarrow> line_end bs j < n \<Longrightarrow> line_end cs j = line_end bs j"
proof (induction bs j rule: line_end.induct)
  case (1 bs j)
  have "j < n" using "1.prems"(2) line_end_ge [of j bs] by simp
  then have "bs ! j = cs ! j" "j < length bs" "j < length cs" using "1.prems"(1) by (auto simp: agree_to_def)
  then show ?case using 1 by (auto simp: line_end.simps [of bs j] line_end.simps [of cs j])
qed

lemma block_scan_agree: "agree_to n bs cs \<Longrightarrow> block_scan bs j + 1 < n \<Longrightarrow> block_scan cs j = block_scan bs j"
proof (induction bs j rule: block_scan.induct)
  case (1 bs j)
  have "j + 1 < n" using "1.prems"(2) block_scan_ge [of j bs] by simp
  then have "bs ! j = cs ! j" "bs ! (j + 1) = cs ! (j + 1)" "j + 1 < length bs" "j + 1 < length cs"
    using "1.prems"(1) by (auto simp: agree_to_def)
  then show ?case using 1 by (auto simp: block_scan.simps [of bs j] block_scan.simps [of cs j])
qed

lemma block_end_agree: "agree_to n bs cs \<Longrightarrow> block_end bs j < n \<Longrightarrow> block_end cs j = block_end bs j"
  using block_scan_agree [of n bs cs j] by (auto simp: block_end_def agree_to_def)

lemma skip_agree:
  assumes "agree_to n bs cs" "i < n"
    and "case skip_js_comment bs i s of Some i' \<Rightarrow> i' < n | None \<Rightarrow> i + 1 < n \<or> bs ! i \<noteq> CHR ''/''"
  shows "skip_js_comment cs i s = skip_js_comment bs i s"
proof (cases "s \<or> bs ! i \<noteq> CHR ''/''")
  case True
  then show ?thesis using assms by (auto simp: skip_js_comment_def agree_to_def)
next
  case False
  have "i + 1 < n"
    using assms(3) False skip_js_comment_inc [of bs i s] by (auto split: option.splits)
  then have "bs ! (i + 1) = cs ! (i + 1)" "bs ! i = cs ! i" "i + 1 < length bs" "i + 1 < length cs"
    using assms(1) by (auto simp: agree_to_def)
  then show ?thesis
    using assms(3) False line_end_agree [OF assms(1)] block_end_agree [OF assms(1)]
    by (auto simp: skip_js_comment_def split: if_splits)
qed

lemma lex_agree:
  assumes "agree_to n bs cs" "i < n"
    and "case lex_step bs i s e of Some (i', _, _) \<Rightarrow> i' < n | None \<Rightarrow> i + 1 < n \<or> bs ! i \<noteq> CHR ''/''"
  shows "lex_step cs i s e = lex_step bs i s e"
proof -
  have b: "bs ! i = cs ! i" using assms(1,2) by (simp add: agree_to_def)
  have "case skip_js_comment bs i s of Some i' \<Rightarrow> i' < n | None \<Rightarrow> i + 1 < n \<or> bs ! i \<noteq> CHR ''/''"
    using assms(3) by (auto simp: lex_step_def split: option.splits if_splits)
  from skip_agree [OF assms(1,2) this] show ?thesis by (simp add: lex_step_def b)
qed

lemma balance_agree:
  "balance_loop bs p c d i s e = Some r \<Longrightarrow> agree_to r bs cs \<Longrightarrow> c \<noteq> CHR ''/'' \<Longrightarrow>
   balance_loop cs p c d i s e = Some r"
proof (induction bs p c d i s e rule: balance_loop.induct)
  case (1 bs p c d i s e)
  have r: "i < r" "r \<le> length bs" "bs ! (r - 1) = c" using balance_loop_range [OF "1.prems"(1)] by auto
  then have i: "\<not> length bs \<le> i" "\<not> length cs \<le> i" "bs ! i = cs ! i"
    using "1.prems"(2) by (auto simp: agree_to_def)
  show ?case
  proof (cases "lex_step bs i s e")
    case None
    have "i + 1 < r \<or> bs ! i \<noteq> CHR ''/''" using r "1.prems"(3) by (cases "i + 1 = r") auto
    then have "lex_step cs i s e = None" using lex_agree [OF "1.prems"(2) r(1), of s e] None by simp
    note cs = this
    consider (opens) "bs ! i = p" | (ends) "bs ! i \<noteq> p" "bs ! i = c" "d - 1 = 0"
      | (closes) "bs ! i \<noteq> p" "bs ! i = c" "d - 1 \<noteq> 0" | (other) "bs ! i \<noteq> p" "bs ! i \<noteq> c"
      by blast
    then show ?thesis
    proof cases
      case opens
      then have "balance_loop bs p c (d + 1) (i + 1) s e = Some r"
        using "1.prems"(1) None i by (simp only: balance_loop.simps [of bs p c d i]) simp
      from "1.IH"(1) [OF i(1) None opens this "1.prems"(2,3)] show ?thesis
        using opens cs i by (simp only: balance_loop.simps [of cs p c d i]) simp
    next
      case ends
      then show ?thesis using "1.prems"(1) None cs i
        by (simp only: balance_loop.simps [of bs p c d i] balance_loop.simps [of cs p c d i]) simp
    next
      case closes
      then have "balance_loop bs p c (d - 1) (i + 1) s e = Some r"
        using "1.prems"(1) None i by (simp only: balance_loop.simps [of bs p c d i]) simp
      from "1.IH"(2) [OF i(1) None closes this "1.prems"(2,3)] show ?thesis
        using closes cs i by (simp only: balance_loop.simps [of cs p c d i]) simp
    next
      case other
      then have "balance_loop bs p c d (i + 1) s e = Some r"
        using "1.prems"(1) None i by (simp only: balance_loop.simps [of bs p c d i]) simp
      from "1.IH"(3) [OF i(1) None other this "1.prems"(2,3)] show ?thesis
        using other cs i by (simp only: balance_loop.simps [of cs p c d i]) simp
    qed
  next
    case (Some x)
    then obtain i' s' e' where x: "lex_step bs i s e = Some (i', s', e')" by (cases x) auto
    then have rec: "balance_loop bs p c d i' s' e' = Some r"
      using "1.prems"(1) i by (simp add: balance_loop.simps [of bs p c d i])
    then have "lex_step cs i s e = Some (i', s', e')"
      using lex_agree [OF "1.prems"(2) r(1), of s e] x balance_loop_range [OF rec] by simp
    with "1.IH"(4) [OF _ x refl refl rec] "1.prems"(2,3) i show ?thesis
      by (simp add: balance_loop.simps [of cs p c d i])
  qed
qed

lemma find_first_agree:
  "find_first_json_delim bs start i s e = Some (p, c, a) \<Longrightarrow> agree_to n bs cs \<Longrightarrow> p < n \<Longrightarrow>
   find_first_json_delim cs start i s e = Some (p, c, a)"
proof (induction bs start i s e rule: find_first_json_delim.induct)
  case (1 bs start i s e)
  have r: "i \<le> p" "p < length bs" "bs ! p = CHR 0x7B \<or> bs ! p = CHR 0x5B"
    using find_first_range [OF "1.prems"(1)] by auto
  then have i: "\<not> length bs \<le> i" "\<not> length cs \<le> i" "bs ! i = cs ! i" "bs ! (i - 1) = cs ! (i - 1)" "i < n"
    using "1.prems"(2,3) by (auto simp: agree_to_def)
  show ?case
  proof (cases "lex_step bs i s e")
    case None
    have "i + 1 < n \<or> bs ! i \<noteq> CHR ''/''" using r "1.prems"(3) by (cases "i = p") auto
    then have "lex_step cs i s e = None" using lex_agree [OF "1.prems"(2) i(5), of s e] None by simp
    note cs = this
    let ?hit = "(bs ! i = CHR 0x7B \<or> bs ! i = CHR 0x5B) \<and> (i \<le> start \<or> byte_whitespace (bs ! (i - 1)))"
    show ?thesis
    proof (cases ?hit)
      case True
      then show ?thesis using "1.prems"(1) None cs i
        by (simp only: find_first_json_delim.simps [of bs start i] find_first_json_delim.simps [of cs start i]) auto
    next
      case False
      then have "find_first_json_delim bs start (i + 1) s e = Some (p, c, a)"
        using "1.prems" None i by (simp only: find_first_json_delim.simps [of bs start i]) (simp split: if_splits)
      from "1.IH"(1) [OF i(1) None False this "1.prems"(2,3)] False cs i show ?thesis
        by (simp only: find_first_json_delim.simps [of cs start i]) (simp split: if_splits)
    qed
  next
    case (Some x)
    then obtain i' s' e' where x: "lex_step bs i s e = Some (i', s', e')" by (cases x) auto
    then have rec: "find_first_json_delim bs start i' s' e' = Some (p, c, a)"
      using "1.prems"(1) i by (simp add: find_first_json_delim.simps [of bs start i])
    then have "lex_step cs i s e = Some (i', s', e')"
      using lex_agree [OF "1.prems"(2) i(5), of s e] x find_first_range [OF rec] "1.prems"(3) by simp
    with "1.IH"(2) [OF _ x refl refl rec] "1.prems"(2,3) i show ?thesis
      by (simp add: find_first_json_delim.simps [of cs start i])
  qed
qed

lemma skip_whitespace_ge: "i \<le> skip_whitespace bs i"
proof (induction bs i rule: skip_whitespace.induct)
  case (1 bs i)
  then show ?case by (subst skip_whitespace.simps) auto
qed

lemma skip_whitespace_le:
  "i \<le> k \<Longrightarrow> k < length bs \<Longrightarrow> \<not> byte_whitespace (bs ! k) \<Longrightarrow> skip_whitespace bs i \<le> k"
proof (induction bs i rule: skip_whitespace.induct)
  case (1 bs i)
  then show ?case by (cases "i = k") (auto simp: skip_whitespace.simps [of bs i] skip_whitespace.simps [of bs k])
qed

lemma skip_whitespace_agree:
  "agree_to n bs cs \<Longrightarrow> skip_whitespace bs i < n \<Longrightarrow> skip_whitespace cs i = skip_whitespace bs i"
proof (induction bs i rule: skip_whitespace.induct)
  case (1 bs i)
  have "i < n" using "1.prems"(2) skip_whitespace_ge [of i bs] by simp
  then have "bs ! i = cs ! i" "i < length bs" "i < length cs" using "1.prems"(1) by (auto simp: agree_to_def)
  then show ?case using 1 by (auto simp: skip_whitespace.simps [of bs i] skip_whitespace.simps [of cs i])
qed

lemma close_of_cases:
  "close_of c = Some d \<Longrightarrow> c = CHR 0x7B \<and> d = CHR 0x7D \<or> c = CHR 0x5B \<and> d = CHR 0x5D"
  by (auto simp: close_of_def split: if_splits)

lemma close_not_space: "close_of c = Some d \<Longrightarrow> \<not> byte_whitespace d \<and> d \<noteq> CHR ''/''"
  by (auto dest!: close_of_cases simp: byte_whitespace_def)

lemma looks_like_agree:
  assumes "agree_to n bs cs" "i \<le> k" "k < n" "\<not> byte_whitespace (bs ! k)"
  shows "looks_like_json_after_open cs i c = looks_like_json_after_open bs i c"
proof -
  have k: "skip_whitespace bs i \<le> k"
    using skip_whitespace_le [of i k bs] assms by (auto simp: agree_to_def)
  then have "skip_whitespace cs i = skip_whitespace bs i"
    using skip_whitespace_agree [OF assms(1)] assms(3) by simp
  with k assms(1,3) show ?thesis by (auto simp: looks_like_json_after_open_def Let_def agree_to_def)
qed

lemma bom_agree:
  assumes "agree_to n bs cs" "2 \<le> n" "n \<le> 2 \<Longrightarrow> bs ! 0 \<noteq> CHR 0xEF"
  shows "bom_offset cs = bom_offset bs"
proof (cases "n \<le> 2")
  case True
  then have "bs ! 0 \<noteq> CHR 0xEF" "cs ! 0 = bs ! 0" "0 < length bs" "0 < length cs"
    using assms by (auto simp: agree_to_def)
  then show ?thesis by (cases bs; cases cs) (auto simp: bom_offset_def)
next
  case False
  then have "take 3 cs = take 3 bs" using assms(1) by (auto simp: agree_to_def intro!: nth_equalityI)
  then show ?thesis by (simp add: bom_offset_def)
qed

lemma extract_range:
  assumes "extract_tolerant_json bs = Inr (s, e)"
  shows "bom_offset bs \<le> s \<and> s + 2 \<le> e \<and> e \<le> length bs \<and> close_of (bs ! s) = Some (bs ! (e - 1)) \<and>
         (s = bom_offset bs \<or> byte_whitespace (bs ! (s - 1)))"
proof -
  from extract_Inr [OF assms] obtain c where
    f: "find_first_json_delim bs (bom_offset bs) (bom_offset bs) False False = Some (s, bs ! s, s + 1)" and
    c: "close_of (bs ! s) = Some c" and b: "balance_loop bs (bs ! s) c 1 (s + 1) False False = Some e" .
  show ?thesis using find_first_range [OF f] balance_loop_range [OF b] c by auto
qed

lemma extract_agree:
  assumes x: "extract_tolerant_json bs = Inr (s, e)" and ag: "agree_to e bs cs"
  shows "extract_tolerant_json cs = Inr (s, e)"
proof -
  from extract_Inr [OF x] obtain c where
    f: "find_first_json_delim bs (bom_offset bs) (bom_offset bs) False False = Some (s, bs ! s, s + 1)" and
    l: "looks_like_json_after_open bs (s + 1) (bs ! s)" and
    c: "close_of (bs ! s) = Some c" and b: "balance_loop bs (bs ! s) c 1 (s + 1) False False = Some e" .
  note r = extract_range [OF x]
  have e: "bs ! (e - 1) = c" using r c by simp
  have bom: "bom_offset cs = bom_offset bs"
  proof (rule bom_agree [OF ag])
    show "2 \<le> e" using r by simp
    assume "e \<le> 2"
    then have "s = 0" using r by simp
    then show "bs ! 0 \<noteq> CHR 0xEF" using close_of_cases [OF c] by auto
  qed
  have "find_first_json_delim cs (bom_offset bs) (bom_offset bs) False False = Some (s, bs ! s, s + 1)"
    using find_first_agree [OF f ag] r by simp
  moreover have "looks_like_json_after_open cs (s + 1) (bs ! s)"
    using looks_like_agree [OF ag, of "s + 1" "e - 1" "bs ! s"] l e r close_not_space [OF c] by auto
  moreover have "balance_loop cs (bs ! s) c 1 (s + 1) False False = Some e"
    using balance_agree [OF b ag] close_not_space [OF c] by blast
  ultimately show ?thesis
    using bom c by (simp add: extract_tolerant_json_def find_balanced_end_def)
qed

section \<open>Shifting\<close>

lemma line_end_shift: "line_end (p @ bs) (length p + j) = length p + line_end bs j"
proof (induction bs j rule: line_end.induct)
  case (1 bs j)
  then show ?case
    by (auto simp: line_end.simps [of bs j] line_end.simps [of "p @ bs" "length p + j"] nth_append)
qed

lemma block_scan_shift: "block_scan (p @ bs) (length p + j) = length p + block_scan bs j"
proof (induction bs j rule: block_scan.induct)
  case (1 bs j)
  then show ?case
    by (auto simp: block_scan.simps [of bs j] block_scan.simps [of "p @ bs" "length p + j"] nth_append)
qed

lemma skip_js_comment_shift:
  "skip_js_comment (p @ bs) (length p + i) s = map_option ((+) (length p)) (skip_js_comment bs i s)"
  using line_end_shift [of p bs "i + 2"] block_scan_shift [of p bs "i + 2"]
  by (auto simp: skip_js_comment_def block_end_def nth_append algebra_simps)

lemma lex_step_shift:
  "lex_step (p @ bs) (length p + i) s e =
     map_option (\<lambda>(j, r). (length p + j, r)) (lex_step bs i s e)"
  by (auto simp: lex_step_def skip_js_comment_shift nth_append split: option.splits)

lemma skip_whitespace_shift: "skip_whitespace (p @ bs) (length p + i) = length p + skip_whitespace bs i"
proof (induction bs i rule: skip_whitespace.induct)
  case (1 bs i)
  then show ?case
    by (auto simp: skip_whitespace.simps [of bs i] skip_whitespace.simps [of "p @ bs" "length p + i"] nth_append)
qed

lemma looks_like_shift:
  "looks_like_json_after_open (p @ bs) (length p + i) c = looks_like_json_after_open bs i c"
  by (simp add: looks_like_json_after_open_def skip_whitespace_shift Let_def nth_append)

lemma balance_loop_shift:
  "balance_loop (p @ bs) a c d (length p + i) s e = map_option ((+) (length p)) (balance_loop bs a c d i s e)"
proof (induction bs a c d i s e rule: balance_loop.induct)
  case (1 bs a c d i s e)
  show ?case
  proof (cases "lex_step bs i s e")
    case None
    with "1.IH"(1-3) show ?thesis
      by (auto simp: balance_loop.simps [of bs a c d i] balance_loop.simps [of "p @ bs" a c d "length p + i"]
          lex_step_shift nth_append)
  next
    case (Some x)
    then obtain i' s' e' where x: "lex_step bs i s e = Some (i', s', e')" by (cases x) auto
    with "1.IH"(4) [OF _ x refl refl] show ?thesis
      by (auto simp: balance_loop.simps [of bs a c d i] balance_loop.simps [of "p @ bs" a c d "length p + i"]
          lex_step_shift)
  qed
qed

section \<open>What the extractor promises\<close>

text \<open>The range is a delimited value. The first byte of the range is an opening brace or
  bracket and the last one is the closer of the same kind; the range lies in the input, past a
  byte order mark, and its start is the first byte after the mark or follows white space.\<close>

lemma extract_delimited:
  assumes "extract_tolerant_json bs = Inr (s, e)"
  shows "bom_offset bs \<le> s \<and> s + 2 \<le> e \<and> e \<le> length bs \<and> close_of (bs ! s) = Some (bs ! (e - 1)) \<and>
         (s = bom_offset bs \<or> byte_whitespace (bs ! (s - 1)))"
  by (rule extract_range [OF assms])

lemma find_first_prose:
  assumes "i \<le> k" "k < length bs" "\<forall>j. i \<le> j \<and> j < k \<longrightarrow> bs ! j \<notin> {CHR 0x7B, CHR 0x5B, CHR 0x22, CHR ''/''}"
  shows "find_first_json_delim bs start i False False = find_first_json_delim bs start k False False"
  using assms
proof (induction "k - i" arbitrary: i)
  case 0
  then show ?case by simp
next
  case (Suc n)
  then have i: "bs ! i \<notin> {CHR 0x7B, CHR 0x5B, CHR 0x22, CHR ''/''}" "i < length bs" by auto
  then have "lex_step bs i False False = None" by (simp add: lex_step_def skip_js_comment_def)
  with i have "find_first_json_delim bs start i False False = find_first_json_delim bs start (i + 1) False False"
    by (subst find_first_json_delim.simps) simp
  with Suc.hyps(1) [of "i + 1"] Suc.hyps(2) Suc.prems show ?case by simp
qed

lemma bom_in_prose:
  assumes "prose = [] \<or> byte_whitespace (last prose)" "rest = [] \<or> hd rest \<noteq> CHR 0xEF"
  shows "bom_offset (prose @ rest) \<le> length prose"
proof (cases "length prose < 3")
  case True
  then consider "prose = []" | a where "prose = [a]" | a b where "prose = [a, b]"
    by (cases prose rule: list.exhaust; cases "tl prose" rule: list.exhaust) (auto simp: neq_Nil_conv)
  then show ?thesis
    using assms by cases (cases rest; auto simp: bom_offset_def byte_whitespace_def)+
qed (simp add: bom_offset_def)

text \<open>A value is found wherever it stands in prose. If the extractor takes the whole of
  \<open>v\<close> when \<open>v\<close> stands alone, it takes exactly \<open>v\<close> when \<open>v\<close> follows a prose prefix without
  brace, bracket, quote or slash that ends in white space, whatever comes after \<open>v\<close>.\<close>

lemma extract_embedded:
  assumes v: "extract_tolerant_json v = Inr (0, length v)"
    and prose: "\<forall>c \<in> set prose. c \<notin> {CHR 0x7B, CHR 0x5B, CHR 0x22, CHR ''/''}"
    and space: "prose = [] \<or> byte_whitespace (last prose)"
  shows "extract_tolerant_json (prose @ v @ rest) = Inr (length prose, length prose + length v)"
proof -
  let ?n = "length prose" and ?bs = "prose @ v"
  from extract_Inr [OF v] obtain c where
    l: "looks_like_json_after_open v 1 (v ! 0)" and c: "close_of (v ! 0) = Some c" and
    b: "balance_loop v (v ! 0) c 1 1 False False = Some (length v)" by auto
  have len: "2 \<le> length v" using extract_range [OF v] by simp
  have at: "?bs ! ?n = v ! 0" "?n < length ?bs" using len by (auto simp: nth_append)
  have bom: "bom_offset ?bs \<le> ?n"
    using bom_in_prose [OF space, of v] close_of_cases [OF c] len by (cases v) auto
  have "\<forall>j. bom_offset ?bs \<le> j \<and> j < ?n \<longrightarrow> ?bs ! j \<notin> {CHR 0x7B, CHR 0x5B, CHR 0x22, CHR ''/''}"
    using prose by (auto simp: nth_append)
  from find_first_prose [OF bom at(2) this]
  have "find_first_json_delim ?bs (bom_offset ?bs) (bom_offset ?bs) False False =
        find_first_json_delim ?bs (bom_offset ?bs) ?n False False" .
  moreover have "lex_step ?bs ?n False False = None"
    using close_of_cases [OF c] at(1) by (auto simp: lex_step_def skip_js_comment_def)
  moreover have "?n \<le> bom_offset ?bs \<or> byte_whitespace (?bs ! (?n - 1))"
    using space by (cases "prose = []") (auto simp: nth_append last_conv_nth)
  ultimately have f: "find_first_json_delim ?bs (bom_offset ?bs) (bom_offset ?bs) False False =
      Some (?n, v ! 0, ?n + 1)"
    using at close_of_cases [OF c] by (subst (asm) (2) find_first_json_delim.simps) auto
  moreover have "looks_like_json_after_open ?bs (?n + 1) (v ! 0)"
    using looks_like_shift [of prose v 1] l by simp
  moreover have "find_balanced_end ?bs (?n + 1) (v ! 0) = Some (?n + length v)"
    using balance_loop_shift [of prose v "v ! 0" c 1 1] b c by (simp add: find_balanced_end_def)
  ultimately have "extract_tolerant_json ?bs = Inr (?n, ?n + length v)"
    by (simp add: extract_tolerant_json_def)
  moreover have "agree_to (?n + length v) ?bs (prose @ v @ rest)" by (auto simp: agree_to_def nth_append)
  ultimately show ?thesis by (rule extract_agree)
qed

lemma slice_first:
  assumes "extract_tolerant_json bs = Inr (s, e)"
  shows "length (slice bs s e) = e - s" "slice bs s e ! 0 = bs ! s" "take e bs = take s bs @ slice bs s e"
    "length (take s bs) = s"
  using extract_range [OF assms] append_take_drop_id [of s "take e bs"]
  by (auto simp: slice_def min_def)

text \<open>Extraction is idempotent. Run on the slice it selected, the extractor selects the
  whole slice.\<close>

lemma extract_idempotent:
  assumes x: "extract_tolerant_json bs = Inr (s, e)"
  shows "extract_tolerant_json (slice bs s e) = Inr (0, length (slice bs s e))"
proof -
  let ?v = "slice bs s e"
  note r = extract_range [OF x] and v = slice_first [OF x]
  have "extract_tolerant_json (take e bs) = Inr (s, e)"
    using extract_agree [OF x] r by (simp add: agree_to_def)
  then have t: "extract_tolerant_json (take s bs @ ?v) = Inr (s, e)" using v(3) by simp
  from extract_Inr [OF this] obtain c where
    l: "looks_like_json_after_open (take s bs @ ?v) (s + 1) (?v ! 0)" and c: "close_of (?v ! 0) = Some c" and
    b: "balance_loop (take s bs @ ?v) (?v ! 0) c 1 (s + 1) False False = Some e"
    using v(4) r by (auto simp: nth_append)
  have bom: "bom_offset ?v = 0" using close_of_cases [OF c] by (cases ?v) (auto simp: bom_offset_def)
  have "lex_step ?v 0 False False = None"
    using close_of_cases [OF c] by (auto simp: lex_step_def skip_js_comment_def)
  then have "find_first_json_delim ?v 0 0 False False = Some (0, ?v ! 0, 1)"
    using close_of_cases [OF c] v(1) r by (subst find_first_json_delim.simps) auto
  moreover have "looks_like_json_after_open ?v 1 (?v ! 0)"
    using looks_like_shift [of "take s bs" ?v 1] l v(4) by simp
  moreover have "find_balanced_end ?v 1 (?v ! 0) = Some (length ?v)"
    using balance_loop_shift [of "take s bs" ?v "?v ! 0" c 1 1] b c v(1,4) r
    by (auto simp: find_balanced_end_def)
  ultimately show ?thesis using bom by (simp add: extract_tolerant_json_def)
qed

text \<open>The response text is clean after the strip. Every character of the stripped text may
  stay, and the ones that the marker pass left and that may stay keep their order and number.\<close>

lemma strip_response_clean:
  "list_all should_keep (strip_response_text s) \<and>
   strip (strip_response_text s) = strip_response_text s \<and>
   filter should_keep (strip_chat_template_tokens s) = strip_response_text s"
proof -
  have "strip t = filter should_keep t" for t
    by (auto simp: strip_def needs_strip_def list_ex_iff intro: filter_True [symmetric])
  then show ?thesis by (simp add: strip_response_text_def list_all_iff)
qed

end
