(* ===== verification/Permits.thy ===== *)
theory Permits imports Prelude Interfaces begin

text \<open>
  The concurrency caps: the process-wide pool of \<open>src/execution/parallelism.rs\<close> and the
  semaphores per provider of \<open>src/execution/per_provider_semaphores.rs\<close>. A call that has
  been made and has not ended is a task of the pool; every atomic action of the code (taking
  one permit of the semaphore, raising or lowering the counter, returning one permit) is a
  step of one task, and tasks interleave freely. The semaphore is never closed in the
  program, so the errors of a closed semaphore do not arise. The lemmas show that permits
  are conserved and the counter never wraps, and when the pool can and cannot get stuck.
\<close>

section \<open>The pool\<close>

text \<open>\<open>acquire_many\<close> and \<open>acquire_many_owned\<close> collect their permits one after the other.\<close>

datatype acquire_error = TooManyPermits nat nat | Closed

datatype pool_task =
    Waiting
  | Granted
  | Permit_Held
  | Many_Loop nat nat
  | Guard_Held nat
  | Owned_Loop nat nat
  | Owned_Held nat
  | Dropping nat
  | Refused acquire_error

record pool =
  pl_permits :: nat
  pl_free :: nat
  pl_in_use :: u64
  pl_tasks :: "pool_task list"

text \<open>The runtime's semaphore panics above \<open>usize::MAX >> 3\<close> permits (\<open>None\<close>).\<close>

definition parallelism_new :: "u64 \<Rightarrow> pool option" where
  "parallelism_new max_parallelism =
     (let n = unat (max max_parallelism 1)
      in if 2 ^ 61 \<le> n then None
         else Some \<lparr>pl_permits = n, pl_free = n, pl_in_use = 0, pl_tasks = []\<rparr>)"

definition pool_acquire :: "pool \<Rightarrow> pool" where
  "pool_acquire p = p\<lparr>pl_tasks := pl_tasks p @ [Waiting]\<rparr>"

definition acquire_many :: "nat \<Rightarrow> pool \<Rightarrow> pool" where
  "acquire_many n p = p\<lparr>pl_tasks := pl_tasks p @ [Many_Loop (min n (pl_permits p)) 0]\<rparr>"

definition acquire_many_owned :: "nat \<Rightarrow> pool \<Rightarrow> pool" where
  "acquire_many_owned n p = p\<lparr>pl_tasks := pl_tasks p @
     [if n = 0 then Owned_Held 0
      else if pl_permits p < n then Refused (TooManyPermits n (pl_permits p))
      else Owned_Loop n 0]\<rparr>"

definition set_task :: "nat \<Rightarrow> pool_task \<Rightarrow> pool \<Rightarrow> pool" where
  "set_task i t p = p\<lparr>pl_tasks := (pl_tasks p)[i := t]\<rparr>"

text \<open>A waiting task is given a permit.\<close>

fun after_take :: "pool_task \<Rightarrow> pool_task option" where
  "after_take Waiting = Some Granted"
| "after_take (Many_Loop n got) = (if got < n then Some (Many_Loop n (got + 1)) else None)"
| "after_take (Owned_Loop n got) = (if got < n then Some (Owned_Loop n (got + 1)) else None)"
| "after_take _ = None"

definition take_permit :: "nat \<Rightarrow> pool \<Rightarrow> pool option" where
  "take_permit i p =
     (if length (pl_tasks p) \<le> i \<or> pl_free p = 0 then None
      else case after_take (pl_tasks p ! i) of
             None \<Rightarrow> None
           | Some t \<Rightarrow> Some ((set_task i t p)\<lparr>pl_free := pl_free p - 1\<rparr>))"

text \<open>The call returns its guard, after it raised the counter.\<close>

fun after_wait :: "pool_task \<Rightarrow> (pool_task \<times> nat) option" where
  "after_wait Granted = Some (Permit_Held, 1)"
| "after_wait (Many_Loop n got) = (if got < n then None else Some (Guard_Held n, n))"
| "after_wait (Owned_Loop n got) = (if got < n then None else Some (Owned_Held n, 0))"
| "after_wait _ = None"

definition finish_acquire :: "nat \<Rightarrow> pool \<Rightarrow> pool option" where
  "finish_acquire i p =
     (if length (pl_tasks p) \<le> i then None
      else case after_wait (pl_tasks p ! i) of
             None \<Rightarrow> None
           | Some (t, n) \<Rightarrow> Some ((set_task i t p)\<lparr>pl_in_use := pl_in_use p + of_nat n\<rparr>))"

text \<open>\<open>Drop\<close>: the counter is lowered first, the permits go back when the fields drop.\<close>

fun after_drop :: "pool_task \<Rightarrow> (pool_task \<times> nat) option" where
  "after_drop Permit_Held = Some (Dropping 1, 1)"
| "after_drop (Guard_Held n) = Some (Dropping n, n)"
| "after_drop (Owned_Held n) = Some (Dropping n, 0)"
| "after_drop _ = None"

definition drop_guard :: "nat \<Rightarrow> pool \<Rightarrow> pool option" where
  "drop_guard i p =
     (if length (pl_tasks p) \<le> i then None
      else case after_drop (pl_tasks p ! i) of
             None \<Rightarrow> None
           | Some (t, n) \<Rightarrow> Some ((set_task i t p)\<lparr>pl_in_use := pl_in_use p - of_nat n\<rparr>))"

definition release_permit :: "nat \<Rightarrow> pool \<Rightarrow> pool option" where
  "release_permit i p =
     (if length (pl_tasks p) \<le> i then None
      else case pl_tasks p ! i of
             Dropping (Suc n) \<Rightarrow> Some ((set_task i (Dropping n) p)\<lparr>pl_free := pl_free p + 1\<rparr>)
           | _ \<Rightarrow> None)"

text \<open>The future of a waiting call is dropped: what it has collected goes back.\<close>

fun after_abandon :: "pool_task \<Rightarrow> pool_task option" where
  "after_abandon Waiting = Some (Dropping 0)"
| "after_abandon (Many_Loop n got) = (if got < n then Some (Dropping got) else None)"
| "after_abandon (Owned_Loop n got) = (if got < n then Some (Dropping got) else None)"
| "after_abandon _ = None"

definition abandon :: "nat \<Rightarrow> pool \<Rightarrow> pool option" where
  "abandon i p =
     (if length (pl_tasks p) \<le> i then None
      else map_option (\<lambda>t. set_task i t p) (after_abandon (pl_tasks p ! i)))"

text \<open>The steps of a task that is neither new nor abandoned, and all steps.\<close>

definition task_moves :: "nat \<Rightarrow> pool \<Rightarrow> pool list" where
  "task_moves i p = List.map_filter (\<lambda>f. f i p) [take_permit, finish_acquire, drop_guard, release_permit]"

inductive pool_step :: "pool \<Rightarrow> pool \<Rightarrow> bool" where
  enter_acquire: "pool_step p (pool_acquire p)"
| enter_many: "pool_step p (acquire_many n p)"
| enter_owned: "pool_step p (acquire_many_owned n p)"
| taking: "take_permit i p = Some p' \<Longrightarrow> pool_step p p'"
| finishing: "finish_acquire i p = Some p' \<Longrightarrow> pool_step p p'"
| dropping: "drop_guard i p = Some p' \<Longrightarrow> pool_step p p'"
| releasing: "release_permit i p = Some p' \<Longrightarrow> pool_step p p'"
| abandoning: "abandon i p = Some p' \<Longrightarrow> pool_step p p'"

inductive pool_reachable :: "u64 \<Rightarrow> pool \<Rightarrow> bool" for m where
  pool_start: "parallelism_new m = Some p \<Longrightarrow> pool_reachable m p"
| pool_next: "pool_reachable m p \<Longrightarrow> pool_step p p' \<Longrightarrow> pool_reachable m p'"

section \<open>Conservation of permits\<close>

text \<open>The permits a task has in hand, and those of them that the counter shows.\<close>

fun held :: "pool_task \<Rightarrow> nat" where
  "held Granted = 1"
| "held Permit_Held = 1"
| "held (Many_Loop n got) = got"
| "held (Guard_Held n) = n"
| "held (Owned_Loop n got) = got"
| "held (Owned_Held n) = n"
| "held (Dropping n) = n"
| "held _ = 0"

fun counted :: "pool_task \<Rightarrow> nat" where
  "counted Permit_Held = 1"
| "counted (Guard_Held n) = n"
| "counted _ = 0"

fun task_ok :: "nat \<Rightarrow> pool_task \<Rightarrow> bool" where
  "task_ok m (Many_Loop n got) \<longleftrightarrow> got \<le> n \<and> n \<le> m"
| "task_ok m (Owned_Loop n got) \<longleftrightarrow> got \<le> n \<and> n \<le> m"
| "task_ok m _ \<longleftrightarrow> True"

definition total :: "(pool_task \<Rightarrow> nat) \<Rightarrow> pool \<Rightarrow> nat" where
  "total f p = sum_list (map f (pl_tasks p))"

definition pool_inv :: "pool \<Rightarrow> bool" where
  "pool_inv p \<longleftrightarrow>
     0 < pl_permits p \<and> pl_permits p < 2 ^ 61 \<and> pl_free p + total held p = pl_permits p \<and>
     unat (pl_in_use p) = total counted p \<and> list_all (task_ok (pl_permits p)) (pl_tasks p)"

lemma counted_le_held: "counted t \<le> held t"
  by (cases t) simp_all

lemma total_counted_le: "total counted p \<le> total held p"
  unfolding total_def by (intro sum_list_mono) (simp add: counted_le_held)

lemma total_at: "i < length (pl_tasks p) \<Longrightarrow> f (pl_tasks p ! i) \<le> total f p"
  using elem_le_sum_list [of i "map f (pl_tasks p)"] by (simp add: total_def)

lemma total_set_task:
  assumes "i < length (pl_tasks p)"
  shows "total f (set_task i t p) + f (pl_tasks p ! i) = total f p + f t"
proof -
  have "total f (set_task i t p) = total f p + f t - f (pl_tasks p ! i)"
    using assms by (simp add: total_def set_task_def map_update sum_list_update)
  with total_at [OF assms, of f] show ?thesis by simp
qed

lemma total_simps [simp]:
  "total f (p\<lparr>pl_free := k\<rparr>) = total f p" "total f (p\<lparr>pl_in_use := u\<rparr>) = total f p"
  "total f (p\<lparr>pl_tasks := ts @ [t]\<rparr>) = sum_list (map f ts) + f t"
  "pl_permits (set_task i t p) = pl_permits p" "pl_free (set_task i t p) = pl_free p"
  "pl_in_use (set_task i t p) = pl_in_use p" "pl_tasks (set_task i t p) = (pl_tasks p)[i := t]"
  by (simp_all add: total_def set_task_def)

lemma list_all_update: "list_all P xs \<Longrightarrow> P x \<Longrightarrow> list_all P (xs[i := x])"
  by (auto simp: list_all_iff dest: subsetD [OF set_update_subset_insert])

lemma task_ok_nth: "pool_inv p \<Longrightarrow> i < length (pl_tasks p) \<Longrightarrow> task_ok (pl_permits p) (pl_tasks p ! i)"
  by (simp add: pool_inv_def list_all_length)

lemma unat_add_of_nat:
  fixes x :: u64
  shows "unat x + n < 2 ^ 64 \<Longrightarrow> unat (x + of_nat n) = unat x + n"
proof -
  assume "unat x + n < 2 ^ 64"
  moreover have "x + of_nat n = of_nat (unat x + n)" by simp
  ultimately show ?thesis by (simp only: unat_of_nat) simp
qed

lemma unat_sub_of_nat:
  fixes x :: u64
  assumes "n \<le> unat x"
  shows "unat (x - of_nat n) = unat x - n"
proof -
  have "x - of_nat n = of_nat (unat x - n)" using assms by (simp add: of_nat_diff)
  moreover have "unat x - n < 2 ^ 64" using unat_lt_pow [of x] by simp
  ultimately show ?thesis by (simp only: unat_of_nat) simp
qed

lemma pool_inv_new: "parallelism_new m = Some p \<Longrightarrow> pool_inv p"
  by (auto simp: parallelism_new_def pool_inv_def total_def Let_def max_def unat_gt_0 word_le_nat_alt
      split: if_splits)

lemma pool_inv_enter: "pool_inv p \<Longrightarrow> pool_inv (pool_acquire p)" "pool_inv p \<Longrightarrow> pool_inv (acquire_many n p)"
  "pool_inv p \<Longrightarrow> pool_inv (acquire_many_owned n p)"
  by (simp_all add: pool_inv_def pool_acquire_def acquire_many_def acquire_many_owned_def total_def)

lemma pool_inv_set:
  assumes "pool_inv p" "i < length (pl_tasks p)" "pl_tasks q = (pl_tasks p)[i := t]" "pl_permits q = pl_permits p"
    and "task_ok (pl_permits p) t" "pl_free q + held t = pl_free p + held (pl_tasks p ! i)"
    and "unat (pl_in_use q) + counted (pl_tasks p ! i) = unat (pl_in_use p) + counted t"
  shows "pool_inv q"
proof -
  have "total f q = total f (set_task i t p)" for f using assms(3) by (simp add: total_def set_task_def)
  then show ?thesis
    using assms total_set_task [OF assms(2), of held t] total_set_task [OF assms(2), of counted t]
    by (simp add: pool_inv_def list_all_update)
qed

lemma after_take_simps:
  "after_take t = Some t' \<Longrightarrow> held t' = Suc (held t) \<and> counted t' = counted t \<and> (task_ok m t \<longrightarrow> task_ok m t')"
  by (cases t) (auto split: if_splits)

lemma after_wait_simps:
  "after_wait t = Some (t', n) \<Longrightarrow> task_ok m t \<Longrightarrow>
   held t' = held t \<and> counted t' = counted t + n \<and> task_ok m t'"
  by (cases t) (auto split: if_splits)

lemma after_drop_simps:
  "after_drop t = Some (t', n) \<Longrightarrow> held t' = held t \<and> counted t = counted t' + n \<and> task_ok m t'"
  by (cases t) auto

lemma after_abandon_simps:
  "after_abandon t = Some t' \<Longrightarrow> held t' = held t \<and> counted t' = counted t \<and> task_ok m t'"
  by (cases t) (auto split: if_splits)

lemma pool_inv_take: "take_permit i p = Some p' \<Longrightarrow> pool_inv p \<Longrightarrow> pool_inv p'"
  using pool_inv_set [of p i p'] task_ok_nth [of p i]
  by (fastforce simp: take_permit_def dest!: after_take_simps [where m = "pl_permits p"] split: if_splits option.splits)

lemma pool_inv_finish:
  assumes "finish_acquire i p = Some p'" "pool_inv p"
  shows "pool_inv p'"
proof -
  from assms(1) obtain t n where i: "i < length (pl_tasks p)" and w: "after_wait (pl_tasks p ! i) = Some (t, n)"
    and p': "p' = (set_task i t p)\<lparr>pl_in_use := pl_in_use p + of_nat n\<rparr>"
    by (auto simp: finish_acquire_def split: if_splits option.splits)
  note a = after_wait_simps [OF w task_ok_nth [OF assms(2) i]]
  have "total counted (set_task i t p) \<le> total held (set_task i t p)" by (rule total_counted_le)
  then have "unat (pl_in_use p) + n < 2 ^ 64"
    using assms(2) a total_set_task [OF i, of counted t] total_set_task [OF i, of held t]
    by (simp add: pool_inv_def)
  from unat_add_of_nat [OF this] show ?thesis
    using pool_inv_set [OF assms(2) i, of p' t] a p' by simp
qed

lemma pool_inv_drop:
  assumes "drop_guard i p = Some p'" "pool_inv p"
  shows "pool_inv p'"
proof -
  from assms(1) obtain t n where i: "i < length (pl_tasks p)" and w: "after_drop (pl_tasks p ! i) = Some (t, n)"
    and p': "p' = (set_task i t p)\<lparr>pl_in_use := pl_in_use p - of_nat n\<rparr>"
    by (auto simp: drop_guard_def split: if_splits option.splits)
  note a = after_drop_simps [OF w, of "pl_permits p"]
  have "n \<le> unat (pl_in_use p)"
    using assms(2) a total_at [OF i, of counted] by (simp add: pool_inv_def)
  from unat_sub_of_nat [OF this] this show ?thesis
    using pool_inv_set [OF assms(2) i, of p' t] a p' by simp
qed

lemma pool_inv_release: "release_permit i p = Some p' \<Longrightarrow> pool_inv p \<Longrightarrow> pool_inv p'"
  using pool_inv_set [of p i p']
  by (fastforce simp: release_permit_def split: if_splits pool_task.splits nat.splits)

lemma pool_inv_abandon: "abandon i p = Some p' \<Longrightarrow> pool_inv p \<Longrightarrow> pool_inv p'"
  using pool_inv_set [of p i p']
  by (fastforce simp: abandon_def dest!: after_abandon_simps [where m = "pl_permits p"] split: if_splits)

lemma pool_inv_step: "pool_step p p' \<Longrightarrow> pool_inv p \<Longrightarrow> pool_inv p'"
  by (induction rule: pool_step.induct)
    (auto intro: pool_inv_enter pool_inv_take pool_inv_finish pool_inv_drop pool_inv_release pool_inv_abandon)

lemma pool_inv_reachable: "pool_reachable m p \<Longrightarrow> pool_inv p"
  by (induction rule: pool_reachable.induct) (auto intro: pool_inv_new pool_inv_step)

lemma permits_step: "pool_step p p' \<Longrightarrow> pl_permits p' = pl_permits p"
  by (induction rule: pool_step.induct)
    (auto simp: pool_acquire_def acquire_many_def acquire_many_owned_def take_permit_def finish_acquire_def
        drop_guard_def release_permit_def abandon_def split: if_splits option.splits pool_task.splits nat.splits)

lemma permits_reachable: "pool_reachable m p \<Longrightarrow> pl_permits p = unat (max m 1)"
  by (induction rule: pool_reachable.induct)
    (auto simp: permits_step parallelism_new_def Let_def split: if_splits)

section \<open>Getting stuck\<close>

fun unfinished :: "pool_task \<Rightarrow> bool" where
  "unfinished (Dropping n) \<longleftrightarrow> 0 < n"
| "unfinished (Refused e) \<longleftrightarrow> False"
| "unfinished _ \<longleftrightarrow> True"

fun looping :: "pool_task \<Rightarrow> bool" where
  "looping (Many_Loop n got) \<longleftrightarrow> True"
| "looping (Owned_Loop n got) \<longleftrightarrow> True"
| "looping _ \<longleftrightarrow> False"

text \<open>Some task has work left and no task can move, unless its caller gives up.\<close>

definition pool_stuck :: "pool \<Rightarrow> bool" where
  "pool_stuck p \<longleftrightarrow>
     list_ex unfinished (pl_tasks p) \<and> list_all (\<lambda>i. task_moves i p = []) [0..<length (pl_tasks p)]"

lemma task_moves_Nil:
  "task_moves i p = [] \<longleftrightarrow>
     take_permit i p = None \<and> finish_acquire i p = None \<and> drop_guard i p = None \<and> release_permit i p = None"
  by (simp add: task_moves_def List.map_filter_def)

lemma no_moves_task:
  assumes "task_moves i p = []" "i < length (pl_tasks p)"
  shows "case pl_tasks p ! i of Waiting \<Rightarrow> pl_free p = 0
     | Many_Loop n got \<Rightarrow> got < n \<and> pl_free p = 0 | Owned_Loop n got \<Rightarrow> got < n \<and> pl_free p = 0
     | Dropping n \<Rightarrow> n = 0 | Refused e \<Rightarrow> True | _ \<Rightarrow> False"
  using assms
  by (cases "pl_tasks p ! i")
    (auto simp: task_moves_Nil take_permit_def finish_acquire_def drop_guard_def release_permit_def
        split: if_splits nat.splits)

lemma stuck_all:
  assumes "pool_stuck p" "t \<in> set (pl_tasks p)"
  shows "case t of Waiting \<Rightarrow> pl_free p = 0
     | Many_Loop n got \<Rightarrow> got < n \<and> pl_free p = 0 | Owned_Loop n got \<Rightarrow> got < n \<and> pl_free p = 0
     | Dropping n \<Rightarrow> n = 0 | Refused e \<Rightarrow> True | _ \<Rightarrow> False"
proof -
  obtain i where i: "i < length (pl_tasks p)" "t = pl_tasks p ! i" using assms(2) by (metis in_set_conv_nth)
  then have "task_moves i p = []" using assms(1) by (simp add: pool_stuck_def list_all_iff)
  from no_moves_task [OF this i(1)] show ?thesis by (simp only: i(2))
qed

lemma stuck_free:
  assumes "pool_stuck p"
  shows "pl_free p = 0"
proof -
  obtain t where t: "t \<in> set (pl_tasks p)" "unfinished t" using assms by (auto simp: pool_stuck_def list_ex_iff)
  show ?thesis using stuck_all [OF assms t(1)] t(2) by (cases t) auto
qed

lemma stuck_needs_two_loops:
  assumes "pool_inv p" "pool_stuck p"
  shows "2 \<le> length (filter looping (pl_tasks p))"
proof (rule ccontr)
  assume "\<not> ?thesis"
  then consider "filter looping (pl_tasks p) = []" | t where "filter looping (pl_tasks p) = [t]"
    by (cases "filter looping (pl_tasks p)" rule: list.exhaust; cases "tl (filter looping (pl_tasks p))") auto
  moreover have "held t = 0" if "t \<in> set (pl_tasks p)" "\<not> looping t" for t
    using stuck_all [OF assms(2) that(1)] that(2) by (cases t) auto
  then have "total held p = sum_list (map held (filter looping (pl_tasks p)))"
    unfolding total_def by (intro sum_list_map_filter [symmetric]) auto
  moreover have "held t < pl_permits p" if "filter looping (pl_tasks p) = [t]" for t
  proof -
    have "t \<in> set (filter looping (pl_tasks p))" by (simp add: that)
    then have t: "t \<in> set (pl_tasks p)" "looping t" by auto
    have "task_ok (pl_permits p) t" using assms(1) t(1) by (simp add: pool_inv_def list_all_iff)
    with stuck_all [OF assms(2) t(1)] t(2) show ?thesis by (cases t) auto
  qed
  ultimately have "total held p < pl_permits p" using assms(1) by cases (auto simp: pool_inv_def)
  then show False using assms(1) stuck_free [OF assms(2)] by (simp add: pool_inv_def)
qed

text \<open>Taking \<open>k\<close> permits in a row for one collecting task.\<close>

lemma reach_takes:
  assumes "pool_reachable m p" "i < length (pl_tasks p)" "pl_tasks p ! i = Many_Loop n got"
    and "got + k \<le> n" "k \<le> pl_free p"
  shows "pool_reachable m ((set_task i (Many_Loop n (got + k)) p)\<lparr>pl_free := pl_free p - k\<rparr>)"
  using assms(4,5)
proof (induction k)
  case 0
  have "(set_task i (Many_Loop n got) p)\<lparr>pl_free := pl_free p\<rparr> = p"
    using assms(2,3) by (simp add: set_task_def) (metis list_update_id pool.surjective pool.update_convs(2,4))
  then show ?case using assms(1) by simp
next
  case (Suc k)
  let ?q = "(set_task i (Many_Loop n (got + k)) p)\<lparr>pl_free := pl_free p - k\<rparr>"
  have "take_permit i ?q = Some ((set_task i (Many_Loop n (got + Suc k)) p)\<lparr>pl_free := pl_free p - Suc k\<rparr>)"
    using assms(2) Suc.prems by (simp add: take_permit_def set_task_def)
  moreover have "pool_reachable m ?q" using Suc by simp
  ultimately show ?case by (blast intro: pool_next taking)
qed

section \<open>Semaphores per provider\<close>

record sem_cell =
  sc_size :: nat
  sc_free :: nat

type_synonym provider_sems = "string \<rightharpoonup> sem_cell"

text \<open>
  \<open>acquire\<close>: the semaphore is created, with the size this call asks for, if the provider has
  none; then one permit is awaited (\<open>None\<close> while there is none).
\<close>

definition sems_entry :: "string \<Rightarrow> nat \<Rightarrow> provider_sems \<Rightarrow> provider_sems" where
  "sems_entry prov permits m =
     (let effective = max permits 1
      in case m prov of Some _ \<Rightarrow> m | None \<Rightarrow> m(prov \<mapsto> \<lparr>sc_size = effective, sc_free = effective\<rparr>))"

definition sems_take :: "string \<Rightarrow> provider_sems \<Rightarrow> provider_sems option" where
  "sems_take prov m =
     (case m prov of
        None \<Rightarrow> None
      | Some c \<Rightarrow> if sc_free c = 0 then None else Some (m(prov \<mapsto> c\<lparr>sc_free := sc_free c - 1\<rparr>)))"

definition sems_release :: "string \<Rightarrow> provider_sems \<Rightarrow> provider_sems" where
  "sems_release prov m =
     (case m prov of None \<Rightarrow> m | Some c \<Rightarrow> m(prov \<mapsto> c\<lparr>sc_free := sc_free c + 1\<rparr>))"

definition available_permits :: "string \<Rightarrow> provider_sems \<Rightarrow> nat option" where
  "available_permits prov m = map_option sc_free (m prov)"

text \<open>A run of the registry, with the permits each provider has handed out.\<close>

datatype sems_event = Sem_Enter string nat | Sem_Take string | Sem_Release string

fun sems_step :: "provider_sems \<times> (string \<Rightarrow> nat) \<Rightarrow> sems_event \<Rightarrow> provider_sems \<times> (string \<Rightarrow> nat)" where
  "sems_step (m, out) (Sem_Enter p k) = (sems_entry p k m, out)"
| "sems_step (m, out) (Sem_Take p) =
     (case sems_take p m of None \<Rightarrow> (m, out) | Some m' \<Rightarrow> (m', out(p := out p + 1)))"
| "sems_step (m, out) (Sem_Release p) =
     (if out p = 0 then (m, out) else (sems_release p m, out(p := out p - 1)))"

definition sems_inv :: "provider_sems \<times> (string \<Rightarrow> nat) \<Rightarrow> bool" where
  "sems_inv s \<longleftrightarrow> (\<forall>p. case fst s p of None \<Rightarrow> snd s p = 0 | Some c \<Rightarrow> sc_free c + snd s p = sc_size c)"

lemma sems_inv_at:
  "sems_inv (m, out) \<Longrightarrow> m p = None \<Longrightarrow> out p = 0"
  "sems_inv (m, out) \<Longrightarrow> m p = Some c \<Longrightarrow> sc_free c + out p = sc_size c"
  by (auto simp: sems_inv_def dest: spec [of _ p])

lemma sems_inv_step: "sems_inv s \<Longrightarrow> sems_inv (sems_step s e)"
proof -
  assume inv: "sems_inv s"
  obtain m out where s: "s = (m, out)" by (cases s)
  note at = sems_inv_at [OF inv [unfolded s]]
  have le: "m p = Some c \<Longrightarrow> Suc k \<le> sc_free c \<or> Suc k \<le> out p \<Longrightarrow> Suc (sc_size c - Suc 0) = sc_size c" for p c k
    using at(2) [of p c] by auto
  show ?thesis
    using inv at unfolding s
    by (cases e)
      (auto simp: sems_inv_def sems_entry_def sems_take_def sems_release_def Let_def Suc_le_eq
        intro!: le [where k = 0] split: option.splits)
qed

lemma sems_size_step: "fst s p = Some c \<Longrightarrow> \<exists>c'. fst (sems_step s e) p = Some c' \<and> sc_size c' = sc_size c"
  by (cases s; cases e)
    (auto simp: sems_entry_def sems_take_def sems_release_def Let_def split: option.splits)

interpretation sems_machine: event_machine sems_step sems_inv
  by unfold_locales (rule sems_inv_step)

section \<open>Properties\<close>

text \<open>C34: The pool conserves its permits: in every reachable state, whatever calls were made and
  however they interleave, the free permits and those in hand add up to the cap, the usage
  counter is exactly the number of permits behind live guards (it never wraps, although it
  is lowered before and raised after the permits move), and so at most the cap.\<close>

theorem pool_conserves:
  assumes "pool_reachable m p"
  shows "pl_free p + total held p = unat (max m 1) \<and>
         unat (pl_in_use p) = total counted p \<and> unat (pl_in_use p) \<le> unat (max m 1)"
  using pool_inv_reachable [OF assms] permits_reachable [OF assms] total_counted_le [of p]
  by (simp add: pool_inv_def)

text \<open>The pool cannot get stuck as long as at most one call at a time is collecting several
  permits: whenever work is left, some task can take, finish, drop or release. The phases
  only ask for single permits.\<close>

lemma single_permits_never_stuck:
  assumes "pool_reachable m p" and "length (filter looping (pl_tasks p)) \<le> 1"
  shows "\<not> pool_stuck p"
  using stuck_needs_two_loops [OF pool_inv_reachable [OF assms(1)]] assms(2) by fastforce

text \<open>C36: Two calls that each collect the whole cap can block each other for good: with a cap of at
  least two, a run leads to a state where one holds all permits but one, the other holds
  that one, and neither can ever move unless a caller gives up.\<close>

theorem acquire_many_deadlock:
  assumes "2 \<le> unat m" and "unat m < 2 ^ 61"
  shows "\<exists>p. pool_reachable m p \<and> pool_stuck p \<and>
     pl_tasks p = [Many_Loop (unat m) (unat m - 1), Many_Loop (unat m) 1]"
proof -
  let ?n = "unat m"
  have "max m 1 = m" using assms(1) by (simp add: max_def word_le_nat_alt)
  then have "parallelism_new m = Some \<lparr>pl_permits = ?n, pl_free = ?n, pl_in_use = 0, pl_tasks = []\<rparr>"
    using assms(2) by (simp add: parallelism_new_def Let_def)
  then have "pool_reachable m (acquire_many ?n (acquire_many ?n \<lparr>pl_permits = ?n, pl_free = ?n, pl_in_use = 0, pl_tasks = []\<rparr>))"
    by (blast intro: pool_start pool_next enter_many)
  then have r0: "pool_reachable m \<lparr>pl_permits = ?n, pl_free = ?n, pl_in_use = 0, pl_tasks = [Many_Loop ?n 0, Many_Loop ?n 0]\<rparr>"
    by (simp add: acquire_many_def)
  have r1: "pool_reachable m \<lparr>pl_permits = ?n, pl_free = 1, pl_in_use = 0, pl_tasks = [Many_Loop ?n (?n - 1), Many_Loop ?n 0]\<rparr>"
    using reach_takes [OF r0, of 0 ?n 0 "?n - 1"] assms(1) by (simp add: set_task_def)
  have "pool_reachable m \<lparr>pl_permits = ?n, pl_free = 0, pl_in_use = 0, pl_tasks = [Many_Loop ?n (?n - 1), Many_Loop ?n 1]\<rparr>"
    using reach_takes [OF r1, of 1 ?n 0 1] assms(1) by (simp add: set_task_def)
  moreover have "pool_stuck \<lparr>pl_permits = ?n, pl_free = 0, pl_in_use = 0, pl_tasks = [Many_Loop ?n (?n - 1), Many_Loop ?n 1]\<rparr>"
    using assms(1)
    by (auto simp: pool_stuck_def task_moves_Nil take_permit_def finish_acquire_def drop_guard_def release_permit_def
        less_Suc_eq)
  ultimately show ?thesis by (intro exI conjI) auto
qed

text \<open>The first call for a provider fixes its cap: whatever later calls ask for, the provider's
  semaphore keeps the size of the first request (at least one), and no more calls than that
  hold a permit at the same time.\<close>

lemma provider_cap_fixed_by_first:
  assumes "sems_inv (m, out)" and "m prov = None"
  shows "\<exists>c. fst (foldl sems_step (m, out) (Sem_Enter prov k # es)) prov = Some c \<and> sc_size c = max k 1 \<and>
         snd (foldl sems_step (m, out) (Sem_Enter prov k # es)) prov \<le> max k 1"
proof -
  let ?s = "sems_step (m, out) (Sem_Enter prov k)"
  have "\<exists>c. fst ?s prov = Some c \<and> sc_size c = max k 1" using assms(2) by (simp add: sems_entry_def Let_def)
  then have "\<exists>c. fst (foldl sems_step ?s es) prov = Some c \<and> sc_size c = max k 1"
  proof (induction es rule: rev_induct)
    case (snoc e es)
    then obtain c where "fst (foldl sems_step ?s es) prov = Some c" "sc_size c = max k 1" by blast
    from sems_size_step [OF this(1), of e] this(2) show ?case by (auto simp del: sems_step.simps)
  qed (simp del: sems_step.simps)
  then obtain c where c: "fst (foldl sems_step ?s es) prov = Some c" "sc_size c = max k 1" by blast
  have inv: "sems_inv (foldl sems_step ?s es)"
    using assms(1) by (intro sems_machine.run_inv sems_machine.step_inv)
  obtain m' out' where r: "foldl sems_step ?s es = (m', out')" by (cases "foldl sems_step ?s es")
  have "sc_free c + out' prov = sc_size c"
    using sems_inv_at(2) [of m' out' prov c] inv c(1) by (simp add: r del: sems_step.simps)
  with c show ?thesis by (simp add: r del: sems_step.simps)
qed

section \<open>Witnesses\<close>

definition demo_pool :: pool where
  "demo_pool = \<lparr>pl_permits = 2, pl_free = 1, pl_in_use = 0, pl_tasks = [Granted]\<rparr>"

lemma max_two: "max 2 1 = (2 :: u64)"
  by (simp add: max_def word_le_nat_alt)

lemma demo_pool_reachable: "pool_reachable 2 demo_pool"
proof -
  let ?p = "\<lparr>pl_permits = 2, pl_free = 2, pl_in_use = 0, pl_tasks = []\<rparr>"
  have "parallelism_new 2 = Some ?p" by (simp add: parallelism_new_def Let_def max_two)
  then have "pool_reachable 2 (pool_acquire ?p)" by (blast intro: pool_start pool_next enter_acquire)
  moreover have "take_permit 0 (pool_acquire ?p) = Some demo_pool"
    by (simp add: take_permit_def pool_acquire_def set_task_def demo_pool_def)
  ultimately show ?thesis by (blast intro: pool_next taking)
qed

lemma pool_conserves_witness: "pl_free demo_pool + total held demo_pool = 2"
  using pool_conserves [OF demo_pool_reachable] by (simp add: max_two)

lemma acquire_many_deadlock_witness:
  "\<exists>p. pool_reachable 4 p \<and> pool_stuck p \<and> pl_tasks p = [Many_Loop 4 3, Many_Loop 4 1]"
  using acquire_many_deadlock [of 4] by simp

end
