(* ===== verification/Json_Repair.thy ===== *)
theory Json_Repair imports Text Json_Extractor begin

text \<open>
  The repair passes of \<open>src/phases/util.rs\<close> over malformed JSON: the missing opening brace,
  the stray comma after a key, the missing colon, the missing separators and the missing
  closers. The code walks a list of characters with an index; here each walker recurses on
  the bytes that are left, which are the same characters (a character of several bytes is
  copied byte by byte, except white space, which \<open>space_len\<close> reads whole). The code's
  \<open>escape\<close> flag is never raised in these walkers and is left out. \<open>valid\<close> is the JSON
  library's verdict on a text. The lemmas say that no pass adds, loses or moves content.
\<close>

section \<open>Repair events\<close>

datatype repair_kind = Kind_Colon | Kind_Separator | Kind_Bracket | Kind_OpenBrace | Kind_Quote

primrec repair_kind_as_str :: "repair_kind \<Rightarrow> string" where
  "repair_kind_as_str Kind_Colon = ''colon''"
| "repair_kind_as_str Kind_Separator = ''separator''"
| "repair_kind_as_str Kind_Bracket = ''bracket''"
| "repair_kind_as_str Kind_OpenBrace = ''open_brace''"
| "repair_kind_as_str Kind_Quote = ''quote''"

record repair_trace =
  rt_kind :: repair_kind
  rt_before :: nat
  rt_after :: nat

definition trace_of :: "repair_kind \<Rightarrow> string \<Rightarrow> string \<Rightarrow> repair_trace" where
  "trace_of k before after = \<lparr>rt_kind = k, rt_before = length before, rt_after = length after\<rparr>"

section \<open>The missing opening brace\<close>

definition comment_opens :: "string \<Rightarrow> nat \<Rightarrow> bool" where
  "comment_opens bs i \<longleftrightarrow> i + 1 < length bs \<and> bs ! i = CHR ''/'' \<and> bs ! (i + 1) \<in> {CHR ''/'', CHR ''*''}"

function skip_comments :: "string \<Rightarrow> nat \<Rightarrow> nat" where
  "skip_comments bs i =
     (if comment_opens bs i
      then skip_comments bs (if bs ! (i + 1) = CHR ''/'' then line_end bs (i + 2) else block_end bs (i + 2))
      else i)"
  by pat_completeness auto

lemma comment_end_inc:
  "comment_opens bs i \<Longrightarrow> i < line_end bs (i + 2) \<and> i < block_end bs (i + 2)"
  using line_end_ge [of "i + 2" bs] block_scan_ge [of "i + 2" bs]
  by (auto simp: comment_opens_def block_end_def)

termination skip_comments
proof (relation "measure (\<lambda>(bs, i). length bs - i)")
  fix bs :: string and i
  assume "comment_opens bs i"
  then show "((bs, if bs ! (i + 1) = CHR ''/'' then line_end bs (i + 2) else block_end bs (i + 2)), bs, i)
    \<in> measure (\<lambda>(bs, i). length bs - i)"
    using comment_end_inc [of bs i] by (auto simp: comment_opens_def)
qed simp

text \<open>
  The prose before the first key: the walk stops at the first opener (\<open>None\<close>) or quote.
  The code's inner loop over a sentence passes over the same bytes.
\<close>

function find_key :: "string \<Rightarrow> nat \<Rightarrow> nat option" where
  "find_key bs j =
     (if length bs \<le> j then None
      else if bs ! j = CHR 0x7B \<or> bs ! j = CHR 0x5B then None
      else if bs ! j = CHR 0x22 then Some j
      else find_key bs (j + 1))"
  by pat_completeness auto
termination by (relation "measure (\<lambda>(bs, j). length bs - j)") auto

text \<open>The position after the string that starts before \<open>k\<close>.\<close>

function key_end :: "string \<Rightarrow> nat \<Rightarrow> nat option" where
  "key_end bs k =
     (if length bs \<le> k then None
      else if bs ! k = CHR 0x5C \<and> k + 1 < length bs then key_end bs (k + 2)
      else if bs ! k = CHR 0x22 then Some (k + 1)
      else key_end bs (k + 1))"
  by pat_completeness auto
termination by (relation "measure (\<lambda>(bs, k). length bs - k)") auto

declare skip_comments.simps [simp del] find_key.simps [simp del] key_end.simps [simp del]

definition repair_missing_open_brace :: "string \<Rightarrow> string option" where
  "repair_missing_open_brace bs =
     (case find_key bs (skip_comments bs (bom_offset bs)) of
        None \<Rightarrow> None
      | Some key_start \<Rightarrow>
          (case key_end bs (key_start + 1) of
             None \<Rightarrow> None
           | Some k0 \<Rightarrow>
               (let k = skip_whitespace bs k0
                in if length bs \<le> k \<or> bs ! k \<noteq> CHR '':'' then None
                   else Some (take key_start bs @ [CHR 0x7B] @ drop key_start bs))))"

text \<open>Where \<open>after\<close> first differs from \<open>before\<close>.\<close>

definition inserted_at :: "string \<Rightarrow> string \<Rightarrow> nat" where
  "inserted_at before after = length (takeWhile (\<lambda>(a, b). a = b) (zip before after))"

section \<open>The missing colon\<close>

text \<open>The rest of a string literal with its closing quote, and what follows it.\<close>

fun string_body :: "string \<Rightarrow> (string \<times> string) option" where
  "string_body [] = None"
| "string_body (c # s) =
     (if c = CHR 0x5C
      then (case s of [] \<Rightarrow> None | d # r \<Rightarrow> map_option (\<lambda>(b, t). (c # d # b, t)) (string_body r))
      else if c = CHR 0x22 then Some ([c], s)
      else map_option (\<lambda>(b, t). (c # b, t)) (string_body s))"

lemma string_body_split: "string_body s = Some (b, r) \<Longrightarrow> s = b @ r \<and> b \<noteq> []"
  by (induction s arbitrary: b rule: string_body.induct) (auto split: if_splits list.splits)

definition starts_with_one_of :: "char list \<Rightarrow> string \<Rightarrow> bool" where
  "starts_with_one_of cs s \<longleftrightarrow> (case s of [] \<Rightarrow> False | c # _ \<Rightarrow> c \<in> set cs)"

function colon_walk :: "string \<Rightarrow> (string \<times> bool) option" where
  "colon_walk [] = Some ([], False)"
| "colon_walk (c # s) =
     (if c \<noteq> CHR 0x22 then map_option (\<lambda>(out, ch). (c # out, ch)) (colon_walk s)
      else case string_body s of
             None \<Rightarrow> None
           | Some (body, r) \<Rightarrow>
               (let ins = starts_with_one_of [CHR 0x5B, CHR 0x7B] (trim_start r)
                in map_option (\<lambda>(out, ch). (c # body @ (if ins then [CHR '':''] else []) @ out, ins \<or> ch))
                     (colon_walk r)))"
  by pat_completeness auto
termination by (relation "measure length") (auto dest!: string_body_split)

definition repair_missing_colon :: "string \<Rightarrow> string option" where
  "repair_missing_colon s =
     (if s = [] then None
      else case colon_walk s of None \<Rightarrow> None | Some (out, changed) \<Rightarrow> if changed then Some out else None)"

section \<open>The stray comma after a key\<close>

function comma_walk :: "bool \<Rightarrow> string \<Rightarrow> string \<times> bool" where
  "comma_walk in_string [] = ([], False)"
| "comma_walk in_string (c # s) =
     (if in_string \<and> c = CHR 0x5C \<and> s \<noteq> []
      then (case comma_walk in_string (tl s) of (out, ch) \<Rightarrow> (c # hd s # out, ch))
      else if c = CHR 0x22 then (case comma_walk (\<not> in_string) s of (out, ch) \<Rightarrow> (c # out, ch))
      else if \<not> in_string \<and> c = CHR '','' \<and> starts_with_one_of [CHR '':''] (trim_start s)
      then (case comma_walk in_string (trim_start s) of (out, ch) \<Rightarrow> (out, True))
      else (case comma_walk in_string s of (out, ch) \<Rightarrow> (c # out, ch)))"
  by pat_completeness auto
termination
  by (relation "measure (length \<circ> snd)") (auto simp: le_imp_less_Suc trim_start_length)

definition repair_stray_comma_after_key :: "string \<Rightarrow> string option" where
  "repair_stray_comma_after_key s =
     (if s = [] then None
      else case comma_walk False s of (out, changed) \<Rightarrow> if changed then Some out else None)"

section \<open>Missing separators\<close>

text \<open>
  The containers around the position, innermost first, each with whether a value was seen
  in it. \<open>acc\<close> is the output so far, last byte first.
\<close>

datatype frame = Frame_Object bool | Frame_Array

type_synonym frames = "(frame \<times> bool) list"

definition saw_value :: "frames \<Rightarrow> frames" where
  "saw_value st = (case st of [] \<Rightarrow> [] | (f, _) # r \<Rightarrow> (f, True) # r)"

definition set_expecting_key :: "bool \<Rightarrow> frames \<Rightarrow> frames" where
  "set_expecting_key k st = (case st of (Frame_Object _, v) # r \<Rightarrow> (Frame_Object k, v) # r | _ \<Rightarrow> st)"

definition expects_colon :: "frames \<Rightarrow> char \<Rightarrow> bool" where
  "expects_colon st nxt \<longleftrightarrow>
     (case st of (Frame_Object True, _) # _ \<Rightarrow> True | [] \<Rightarrow> nxt = CHR '':'' | _ \<Rightarrow> False)"

text \<open>After a string closed: the separator to insert, if any, and the frames.\<close>

definition after_string :: "frames \<Rightarrow> string \<Rightarrow> char option \<times> frames" where
  "after_string st rest =
     (case trim_start rest of
        [] \<Rightarrow> (None, st)
      | nxt # _ \<Rightarrow>
          (let want = (if expects_colon st nxt then CHR '':'' else CHR '','')
           in if nxt \<noteq> want \<and> nxt \<noteq> CHR 0x5D \<and> nxt \<noteq> CHR 0x7D
              then (Some want, set_expecting_key (want = CHR '','') st)
              else if nxt = want \<and> expects_colon st nxt then (None, set_expecting_key False st)
              else (None, st)))"

definition needs_comma_before_space :: "frames \<Rightarrow> string \<Rightarrow> string \<Rightarrow> bool" where
  "needs_comma_before_space st acc rest \<longleftrightarrow>
     (case st of (_, True) # _ \<Rightarrow>
        starts_with_one_of [CHR 0x22, CHR 0x7B, CHR 0x5B] (trim_start rest) \<and>
        starts_with_one_of [CHR 0x7D, CHR 0x5D] acc
      | _ \<Rightarrow> False)"

definition eat_comma :: "string \<Rightarrow> string" where
  "eat_comma acc = (case acc of c # r \<Rightarrow> if c = CHR '','' then r else acc | [] \<Rightarrow> [])"

function sep_walk :: "frames \<Rightarrow> bool \<Rightarrow> string \<Rightarrow> bool \<Rightarrow> string \<Rightarrow> string option" where
  "sep_walk st in_string acc changed [] =
     (if in_string \<or> st \<noteq> [] \<or> \<not> changed then None else Some (rev acc))"
| "sep_walk st in_string acc changed (c # s) =
     (if in_string \<and> c = CHR 0x5C \<and> s \<noteq> [] then sep_walk st in_string (hd s # c # acc) changed (tl s)
      else if c = CHR 0x22 then
        (if \<not> in_string then sep_walk st True (c # acc) changed s
         else case after_string (saw_value st) s of
                (Some want, st') \<Rightarrow> sep_walk st' False (want # c # acc) True s
              | (None, st') \<Rightarrow> sep_walk st' False (c # acc) changed s)
      else if in_string then sep_walk st in_string (c # acc) changed s
      else if c = CHR 0x7B then sep_walk ((Frame_Object True, False) # st) in_string (c # acc) changed s
      else if c = CHR 0x5B then sep_walk ((Frame_Array, False) # st) in_string (c # acc) changed s
      else if c = CHR 0x7D \<or> c = CHR 0x5D then
        sep_walk (saw_value (tl st)) in_string (c # eat_comma acc) (changed \<or> eat_comma acc \<noteq> acc) s
      else if c = CHR '','' then sep_walk (set_expecting_key True st) in_string (c # acc) changed s
      else if c = CHR '':'' then sep_walk (set_expecting_key False st) in_string (c # acc) changed s
      else if space_len (c # s) \<noteq> 0 then
        (let k = space_len (c # s); rest = drop k (c # s); w = rev (take k (c # s))
         in if needs_comma_before_space st acc rest then sep_walk st in_string (w @ CHR '','' # acc) True rest
            else sep_walk st in_string (w @ acc) changed rest)
      else sep_walk st in_string (c # acc) changed s)"
  by pat_completeness auto
termination
  by (relation "measure (\<lambda>(st, q, acc, ch, s). length s)") auto

definition repair_missing_separators :: "string \<Rightarrow> string option" where
  "repair_missing_separators s = (if s = [] then None else sep_walk [] False [] False s)"

section \<open>Missing closers\<close>

text \<open>One call adds at most one closer: before a closer of the other kind, or at the end.\<close>

definition closer_for :: "char \<Rightarrow> char" where
  "closer_for c = (if c = CHR 0x7B then CHR 0x7D else CHR 0x5D)"

definition opener_for :: "char \<Rightarrow> char" where
  "opener_for c = (if c = CHR 0x7D then CHR 0x7B else CHR 0x5B)"

fun bracket_walk :: "char list \<Rightarrow> bool \<Rightarrow> string \<Rightarrow> string \<Rightarrow> string option" where
  "bracket_walk st in_string acc [] =
     (if in_string then None
      else case st of [] \<Rightarrow> Some (rev acc) | c # _ \<Rightarrow> Some (rev (closer_for c # eat_comma acc)))"
| "bracket_walk st in_string acc (c # s) =
     (if in_string \<and> c = CHR 0x5C \<and> s \<noteq> [] then
        (case s of d # r \<Rightarrow> bracket_walk st in_string (d # c # acc) r | [] \<Rightarrow> None)
      else if c = CHR 0x22 then bracket_walk st (\<not> in_string) (c # acc) s
      else if in_string then bracket_walk st in_string (c # acc) s
      else if c = CHR 0x7B \<or> c = CHR 0x5B then bracket_walk (c # st) in_string (c # acc) s
      else if c = CHR 0x7D \<or> c = CHR 0x5D then
        (case st of
           [] \<Rightarrow> None
         | inner # st' \<Rightarrow>
             (if inner = opener_for c then bracket_walk st' in_string (c # acc) s
              else case st' of
                     [] \<Rightarrow> None
                   | outer # _ \<Rightarrow>
                       (if outer = opener_for c then Some (rev (c # closer_for inner # acc)) else None)))
      else bracket_walk st in_string (c # acc) s)"

definition repair_one_missing_bracket :: "string \<Rightarrow> string option" where
  "repair_one_missing_bracket s = bracket_walk [] False [] s"

fun bracket_loop ::
  "(string \<Rightarrow> bool) \<Rightarrow> nat \<Rightarrow> string \<Rightarrow> string option \<Rightarrow> string option \<times> repair_trace list"
where
  "bracket_loop valid 0 current last_repaired =
     (Some (case last_repaired of None \<Rightarrow> current | Some l \<Rightarrow> l), [])"
| "bracket_loop valid (Suc n) current last_repaired =
     (case repair_one_missing_bracket current of
        None \<Rightarrow> (None, [])
      | Some repaired \<Rightarrow>
          (if repaired = current then (Some (case last_repaired of None \<Rightarrow> current | Some l \<Rightarrow> l), [])
           else if valid repaired then (Some repaired, [trace_of Kind_Bracket current repaired])
           else case bracket_loop valid n repaired (Some repaired) of
                  (r, ev) \<Rightarrow> (r, trace_of Kind_Bracket current repaired # ev)))"

definition repair_brackets_iterative ::
  "(string \<Rightarrow> bool) \<Rightarrow> string \<Rightarrow> nat \<Rightarrow> string option \<times> repair_trace list"
where
  "repair_brackets_iterative valid input max_iters = bracket_loop valid max_iters input None"

section \<open>The fragment check\<close>

text \<open>\<open>depth\<close> is at least one after the opener, so the code's subtraction cannot underflow.\<close>

fun close_walk :: "nat \<Rightarrow> bool \<Rightarrow> bool \<Rightarrow> string \<Rightarrow> bool" where
  "close_walk depth in_string escape [] = False"
| "close_walk depth in_string escape (b # s) =
     (if in_string then
        (if escape then close_walk depth in_string False s
         else if b = CHR 0x5C then close_walk depth in_string True s
         else close_walk depth (b \<noteq> CHR 0x22) escape s)
      else if b = CHR 0x22 then close_walk depth True escape s
      else if b = CHR 0x7B \<or> b = CHR 0x5B then close_walk (depth + 1) in_string escape s
      else if b = CHR 0x7D \<or> b = CHR 0x5D then
        (if depth - 1 = 0 then True else close_walk (depth - 1) in_string escape s)
      else close_walk depth in_string escape s)"

definition closes_object :: "string \<Rightarrow> nat \<Rightarrow> bool" where
  "closes_object s opn \<longleftrightarrow>
     opn < length s \<and> s ! opn = CHR 0x7B \<and> close_walk 0 False False (drop opn s)"

section \<open>The chain\<close>

definition default_bracket_repair_max_iters :: nat where
  "default_bracket_repair_max_iters = 3"

text \<open>A pass that changes the length replaces the text and records an event.\<close>

definition apply_pass ::
  "repair_kind \<Rightarrow> (string \<Rightarrow> string option) \<Rightarrow> string \<times> repair_trace list \<Rightarrow> string \<times> repair_trace list"
where
  "apply_pass k f se =
     (case se of (current, events) \<Rightarrow>
        (case f current of
           None \<Rightarrow> (current, events)
         | Some patched \<Rightarrow>
             (if length patched = length current then (current, events)
              else (patched, events @ [trace_of k current patched]))))"

definition repair_m3_brackets_with_trace ::
  "(string \<Rightarrow> bool) \<Rightarrow> string \<Rightarrow> string option \<times> repair_trace list"
where
  "repair_m3_brackets_with_trace valid s =
     (if (case repair_missing_open_brace s of
            Some patched \<Rightarrow> length patched \<noteq> length s \<and> \<not> closes_object patched (inserted_at s patched)
          | None \<Rightarrow> False)
      then (None, [])
      else case apply_pass Kind_Separator repair_missing_separators
                  (apply_pass Kind_Colon repair_missing_colon
                    (apply_pass Kind_Separator repair_stray_comma_after_key
                      (apply_pass Kind_OpenBrace repair_missing_open_brace (s, [])))) of
             (current, events) \<Rightarrow>
               (case repair_brackets_iterative valid current default_bracket_repair_max_iters of
                  (r, ev) \<Rightarrow> (r, events @ ev)))"

definition repair_m3_brackets :: "(string \<Rightarrow> bool) \<Rightarrow> string \<Rightarrow> string option" where
  "repair_m3_brackets valid s = fst (repair_m3_brackets_with_trace valid s)"

section \<open>Structural edits\<close>

text \<open>
  What a pass may do to a text: insert or delete one structural byte, or delete one
  white-space character. Everything else of the text stays, in its order.
\<close>

definition structural :: "char \<Rightarrow> bool" where
  "structural c \<longleftrightarrow> c \<in> set ''{}[],:''"

inductive edit :: "string \<Rightarrow> string \<Rightarrow> bool" where
  insert: "structural c \<Longrightarrow> edit (a @ b) (a @ c # b)"
| delete: "structural c \<Longrightarrow> edit (a @ c # b) (a @ b)"
| delete_space: "w \<noteq> [] \<Longrightarrow> space_len w = length w \<Longrightarrow> edit (a @ w @ b) (a @ b)"

abbreviation edits :: "string \<Rightarrow> string \<Rightarrow> bool" where
  "edits \<equiv> edit\<^sup>*\<^sup>*"

lemma structural_simps [simp]:
  "structural CHR 0x7B" "structural CHR 0x7D" "structural CHR 0x5B" "structural CHR 0x5D"
  "structural CHR '',''" "structural CHR '':''" "structural (closer_for c)"
  by (simp_all add: structural_def closer_for_def)

lemma edit_context: "edit s t \<Longrightarrow> edit (p @ s @ q) (p @ t @ q)"
proof (induction rule: edit.induct)
  case (insert c a b)
  then show ?case using edit.insert [of c "p @ a" "b @ q"] by simp
next
  case (delete c a b)
  then show ?case using edit.delete [of c "p @ a" "b @ q"] by simp
next
  case (delete_space w a b)
  then show ?case using edit.delete_space [of w "p @ a" "b @ q"] by simp
qed

lemma edits_context: "edits s t \<Longrightarrow> edits (p @ s @ q) (p @ t @ q)"
  by (induction rule: rtranclp_induct) (auto intro: rtranclp.rtrancl_into_rtrancl edit_context)

lemma edits_append: "edits s t \<Longrightarrow> edits (p @ s) (p @ t)"
  using edits_context [of s t p "[]"] by simp

lemma edits_Cons: "edits s t \<Longrightarrow> edits (c # s) (c # t)"
  using edits_append [of s t "[c]"] by simp

lemma edits_insert: "structural c \<Longrightarrow> edits (a @ b) (a @ c # b)"
  by (blast intro: edit.insert)

lemma edits_delete: "structural c \<Longrightarrow> edits (a @ c # b) (a @ b)"
  by (blast intro: edit.delete)

lemma space_len_take: "space_len s \<noteq> 0 \<Longrightarrow> space_len (take (space_len s) s) = space_len s"
  by (cases s rule: space_len.cases) (auto simp: wide_space_def split: if_splits)

lemma edits_trim: "edits s (trim_start s)"
proof (induction s rule: trim_start.induct)
  case (1 s)
  show ?case
  proof (cases "space_len s = 0")
    case True
    then show ?thesis by (simp add: trim_start_id)
  next
    case False
    let ?w = "take (space_len s) s"
    have "edit (?w @ drop (space_len s) s) (drop (space_len s) s)"
      using edit.delete_space [of ?w "[]" "drop (space_len s) s"] False space_len_take [OF False] space_len_le [of s]
      by (simp add: min_absorb2) (metis False space_len.simps(1))
    then have "edit s (drop (space_len s) s)" by simp
    with 1 False show ?thesis
      by (metis converse_rtranclp_into_rtranclp trim_start.simps)
  qed
qed

text \<open>Cutting the end of the edited text off amounts to cutting the text first.\<close>

lemma edit_prefix:
  assumes "edit s t" "prefix q t"
  shows "\<exists>p. prefix p s \<and> edits p q"
  using assms
proof (induction rule: edit.induct)
  case (insert c a b)
  then consider "prefix q a" | b' where "q = a @ c # b'" "prefix b' b"
    by (auto simp: prefix_append prefix_Cons)
  then show ?case
  proof cases
    case 2
    with insert show ?thesis by (intro exI [of _ "a @ b'"]) (simp add: edits_insert)
  qed (auto simp: prefix_append)
next
  case (delete c a b)
  then consider "prefix q a" | b' where "q = a @ b'" "prefix b' b"
    by (auto simp: prefix_append)
  then show ?case
  proof cases
    case 2
    with delete show ?thesis by (intro exI [of _ "a @ c # b'"]) (simp add: edits_delete)
  qed (auto simp: prefix_append)
next
  case (delete_space w a b)
  then consider "prefix q a" | b' where "q = a @ b'" "prefix b' b"
    by (auto simp: prefix_append)
  then show ?case
  proof cases
    case 2
    with delete_space edit.delete_space [of w a b'] show ?thesis
      by (intro exI [of _ "a @ w @ b'"]) auto
  qed (auto simp: prefix_append)
qed

definition cut_edits :: "string \<Rightarrow> string \<Rightarrow> bool" where
  "cut_edits s t \<longleftrightarrow> (\<exists>p. prefix p s \<and> edits p t)"

lemma edits_prefix: "edits s t \<Longrightarrow> prefix q t \<Longrightarrow> cut_edits s q"
proof (induction arbitrary: q rule: rtranclp_induct)
  case base
  then show ?case by (auto simp: cut_edits_def)
next
  case (step t u)
  from edit_prefix [OF step.hyps(2) step.prems] obtain p where p: "prefix p t" "edits p q" by blast
  from step.IH [OF p(1)] p(2) show ?case by (auto simp: cut_edits_def intro: rtranclp_trans)
qed

lemma cut_edits_trans: "cut_edits s t \<Longrightarrow> cut_edits t u \<Longrightarrow> cut_edits s u"
proof -
  assume "cut_edits s t" "cut_edits t u"
  then obtain p q where p: "prefix p s" "edits p t" and q: "prefix q t" "edits q u" by (auto simp: cut_edits_def)
  from edits_prefix [OF p(2) q(1)] obtain r where r: "prefix r p" "edits r q" by (auto simp: cut_edits_def)
  with p q show ?thesis by (auto simp: cut_edits_def intro: prefix_order.trans rtranclp_trans)
qed

lemma edits_cut: "edits s t \<Longrightarrow> cut_edits s t"
  by (auto simp: cut_edits_def)

lemma cut_edits_refl [simp]: "cut_edits s s"
  by (auto simp: cut_edits_def)

section \<open>The passes only edit structure\<close>

lemma open_brace_edits: "repair_missing_open_brace s = Some out \<Longrightarrow> edits s out"
proof -
  assume "repair_missing_open_brace s = Some out"
  then obtain n where "out = take n s @ [CHR 0x7B] @ drop n s"
    by (auto simp: repair_missing_open_brace_def Let_def split: option.splits if_splits)
  then show ?thesis using edits_insert [of "CHR 0x7B" "take n s" "drop n s"] by simp
qed

lemma colon_walk_edits: "colon_walk s = Some (out, ch) \<Longrightarrow> edits s out"
proof (induction s arbitrary: out ch rule: colon_walk.induct)
  case 1
  then show ?case by simp
next
  case (2 c s)
  show ?case
  proof (cases "c = CHR 0x22")
    case False
    with 2 show ?thesis by (auto intro: edits_Cons)
  next
    case True
    then obtain body r where b: "string_body s = Some (body, r)" using "2.prems" by (auto split: option.splits)
    let ?ins = "starts_with_one_of [CHR 0x5B, CHR 0x7B] (trim_start r)"
    from "2.prems" True b obtain out' ch' where w: "colon_walk r = Some (out', ch')"
      and out: "out = c # body @ (if ?ins then [CHR '':''] else []) @ out'"
      by (auto simp: Let_def)
    have "edits r out'" using "2.IH"(2) [OF _ b refl refl w] True by simp
    then have "edits (c # body @ r) (c # body @ out')" using edits_append [of r out' "c # body"] by simp
    moreover have "edits (c # body @ out') out"
      using edits_insert [of "CHR '':''" "c # body" out'] by (simp add: out)
    ultimately show ?thesis using string_body_split [OF b] by (auto intro: rtranclp_trans)
  qed
qed

lemma comma_walk_edits: "edits s (fst (comma_walk q s))"
proof (induction q s rule: comma_walk.induct)
  case (1 q)
  then show ?case by simp
next
  case (2 q c s)
  show ?case
  proof (cases "q \<and> c = CHR 0x5C \<and> s \<noteq> []")
    case True
    with 2(1) show ?thesis by (cases s) (auto split: prod.splits intro!: edits_Cons)
  next
    case False
    show ?thesis
    proof (cases "c = CHR 0x22 \<or> q \<or> c \<noteq> CHR '','' \<or> \<not> starts_with_one_of [CHR '':''] (trim_start s)")
      case True
      with 2(2,4) False show ?thesis by (auto split: prod.splits intro!: edits_Cons)
    next
      case comma: False
      then have ih: "edits (trim_start s) (fst (comma_walk q (trim_start s)))" using 2(3) False by blast
      have "edits (c # s) s" using comma edits_delete [of "CHR '',''" "[]" s] by simp
      then have "edits (c # s) (fst (comma_walk q (trim_start s)))"
        using edits_trim [of s] ih by (meson rtranclp_trans)
      with comma show ?thesis by (cases "comma_walk q (trim_start s)") simp
    qed
  qed
qed

lemma eat_comma_edits: "edits (rev acc @ s) (rev (eat_comma acc) @ s)"
  using edits_delete [of "CHR '',''" "rev (tl acc)" s]
  by (cases acc) (auto simp: eat_comma_def)

lemma after_string_structural: "after_string st r = (Some w, st') \<Longrightarrow> structural w"
  by (auto simp: after_string_def Let_def split: list.splits if_splits)

lemma sep_walk_edits: "sep_walk st q acc ch s = Some out \<Longrightarrow> edits (rev acc @ s) out"
proof (induction st q acc ch s rule: sep_walk.induct)
  case (1 st q acc ch)
  then show ?case by (simp split: if_splits)
next
  case (2 st q acc ch c s)
  note IH = "2.IH"
  consider (esc) "q \<and> c = CHR 0x5C \<and> s \<noteq> []"
    | (closer) "\<not> (q \<and> c = CHR 0x5C \<and> s \<noteq> [])" "c = CHR 0x22" "q"
    | (brackets) "\<not> (q \<and> c = CHR 0x5C \<and> s \<noteq> [])" "\<not> q" "c = CHR 0x7D \<or> c = CHR 0x5D"
    | (space) "\<not> q" "c \<notin> set ''{}[],:''" "c \<noteq> CHR 0x22" "space_len (c # s) \<noteq> 0"
    | (other) "\<not> (q \<and> c = CHR 0x5C \<and> s \<noteq> [])" "\<not> (c = CHR 0x22 \<and> q)"
        "\<not> (\<not> q \<and> (c = CHR 0x7D \<or> c = CHR 0x5D))"
        "q \<or> c \<in> set ''{}[],:'' \<or> c = CHR 0x22 \<or> space_len (c # s) = 0"
    by fastforce
  then show ?case
  proof cases
    case esc
    with IH(1) "2.prems" show ?thesis by (cases s) auto
  next
    case closer
    show ?thesis
    proof (cases "after_string (saw_value st) s")
      case (Pair w st')
      show ?thesis
      proof (cases w)
        case None
        with IH(3) closer Pair "2.prems" show ?thesis by auto
      next
        case (Some x)
        with IH(4) closer Pair "2.prems" have "edits (rev acc @ c # x # s) out" by auto
        moreover have "edits (rev acc @ c # s) (rev acc @ c # x # s)"
          using edits_insert [of x "rev acc @ [c]" s] after_string_structural [of "saw_value st" s x st'] Pair Some
          by simp
        ultimately show ?thesis by (rule rtranclp_trans [rotated])
      qed
    qed
  next
    case brackets
    then have "edits (rev (eat_comma acc) @ c # s) out" using IH(8) "2.prems" by auto
    with eat_comma_edits [of acc "c # s"] show ?thesis by (rule rtranclp_trans)
  next
    case space
    let ?k = "space_len (c # s)"
    have sp: "take ?k (c # s) @ drop ?k (c # s) = c # s" by simp
    show ?thesis
    proof (cases "needs_comma_before_space st acc (drop ?k (c # s))")
      case True
      with IH(11) space "2.prems" have "edits (rev acc @ CHR '','' # c # s) out" by (auto simp: Let_def)
      with edits_insert [of "CHR '',''" "rev acc" "c # s"] show ?thesis by (auto intro: rtranclp_trans)
    next
      case False
      with IH(12) space "2.prems" show ?thesis by (auto simp: Let_def)
    qed
  next
    case other
    with IH(2,5,6,7,9,10,13) "2.prems" show ?thesis by (auto split: if_splits)
  qed
qed

lemma bracket_walk_edits: "bracket_walk st q acc s = Some out \<Longrightarrow> cut_edits (rev acc @ s) out"
proof (induction st q acc s rule: bracket_walk.induct)
  case (1 st q acc)
  show ?case
  proof (cases st)
    case (Cons c st')
    then have "out = rev (eat_comma acc) @ [closer_for c]" using 1 by (auto split: if_splits)
    moreover have "edits (rev acc) (rev (eat_comma acc))" using eat_comma_edits [of acc "[]"] by simp
    moreover have "edits (rev (eat_comma acc)) (rev (eat_comma acc) @ [closer_for c])"
      using edits_insert [of "closer_for c" "rev (eat_comma acc)" "[]"] by simp
    ultimately show ?thesis by (auto intro!: edits_cut intro: rtranclp_trans)
  qed (use 1 in \<open>auto split: if_splits\<close>)
next
  case (2 st q acc c s)
  note IH = "2.IH"
  show ?case
  proof (cases "q \<and> c = CHR 0x5C \<and> s \<noteq> []")
    case True
    then obtain d r where s: "s = d # r" by (cases s) auto
    with IH(1) [OF True s] "2.prems" True show ?thesis by simp
  next
    case esc: False
    show ?thesis
    proof (cases "c = CHR 0x22 \<or> q \<or> c \<notin> {CHR 0x7D, CHR 0x5D}")
      case True
      then show ?thesis using IH(2-4,6) esc "2.prems" by (auto split: if_splits)
    next
      case False
      then obtain a st' where st: "st = a # st'" using "2.prems" esc by (cases st) auto
      show ?thesis
      proof (cases "a = opener_for c")
        case True
        then show ?thesis using IH(5) [OF esc _ _ _ _ st] False "2.prems" esc st by auto
      next
        case mismatch: False
        then have "out = rev acc @ [closer_for a, c]" using "2.prems" esc False st by (auto split: list.splits if_splits)
        moreover have "edits (rev acc @ [c]) (rev acc @ [closer_for a, c])"
          using edits_insert [of "closer_for a" "rev acc" "[c]"] by simp
        ultimately show ?thesis by (auto simp: cut_edits_def intro!: exI [of _ "rev acc @ [c]"])
      qed
    qed
  qed
qed

lemma repair_one_edits: "repair_one_missing_bracket s = Some out \<Longrightarrow> cut_edits s out"
  using bracket_walk_edits [of "[]" False "[]" s out] by (simp add: repair_one_missing_bracket_def)

lemma bracket_loop_edits:
  assumes "fst (bracket_loop valid n current r) = Some out" "cut_edits s current" "\<forall>l. r = Some l \<longrightarrow> cut_edits s l"
  shows "cut_edits s out"
  using assms
proof (induction valid n current r rule: bracket_loop.induct)
  case (1 valid current last_repaired)
  then show ?case by (auto split: option.splits)
next
  case (2 valid n current last_repaired)
  show ?case
  proof (cases "repair_one_missing_bracket current")
    case None
    with 2 show ?thesis by simp
  next
    case (Some rep)
    have "cut_edits s rep" using repair_one_edits [OF Some] "2.prems"(2) by (rule cut_edits_trans [rotated])
    with Some 2 show ?thesis by (auto split: if_splits option.splits prod.splits)
  qed
qed

lemma apply_pass_edits:
  assumes "\<And>t out. f t = Some out \<Longrightarrow> edits t out" "edits s (fst se)"
  shows "edits s (fst (apply_pass k f se))"
  using assms by (cases se) (auto simp: apply_pass_def split: option.splits intro: rtranclp_trans)

lemma pass_edits:
  "repair_missing_colon t = Some out \<Longrightarrow> edits t out"
  "repair_stray_comma_after_key t = Some out \<Longrightarrow> edits t out"
  "repair_missing_separators t = Some out \<Longrightarrow> edits t out"
  using comma_walk_edits [of t False] sep_walk_edits [of "[]" False "[]" False t out]
  by (auto simp: repair_missing_colon_def repair_stray_comma_after_key_def repair_missing_separators_def
      split: if_splits option.splits prod.splits intro: colon_walk_edits)

lemma chain_edits:
  assumes "fst (repair_m3_brackets_with_trace valid s) = Some out"
  shows "cut_edits s out"
proof -
  let ?se = "apply_pass Kind_Separator repair_missing_separators
                  (apply_pass Kind_Colon repair_missing_colon
                    (apply_pass Kind_Separator repair_stray_comma_after_key
                      (apply_pass Kind_OpenBrace repair_missing_open_brace (s, []))))"
  have e: "edits s (fst ?se)"
    by (intro apply_pass_edits) (auto intro: pass_edits open_brace_edits)
  have "fst (repair_brackets_iterative valid (fst ?se) default_bracket_repair_max_iters) = Some out"
    using assms by (cases ?se) (simp add: repair_m3_brackets_with_trace_def split: if_splits prod.splits)
  from bracket_loop_edits [OF this [unfolded repair_brackets_iterative_def] edits_cut [OF e]] show ?thesis by simp
qed

section \<open>What the closing pass does\<close>

text \<open>The containers left open by a text with no mismatched closer, and whether a string is open.\<close>

definition bracket_act :: "char list \<Rightarrow> bool \<Rightarrow> char \<Rightarrow> (char list \<times> bool) option" where
  "bracket_act st in_string c =
     (if c = CHR 0x22 then Some (st, \<not> in_string)
      else if in_string then Some (st, in_string)
      else if c = CHR 0x7B \<or> c = CHR 0x5B then Some (c # st, in_string)
      else if c = CHR 0x7D \<or> c = CHR 0x5D then
        (case st of [] \<Rightarrow> None
         | inner # st' \<Rightarrow> if inner = opener_for c then Some (st', in_string) else None)
      else Some (st, in_string))"

fun bracket_scan :: "char list \<Rightarrow> bool \<Rightarrow> string \<Rightarrow> (char list \<times> bool) option" where
  "bracket_scan st in_string [] = Some (st, in_string)"
| "bracket_scan st in_string (c # s) =
     (if in_string \<and> c = CHR 0x5C \<and> s \<noteq> [] then
        (case s of d # r \<Rightarrow> bracket_scan st in_string r | [] \<Rightarrow> None)
      else case bracket_act st in_string c of
             None \<Rightarrow> None
           | Some (st', in_string') \<Rightarrow> bracket_scan st' in_string' s)"

lemma bracket_walk_act:
  assumes "\<not> (q \<and> c = CHR 0x5C \<and> s \<noteq> [])" "bracket_act st q c = Some (st', q')"
  shows "bracket_walk st q acc (c # s) = bracket_walk st' q' (c # acc) s"
  using assms by (cases st) (auto simp: bracket_act_def split: if_splits)

lemma bracket_scan_act:
  assumes "\<not> (q \<and> c = CHR 0x5C)" "bracket_act st q c = Some (st', q')"
  shows "bracket_scan st q (c # s) = bracket_scan st' q' s"
proof -
  have "\<not> (q \<and> c = CHR 0x5C \<and> s \<noteq> [])" using assms(1) by blast
  with assms(2) show ?thesis by (simp only: bracket_scan.simps if_False option.case prod.case)
qed

definition openers :: "char list \<Rightarrow> bool" where
  "openers st \<longleftrightarrow> list_all (\<lambda>c. c = CHR 0x7B \<or> c = CHR 0x5B) st"

lemma bracket_act_openers: "bracket_act st q c = Some (st', q') \<Longrightarrow> openers st \<Longrightarrow> openers st'"
  by (auto simp: bracket_act_def openers_def split: if_splits list.splits)

text \<open>A scan that ends outside of strings is not in the middle of an escape.\<close>

lemma bracket_scan_cases:
  assumes "bracket_scan st q (c # s) = Some (st', False)"
  obtains d r where "q" "c = CHR 0x5C" "s = d # r" "bracket_scan st q r = Some (st', False)"
  | st1 q1 where "\<not> (q \<and> c = CHR 0x5C)" "bracket_act st q c = Some (st1, q1)" "bracket_scan st1 q1 s = Some (st', False)"
proof (cases "q \<and> c = CHR 0x5C")
  case True
  show thesis
  proof (cases s)
    case Nil
    with True assms show thesis by (simp add: bracket_act_def)
  next
    case (Cons d r)
    with True assms that(1) show thesis by simp
  qed
next
  case False
  with assms that(2) show thesis by (cases "bracket_act st q c") (auto split: prod.splits)
qed

lemma bracket_scan_append:
  "bracket_scan st q s = Some (st', False) \<Longrightarrow> bracket_scan st q (s @ t) = bracket_scan st' False t"
proof (induction st q s rule: bracket_scan.induct)
  case (2 st q c s)
  from "2.prems" show ?case
  proof (cases rule: bracket_scan_cases)
    case (1 d r)
    then show ?thesis using "2.IH"(1) [of d r] by simp
  next
    case (2 st1 q1)
    then have n: "\<not> (q \<and> c = CHR 0x5C \<and> s \<noteq> [])" by blast
    from "2.IH"(2) [OF n 2(2) refl 2(3)] show ?thesis by (simp only: append_Cons bracket_scan_act [OF 2(1,2)])
  qed
qed simp

lemma bracket_scan_openers: "bracket_scan st q s = Some (st', False) \<Longrightarrow> openers st \<Longrightarrow> openers st'"
proof (induction st q s rule: bracket_scan.induct)
  case (2 st q c s)
  from "2.prems"(1) show ?case
  proof (cases rule: bracket_scan_cases)
    case (1 d r)
    then show ?thesis using "2.IH"(1) [of d r] "2.prems"(2) by simp
  next
    case (2 st1 q1)
    then have n: "\<not> (q \<and> c = CHR 0x5C \<and> s \<noteq> [])" by blast
    show ?thesis by (rule "2.IH"(2) [OF n 2(2) refl 2(3) bracket_act_openers [OF 2(2) "2.prems"(2)]])
  qed
qed simp

lemma bracket_walk_scan:
  "bracket_scan st q s = Some (st', False) \<Longrightarrow>
   bracket_walk st q acc (s @ t) = bracket_walk st' False (rev s @ acc) t"
proof (induction st q s arbitrary: acc rule: bracket_scan.induct)
  case (2 st q c s)
  from "2.prems" show ?case
  proof (cases rule: bracket_scan_cases)
    case (1 d r)
    then show ?thesis using "2.IH"(1) [of d r] by simp
  next
    case (2 st1 q1)
    then have n: "\<not> (q \<and> c = CHR 0x5C \<and> s \<noteq> [])" "\<not> (q \<and> c = CHR 0x5C \<and> s @ t \<noteq> [])" by blast+
    have "bracket_walk st q acc (c # s @ t) = bracket_walk st1 q1 (c # acc) (s @ t)"
      by (rule bracket_walk_act [OF n(2) 2(2)])
    with "2.IH"(2) [OF n(1) 2(2) refl 2(3)] show ?thesis by simp
  qed
qed simp

lemma closer_opens: "c = CHR 0x7B \<or> c = CHR 0x5B \<Longrightarrow> opener_for (closer_for c) = c"
  by (auto simp: opener_for_def closer_for_def)

lemma scan_closed:
  assumes "bracket_scan [] False s = Some (c # st, False)"
  shows "bracket_scan [] False (s @ [closer_for c]) = Some (st, False)"
proof -
  have "openers (c # st)" using bracket_scan_openers [OF assms] by (simp add: openers_def)
  then have "opener_for (closer_for c) = c" by (auto simp: openers_def intro: closer_opens)
  then have "bracket_act (c # st) False (closer_for c) = Some (st, False)"
    by (auto simp: bracket_act_def closer_for_def split: if_splits)
  then show ?thesis using bracket_scan_append [OF assms, of "[closer_for c]"] by simp
qed

lemma repair_one_scanned:
  assumes "bracket_scan [] False s = Some (st, False)" "s = [] \<or> last s \<noteq> CHR '',''"
  shows "repair_one_missing_bracket s = Some (s @ (case st of [] \<Rightarrow> [] | c # _ \<Rightarrow> [closer_for c]))"
proof -
  have "eat_comma (rev s) = rev s"
    using assms(2) by (cases s rule: rev_cases) (auto simp: eat_comma_def)
  then show ?thesis
    using bracket_walk_scan [OF assms(1), of "[]" "[]"]
    by (cases st) (auto simp: repair_one_missing_bracket_def)
qed

lemma bracket_loop_closes:
  assumes "bracket_scan [] False s = Some (st, False)" "s \<noteq> []" "last s \<noteq> CHR '',''" "length st \<le> n" "st \<noteq> []"
    and "\<And>k. 0 < k \<Longrightarrow> k < length st \<Longrightarrow> \<not> valid (s @ map closer_for (take k st))"
  shows "fst (bracket_loop valid n s r) = Some (s @ map closer_for st) \<and>
         length (snd (bracket_loop valid n s r)) = length st"
  using assms
proof (induction n arbitrary: s st r)
  case 0
  then show ?case by simp
next
  case (Suc n)
  obtain c st' where st: "st = c # st'" using Suc.prems(5) by (cases st) auto
  let ?s = "s @ [closer_for c]"
  have one: "repair_one_missing_bracket s = Some ?s"
    using repair_one_scanned [OF Suc.prems(1)] Suc.prems(3) st by simp
  have scan: "bracket_scan [] False ?s = Some (st', False)" using scan_closed Suc.prems(1) st by simp
  have last: "last ?s \<noteq> CHR '',''" by (simp add: closer_for_def)
  show ?case
  proof (cases st')
    case Nil
    have "repair_one_missing_bracket ?s = Some ?s" using repair_one_scanned [OF scan] last Nil by simp
    with one show ?thesis by (cases n) (auto simp: st Nil)
  next
    case (Cons d st2)
    have "\<not> valid ?s" using Suc.prems(6) [of 1] by (simp add: st Cons)
    moreover have "fst (bracket_loop valid n ?s (Some ?s)) = Some (?s @ map closer_for st') \<and>
        length (snd (bracket_loop valid n ?s (Some ?s))) = length st'"
    proof (rule Suc.IH [OF scan _ last])
      show "\<not> valid (?s @ map closer_for (take k st'))" if "0 < k" "k < length st'" for k
        using Suc.prems(6) [of "Suc k"] that by (simp add: st)
    qed (use Suc.prems(4) st Cons in auto)
    ultimately show ?thesis using one by (auto simp: st split: prod.splits)
  qed
qed

section \<open>Content and events\<close>

text \<open>The ASCII bytes of a text that are neither structure nor white space.\<close>

definition content :: "string \<Rightarrow> string" where
  "content s = filter (\<lambda>c. \<not> structural c \<and> \<not> ascii_space c \<and> (of_char c :: nat) < 128) s"

lemma space_char_content: "space_len w = length w \<Longrightarrow> content w = []"
  by (cases w rule: space_len.cases) (auto simp: content_def wide_space_def split: if_splits)

lemma edits_content: "edits s t \<Longrightarrow> content t = content s"
proof (induction rule: rtranclp_induct)
  case (step t u)
  have "content u = content t"
    using step.hyps(2) by cases (simp_all add: content_def, metis content_def space_char_content)
  with step.IH show ?case by simp
qed simp

lemma content_prefix: "prefix p s \<Longrightarrow> prefix (content p) (content s)"
  by (auto simp: prefix_def content_def)

text \<open>Each event starts from the length the one before it ended with.\<close>

fun chained :: "nat \<Rightarrow> repair_trace list \<Rightarrow> nat \<Rightarrow> bool" where
  "chained a [] b \<longleftrightarrow> a = b"
| "chained a (e # es) b \<longleftrightarrow> rt_before e = a \<and> chained (rt_after e) es b"

lemma chained_append: "chained a (es @ fs) c \<longleftrightarrow> (\<exists>b. chained a es b \<and> chained b fs c)"
  by (induction a es c rule: chained.induct) auto

lemma apply_pass_chained:
  assumes "chained a (snd se) (length (fst se))"
  shows "chained a (snd (apply_pass k f se)) (length (fst (apply_pass k f se)))"
    and "length (snd (apply_pass k f se)) \<le> Suc (length (snd se))"
  using assms by (cases se; auto simp: apply_pass_def chained_append trace_of_def split: option.split)+

lemma bracket_loop_chained:
  assumes "fst (bracket_loop valid n current r) = Some out" "r = None \<or> r = Some current"
  shows "chained (length current) (snd (bracket_loop valid n current r)) (length out) \<and>
         length (snd (bracket_loop valid n current r)) \<le> n"
  using assms
proof (induction n arbitrary: current r)
  case 0
  then show ?case by (auto split: option.splits)
next
  case (Suc n)
  show ?case
  proof (cases "repair_one_missing_bracket current")
    case None
    with Suc.prems show ?thesis by simp
  next
    case (Some rep)
    with Suc.prems Suc.IH [of rep "Some rep"] show ?thesis
      by (auto simp: trace_of_def split: if_splits option.splits prod.splits)
  qed
qed

section \<open>Properties\<close>

text \<open>C32: The repair chain invents no content. Whatever the model wrote, a text the chain returns
  comes from an initial part of it by inserting and deleting braces, brackets, commas and
  colons and deleting white space; so the ASCII content of the result is an initial part
  of the content of the input, in the same order.\<close>

theorem repairs_keep_content:
  assumes "repair_m3_brackets_with_trace valid s = (Some out, ev)"
  shows "(\<exists>p. prefix p s \<and> edits p out) \<and> prefix (content out) (content s)"
proof -
  from chain_edits [of valid s out] assms obtain p where p: "prefix p s" "edits p out"
    by (auto simp: cut_edits_def)
  moreover have "prefix (content out) (content s)"
    using content_prefix [OF p(1)] edits_content [OF p(2)] by simp
  ultimately show ?thesis by blast
qed

text \<open>A truncated text is closed. If a text stops outside a string with up to three containers
  open, every closer so far matching its opener, and does not end in a comma, and no
  shorter completion parses, the iterative repair appends exactly the missing closers,
  innermost first, with one event for each.\<close>

lemma truncated_text_closed:
  assumes "bracket_scan [] False s = Some (st, False)" "s \<noteq> []" "last s \<noteq> CHR '',''"
    and "st \<noteq> []" "length st \<le> 3"
    and "\<And>k. 0 < k \<Longrightarrow> k < length st \<Longrightarrow> \<not> valid (s @ map closer_for (take k st))"
  shows "\<exists>ev. repair_brackets_iterative valid s default_bracket_repair_max_iters = (Some (s @ map closer_for st), ev) \<and>
              length ev = length st"
proof -
  have "length st \<le> default_bracket_repair_max_iters" using assms(5) by (simp add: default_bracket_repair_max_iters_def)
  from bracket_loop_closes [where valid = valid and r = None, OF assms(1-3) this assms(4,6)] show ?thesis
    by (cases "bracket_loop valid default_bracket_repair_max_iters s None") (simp add: repair_brackets_iterative_def)
qed

text \<open>C35: A mismatched closer cuts the text off. When a closer of the wrong kind meets two open
  containers of which it would close the outer one, the repair closes the inner one, keeps
  the closer and drops everything the model wrote after it; if the shortened text parses, it
  is the result, whatever was dropped.\<close>

theorem mismatched_closer_drops_rest:
  assumes "bracket_scan [] False s = Some (inner # outer # st, False)"
    and "c = closer_for outer" "inner \<noteq> outer" and "valid (s @ [closer_for inner, c])"
  shows "fst (repair_brackets_iterative valid (s @ c # rest) default_bracket_repair_max_iters)
    = Some (s @ [closer_for inner, c])"
proof -
  have "openers (inner # outer # st)" using bracket_scan_openers [OF assms(1)] by (simp add: openers_def)
  then have o: "inner = CHR 0x7B \<or> inner = CHR 0x5B" "outer = CHR 0x7B \<or> outer = CHR 0x5B"
    by (simp_all add: openers_def)
  have "bracket_walk (inner # outer # st) False (rev s) (c # rest) = Some (s @ [closer_for inner, c])"
    using o assms(2,3) by (elim disjE) (auto simp: closer_for_def opener_for_def)
  then have one: "repair_one_missing_bracket (s @ c # rest) = Some (s @ [closer_for inner, c])"
    using bracket_walk_scan [OF assms(1), of "[]" "c # rest"] by (simp add: repair_one_missing_bracket_def)
  have "s @ [closer_for inner, c] \<noteq> s @ c # rest" using o assms(2,3) by (auto simp: closer_for_def)
  with one assms(4) show ?thesis
    by (simp add: repair_brackets_iterative_def default_bracket_repair_max_iters_def numeral_3_eq_3)
qed

text \<open>The repair events account for the whole rewriting: the first starts from the length of the
  input, each next one from the length the one before it ended with, the last ends with the
  length of the result, and there are at most seven.\<close>

lemma repair_events_chain:
  assumes "repair_m3_brackets_with_trace valid s = (Some out, ev)"
  shows "chained (length s) ev (length out) \<and> length ev \<le> 7"
proof -
  let ?s0 = "(s, [] :: repair_trace list)"
  let ?s1 = "apply_pass Kind_OpenBrace repair_missing_open_brace ?s0"
  let ?s2 = "apply_pass Kind_Separator repair_stray_comma_after_key ?s1"
  let ?s3 = "apply_pass Kind_Colon repair_missing_colon ?s2"
  let ?s4 = "apply_pass Kind_Separator repair_missing_separators ?s3"
  have "chained (length s) (snd ?s4) (length (fst ?s4)) \<and> length (snd ?s4) \<le> 4"
    using apply_pass_chained [of "length s" ?s0 Kind_OpenBrace repair_missing_open_brace]
      apply_pass_chained [of "length s" ?s1 Kind_Separator repair_stray_comma_after_key]
      apply_pass_chained [of "length s" ?s2 Kind_Colon repair_missing_colon]
      apply_pass_chained [of "length s" ?s3 Kind_Separator repair_missing_separators]
    by simp
  moreover obtain evb where b: "repair_brackets_iterative valid (fst ?s4) default_bracket_repair_max_iters = (Some out, evb)"
      "ev = snd ?s4 @ evb"
    using assms by (cases ?s4) (auto simp: repair_m3_brackets_with_trace_def split: if_splits prod.splits)
  ultimately show ?thesis
    using bracket_loop_chained [of valid default_bracket_repair_max_iters "fst ?s4" None out]
    by (auto simp: repair_brackets_iterative_def chained_append default_bracket_repair_max_iters_def)
qed

section \<open>Witnesses\<close>

text \<open>A verdict that accepts two texts.\<close>

definition demo_valid :: "string \<Rightarrow> bool" where
  "demo_valid s \<longleftrightarrow> s \<in> {''{[1,2]}'', ''{[1]}''}"

lemma demo_repair:
  "repair_m3_brackets_with_trace demo_valid ''{[1,2'' = (Some ''{[1,2]}'',
     [trace_of Kind_Bracket ''{[1,2'' ''{[1,2]'', trace_of Kind_Bracket ''{[1,2]'' ''{[1,2]}''])"
  by code_simp

lemma repairs_keep_content_witness:
  "prefix (content ''{[1,2]}'') (content ''{[1,2'')"
  using repairs_keep_content [OF demo_repair] by blast

lemma mismatched_closer_drops_rest_witness:
  "fst (repair_brackets_iterative demo_valid ''{[1},2:3}'' default_bracket_repair_max_iters) = Some ''{[1]}''"
proof -
  have "bracket_scan [] False ''{[1'' = Some (''[{'', False)" by code_simp
  then show ?thesis
    using mismatched_closer_drops_rest [of "''{[1''" "CHR ''[''" "CHR ''{''" "[]" "CHR ''}''" demo_valid "'',2:3}''"]
    by (simp add: closer_for_def demo_valid_def)
qed

end
