(* ===== verification/Json_Recovery.thy ===== *)
theory Json_Recovery imports Json_Repair Retry_Loop begin

text \<open>
  The recovery of a JSON value from a model's answer: the last-resort repairs of
  \<open>src/phases/json_slips.rs\<close>, the recovery chains of \<open>src/phases/util.rs\<close> and the
  strategy wrapper of \<open>src/llm/json_extractor.rs\<close>. Parameters: \<open>from_str\<close> is the JSON
  library decoding into the requested type, \<open>valid\<close> its verdict on a text as a plain value, \<open>debug\<close> the
  library's quoted rendering of a string in an error message. The events handed to the
  sink are a list.
\<close>

section \<open>Slips: stray closers\<close>

definition continues_after :: "string \<Rightarrow> bool" where
  "continues_after rest = (case dropWhile is_ascii_whitespace rest of [] \<Rightarrow> False | b # _ \<Rightarrow> b \<in> set '',]}'')"

fun drop_walk :: "char list \<Rightarrow> bool \<Rightarrow> bool \<Rightarrow> string \<Rightarrow> string \<times> bool" where
  "drop_walk st in_string escape [] = ([], False)"
| "drop_walk st in_string escape (b # s) =
     (if in_string then
        (case drop_walk st
                (if escape then in_string else if b = CHR 0x5C then in_string else b \<noteq> CHR 0x22)
                (if escape then False else b = CHR 0x5C) s of
           (out, dropped) \<Rightarrow> (b # out, dropped))
      else if b = CHR 0x22 then (case drop_walk st True escape s of (out, dropped) \<Rightarrow> (b # out, dropped))
      else if b = CHR 0x7B \<or> b = CHR 0x5B then
        (case drop_walk (b # st) in_string escape s of (out, dropped) \<Rightarrow> (b # out, dropped))
      else if b = CHR 0x7D \<or> b = CHR 0x5D then
        (if st \<noteq> [] \<and> hd st = opener_for b \<and> \<not> (length st = 1 \<and> continues_after s)
         then (case drop_walk (tl st) in_string escape s of (out, dropped) \<Rightarrow> (b # out, dropped))
         else (case drop_walk st in_string escape s of (out, dropped) \<Rightarrow> (out, True)))
      else (case drop_walk st in_string escape s of (out, dropped) \<Rightarrow> (b # out, dropped)))"

definition drop_stray_closers :: "string \<Rightarrow> string option" where
  "drop_stray_closers s = (case drop_walk [] False False s of (out, dropped) \<Rightarrow> if dropped then Some out else None)"

section \<open>Slips: strings without an opening quote\<close>

text \<open>The length of the run of literal-like bytes at the start of the text.\<close>

definition literal_len :: "string \<Rightarrow> nat" where
  "literal_len s = length (takeWhile (\<lambda>b. is_ascii_alphanumeric b \<or> b \<in> set ''+-.'') s)"

text \<open>The texts that \<open>str::parse::<f64>()\<close> accepts.\<close>

definition is_exponent :: "string \<Rightarrow> bool" where
  "is_exponent s =
     (case s of [] \<Rightarrow> True
      | e # r \<Rightarrow> e \<in> set ''eE'' \<and>
          (let d = (case r of c # t \<Rightarrow> if c \<in> set ''+-'' then t else r | [] \<Rightarrow> [])
           in d \<noteq> [] \<and> list_all is_ascii_digit d))"

definition is_f64_number :: "string \<Rightarrow> bool" where
  "is_f64_number s =
     (let whole = takeWhile is_ascii_digit s; r = dropWhile is_ascii_digit s
      in case r of
           c # t \<Rightarrow>
             (if c = CHR ''.'' then (whole \<noteq> [] \<or> takeWhile is_ascii_digit t \<noteq> []) \<and> is_exponent (dropWhile is_ascii_digit t)
              else whole \<noteq> [] \<and> is_exponent r)
         | [] \<Rightarrow> whole \<noteq> [])"

definition parses_as_f64 :: "string \<Rightarrow> bool" where
  "parses_as_f64 s =
     (let u = (case s of c # t \<Rightarrow> if c \<in> set ''+-'' then t else s | [] \<Rightarrow> [])
      in to_ascii_lowercase u \<in> {''inf'', ''infinity'', ''nan''} \<or> is_f64_number u)"

definition is_literal :: "string \<Rightarrow> bool" where
  "is_literal token \<longleftrightarrow>
     token \<in> {''true'', ''false'', ''null''} \<or>
     ((case token of c # _ \<Rightarrow> is_ascii_digit c \<or> c = CHR ''-'' | [] \<Rightarrow> False) \<and> parses_as_f64 token)"

definition ends_value :: "string \<Rightarrow> bool" where
  "ends_value s = (case dropWhile is_ascii_whitespace s of [] \<Rightarrow> True | b # _ \<Rightarrow> b \<in> set '',]}'')"

text \<open>The offset of the first quote of the line, when the value it closes ends there.\<close>

definition closing_quote :: "string \<Rightarrow> nat option" where
  "closing_quote s =
     (let line = takeWhile (\<lambda>b. b \<noteq> CHR 0x0A) s; n = length (takeWhile (\<lambda>b. b \<noteq> CHR 0x22) line)
      in if n < length line \<and> ends_value (drop (n + 1) s) then Some n else None)"

function quote_walk :: "char list \<Rightarrow> bool \<Rightarrow> bool \<Rightarrow> bool \<Rightarrow> string \<Rightarrow> string \<times> bool" where
  "quote_walk st in_string escape expect_value [] = ([], False)"
| "quote_walk st in_string escape expect_value (b # s) =
     (if in_string then
        (case quote_walk st
                (if escape then in_string else if b = CHR 0x5C then in_string else b \<noteq> CHR 0x22)
                (if escape then False else b = CHR 0x5C) expect_value s of
           (out, changed) \<Rightarrow> (b # out, changed))
      else if is_ascii_whitespace b then
        (case quote_walk st in_string escape expect_value s of (out, changed) \<Rightarrow> (b # out, changed))
      else if expect_value \<and> b \<notin> {CHR 0x22, CHR 0x7B, CHR 0x5B, CHR 0x7D, CHR 0x5D} then
        (let n = literal_len (b # s); m = max n 1
         in case (if \<not> is_literal (take n (b # s)) \<or> \<not> ends_value (drop n (b # s))
                  then closing_quote (b # s) else None) of
              Some q \<Rightarrow>
                (case quote_walk st in_string escape False (drop (q + 1) (b # s)) of
                   (out, changed) \<Rightarrow> (CHR 0x22 # take (q + 1) (b # s) @ out, True))
            | None \<Rightarrow>
                (case quote_walk st in_string escape False (drop m (b # s)) of
                   (out, changed) \<Rightarrow> (take m (b # s) @ out, changed)))
      else
        (let st' = (if b = CHR 0x7B \<or> b = CHR 0x5B then b # st
                    else if b = CHR 0x7D \<or> b = CHR 0x5D then tl st else st);
             expect' = (b = CHR 0x5B \<or> (b = CHR '':'' \<and> st \<noteq> [] \<and> hd st = CHR 0x7B)
                        \<or> (b = CHR '','' \<and> st \<noteq> [] \<and> hd st = CHR 0x5B))
         in case quote_walk st' (b = CHR 0x22) escape expect' s of (out, changed) \<Rightarrow> (b # out, changed)))"
  by pat_completeness auto
termination by (relation "measure (\<lambda>(st, q, e, x, s). length s)") auto

definition quote_bare_strings :: "string \<Rightarrow> string option" where
  "quote_bare_strings s =
     (case quote_walk [] False False False s of (out, changed) \<Rightarrow> if changed then Some out else None)"

definition repair_slips :: "string \<Rightarrow> string option \<times> repair_trace list" where
  "repair_slips s =
     (let d = drop_stray_closers s;
          base = (case d of None \<Rightarrow> s | Some p \<Rightarrow> p);
          ev = (case d of None \<Rightarrow> [] | Some p \<Rightarrow> [trace_of Kind_Bracket s p])
      in case quote_bare_strings base of
           None \<Rightarrow> (d, ev)
         | Some p \<Rightarrow> (Some p, ev @ [trace_of Kind_Quote base p]))"

section \<open>The recovery chain\<close>

definition strip_code_fence :: "string \<Rightarrow> string" where
  "strip_code_fence raw =
     (let s = trim raw;
          fenced = (\<lambda>p. case strip_prefix_str p s of
                          None \<Rightarrow> None
                        | Some rest \<Rightarrow> map_option (\<lambda>e. trim (take e rest)) (rfind_str ''```'' rest))
      in case fenced ''```json'' of
           Some t \<Rightarrow> t
         | None \<Rightarrow> (case fenced ''```'' of Some t \<Rightarrow> t | None \<Rightarrow> s))"

definition not_json_error :: "(string \<Rightarrow> string) \<Rightarrow> string \<Rightarrow> string \<Rightarrow> string \<Rightarrow> error" where
  "not_json_error debug what e t =
     Err_SchemaViolation (what @ e @ ''; len='' @ show_nat (length t) @ '' bytes; tail='' @ debug (safe_tail t 500)
        @ ''; full raw follows:'' @ [CHR 0x0A] @ t)"

definition fragment_error :: "string \<Rightarrow> error" where
  "fragment_error cleaned =
     Err_SchemaViolation
       (''model output is a fragment, not a JSON object: it has no `{` and no matching `}`; len=''
        @ show_nat (length cleaned) @ '' bytes; full raw follows:'' @ [CHR 0x0A] @ cleaned)"

text \<open>The first argument of the result: the decoded value, if any; the second: the events.\<close>

definition parse_tolerant_candidate ::
  "(string \<Rightarrow> string + 'v) \<Rightarrow> (string \<Rightarrow> bool) \<Rightarrow> string \<Rightarrow> 'v option \<times> repair_trace list"
where
  "parse_tolerant_candidate from_str valid candidate =
     (case from_str candidate of
        Inr v \<Rightarrow> (Some v, [])
      | Inl _ \<Rightarrow>
          (case repair_m3_brackets_with_trace valid candidate of
             (None, _) \<Rightarrow> (None, [])
           | (Some repaired, repairs) \<Rightarrow>
               (case from_str repaired of Inr v \<Rightarrow> (Some v, repairs) | Inl _ \<Rightarrow> (None, repairs))))"

text \<open>The candidate of the tolerant extraction and whether the text goes on after it.\<close>

definition tolerant_candidate :: "string \<Rightarrow> (string \<times> bool) option" where
  "tolerant_candidate braced =
     (case extract_tolerant_json braced of
        Inl _ \<Rightarrow> None
      | Inr (s, e) \<Rightarrow> Some (slice braced s e, continues_after (drop e braced)))"

text \<open>The last resorts: the slip repair, then a candidate that was cut short.\<close>

definition last_resorts ::
  "(string \<Rightarrow> string + 'v) \<Rightarrow> (string \<Rightarrow> bool) \<Rightarrow> string \<Rightarrow> error \<Rightarrow> 'v result \<times> repair_trace list"
where
  "last_resorts from_str valid braced err =
     (case (case repair_slips braced of
              (Some slipped, slips) \<Rightarrow> (case from_str slipped of Inr v \<Rightarrow> Some (v, slips) | Inl _ \<Rightarrow> None)
            | (None, _) \<Rightarrow> None) of
        Some (v, slips) \<Rightarrow> (Inr v, slips)
      | None \<Rightarrow>
          (case tolerant_candidate braced of
             Some (candidate, True) \<Rightarrow>
               (case parse_tolerant_candidate from_str valid candidate of
                  (Some v, ev) \<Rightarrow> (Inr v, ev) | (None, ev) \<Rightarrow> (Inl err, ev))
           | _ \<Rightarrow> (Inl err, [])))"

text \<open>From the braced text on: the candidate, the repair of the whole text, the last resorts.\<close>

definition recover_braced ::
  "(string \<Rightarrow> string + 'v) \<Rightarrow> (string \<Rightarrow> bool) \<Rightarrow> (string \<Rightarrow> string) \<Rightarrow> string \<Rightarrow> string
     \<Rightarrow> 'v result \<times> repair_trace list"
where
  "recover_braced from_str valid debug braced braced_err =
     (case (case tolerant_candidate braced of
              Some (candidate, False) \<Rightarrow> parse_tolerant_candidate from_str valid candidate
            | _ \<Rightarrow> (None, [])) of
        (Some v, ev) \<Rightarrow> (Inr v, ev)
      | (None, ev) \<Rightarrow>
          (case repair_m3_brackets_with_trace valid braced of
             (None, _) \<Rightarrow>
               (case last_resorts from_str valid braced
                       (not_json_error debug ''model output is not valid JSON: '' braced_err braced) of
                  (r, ev') \<Rightarrow> (r, ev @ ev'))
           | (Some repaired, repairs) \<Rightarrow>
               (case from_str repaired of
                  Inr v \<Rightarrow> (Inr v, ev @ repairs)
                | Inl e \<Rightarrow>
                    (case last_resorts from_str valid braced
                            (not_json_error debug ''model output is not valid JSON after repair: '' e repaired) of
                       (r, ev') \<Rightarrow> (r, ev @ repairs @ ev')))))"

definition parse_model_json_traced ::
  "(string \<Rightarrow> string + 'v) \<Rightarrow> (string \<Rightarrow> bool) \<Rightarrow> (string \<Rightarrow> string) \<Rightarrow> string
     \<Rightarrow> 'v result \<times> repair_trace list"
where
  "parse_model_json_traced from_str valid debug raw =
     (let trimmed = strip_code_fence raw; cleaned = strip_response_text trimmed in
      case from_str trimmed of
        Inr v \<Rightarrow> (Inr v, [])
      | Inl _ \<Rightarrow>
          (case (if cleaned \<noteq> trimmed then from_str cleaned else Inl []) of
             Inr v \<Rightarrow> (Inr v, [])
           | Inl _ \<Rightarrow>
               (case repair_missing_open_brace cleaned of
                  Some patched \<Rightarrow>
                    (if \<not> closes_object patched (inserted_at cleaned patched) then (Inl (fragment_error cleaned), [])
                     else case from_str patched of
                            Inr v \<Rightarrow> (Inr v, [trace_of Kind_OpenBrace cleaned patched])
                          | Inl e \<Rightarrow>
                              (case recover_braced from_str valid debug patched e of
                                 (r, ev) \<Rightarrow> (r, trace_of Kind_OpenBrace cleaned patched # ev)))
                | None \<Rightarrow>
                    (case from_str cleaned of
                       Inr v \<Rightarrow> (Inr v, [])
                     | Inl e \<Rightarrow> recover_braced from_str valid debug cleaned e))))"

definition parse_model_json ::
  "(string \<Rightarrow> string + 'v) \<Rightarrow> (string \<Rightarrow> bool) \<Rightarrow> (string \<Rightarrow> string) \<Rightarrow> string \<Rightarrow> 'v result"
where
  "parse_model_json from_str valid debug raw =
     (let trimmed = strip_code_fence raw in
      case from_str trimmed of
        Inr v \<Rightarrow> Inr v
      | Inl e \<Rightarrow>
          (case (case repair_m3_brackets valid trimmed of
                   None \<Rightarrow> None
                 | Some repaired \<Rightarrow> (case from_str repaired of Inr v \<Rightarrow> Some v | Inl _ \<Rightarrow> None)) of
             Some v \<Rightarrow> Inr v
           | None \<Rightarrow> Inl (not_json_error debug ''model output is not valid JSON: '' e trimmed)))"

datatype parse_error = AllStrategiesFailed

text \<open>The first \<open>Inr\<close> of a list of attempts, each tried only if those before it failed.\<close>

definition parse_json_with_recovery ::
  "(string \<Rightarrow> string + 'j) \<Rightarrow> (string \<Rightarrow> bool) \<Rightarrow> string \<Rightarrow> parse_error + 'j"
where
  "parse_json_with_recovery from_str valid input =
     (let repaired = (\<lambda>t. case repair_m3_brackets valid t of None \<Rightarrow> Inl [] | Some r \<Rightarrow> from_str r) in
      case from_str input of
        Inr v \<Rightarrow> Inr v
      | Inl _ \<Rightarrow>
          (case (case extract_tolerant_json input of
                   Inl _ \<Rightarrow> Inl []
                 | Inr (s, e) \<Rightarrow>
                     (case from_str (slice input s e) of
                        Inr v \<Rightarrow> Inr v
                      | Inl _ \<Rightarrow> repaired (slice input s e))) of
             Inr v \<Rightarrow> Inr v
           | Inl _ \<Rightarrow> (case repaired input of Inr v \<Rightarrow> Inr v | Inl _ \<Rightarrow> Inl AllStrategiesFailed)))"

section \<open>The strategies\<close>

datatype strategy_error = Strict_Failed string | Lenient_Failed string

primrec strategy_error_message :: "strategy_error \<Rightarrow> string" where
  "strategy_error_message (Strict_Failed s) = s"
| "strategy_error_message (Lenient_Failed s) = s"

definition parse_strict :: "(string \<Rightarrow> string + 'v) \<Rightarrow> string \<Rightarrow> strategy_error + 'v" where
  "parse_strict from_str raw = map_err Strict_Failed (from_str raw)"

text \<open>\<open>render\<close> is the display text of an error.\<close>

definition parse_lenient ::
  "(string \<Rightarrow> string + 'v) \<Rightarrow> (string \<Rightarrow> bool) \<Rightarrow> (string \<Rightarrow> string) \<Rightarrow> (error \<Rightarrow> string)
     \<Rightarrow> string \<Rightarrow> strategy_error + 'v"
where
  "parse_lenient from_str valid debug render raw =
     map_err (\<lambda>e. Lenient_Failed (render e)) (fst (parse_model_json_traced from_str valid debug raw))"

definition parse_with_strategy ::
  "(string \<Rightarrow> string + 'v) \<Rightarrow> (string \<Rightarrow> bool) \<Rightarrow> (string \<Rightarrow> string) \<Rightarrow> (error \<Rightarrow> string)
     \<Rightarrow> json_strategy \<Rightarrow> string \<Rightarrow> strategy_error + 'v"
where
  "parse_with_strategy from_str valid debug render strategy raw =
     (if strategy = Strict then parse_strict from_str raw
      else parse_lenient from_str valid debug render raw)"

section \<open>Slips only edit structure\<close>

lemma drop_walk_string:
  "fst (drop_walk st True e (b # s)) =
     b # fst (drop_walk st (if e then True else if b = CHR 0x5C then True else b \<noteq> CHR 0x22)
                (if e then False else b = CHR 0x5C) s)"
  by (simp only: drop_walk.simps if_True split_beta fst_conv)

text \<open>Outside a string the walk keeps a byte and acts on it as the scan does, or drops a closer.\<close>

lemma drop_walk_outside:
  obtains (keep) st' q' where "bracket_act st False b = Some (st', q')"
      "fst (drop_walk st False e (b # s)) = b # fst (drop_walk st' q' e s)"
  | (remove) "structural b" "fst (drop_walk st False e (b # s)) = fst (drop_walk st False e s)"
proof -
  consider "b = CHR 0x22" | "b = CHR 0x7B \<or> b = CHR 0x5B" | "b = CHR 0x7D \<or> b = CHR 0x5D"
    | "b \<notin> {CHR 0x22, CHR 0x7B, CHR 0x5B, CHR 0x7D, CHR 0x5D}" by blast
  then show ?thesis
  proof cases
    case 1
    show ?thesis by (rule keep [of st True]) (simp_all add: 1 bracket_act_def split_beta)
  next
    case 2
    show ?thesis by (rule keep [of "b # st" False]) (use 2 in \<open>auto simp: bracket_act_def split_beta\<close>)
  next
    case 3
    show ?thesis
    proof (cases "st \<noteq> [] \<and> hd st = opener_for b \<and> \<not> (length st = 1 \<and> continues_after s)")
      case True
      then obtain x xs where st: "st = x # xs" "x = opener_for b" by (cases st) auto
      have "bracket_act st False b = Some (xs, False)" using 3 st by (auto simp: bracket_act_def)
      moreover have "fst (drop_walk st False e (b # s)) = b # fst (drop_walk xs False e s)"
        using 3 True st by (elim disjE) (simp_all add: split_beta)
      ultimately show ?thesis by (rule keep)
    next
      case False
      have n: "\<not> b = CHR 0x22" "\<not> (b = CHR 0x7B \<or> b = CHR 0x5B)" using 3 by auto
      have "fst (drop_walk st False e (b # s)) = fst (drop_walk st False e s)"
        by (simp only: drop_walk.simps if_False if_not_P [OF n(1)] if_not_P [OF n(2)] if_P [OF 3]
            if_not_P [OF False] split_beta fst_conv)
      moreover have "structural b" using 3 by (auto simp: structural_def)
      ultimately show ?thesis by (intro remove)
    qed
  next
    case 4
    show ?thesis by (rule keep [of st False]) (use 4 in \<open>simp_all add: bracket_act_def split_beta\<close>)
  qed
qed

lemma drop_walk_edits: "edits s (fst (drop_walk st q e s))"
proof (induction s arbitrary: st q e)
  case (Cons b s)
  show ?case
  proof (cases q)
    case True
    then show ?thesis using Cons.IH by (simp only: drop_walk_string edits_Cons)
  next
    case False
    have "edits (b # s) (fst (drop_walk st False e (b # s)))"
    proof (cases st b e s rule: drop_walk_outside)
      case (keep st' q')
      then show ?thesis using Cons.IH by (simp only: edits_Cons)
    next
      case remove
      have "edits (b # s) s" using edits_delete [OF remove(1), of "[]" s] by simp
      then show ?thesis using Cons.IH [of st False e] unfolding remove(2) by (rule rtranclp_trans)
    qed
    with False show ?thesis by (simp del: drop_walk.simps)
  qed
qed simp

lemma drop_walk_scan:
  "(\<not> e \<longrightarrow> bracket_scan st q (fst (drop_walk st q e s)) \<noteq> None) \<and>
   (q \<and> e \<and> fst (drop_walk st q e s) \<noteq> [] \<longrightarrow> bracket_scan st True (tl (fst (drop_walk st q e s))) \<noteq> None)"
proof (induction s arbitrary: st q e)
  case (Cons b s)
  show ?case
  proof (cases q)
    case True
    let ?q = "if e then True else if b = CHR 0x5C then True else b \<noteq> CHR 0x22"
    let ?e = "if e then False else b = CHR 0x5C"
    obtain out d where o: "drop_walk st ?q ?e s = (out, d)" by (cases "drop_walk st ?q ?e s")
    have ih: "(\<not> ?e \<longrightarrow> bracket_scan st ?q out \<noteq> None) \<and> (?q \<and> ?e \<and> out \<noteq> [] \<longrightarrow> bracket_scan st True (tl out) \<noteq> None)"
      using Cons.IH [of ?e st ?q] by (simp only: o fst_conv)
    have r: "fst (drop_walk st q e (b # s)) = b # out" using True o by simp
    show ?thesis
    proof (cases e)
      case True
      with ih r \<open>q\<close> show ?thesis by (simp del: drop_walk.simps)
    next
      case e: False
      have "bracket_scan st True (b # out) \<noteq> None"
      proof (cases "b = CHR 0x5C")
        case True
        with ih e show ?thesis by (cases out) (simp_all add: bracket_act_def)
      next
        case False
        have act: "bracket_act st True b = Some (st, b \<noteq> CHR 0x22)" by (simp add: bracket_act_def)
        show ?thesis using ih e False bracket_scan_act [OF _ act, of out] by simp
      qed
      then show ?thesis using e r \<open>q\<close> by (simp del: drop_walk.simps bracket_scan.simps)
    qed
  next
    case False
    have ih: "bracket_scan st' q' (fst (drop_walk st' q' False s)) \<noteq> None" for st' q'
      using Cons.IH [of False st' q'] by blast
    have "bracket_scan st False (fst (drop_walk st False False (b # s))) \<noteq> None"
    proof (cases st b False s rule: drop_walk_outside)
      case (keep st' q')
      show ?thesis using ih [of st' q'] by (simp only: keep(2) bracket_scan_act [OF _ keep(1)] simp_thms not_False_eq_True)
    next
      case remove
      then show ?thesis using ih [of st False] by (simp del: drop_walk.simps)
    qed
    with False show ?thesis by (simp del: drop_walk.simps)
  qed
qed simp

lemma drop_stray_edits: "drop_stray_closers s = Some out \<Longrightarrow> edits s out"
  using drop_walk_edits [of s "[]" False False] by (auto simp: drop_stray_closers_def split: prod.splits if_splits)

text \<open>The content of a text without its quotes.\<close>

definition bare :: "string \<Rightarrow> string" where
  "bare s = filter (\<lambda>c. c \<noteq> CHR 0x22) (content s)"

lemma bare_append [simp]: "bare (s @ t) = bare s @ bare t"
  by (simp add: bare_def content_def)

lemma bare_Cons: "bare (c # s) = bare [c] @ bare s"
  using bare_append [of "[c]" s] by simp

lemma bare_quote [simp]: "bare (CHR 0x22 # s) = bare s"
  by (simp add: bare_def content_def)

lemma edits_bare: "edits s t \<Longrightarrow> bare t = bare s"
  by (simp add: bare_def edits_content)

lemma quote_walk_bare: "bare (fst (quote_walk st q e x s)) = bare s"
proof (induction st q e x s rule: quote_walk.induct)
  case (2 st q e x b s)
  have cons: "bare (b # t) = bare (b # s)" if "bare t = bare s" for t
    using that by (metis bare_Cons)
  have app: "bare (take k u @ t) = bare u" if "bare t = bare (drop k u)" for k u t
    using that by (metis append_take_drop_id bare_append)
  show ?case
  proof (cases q)
    case True
    show ?thesis
      using cons [OF "2.IH"(1) [OF True]] by (simp only: quote_walk.simps if_P [OF True] split_beta fst_conv)
  next
    case q: False
    show ?thesis
    proof (cases "is_ascii_whitespace b")
      case True
      show ?thesis using cons [OF "2.IH"(2) [OF q True]]
        by (simp only: quote_walk.simps if_not_P [OF q] if_P [OF True] split_beta fst_conv)
    next
      case sp: False
      show ?thesis
      proof (cases "x \<and> b \<notin> {CHR 0x22, CHR 0x7B, CHR 0x5B, CHR 0x7D, CHR 0x5D}")
        case False
        note ih = "2.IH"(5) [OF q sp False refl refl]
        from cons [OF ih] show ?thesis
          by (simp only: quote_walk.simps if_not_P [OF q] if_not_P [OF sp] if_not_P [OF False] Let_def split_beta fst_conv)
      next
        case True
        show ?thesis
          using app [OF "2.IH"(3) [OF q sp True refl refl]] app [OF "2.IH"(4) [OF q sp True refl refl]]
          by (simp only: quote_walk.simps if_not_P [OF q] if_not_P [OF sp] if_P [OF True] Let_def split_beta fst_conv bare_quote split: option.split) auto
      qed
    qed
  qed
qed simp

lemma repair_slips_bare: "repair_slips s = (Some t, ev) \<Longrightarrow> bare t = bare s"
proof -
  assume "repair_slips s = (Some t, ev)"
  moreover have "bare p = bare u" if "quote_bare_strings u = Some p" for u p
    using quote_walk_bare [of "[]" False False False u] that
    by (auto simp: quote_bare_strings_def split: prod.splits if_splits)
  ultimately show ?thesis
    using edits_bare [OF drop_stray_edits]
    by (auto simp: repair_slips_def Let_def split: option.splits)
qed

section \<open>What the recovery returns\<close>

text \<open>A value the decoder found in a text that keeps part of the content of \<open>s\<close>.\<close>

definition recovered :: "(string \<Rightarrow> string + 'v) \<Rightarrow> string \<Rightarrow> 'v \<Rightarrow> bool" where
  "recovered from_str s v \<longleftrightarrow> (\<exists>t. from_str t = Inr v \<and> sublist (bare t) (bare s))"

lemma bare_sublist: "sublist t s \<Longrightarrow> sublist (bare t) (bare s)"
  unfolding sublist_def using bare_append by metis

lemma bare_slice: "sublist (bare (slice s a b)) (bare s)"
  by (intro bare_sublist) (metis slice_def sublist_drop sublist_order.order.trans sublist_take)

lemma bare_m3: "repair_m3_brackets_with_trace valid s = (Some out, ev) \<Longrightarrow> sublist (bare out) (bare s)"
  using chain_edits [of valid s out] content_prefix edits_content
  by (fastforce simp: bare_def cut_edits_def intro: prefix_imp_sublist filter_mono_prefix)

lemma recovered_self: "from_str s = Inr v \<Longrightarrow> recovered from_str s v"
  by (auto simp: recovered_def)

lemma recovered_via: "recovered from_str u v \<Longrightarrow> sublist (bare u) (bare s) \<Longrightarrow> recovered from_str s v"
  by (auto simp: recovered_def intro: sublist_order.order.trans)

lemma recovered_m3:
  "repair_m3_brackets_with_trace valid s = (Some out, ev) \<Longrightarrow> from_str out = Inr v \<Longrightarrow> recovered from_str s v"
  by (blast intro: recovered_via recovered_self bare_m3)

lemma recovered_slips: "repair_slips s = (Some out, ev) \<Longrightarrow> from_str out = Inr v \<Longrightarrow> recovered from_str s v"
  using repair_slips_bare [of s out ev] recovered_self [of from_str out v] by (auto simp: recovered_def)

lemma recovered_candidate:
  assumes "tolerant_candidate s = Some (c, rest)" "parse_tolerant_candidate from_str valid c = (Some v, ev)"
  shows "recovered from_str s v"
proof -
  have "recovered from_str c v"
    using assms(2) by (auto simp: parse_tolerant_candidate_def split: sum.splits prod.splits option.splits
        intro: recovered_self recovered_m3)
  moreover have "sublist (bare c) (bare s)"
    using assms(1) by (auto simp: tolerant_candidate_def bare_slice split: sum.splits)
  ultimately show ?thesis by (rule recovered_via)
qed

definition is_schema_violation :: "error \<Rightarrow> bool" where
  "is_schema_violation e \<longleftrightarrow> (\<exists>m. e = Err_SchemaViolation m)"

lemma schema_errors [simp]:
  "is_schema_violation (not_json_error debug what e t)" "is_schema_violation (fragment_error t)"
  by (simp_all add: is_schema_violation_def not_json_error_def fragment_error_def)

definition sound_result :: "(string \<Rightarrow> string + 'v) \<Rightarrow> string \<Rightarrow> 'v result \<Rightarrow> bool" where
  "sound_result from_str s r = (case r of Inr v \<Rightarrow> recovered from_str s v | Inl e \<Rightarrow> is_schema_violation e)"

lemma last_resorts_sound:
  "is_schema_violation err \<Longrightarrow> sound_result from_str s (fst (last_resorts from_str valid s err))"
  by (auto simp: last_resorts_def sound_result_def split: prod.splits option.splits sum.splits bool.splits
      intro: recovered_slips recovered_candidate)

lemma recover_braced_sound: "sound_result from_str s (fst (recover_braced from_str valid debug s e))"
proof (cases "case tolerant_candidate s of
              Some (candidate, False) \<Rightarrow> parse_tolerant_candidate from_str valid candidate
            | _ \<Rightarrow> (None, [])")
  case (Pair r ev)
  show ?thesis
  proof (cases r)
    case (Some v)
    with Pair have "recovered from_str s v"
      by (auto split: option.splits prod.splits bool.splits intro: recovered_candidate)
    with Pair Some show ?thesis by (simp add: recover_braced_def sound_result_def)
  next
    case None
    note L = last_resorts_sound [OF schema_errors(1), of from_str s valid]
    show ?thesis
    proof (cases "repair_m3_brackets_with_trace valid s")
      case m3: (Pair o' repairs)
      show ?thesis
        using Pair None m3 L recovered_m3 [of valid s _ repairs from_str]
        by (auto simp: recover_braced_def split: option.splits sum.splits prod.splits simp: sound_result_def [of _ _ "Inr _"])
          (metis fst_conv)+
    qed
  qed
qed

lemma sound_self: "from_str s = Inr v \<Longrightarrow> sound_result from_str s (Inr v)"
  by (simp add: sound_result_def recovered_self)

lemma sound_same: "bare p = bare s \<Longrightarrow> sound_result from_str p r \<Longrightarrow> sound_result from_str s r"
  by (simp add: sound_result_def recovered_def split: sum.splits)

lemma traced_sound:
  assumes t: "from_str (strip_code_fence raw) = Inl e0"
  shows "sound_result from_str (strip_response_text (strip_code_fence raw))
           (fst (parse_model_json_traced from_str valid debug raw))"
proof -
  let ?t = "strip_code_fence raw"
  let ?c = "strip_response_text ?t"
  show ?thesis
  proof (cases "if ?c \<noteq> ?t then from_str ?c else Inl []")
    case (Inr w)
    then have "from_str ?c = Inr w" by (simp split: if_splits)
    then show ?thesis using t Inr sound_self [of from_str ?c w] by (simp add: parse_model_json_traced_def Let_def)
  next
    case c: (Inl e1)
    show ?thesis
    proof (cases "repair_missing_open_brace ?c")
      case None
      show ?thesis
        using t c None recover_braced_sound [of from_str ?c valid debug] sound_self [of from_str ?c]
        by (cases "from_str ?c") (simp_all add: parse_model_json_traced_def Let_def)
    next
      case (Some p)
      note same = sound_same [OF edits_bare [OF open_brace_edits [OF Some]]]
      have frag: "sound_result from_str ?c (Inl (fragment_error ?c))"
        using schema_errors(2) [of ?c] by (simp add: sound_result_def)
      show ?thesis
        using t c Some frag same [OF sound_self [of from_str p]] same [OF recover_braced_sound [of from_str p valid debug]]
        by (cases "from_str p") (simp_all add: parse_model_json_traced_def Let_def split_beta)
    qed
  qed
qed

section \<open>What the cleaning leaves\<close>

lemma strip_markers_bare: "subseq (bare (strip_chat_template_tokens s)) (bare s)"
proof (induction s rule: strip_chat_template_tokens.induct)
  case (2 c s)
  show ?case
  proof (cases "first_match chat_template_markers (c # s)")
    case None
    then have "bare (strip_chat_template_tokens (c # s)) = bare [c] @ bare (strip_chat_template_tokens s)"
      by (simp add: bare_Cons [of c "strip_chat_template_tokens s"])
    then show ?thesis using 2(1) [OF None] by (simp add: bare_Cons [of c s] list_emb_append_mono)
  next
    case (Some r)
    obtain m where "c # s = m @ r" using marker_rest(1) [OF Some] by (auto simp: suffix_def)
    then have "bare (c # s) = bare m @ bare r" by (metis bare_append)
    moreover have "bare (strip_chat_template_tokens (c # s)) = bare (strip_chat_template_tokens r)"
      using Some bare_Cons [of "CHR '' ''"] by (simp add: bare_def content_def ascii_space_def)
    ultimately show ?thesis using 2(2) [OF Some] by (simp add: list_emb_append2)
  qed
qed simp

lemma strip_bare: "subseq (bare (strip s)) (bare s)"
proof -
  have "bare (filter should_keep s) = filter should_keep (bare s)"
    by (simp add: bare_def content_def) (metis (mono_tags, lifting) conj_commute)
  then show ?thesis by (simp add: strip_def)
qed

lemma strip_code_fence_sublist: "sublist (strip_code_fence raw) raw"
proof -
  have inner: "sublist (trim (take e rest)) raw" if "trim raw = p @ rest" for e p rest
  proof -
    have "sublist (take e rest) rest" by (simp add: take_is_prefix prefix_imp_sublist)
    moreover have "sublist rest (trim raw)" unfolding that by simp
    ultimately show ?thesis by (meson sublist_order.order.trans trim_sublist)
  qed
  let ?f = "\<lambda>p. case strip_prefix_str p (trim raw) of None \<Rightarrow> None
      | Some rest \<Rightarrow> map_option (\<lambda>e. trim (take e rest)) (rfind_str ''```'' rest)"
  have f: "sublist t raw" if "?f p = Some t" for p t
    using that by (auto simp: strip_prefix_str_Some intro: inner split: option.splits)
  have "strip_code_fence raw =
      (case ?f ''```json'' of Some t \<Rightarrow> t | None \<Rightarrow> (case ?f ''```'' of Some t \<Rightarrow> t | None \<Rightarrow> trim raw))"
    by (simp only: strip_code_fence_def Let_def)
  then show ?thesis
    using f [of "''```json''"] f [of "''```''"] trim_sublist [of raw]
    by (cases "?f ''```json''"; cases "?f ''```''") (simp_all only: option.case)
qed

lemma cleaned_bare: "subseq (bare (strip_response_text (strip_code_fence raw))) (bare raw)"
proof -
  have "subseq (bare (strip_response_text (strip_code_fence raw))) (bare (strip_code_fence raw))"
    unfolding strip_response_text_def by (rule subseq_order.trans [OF strip_bare strip_markers_bare])
  then show ?thesis
    using sublist_imp_subseq [OF bare_sublist [OF strip_code_fence_sublist [of raw]]] by (rule subseq_order.trans)
qed

text \<open>C33: Recovery never makes up an answer. Whatever the model wrote, the traced recovery either fails with
  a schema violation or returns a value that the decoder itself found in some text. That text is
  the answer without its code fence, or its content (ASCII bytes other than structure, quotes and
  white space) is a contiguous part of the content of the cleaned answer, in which each
  chat-template marker has become one space and the control bytes are gone. In both cases its
  content is in what the model wrote, in the same order, with parts left out and nothing added.\<close>

theorem recovery_keeps_content:
  "case fst (parse_model_json_traced from_str valid debug raw) of
     Inr v \<Rightarrow> \<exists>t. from_str t = Inr v \<and> subseq (bare t) (bare raw) \<and>
       (t = strip_code_fence raw \<or> sublist (bare t) (bare (strip_response_text (strip_code_fence raw))))
   | Inl e \<Rightarrow> \<exists>m. e = Err_SchemaViolation m"
proof (cases "from_str (strip_code_fence raw)")
  case (Inl e0)
  have "subseq (bare t) (bare raw)" if "sublist (bare t) (bare (strip_response_text (strip_code_fence raw)))" for t
    using sublist_imp_subseq [OF that] cleaned_bare by (rule subseq_order.trans)
  with traced_sound [of from_str raw e0 valid debug, OF Inl] show ?thesis
    by (fastforce simp: sound_result_def recovered_def is_schema_violation_def split: sum.splits)
next
  case (Inr v)
  then show ?thesis
    using sublist_imp_subseq [OF bare_sublist [OF strip_code_fence_sublist [of raw]]]
    by (auto simp: parse_model_json_traced_def Let_def)
qed

text \<open>Dropping stray closers leaves a text in which every closer matches the container it
  closes, and takes nothing but structural bytes out.\<close>

lemma stray_closers_dropped:
  assumes "drop_stray_closers s = Some out"
  shows "bracket_scan [] False out \<noteq> None \<and> edits s out"
proof -
  from assms have "out = fst (drop_walk [] False False s)"
    by (auto simp: drop_stray_closers_def split: prod.splits if_splits)
  with drop_walk_scan [of False "[]" False s] drop_stray_edits [OF assms] show ?thesis by blast
qed

end
