(* ===== verification/Matrix_Spec.thy ===== *)
theory Matrix_Spec imports Text Errors begin

text \<open>
  The operator's specification of the exploration matrix: \<open>src/discovery/matrix_spec.rs\<close>, with
  the dimensions and facets of \<open>src/discovery/matrix.rs\<close> it is turned into. \<open>debug\<close> is the
  library's quoted rendering of a string in an error message. A \<open>HashMap\<close> that is only
  looked up is a map. Labels are made from ids the parser has accepted, so upper-casing
  their letters is ASCII.
\<close>

section \<open>Data\<close>

record facet =
  fc_id :: string
  fc_label :: string

record dimension =
  dm_id :: string
  dm_label :: string
  dm_facets :: "facet list"

record facet_spec =
  fs_id :: string
  fs_label :: string
  fs_description :: string

record dimension_spec =
  ds_id :: string
  ds_label :: string
  ds_facets :: "facet_spec list"

record matrix_spec =
  ms_dimensions :: "dimension_spec list"

section \<open>Parsing\<close>

definition is_kebab_case :: "string \<Rightarrow> bool" where
  "is_kebab_case s =
     (if s = [] then False
      else if hd s = CHR ''-'' \<or> last s = CHR ''-'' then False
      else if contains ''--'' s then False
      else list_all (\<lambda>c. is_ascii_lowercase c \<or> is_ascii_digit c \<or> c = CHR ''-'') s)"

fun label_walk :: "bool \<Rightarrow> string \<Rightarrow> string" where
  "label_walk at_word_start [] = []"
| "label_walk at_word_start (ch # s) =
     (if ch = CHR ''-'' then CHR '' '' # label_walk True s
      else if at_word_start then ascii_upper ch # label_walk False s
      else ch # label_walk at_word_start s)"

definition default_label_from_id :: "string \<Rightarrow> string" where
  "default_label_from_id = label_walk True"

text \<open>The first facet id that occurs again.\<close>

fun first_repeated :: "string list \<Rightarrow> facet_spec list \<Rightarrow> string option" where
  "first_repeated seen [] = None"
| "first_repeated seen (f # fs) =
     (if fs_id f \<in> set seen then Some (fs_id f) else first_repeated (fs_id f # seen) fs)"

definition validate_unique_facet_ids :: "(string \<Rightarrow> string) \<Rightarrow> dimension_spec \<Rightarrow> string \<Rightarrow> unit result" where
  "validate_unique_facet_ids debug dim raw =
     (case first_repeated [] (ds_facets dim) of
        None \<Rightarrow> Inr ()
      | Some fid \<Rightarrow> Inl (Err_InvalidArgs (''matrix-spec '' @ debug raw @ '' has duplicate facet id '' @ debug fid
                        @ '' in dimension '' @ debug (ds_id dim))))"

fun parse_facets :: "(string \<Rightarrow> string) \<Rightarrow> string \<Rightarrow> string list \<Rightarrow> facet_spec list result" where
  "parse_facets debug segment [] = Inr []"
| "parse_facets debug segment (raw_facet # rest) =
     (let fid = trim raw_facet in
      if fid = [] then Inl (Err_InvalidArgs (''matrix-spec segment '' @ debug segment @ '' has an empty facet id''))
      else if \<not> is_kebab_case fid then
        Inl (Err_InvalidArgs (''matrix-spec facet id '' @ debug fid @ '' in segment '' @ debug segment
          @ '' is not kebab-case''))
      else rbind (parse_facets debug segment rest)
             (\<lambda>fs. Inr (\<lparr>fs_id = fid, fs_label = default_label_from_id fid, fs_description = []\<rparr> # fs)))"

definition parse_dimension_segment :: "(string \<Rightarrow> string) \<Rightarrow> string \<Rightarrow> dimension_spec result" where
  "parse_dimension_segment debug segment =
     (case split_once ''='' segment of
        None \<Rightarrow> Inl (Err_InvalidArgs (''matrix-spec segment '' @ debug segment
                  @ '' is missing `=`; expected `<dim-id>=<facet1>,<facet2>,...''))
      | Some (id_part, facets_part) \<Rightarrow>
          (let id = trim id_part in
           if id = [] then
             Inl (Err_InvalidArgs (''matrix-spec segment '' @ debug segment @ '' has an empty dimension id''))
           else if \<not> is_kebab_case id then
             Inl (Err_InvalidArgs (''matrix-spec dimension id '' @ debug id @ '' is not kebab-case''))
           else rbind (parse_facets debug segment (split_on (CHR '','') facets_part))
                  (\<lambda>facets. if facets = [] then
                       Inl (Err_InvalidArgs (''matrix-spec segment '' @ debug segment @ '' has zero facets''))
                     else Inr \<lparr>ds_id = id, ds_label = default_label_from_id id, ds_facets = facets\<rparr>)))"

fun parse_chunks :: "(string \<Rightarrow> string) \<Rightarrow> string \<Rightarrow> string list \<Rightarrow> dimension_spec list result" where
  "parse_chunks debug raw [] = Inr []"
| "parse_chunks debug raw (c # cs) =
     (let chunk = trim c in
      if chunk = [] then
        Inl (Err_InvalidArgs (''matrix-spec has an empty dimension segment in '' @ debug raw))
      else rbind (parse_dimension_segment debug chunk)
             (\<lambda>dim. rbind (validate_unique_facet_ids debug dim raw)
               (\<lambda>_. rbind (parse_chunks debug raw cs) (\<lambda>dims. Inr (dim # dims)))))"

definition parse_one :: "(string \<Rightarrow> string) \<Rightarrow> string \<Rightarrow> matrix_spec result" where
  "parse_one debug raw0 =
     (let raw = trim raw0 in
      if raw = [] then Inl (Err_InvalidArgs ''matrix-spec is empty'')
      else rbind (parse_chunks debug raw (split_on (CHR '';'') raw))
             (\<lambda>dims. if dims = [] then
                  Inl (Err_InvalidArgs (''matrix-spec '' @ debug raw @ '' produced zero dimensions''))
                else Inr \<lparr>ms_dimensions = dims\<rparr>))"

text \<open>The dimensions of one entry are checked again, one by one, as they are added.\<close>

fun check_dimensions :: "(string \<Rightarrow> string) \<Rightarrow> string \<Rightarrow> dimension_spec list \<Rightarrow> unit result" where
  "check_dimensions debug raw [] = Inr ()"
| "check_dimensions debug raw (d # ds) =
     rbind (validate_unique_facet_ids debug d raw) (\<lambda>_. check_dimensions debug raw ds)"

fun parse_entries :: "(string \<Rightarrow> string) \<Rightarrow> string list \<Rightarrow> dimension_spec list result" where
  "parse_entries debug [] = Inr []"
| "parse_entries debug (raw # rest) =
     (if trim raw = [] then parse_entries debug rest
      else rbind (parse_one debug raw)
             (\<lambda>parsed. rbind (check_dimensions debug raw (ms_dimensions parsed))
               (\<lambda>_. rbind (parse_entries debug rest) (\<lambda>dims. Inr (ms_dimensions parsed @ dims)))))"

definition parse_all :: "(string \<Rightarrow> string) \<Rightarrow> string list \<Rightarrow> matrix_spec result" where
  "parse_all debug entries =
     rbind (parse_entries debug entries)
       (\<lambda>dims. if dims = [] then
            Inl (Err_InvalidArgs ''matrix-spec produced zero dimensions after parsing all entries'')
          else Inr \<lparr>ms_dimensions = dims\<rparr>)"

section \<open>Validation and conversion\<close>

definition spec_cells :: "matrix_spec \<Rightarrow> nat" where
  "spec_cells s = sum_list (map (\<lambda>d. length (ds_facets d)) (ms_dimensions s))"

fun validate_facets :: "(string \<Rightarrow> string) \<Rightarrow> string \<Rightarrow> facet_spec list \<Rightarrow> unit result" where
  "validate_facets debug dim_id [] = Inr ()"
| "validate_facets debug dim_id (f # fs) =
     (if \<not> is_kebab_case (fs_id f) then
        Inl (Err_InvalidArgs (''MatrixSpec facet id '' @ debug (fs_id f) @ '' (in dimension '' @ debug dim_id
          @ '') is not kebab-case''))
      else if trim (fs_label f) = [] then
        Inl (Err_InvalidArgs (''MatrixSpec facet '' @ debug (fs_id f) @ '' (in dimension '' @ debug dim_id
          @ '') has empty label''))
      else validate_facets debug dim_id fs)"

fun validate_dimensions :: "(string \<Rightarrow> string) \<Rightarrow> dimension_spec list \<Rightarrow> unit result" where
  "validate_dimensions debug [] = Inr ()"
| "validate_dimensions debug (d # ds) =
     (if ds_id d = [] then Inl (Err_InvalidArgs ''MatrixSpec dimension has empty id'')
      else if \<not> is_kebab_case (ds_id d) then
        Inl (Err_InvalidArgs (''MatrixSpec dimension id '' @ debug (ds_id d) @ '' is not kebab-case''))
      else if trim (ds_label d) = [] then
        Inl (Err_InvalidArgs (''MatrixSpec dimension '' @ debug (ds_id d) @ '' has empty label''))
      else if ds_facets d = [] then
        Inl (Err_InvalidArgs (''MatrixSpec dimension '' @ debug (ds_id d) @ '' has zero facets''))
      else rbind (validate_unique_facet_ids debug d ''<MatrixSpec>'')
             (\<lambda>_. rbind (validate_facets debug (ds_id d) (ds_facets d)) (\<lambda>_. validate_dimensions debug ds)))"

definition validate_spec :: "(string \<Rightarrow> string) \<Rightarrow> matrix_spec \<Rightarrow> unit result" where
  "validate_spec debug s =
     (if ms_dimensions s = [] then Inl (Err_InvalidArgs ''MatrixSpec has zero dimensions'')
      else validate_dimensions debug (ms_dimensions s))"

definition facet_of_spec :: "facet_spec \<Rightarrow> facet" where
  "facet_of_spec f = \<lparr>fc_id = fs_id f, fc_label = fs_label f\<rparr>"

definition dimension_of_spec :: "dimension_spec \<Rightarrow> dimension" where
  "dimension_of_spec d =
     \<lparr>dm_id = ds_id d, dm_label = ds_label d, dm_facets = map facet_of_spec (ds_facets d)\<rparr>"

definition into_dimensions :: "matrix_spec \<Rightarrow> dimension list" where
  "into_dimensions s = map dimension_of_spec (ms_dimensions s)"

text \<open>Inserting the descriptions one by one: a later one replaces an earlier one of its key.\<close>

definition insert_descriptions ::
  "dimension_spec \<Rightarrow> (string \<times> string \<rightharpoonup> string) \<Rightarrow> (string \<times> string \<rightharpoonup> string)"
where
  "insert_descriptions d m = fold (\<lambda>f m. m((ds_id d, fs_id f) \<mapsto> fs_description f)) (ds_facets d) m"

definition into_dimensions_with_descriptions ::
  "matrix_spec \<Rightarrow> dimension list \<times> (string \<times> string \<rightharpoonup> string)"
where
  "into_dimensions_with_descriptions s =
     (map dimension_of_spec (ms_dimensions s), fold insert_descriptions (ms_dimensions s) Map.empty)"

definition from_dimension_with_descriptions ::
  "dimension \<Rightarrow> (string \<times> string \<rightharpoonup> string) \<Rightarrow> dimension_spec"
where
  "from_dimension_with_descriptions dim descriptions =
     \<lparr>ds_id = dm_id dim, ds_label = dm_label dim,
      ds_facets = map (\<lambda>f. \<lparr>fs_id = fc_id f, fs_label = fc_label f,
          fs_description = (case descriptions (dm_id dim, fc_id f) of None \<Rightarrow> [] | Some x \<Rightarrow> x)\<rparr>) (dm_facets dim)\<rparr>"

section \<open>What the parser accepts\<close>

lemma kebab_not_Nil: "is_kebab_case s \<Longrightarrow> s \<noteq> []"
  by (auto simp: is_kebab_case_def)

lemma kebab_char: "is_kebab_case s \<Longrightarrow> c \<in> set s \<Longrightarrow> visible c \<and> c \<notin> set '',;=''"
  by (auto simp: is_kebab_case_def list_all_iff is_ascii_digit_def is_ascii_lowercase_def visible_def Let_def
      split: if_splits)

lemma kebab_trim [simp]: "is_kebab_case s \<Longrightarrow> trim s = s"
  by (rule trim_visible) (simp add: kebab_char)

lemma label_last:
  "s \<noteq> [] \<Longrightarrow> last s \<noteq> CHR ''-'' \<Longrightarrow> (\<And>c. c \<in> set s \<Longrightarrow> visible c) \<Longrightarrow>
     label_walk b s \<noteq> [] \<and> visible (last (label_walk b s))"
  by (induction b s rule: label_walk.induct) (auto simp: upper_visible split: if_splits)

lemma label_not_blank: "is_kebab_case s \<Longrightarrow> trim (default_label_from_id s) \<noteq> []"
proof -
  assume k: "is_kebab_case s"
  then have "s \<noteq> []" "hd s \<noteq> CHR ''-''" "last s \<noteq> CHR ''-''" by (auto simp: is_kebab_case_def split: if_splits)
  moreover have "label_walk True s \<noteq> [] \<and> visible (last (label_walk True s))"
    using label_last [of s True] k kebab_char calculation by blast
  moreover have "visible (hd (label_walk True s))"
    using k calculation kebab_char [OF k, of "hd s"] by (cases s) (auto simp: upper_visible)
  ultimately show ?thesis by (simp add: default_label_from_id_def trim_visible)
qed

lemma first_repeated_None:
  "first_repeated seen fs = None \<longleftrightarrow> distinct (map fs_id fs) \<and> set seen \<inter> set (map fs_id fs) = {}"
  by (induction seen fs rule: first_repeated.induct) auto

lemma unique_facets_Inr: "validate_unique_facet_ids debug d raw = Inr () \<longleftrightarrow> distinct (map fs_id (ds_facets d))"
  using first_repeated_None [of "[]" "ds_facets d"] by (auto simp: validate_unique_facet_ids_def split: option.splits)

definition dimension_ok :: "dimension_spec \<Rightarrow> bool" where
  "dimension_ok d \<longleftrightarrow> is_kebab_case (ds_id d) \<and> trim (ds_label d) \<noteq> [] \<and> ds_facets d \<noteq> [] \<and>
     distinct (map fs_id (ds_facets d)) \<and>
     (\<forall>f\<in>set (ds_facets d). is_kebab_case (fs_id f) \<and> trim (fs_label f) \<noteq> [])"

lemma validate_facets_Inr:
  "validate_facets debug i fs = Inr () \<longleftrightarrow> (\<forall>f\<in>set fs. is_kebab_case (fs_id f) \<and> trim (fs_label f) \<noteq> [])"
  by (induction debug i fs rule: validate_facets.induct) auto

lemma validate_dimensions_Inr: "validate_dimensions debug ds = Inr () \<longleftrightarrow> (\<forall>d\<in>set ds. dimension_ok d)"
proof (induction debug ds rule: validate_dimensions.induct)
  case (2 debug d ds)
  then show ?case
    by (auto simp: rbind_eq_Inr unique_facets_Inr validate_facets_Inr dimension_ok_def kebab_not_Nil)
qed simp

lemma validate_spec_Inr:
  "validate_spec debug s = Inr () \<longleftrightarrow> ms_dimensions s \<noteq> [] \<and> (\<forall>d\<in>set (ms_dimensions s). dimension_ok d)"
  by (simp add: validate_spec_def validate_dimensions_Inr)

text \<open>The facet and dimension the parser makes from ids.\<close>

definition relabel_facet :: "facet_spec \<Rightarrow> facet_spec" where
  "relabel_facet f = \<lparr>fs_id = fs_id f, fs_label = default_label_from_id (fs_id f), fs_description = []\<rparr>"

definition relabel :: "dimension_spec \<Rightarrow> dimension_spec" where
  "relabel d = \<lparr>ds_id = ds_id d, ds_label = default_label_from_id (ds_id d),
     ds_facets = map relabel_facet (ds_facets d)\<rparr>"

lemma parse_facets_Inr:
  "parse_facets debug seg ws = Inr fs \<Longrightarrow> length fs = length ws \<and> map relabel_facet fs = fs \<and>
     (\<forall>f\<in>set fs. is_kebab_case (fs_id f))"
  by (induction debug seg ws arbitrary: fs rule: parse_facets.induct)
    (auto simp: Let_def rbind_eq_Inr relabel_facet_def split: if_splits)

lemma parse_segment_Inr:
  "parse_dimension_segment debug seg = Inr d \<Longrightarrow>
     relabel d = d \<and> is_kebab_case (ds_id d) \<and> ds_facets d \<noteq> [] \<and> (\<forall>f\<in>set (ds_facets d). is_kebab_case (fs_id f))"
  by (auto simp: parse_dimension_segment_def Let_def rbind_eq_Inr relabel_def dest!: parse_facets_Inr
      split: option.splits if_splits prod.splits)

definition parsed_ok :: "dimension_spec \<Rightarrow> bool" where
  "parsed_ok d \<longleftrightarrow> relabel d = d \<and> dimension_ok d"

lemma map_fixed: "map g xs = xs \<Longrightarrow> x \<in> set xs \<Longrightarrow> g x = x"
  by (induction xs) auto

lemma relabel_ok:
  assumes "relabel d = d" "is_kebab_case (ds_id d)" "ds_facets d \<noteq> []" "\<forall>f\<in>set (ds_facets d). is_kebab_case (fs_id f)"
    and "distinct (map fs_id (ds_facets d))"
  shows "parsed_ok d"
proof -
  have "ds_label d = default_label_from_id (ds_id d)" "map relabel_facet (ds_facets d) = ds_facets d"
    using assms(1) by (metis dimension_spec.select_convs(2) relabel_def, metis dimension_spec.select_convs(3) relabel_def)
  moreover have "fs_label f = default_label_from_id (fs_id f)" if "f \<in> set (ds_facets d)" for f
    using map_fixed [OF calculation(2) that] relabel_facet_def [of f] by (metis facet_spec.select_convs(2))
  ultimately show ?thesis using assms by (simp add: parsed_ok_def dimension_ok_def label_not_blank)
qed

lemma parse_chunks_Inr:
  "parse_chunks debug raw cs = Inr ds \<Longrightarrow> length ds = length cs \<and> (\<forall>d\<in>set ds. parsed_ok d)"
proof (induction debug raw cs arbitrary: ds rule: parse_chunks.induct)
  case (2 debug raw c cs)
  from "2.prems" obtain d ds' where d: "ds = d # ds'" "parse_dimension_segment debug (trim c) = Inr d"
      "validate_unique_facet_ids debug d raw = Inr ()" "parse_chunks debug raw cs = Inr ds'" "trim c \<noteq> []"
    by (auto simp: Let_def rbind_eq_Inr split: if_splits)
  have "parsed_ok d"
    using parse_segment_Inr [OF d(2)] d(3) by (intro relabel_ok) (simp_all add: unique_facets_Inr)
  moreover have "length ds' = length cs \<and> (\<forall>d\<in>set ds'. parsed_ok d)"
    using "2.IH" [OF refl d(5) d(4)] by blast
  ultimately show ?case by (simp add: d(1))
qed simp

lemma parse_one_Inr:
  "parse_one debug raw = Inr s \<Longrightarrow> ms_dimensions s \<noteq> [] \<and> (\<forall>d\<in>set (ms_dimensions s). parsed_ok d)"
  by (auto simp: parse_one_def Let_def rbind_eq_Inr dest!: parse_chunks_Inr split: if_splits)

lemma parse_entries_Inr: "parse_entries debug es = Inr ds \<Longrightarrow> \<forall>d\<in>set ds. parsed_ok d"
  by (induction debug es arbitrary: ds rule: parse_entries.induct)
    (auto simp: rbind_eq_Inr dest!: parse_one_Inr split: if_splits)

section \<open>Writing a specification out\<close>

definition dimension_text :: "dimension_spec \<Rightarrow> string" where
  "dimension_text d = ds_id d @ ''='' @ join_str '','' (map fs_id (ds_facets d))"

definition spec_text :: "matrix_spec \<Rightarrow> string" where
  "spec_text s = join_str '';'' (map dimension_text (ms_dimensions s))"

lemma join_chars: "c \<in> set (join_str sep ws) \<Longrightarrow> c \<in> set sep \<or> (\<exists>w\<in>set ws. c \<in> set w)"
  by (induction sep ws rule: join_str.induct) auto

lemma join_visible:
  assumes "ws \<noteq> []" "\<And>w. w \<in> set ws \<Longrightarrow> w \<noteq> [] \<and> visible (hd w) \<and> visible (last w)"
  shows "join_str sep ws \<noteq> [] \<and> visible (hd (join_str sep ws)) \<and> visible (last (join_str sep ws))"
  using assms by (induction sep ws rule: join_str.induct) (auto simp: hd_append)

lemma kebab_ends: "is_kebab_case w \<Longrightarrow> w \<noteq> [] \<and> visible (hd w) \<and> visible (last w)"
  using kebab_char [of w] by (simp add: kebab_not_Nil)

lemma facet_texts:
  assumes "dimension_ok d"
  shows "map fs_id (ds_facets d) \<noteq> []" "\<And>w. w \<in> set (map fs_id (ds_facets d)) \<Longrightarrow> is_kebab_case w"
  using assms by (auto simp: dimension_ok_def)

lemma dimension_text_ends:
  assumes "dimension_ok d"
  shows "dimension_text d \<noteq> [] \<and> visible (hd (dimension_text d)) \<and> visible (last (dimension_text d))"
proof -
  have "is_kebab_case (ds_id d)" using assms by (simp add: dimension_ok_def)
  from kebab_ends [OF this] join_visible [of "map fs_id (ds_facets d)" "'',''"] facet_texts [OF assms] kebab_ends
  show ?thesis by (auto simp: dimension_text_def hd_append last_append)
qed

lemma kebab_no_semicolon: "is_kebab_case w \<Longrightarrow> CHR '';'' \<notin> set w"
  using kebab_char [of w "CHR '';''"] by auto

lemma dimension_text_plain: "dimension_ok d \<Longrightarrow> CHR '';'' \<notin> set (dimension_text d)"
  by (auto simp: dimension_text_def dimension_ok_def kebab_no_semicolon dest!: join_chars)

lemma parse_facet_texts:
  "(\<And>f. f \<in> set fs \<Longrightarrow> is_kebab_case (fs_id f)) \<Longrightarrow> parse_facets debug seg (map fs_id fs) = Inr (map relabel_facet fs)"
  by (induction fs) (simp_all add: kebab_not_Nil relabel_facet_def Let_def)

lemma parse_dimension_text:
  assumes "dimension_ok d"
  shows "parse_dimension_segment debug (dimension_text d) = Inr (relabel d)"
proof -
  have k: "is_kebab_case (ds_id d)" using assms by (simp add: dimension_ok_def)
  have "CHR ''='' \<notin> set (ds_id d)" using kebab_char [OF k] by auto
  then have o: "split_once ''='' (dimension_text d) = Some (ds_id d, join_str '','' (map fs_id (ds_facets d)))"
    using split_once_char by (simp add: dimension_text_def)
  have "CHR '','' \<notin> set w" if "w \<in> set (map fs_id (ds_facets d))" for w
    using kebab_char [OF facet_texts(2) [OF assms that]] by auto
  then have f: "split_on (CHR '','') (join_str '','' (map fs_id (ds_facets d))) = map fs_id (ds_facets d)"
    by (intro split_on_join facet_texts(1) assms)
  have "parse_facets debug (dimension_text d) (map fs_id (ds_facets d)) = Inr (map relabel_facet (ds_facets d))"
    using assms by (intro parse_facet_texts) (simp add: dimension_ok_def)
  then show ?thesis
    using o f k assms by (simp add: parse_dimension_segment_def kebab_not_Nil relabel_def dimension_ok_def Let_def)
qed

lemma relabel_unique: "dimension_ok d \<Longrightarrow> validate_unique_facet_ids debug (relabel d) raw = Inr ()"
  by (simp add: unique_facets_Inr relabel_def dimension_ok_def relabel_facet_def comp_def)

lemma parse_dimension_texts:
  "(\<And>d. d \<in> set ds \<Longrightarrow> dimension_ok d) \<Longrightarrow> parse_chunks debug raw (map dimension_text ds) = Inr (map relabel ds)"
proof (induction ds)
  case (Cons d ds)
  then have d: "dimension_ok d" by simp
  have "trim (dimension_text d) = dimension_text d" using dimension_text_ends [OF d] by (simp add: trim_visible)
  then show ?case
    using Cons dimension_text_ends [OF d] parse_dimension_text [OF d] relabel_unique [OF d] by simp
qed simp

text \<open>C30: A specification reads back. Any specification that passes the validator, written out as
  \<open>id=facet,facet;id=facet\<close>, is parsed into the same dimensions and facets, in their order,
  with the default labels and no descriptions.\<close>

theorem matrix_spec_reads_back:
  assumes "validate_spec debug s = Inr ()"
  shows "parse_one debug (spec_text s) = Inr \<lparr>ms_dimensions = map relabel (ms_dimensions s)\<rparr>"
proof -
  have ok: "ms_dimensions s \<noteq> []" "\<And>d. d \<in> set (ms_dimensions s) \<Longrightarrow> dimension_ok d"
    using assms by (auto simp: validate_spec_Inr)
  let ?ws = "map dimension_text (ms_dimensions s)"
  have "w \<noteq> [] \<and> visible (hd w) \<and> visible (last w)" if "w \<in> set ?ws" for w
    using that ok(2) dimension_text_ends by auto
  then have e: "spec_text s \<noteq> [] \<and> visible (hd (spec_text s)) \<and> visible (last (spec_text s))"
    unfolding spec_text_def using ok(1) by (intro join_visible) auto
  have "split_on (CHR '';'') (spec_text s) = ?ws"
    unfolding spec_text_def using ok dimension_text_plain by (intro split_on_join) auto
  then show ?thesis
    using e ok parse_dimension_texts [of "ms_dimensions s" debug "spec_text s"]
    by (simp add: parse_one_def trim_visible)
qed

text \<open>C31: What the parser accepts is valid. If the entries of the command line parse, in whatever
  mix of the repeated and the consolidated form, the result passes the validator, has at
  least one cell, and every label is the default one of its id.\<close>

theorem parsed_spec_valid:
  assumes "parse_all debug entries = Inr s"
  shows "validate_spec debug s = Inr () \<and> 0 < spec_cells s \<and> map relabel (ms_dimensions s) = ms_dimensions s"
proof -
  from assms have ne: "ms_dimensions s \<noteq> []" and ok: "\<forall>d\<in>set (ms_dimensions s). parsed_ok d"
    by (auto simp: parse_all_def rbind_eq_Inr dest!: parse_entries_Inr split: if_splits)
  from ne obtain d ds where d: "ms_dimensions s = d # ds" by (cases "ms_dimensions s") auto
  then have "0 < length (ds_facets d)" using ok by (simp add: parsed_ok_def dimension_ok_def)
  then have "0 < spec_cells s" using d by (simp add: spec_cells_def)
  moreover have "map relabel (ms_dimensions s) = ms_dimensions s"
    using ok by (intro map_idI) (simp add: parsed_ok_def)
  ultimately show ?thesis using ne ok by (simp add: validate_spec_Inr parsed_ok_def)
qed

section \<open>Descriptions\<close>

lemma insert_descriptions_apply:
  "fold (\<lambda>f m. m((i, fs_id f) \<mapsto> fs_description f)) fs m (i', k) =
     (if i = i' \<and> k \<in> set (map fs_id fs)
      then Some (fs_description (last (filter (\<lambda>f. fs_id f = k) fs))) else m (i', k))"
proof (induction fs arbitrary: m)
  case (Cons f fs)
  have "filter (\<lambda>f. fs_id f = k) fs \<noteq> [] \<longleftrightarrow> k \<in> set (map fs_id fs)" by (auto simp: filter_empty_conv)
  then show ?case using Cons by auto
qed simp

lemma insert_descriptions_other:
  "i \<noteq> ds_id d \<Longrightarrow> insert_descriptions d m (i, k) = m (i, k)"
  by (simp add: insert_descriptions_def insert_descriptions_apply)

lemma fold_descriptions_other:
  "i \<notin> set (map ds_id ds) \<Longrightarrow> fold insert_descriptions ds m (i, k) = m (i, k)"
  by (induction ds arbitrary: m) (simp_all add: insert_descriptions_other)

lemma filter_own: "distinct (map fs_id fs) \<Longrightarrow> f \<in> set fs \<Longrightarrow> filter (\<lambda>g. fs_id g = fs_id f) fs = [f]"
  by (induction fs) (auto simp: filter_empty_conv image_iff)

lemma fold_descriptions_own:
  assumes "distinct (map ds_id ds)" "d \<in> set ds" "distinct (map fs_id (ds_facets d))" "f \<in> set (ds_facets d)"
  shows "fold insert_descriptions ds m (ds_id d, fs_id f) = Some (fs_description f)"
proof -
  from assms(2) obtain a b where ab: "ds = a @ d # b" by (auto simp: in_set_conv_decomp)
  then have "ds_id d \<notin> set (map ds_id b)" using assms(1) by auto
  moreover have "filter (\<lambda>g. fs_id g = fs_id f) (ds_facets d) = [f]"
    using assms(3,4) by (rule filter_own)
  then have "insert_descriptions d m' (ds_id d, fs_id f) = Some (fs_description f)" for m'
    using assms(4) by (auto simp: insert_descriptions_def insert_descriptions_apply)
  ultimately show ?thesis by (simp add: ab fold_descriptions_other)
qed

text \<open>Descriptions survive the matrix. When no dimension id and, within a dimension, no facet id
  is repeated, splitting a specification into its dimensions and the table of descriptions
  and putting every dimension back together gives the specification again.\<close>

lemma descriptions_round_trip:
  assumes "distinct (map ds_id (ms_dimensions s))"
    and "\<And>d. d \<in> set (ms_dimensions s) \<Longrightarrow> distinct (map fs_id (ds_facets d))"
    and "into_dimensions_with_descriptions s = (dims, descs)"
  shows "map (\<lambda>d. from_dimension_with_descriptions d descs) dims = ms_dimensions s"
proof -
  have descs: "descs = fold insert_descriptions (ms_dimensions s) Map.empty"
    and dims: "dims = map dimension_of_spec (ms_dimensions s)"
    using assms(3) by (simp_all add: into_dimensions_with_descriptions_def)
  have "from_dimension_with_descriptions (dimension_of_spec d) descs = d" if d: "d \<in> set (ms_dimensions s)" for d
  proof -
    have "map (\<lambda>f. \<lparr>fs_id = fs_id f, fs_label = fs_label f,
        fs_description = (case descs (ds_id d, fs_id f) of None \<Rightarrow> [] | Some x \<Rightarrow> x)\<rparr>) (ds_facets d) = ds_facets d"
      using fold_descriptions_own [OF assms(1) d assms(2) [OF d]] by (intro map_idI) (simp add: descs)
    then show ?thesis
      by (simp add: from_dimension_with_descriptions_def dimension_of_spec_def facet_of_spec_def comp_def)
  qed
  then show ?thesis by (simp add: dims map_idI)
qed

section \<open>Witnesses\<close>

definition demo_spec :: matrix_spec where
  "demo_spec = \<lparr>ms_dimensions =
     [\<lparr>ds_id = ''store'', ds_label = ''Storage'',
        ds_facets = [\<lparr>fs_id = ''sql'', fs_label = ''SQL'', fs_description = ''tables''\<rparr>,
                     \<lparr>fs_id = ''kv'', fs_label = ''KV'', fs_description = []\<rparr>]\<rparr>]\<rparr>"

lemma matrix_spec_reads_back_witness:
  "parse_one id ''store=sql,kv'' = Inr \<lparr>ms_dimensions = map relabel (ms_dimensions demo_spec)\<rparr>"
proof -
  have "validate_spec id demo_spec = Inr ()" by code_simp
  moreover have "spec_text demo_spec = ''store=sql,kv''" by code_simp
  ultimately show ?thesis using matrix_spec_reads_back [of id demo_spec] by simp
qed

lemma parsed_spec_valid_witness:
  "\<exists>s. parse_all id [''a=x,y'', '' '', '' b = p ; c=q''] = Inr s \<and> validate_spec id s = Inr () \<and> 0 < spec_cells s"
proof -
  have "\<not> isl (parse_all id [''a=x,y'', '' '', '' b = p ; c=q''])" by code_simp
  then obtain s where s: "parse_all id [''a=x,y'', '' '', '' b = p ; c=q''] = Inr s" by (metis sum.disc(1) sum.exhaust)
  from parsed_spec_valid [OF this] s show ?thesis by blast
qed

end
