(* ===== verification/Ordered_Map.thy ===== *)
theory Ordered_Map
  imports Main "HOL-Library.AList" "HOL-Library.Char_ord" "HOL-Library.List_Lexorder" "HOL-Library.Product_Lexorder"
begin

text \<open>
  Rust's maps as association lists. A \<open>BTreeMap\<close> is the list of its entries in the order of
  their keys (strings are compared byte by byte, pairs by their first component first). A
  \<open>HashMap\<close> that is iterated is the list of its entries in the order in which the program
  happens to see them, so a statement about every list holds for every hash order; it is
  updated with \<open>AList.update\<close> and \<open>AList.delete\<close>.
\<close>

type_synonym ('k, 'v) hash_map = "('k \<times> 'v) list"
type_synonym ('k, 'v) btree_map = "('k \<times> 'v) list"

fun bt_insert :: "'k::linorder \<Rightarrow> 'v \<Rightarrow> ('k, 'v) btree_map \<Rightarrow> ('k, 'v) btree_map" where
  "bt_insert k v [] = [(k, v)]"
| "bt_insert k v ((k', v') # m) =
     (if k < k' then (k, v) # (k', v') # m
      else if k = k' then (k, v) # m
      else (k', v') # bt_insert k v m)"

text \<open>\<open>entry(k).or_insert(v)\<close>.\<close>

definition bt_or_insert :: "'k::linorder \<Rightarrow> 'v \<Rightarrow> ('k, 'v) btree_map \<Rightarrow> ('k, 'v) btree_map" where
  "bt_or_insert k v m = (if map_of m k = None then bt_insert k v m else m)"

definition bt_wf :: "('k::linorder, 'v) btree_map \<Rightarrow> bool" where
  "bt_wf m \<longleftrightarrow> sorted_wrt (<) (map fst m)"

lemma bt_insert_keys: "fst ` set (bt_insert k v m) = insert k (fst ` set m)"
  by (induction k v m rule: bt_insert.induct) (auto simp: image_iff)

lemma map_of_bt_insert [simp]: "bt_wf m \<Longrightarrow> map_of (bt_insert k v m) = (map_of m)(k \<mapsto> v)"
  by (induction k v m rule: bt_insert.induct) (auto simp: bt_wf_def fun_eq_iff)

lemma bt_insert_wf [simp, intro]: "bt_wf m \<Longrightarrow> bt_wf (bt_insert k v m)"
proof (induction k v m rule: bt_insert.induct)
  case (2 k v k' v' m)
  then have "fst ` set (bt_insert k v m) = insert k (fst ` set m)" by (simp add: bt_insert_keys)
  with 2 show ?case by (auto simp: bt_wf_def)
qed (simp add: bt_wf_def)

lemma bt_wf_Nil [simp]: "bt_wf []"
  by (simp add: bt_wf_def)

lemma bt_wf_distinct: "bt_wf m \<Longrightarrow> distinct (map fst m)"
  by (simp add: bt_wf_def strict_sorted_iff)

lemma bt_or_insert_wf [simp, intro]: "bt_wf m \<Longrightarrow> bt_wf (bt_or_insert k v m)"
  by (simp add: bt_or_insert_def)

lemma map_of_bt_or_insert [simp]:
  "bt_wf m \<Longrightarrow> map_of (bt_or_insert k v m) = (if map_of m k = None then (map_of m)(k \<mapsto> v) else map_of m)"
  by (simp add: bt_or_insert_def)

lemma bt_mem: "bt_wf m \<Longrightarrow> (k, v) \<in> set m \<longleftrightarrow> map_of m k = Some v"
  using bt_wf_distinct [of m] by (metis map_of_SomeD map_of_is_SomeI)

lemma fold_bt_insert:
  assumes "bt_wf t"
  shows "bt_wf (fold (\<lambda>(k, v). bt_insert (g k) v) es t)"
    and "map_of (fold (\<lambda>(k, v). bt_insert (g k) v) es t) = map_of t ++ map_of (rev (map (\<lambda>(k, v). (g k, v)) es))"
proof -
  have "bt_wf (fold (\<lambda>(k, v). bt_insert (g k) v) es t) \<and>
      map_of (fold (\<lambda>(k, v). bt_insert (g k) v) es t) = map_of t ++ map_of (rev (map (\<lambda>(k, v). (g k, v)) es))"
    using assms
  proof (induction es arbitrary: t)
    case (Cons e es)
    then show ?case
      by (cases e) (auto simp: fun_eq_iff map_add_def split: option.split)
  qed simp
  then show "bt_wf (fold (\<lambda>(k, v). bt_insert (g k) v) es t)"
    and "map_of (fold (\<lambda>(k, v). bt_insert (g k) v) es t) = map_of t ++ map_of (rev (map (\<lambda>(k, v). (g k, v)) es))"
    by blast+
qed

end
