(* ===== verification/Matrix.thy ===== *)
theory Matrix imports Matrix_Spec Ordered_Map begin

text \<open>
  The exploration matrix of a discover run: \<open>src/discovery/matrix.rs\<close>. Temperatures are \<open>f32\<close>
  values of an abstract type; \<open>f32_ops\<close> holds what the code computes with them: the
  distance of two of them, the comparisons of distances, whether a distance exceeds
  \<open>1e-3\<close>, their bits and the constant \<open>1.0\<close>. Counts that multiply are \<open>usize\<close> words.
\<close>

section \<open>Data\<close>

record ('f, 'd) f32_ops =
  fo_distance :: "'f \<Rightarrow> 'f \<Rightarrow> 'd"
  fo_less :: "'d \<Rightarrow> 'd \<Rightarrow> bool"
  fo_equal :: "'d \<Rightarrow> 'd \<Rightarrow> bool"
  fo_above_threshold :: "'d \<Rightarrow> bool"
  fo_to_bits :: "'f \<Rightarrow> u32"
  fo_one :: 'f

record 'f temperature_profile =
  tp_temperatures :: "'f list"
  tp_replicas :: u64

record matrix_cell =
  mc_dimension_id :: string
  mc_facet_id :: string
  mc_label :: string

record facet_description =
  fd_dimension_id :: string
  fd_facet_id :: string
  fd_description :: string

record discovery_dimensions =
  dd_schema_version :: string
  dd_brief_hash :: string
  dd_dimensions :: "dimension list"
  dd_descriptions :: "facet_description list"
  dd_created_unix :: int

record 'f rewrite_event =
  re_provider_model :: string
  re_requested :: "'f list"
  re_clamped_to :: "'f list"
  re_n_clamped :: nat
  re_original_count :: nat
  re_unique_count :: nat
  re_dropped_count :: nat
  re_effective_fanout :: u64

record 'f exploration_matrix =
  em_dimensions :: "dimension list"
  em_theses_per_cell :: u64
  em_profiles :: "(string, 'f temperature_profile) hash_map"
  em_default_profile :: "'f temperature_profile"

section \<open>Profiles\<close>

definition default_temperature_profile :: "('f, 'd) f32_ops \<Rightarrow> 'f temperature_profile" where
  "default_temperature_profile ops = \<lparr>tp_temperatures = [fo_one ops], tp_replicas = 1\<rparr>"

definition profile_total :: "'f temperature_profile \<Rightarrow> u64" where
  "profile_total p = of_nat (length (tp_temperatures p)) * max (tp_replicas p) 1"

definition count_unique :: "('f, 'd) f32_ops \<Rightarrow> 'f list \<Rightarrow> nat" where
  "count_unique ops ts = length (remdups (map (fo_to_bits ops) ts))"

definition profile_unique_total :: "('f, 'd) f32_ops \<Rightarrow> 'f temperature_profile \<Rightarrow> u64" where
  "profile_unique_total ops p = of_nat (count_unique ops (tp_temperatures p)) * max (tp_replicas p) 1"

definition description_for :: "discovery_dimensions \<Rightarrow> string \<Rightarrow> string \<Rightarrow> string option" where
  "description_for d dim facet =
     map_option fd_description
       (find (\<lambda>x. fd_dimension_id x = dim \<and> fd_facet_id x = facet) (dd_descriptions d))"

section \<open>Construction\<close>

definition matrix_new :: "('f, 'd) f32_ops \<Rightarrow> dimension list \<Rightarrow> u64 \<Rightarrow> 'f exploration_matrix" where
  "matrix_new ops dimensions theses_per_cell =
     \<lparr>em_dimensions = dimensions, em_theses_per_cell = max theses_per_cell 1, em_profiles = [],
      em_default_profile = default_temperature_profile ops\<rparr>"

definition from_spec :: "('f, 'd) f32_ops \<Rightarrow> matrix_spec \<Rightarrow> u64 \<Rightarrow> 'f exploration_matrix" where
  "from_spec ops spec tpc = matrix_new ops (into_dimensions spec) tpc"

definition from_sidecar :: "('f, 'd) f32_ops \<Rightarrow> discovery_dimensions \<Rightarrow> u64 \<Rightarrow> 'f exploration_matrix" where
  "from_sidecar ops sidecar tpc = matrix_new ops (dd_dimensions sidecar) tpc"

text \<open>The sidecar as read: absent, unreadable with an error's text, or its content.\<close>

definition load_or_derive ::
  "('f, 'd) f32_ops \<Rightarrow> (string + discovery_dimensions) option \<Rightarrow> u64 \<Rightarrow> 'f exploration_matrix option result"
where
  "load_or_derive ops file tpc =
     (case file of
        None \<Rightarrow> Inr None
      | Some (Inl e) \<Rightarrow> Inl (Err_InvalidState (''discovery_dimensions.json malformed: '' @ e))
      | Some (Inr sidecar) \<Rightarrow> Inr (Some (from_sidecar ops sidecar tpc)))"

section \<open>Providers and their profiles\<close>

definition registry_key :: "string \<Rightarrow> string \<Rightarrow> string" where
  "registry_key sect model = sect @ ''::'' @ model"

definition profile_for :: "string \<Rightarrow> 'f exploration_matrix \<Rightarrow> 'f temperature_profile" where
  "profile_for model m =
     (case map_of (em_profiles m) model of Some p \<Rightarrow> p | None \<Rightarrow> em_default_profile m)"

definition profile_for_pair :: "string \<Rightarrow> string \<Rightarrow> 'f exploration_matrix \<Rightarrow> 'f temperature_profile" where
  "profile_for_pair sect model m =
     (case map_of (em_profiles m) (registry_key sect model) of Some p \<Rightarrow> p | None \<Rightarrow> em_default_profile m)"

definition split_key :: "string \<Rightarrow> string \<Rightarrow> string \<times> string" where
  "split_key default_section key =
     (case split_once ''::'' key of Some (sec, mdl) \<Rightarrow> (sec, mdl) | None \<Rightarrow> (default_section, key))"

definition active_provider_profiles ::
  "string \<Rightarrow> string \<Rightarrow> 'f exploration_matrix \<Rightarrow> (string \<times> string \<times> 'f temperature_profile) list"
where
  "active_provider_profiles default_section default_model m =
     (let by_pair = fold (\<lambda>(key, profile) t. bt_insert (split_key default_section key) profile t) (em_profiles m) [];
          by_pair = bt_or_insert (default_section, default_model) (em_default_profile m) by_pair
      in map (\<lambda>(k, v). (fst k, snd k, v)) by_pair)"

text \<open>One entry of the migration loop: the count, the insertions and the removals so far.\<close>

definition migrate_entry ::
  "string \<Rightarrow> string \<Rightarrow> (string, 'f temperature_profile) hash_map \<Rightarrow> string \<times> 'f temperature_profile
     \<Rightarrow> nat \<times> (string \<times> 'f temperature_profile) list \<times> string list
     \<Rightarrow> nat \<times> (string \<times> 'f temperature_profile) list \<times> string list"
where
  "migrate_entry default_section default_model table = (\<lambda>(key, profile) (rewritten, to_insert, to_remove).
     (if contains ''::'' key then (rewritten, to_insert, to_remove)
      else if key \<noteq> default_model then (rewritten, to_insert, to_remove)
      else let joined = registry_key default_section key in
        if joined = key then (rewritten, to_insert, to_remove)
        else if map_of table joined \<noteq> None then (rewritten + 1, to_insert, to_remove @ [key])
        else (rewritten + 1, to_insert @ [(joined, profile)], to_remove @ [key])))"

definition migrate_legacy_keys :: "string \<Rightarrow> string \<Rightarrow> 'f exploration_matrix \<Rightarrow> 'f exploration_matrix \<times> nat" where
  "migrate_legacy_keys default_section default_model m =
     (case fold (migrate_entry default_section default_model (em_profiles m)) (em_profiles m) (0, [], []) of
        (rewritten, to_insert, to_remove) \<Rightarrow>
          (m\<lparr>em_profiles := fold AList.delete to_remove
                (fold (\<lambda>(k, v). AList.update k v) to_insert (em_profiles m))\<rparr>, rewritten))"

section \<open>Snapping temperatures\<close>

text \<open>\<open>src/llm/temperature_probe.rs\<close>: the nearest candidate, the first of equally near ones.\<close>

definition nearest_in_set :: "('f, 'd) f32_ops \<Rightarrow> 'f list \<Rightarrow> 'f \<Rightarrow> 'f option" where
  "nearest_in_set ops candidates requested =
     map_option fst
       (fold (\<lambda>(idx, c) best.
          let dist = fo_distance ops c requested in
          case best of
            None \<Rightarrow> Some (c, dist, idx)
          | Some (_, best_dist, best_idx) \<Rightarrow>
              if fo_less ops dist best_dist \<or> (fo_equal ops dist best_dist \<and> idx < best_idx)
              then Some (c, dist, idx) else best)
        (enumerate 0 candidates) None)"

definition rewrite_one ::
  "('f, 'd) f32_ops \<Rightarrow> string \<times> 'f list \<Rightarrow> 'f exploration_matrix \<times> 'f rewrite_event list
     \<Rightarrow> 'f exploration_matrix \<times> 'f rewrite_event list"
where
  "rewrite_one ops = (\<lambda>(model, supported) (m, events).
     (case map_of (em_profiles m) model of
        None \<Rightarrow> (m, events)
      | Some profile \<Rightarrow>
          (let requested = tp_temperatures profile;
               rewritten = map (\<lambda>t. case nearest_in_set ops supported t of Some x \<Rightarrow> x | None \<Rightarrow> t) requested;
               n_clamped = length (filter (\<lambda>(a, b). fo_above_threshold ops (fo_distance ops a b)) (zip requested rewritten));
               unique = count_unique ops rewritten
           in if n_clamped = 0 then (m, events)
              else (m\<lparr>em_profiles := AList.update model (profile\<lparr>tp_temperatures := rewritten\<rparr>) (em_profiles m)\<rparr>,
                    events @ [\<lparr>re_provider_model = model, re_requested = requested, re_clamped_to = rewritten,
                      re_n_clamped = n_clamped, re_original_count = length requested, re_unique_count = unique,
                      re_dropped_count = length requested - unique,
                      re_effective_fanout = sat_mul (tp_replicas profile) (of_nat unique)\<rparr>]))))"

definition rewrite_temperatures_to_supported ::
  "('f, 'd) f32_ops \<Rightarrow> (string, 'f list) hash_map \<Rightarrow> 'f exploration_matrix
     \<Rightarrow> 'f exploration_matrix \<times> 'f rewrite_event list"
where
  "rewrite_temperatures_to_supported ops supported_sets m = fold (rewrite_one ops) supported_sets (m, [])"

section \<open>Cells\<close>

definition matrix_cells :: "'f exploration_matrix \<Rightarrow> u64" where
  "matrix_cells m =
     (if em_dimensions m = [] then 0
      else of_nat (sum_list (map (\<lambda>d. max (length (dm_facets d)) 1) (em_dimensions m))))"

definition cardinality :: "'f exploration_matrix \<Rightarrow> u64" where
  "cardinality m = matrix_cells m * em_theses_per_cell m"

definition dimension_cells :: "dimension \<Rightarrow> matrix_cell list" where
  "dimension_cells d =
     map (\<lambda>f. \<lparr>mc_dimension_id = dm_id d, mc_facet_id = fc_id f, mc_label = dm_label d @ '' / '' @ fc_label f\<rparr>)
       (dm_facets d)"

definition iter_cells :: "'f exploration_matrix \<Rightarrow> matrix_cell list" where
  "iter_cells m = concat (map dimension_cells (em_dimensions m))"

definition find_dimension :: "string \<Rightarrow> 'f exploration_matrix \<Rightarrow> dimension option" where
  "find_dimension wanted m = find (\<lambda>d. dm_id d = wanted) (em_dimensions m)"

definition tally :: "'f exploration_matrix \<Rightarrow> (string, nat) btree_map" where
  "tally m = fold (\<lambda>d t. bt_insert (dm_id d) (length (dm_facets d)) t) (em_dimensions m) []"

section \<open>Counting cells\<close>

lemma length_iter_cells: "length (iter_cells m) = sum_list (map (\<lambda>d. length (dm_facets d)) (em_dimensions m))"
  by (simp add: iter_cells_def length_concat dimension_cells_def comp_def)

lemma sum_max_facets:
  "sum_list (map (\<lambda>d. max (length (dm_facets d)) 1) ds) =
     sum_list (map (\<lambda>d. length (dm_facets d)) ds) + length (filter (\<lambda>d. dm_facets d = []) ds)"
proof (induction ds)
  case (Cons d ds)
  then show ?case by (cases "dm_facets d") simp_all
qed simp

text \<open>The cell count of a matrix is not the number of cells it iterates over: it is higher by one
  for every dimension without facets. They agree exactly when every dimension has a facet,
  as every parsed specification guarantees.\<close>

lemma cells_count_empty_dimensions:
  "matrix_cells m = of_nat (length (iter_cells m) + length (filter (\<lambda>d. dm_facets d = []) (em_dimensions m)))"
  unfolding matrix_cells_def sum_max_facets length_iter_cells by simp

section \<open>Migrating legacy keys\<close>

lemma migrate_entries_none:
  assumes "default_model \<notin> fst ` set es \<or> contains ''::'' default_model"
  shows "fold (migrate_entry ds default_model table) es acc = acc"
  using assms
proof (induction es arbitrary: acc)
  case (Cons e es)
  have "migrate_entry ds default_model table e acc = acc"
    using Cons.prems by (cases e; cases acc) (auto simp: migrate_entry_def)
  moreover have "default_model \<notin> fst ` set es \<or> contains ''::'' default_model" using Cons.prems by auto
  ultimately show ?case using Cons.IH by simp
qed simp

lemma joined_not_key [simp]: "registry_key ds k \<noteq> k"
proof
  assume "registry_key ds k = k"
  then have "length (registry_key ds k) = length k" by simp
  then show False by (simp add: registry_key_def)
qed

lemma registry_key_colons [simp]: "contains ''::'' (registry_key s x)"
  unfolding contains_sublist registry_key_def by (rule sublist_appendI)

text \<open>The migration with its loop resolved: at most one entry can be the legacy key.\<close>

lemma migrate_outcome:
  assumes "distinct (map fst (em_profiles m))"
  shows "migrate_legacy_keys ds dm m =
    (case map_of (em_profiles m) dm of
       None \<Rightarrow> (m, 0)
     | Some p \<Rightarrow>
         (if contains ''::'' dm then (m, 0)
          else (m\<lparr>em_profiles := AList.delete dm
                  (if map_of (em_profiles m) (registry_key ds dm) = None
                   then AList.update (registry_key ds dm) p (em_profiles m) else em_profiles m)\<rparr>, 1)))"
proof (cases "map_of (em_profiles m) dm")
  case None
  then have "dm \<notin> fst ` set (em_profiles m)" by (simp add: map_of_eq_None_iff)
  then show ?thesis using None by (simp add: migrate_legacy_keys_def migrate_entries_none)
next
  case (Some p)
  show ?thesis
  proof (cases "contains ''::'' dm")
    case True
    then show ?thesis using Some by (simp add: migrate_legacy_keys_def migrate_entries_none)
  next
    case False
    from Some obtain a b where ab: "em_profiles m = a @ (dm, p) # b"
      by (meson map_of_SomeD split_list)
    then have "dm \<notin> fst ` set a" "dm \<notin> fst ` set b" using assms by auto
    then have f: "fold (migrate_entry ds dm (em_profiles m)) (em_profiles m) acc
        = migrate_entry ds dm (em_profiles m) (dm, p) acc" for acc
      by (subst (2) ab) (simp add: migrate_entries_none)
    show ?thesis
      using Some False unfolding migrate_legacy_keys_def f
      by (auto simp: migrate_entry_def Let_def split: option.splits)
  qed
qed

lemma migrate_distinct:
  "distinct (map fst (em_profiles m)) \<Longrightarrow> distinct (map fst (em_profiles (fst (migrate_legacy_keys ds dm m))))"
  by (simp add: migrate_outcome distinct_update distinct_delete split: option.splits)

lemma map_of_migrate:
  assumes "distinct (map fst (em_profiles m))"
  shows "map_of (em_profiles (fst (migrate_legacy_keys ds dm m))) k =
    (if contains ''::'' dm \<or> map_of (em_profiles m) dm = None then map_of (em_profiles m) k
     else if k = dm then None
     else if k = registry_key ds dm \<and> map_of (em_profiles m) k = None then map_of (em_profiles m) dm
     else map_of (em_profiles m) k)"
  using assms by (auto simp: migrate_outcome delete_conv' update_conv' split: option.splits)

lemma pair_key_not_legacy: "\<not> contains ''::'' dm \<Longrightarrow> registry_key s x \<noteq> dm"
  using registry_key_colons by metis

text \<open>Migrating the legacy key of the default model moves its profile and touches nothing
  else: afterwards the default pair has the profile it was given under its joined key, else
  the one of the legacy key, else the default; every other pair keeps its profile; at most
  one key is rewritten, and migrating again rewrites none.\<close>

lemma migration_moves_one_profile:
  assumes "distinct (map fst (em_profiles m))" and "\<not> contains ''::'' dm"
    and "migrate_legacy_keys ds dm m = (m', n)"
  shows "profile_for_pair ds dm m' =
      (case map_of (em_profiles m) (registry_key ds dm) of Some p \<Rightarrow> p | None \<Rightarrow> profile_for dm m) \<and>
    (\<forall>s x. registry_key s x \<noteq> registry_key ds dm \<longrightarrow> profile_for_pair s x m' = profile_for_pair s x m) \<and>
    n \<le> 1 \<and> migrate_legacy_keys ds dm m' = (m', 0)"
proof -
  have m': "m' = fst (migrate_legacy_keys ds dm m)" using assms(3) by simp
  have d: "em_default_profile m' = em_default_profile m"
    using assms(1) by (auto simp: m' migrate_outcome split: option.splits)
  have "profile_for_pair ds dm m' =
      (case map_of (em_profiles m) (registry_key ds dm) of Some p \<Rightarrow> p | None \<Rightarrow> profile_for dm m)"
    using assms(2) d unfolding profile_for_pair_def profile_for_def m' map_of_migrate [OF assms(1)]
    by (auto simp: pair_key_not_legacy split: option.splits)
  moreover have "profile_for_pair s x m' = profile_for_pair s x m" if "registry_key s x \<noteq> registry_key ds dm" for s x
    using assms(2) d that unfolding profile_for_pair_def m' map_of_migrate [OF assms(1)]
    by (auto simp: pair_key_not_legacy split: option.splits)
  moreover have "map_of (em_profiles m') dm = None"
    unfolding m' map_of_migrate [OF assms(1)] using assms(2) by (cases "map_of (em_profiles m) dm") auto
  then have "migrate_legacy_keys ds dm m' = (m', 0)"
    using migrate_outcome [OF migrate_distinct [OF assms(1)], of ds dm] m' by auto
  moreover have "n \<le> 1" using assms(3) unfolding migrate_outcome [OF assms(1)] by (auto split: option.splits if_splits)
  ultimately show ?thesis by blast
qed

section \<open>The pairs of the fan-out\<close>

lemma find_colons: "CHR '':'' \<notin> set p \<Longrightarrow> find_str ''::'' (p @ ''::'' @ s) = Some (length p)"
  by (induction p) auto

lemma split_registry_key: "CHR '':'' \<notin> set s \<Longrightarrow> split_key ds (registry_key s x) = (s, x)"
  using find_colons [of s x] by (simp add: split_key_def split_once_def registry_key_def)

lemma split_key_joins: "contains ''::'' k \<Longrightarrow> registry_key (fst (split_key ds k)) (snd (split_key ds k)) = k"
proof -
  assume "contains ''::'' k"
  then obtain i where i: "find_str ''::'' k = Some i" by (auto simp: contains_def)
  then have "take 2 (drop i k) = ''::''" using find_str_Some [OF i] by (auto simp: prefix_def)
  then have "take i k @ ''::'' @ drop (i + 2) k = k"
    by (metis append_take_drop_id drop_drop add.commute)
  then show ?thesis by (simp add: split_key_def split_once_def i registry_key_def)
qed

lemma active_table:
  "bt_wf (fold (\<lambda>(key, profile) t. bt_insert (split_key ds key) profile t) ps [])"
  "map_of (fold (\<lambda>(key, profile) t. bt_insert (split_key ds key) profile t) ps []) =
     map_of (rev (map (\<lambda>(k, v). (split_key ds k, v)) ps))"
  using fold_bt_insert [of "[]" "split_key ds" ps] by simp_all

lemma active_member:
  "(s, x, p) \<in> set (active_provider_profiles ds dm m) \<longleftrightarrow>
     map_of (rev (map (\<lambda>(k, v). (split_key ds k, v)) (em_profiles m))) (s, x) = Some p \<or>
     (s, x) = (ds, dm) \<and> p = em_default_profile m \<and>
       map_of (rev (map (\<lambda>(k, v). (split_key ds k, v)) (em_profiles m))) (s, x) = None"
proof -
  let ?t = "fold (\<lambda>(key, profile) t. bt_insert (split_key ds key) profile t) (em_profiles m) []"
  let ?u = "bt_or_insert (ds, dm) (em_default_profile m) ?t"
  have u: "bt_wf ?u" using active_table(1) by (rule bt_or_insert_wf)
  have "(s, x, p) \<in> set (active_provider_profiles ds dm m) \<longleftrightarrow> ((s, x), p) \<in> set ?u"
    by (force simp: active_provider_profiles_def Let_def image_iff)
  then show ?thesis
    unfolding bt_mem [OF u] map_of_bt_or_insert [OF active_table(1)] active_table(2) by auto
qed

lemma active_pairs_distinct: "distinct (map (\<lambda>(s, x, _). (s, x)) (active_provider_profiles ds dm m))"
proof -
  let ?t = "fold (\<lambda>(key, profile) t. bt_insert (split_key ds key) profile t) (em_profiles m) []"
  have "distinct (map fst (bt_or_insert (ds, dm) (em_default_profile m) ?t))"
    by (intro bt_wf_distinct bt_or_insert_wf active_table(1))
  then show ?thesis
    by (simp add: active_provider_profiles_def Let_def comp_def case_prod_unfold)
qed

lemma split_keys_lookup:
  assumes "distinct (map fst ps)" "\<And>k. k \<in> fst ` set ps \<Longrightarrow> contains ''::'' k" "k \<in> fst ` set ps"
  shows "map_of (rev (map (\<lambda>(k, v). (split_key ds k, v)) ps)) (split_key ds k) = map_of ps k"
proof -
  let ?ps = "map (\<lambda>(k, v). (split_key ds k, v)) ps"
  have "inj_on (split_key ds) (fst ` set ps)" by (rule inj_onI) (metis assms(2) split_key_joins)
  then have d: "distinct (map fst (rev ?ps))"
    using assms(1) by (simp add: rev_map [symmetric] comp_def case_prod_unfold distinct_map inj_on_def)
  from assms(3) obtain v where v: "(k, v) \<in> set ps" by auto
  then have "(split_key ds k, v) \<in> set (rev ?ps)" by force
  then show ?thesis using map_of_is_SomeI [OF d] map_of_is_SomeI [OF assms(1) v] by simp
qed

lemma split_keys_Some:
  assumes "distinct (map fst (em_profiles m))" "\<And>k. k \<in> fst ` set (em_profiles m) \<Longrightarrow> contains ''::'' k"
  shows "map_of (rev (map (\<lambda>(k, v). (split_key ds k, v)) (em_profiles m))) (s, x) = Some p \<longleftrightarrow>
      (s, x) \<in> split_key ds ` fst ` set (em_profiles m) \<and> p = profile_for_pair s x m"
    (is "?look = _ \<longleftrightarrow> ?in \<and> _")
proof -
  have resolve: "?look = Some (profile_for_pair s x m)" if k: "k \<in> fst ` set (em_profiles m)" "split_key ds k = (s, x)" for k
  proof -
    have "registry_key s x = k" using split_key_joins [of k ds] assms(2) [OF k(1)] k(2) by simp
    moreover have "?look = map_of (em_profiles m) k" using split_keys_lookup [OF assms k(1), of ds] k(2) by simp
    moreover obtain v where "map_of (em_profiles m) k = Some v"
      using k(1) by (metis map_of_eq_None_iff not_None_eq)
    ultimately show ?thesis by (simp add: profile_for_pair_def)
  qed
  show ?thesis
  proof
    assume p: "?look = Some p"
    from map_of_SomeD [OF p] obtain k where k: "k \<in> fst ` set (em_profiles m)" "split_key ds k = (s, x)" by force
    with resolve [OF k] p show "?in \<and> p = profile_for_pair s x m" by force
  next
    assume r: "?in \<and> p = profile_for_pair s x m"
    then obtain k where k: "k \<in> fst ` set (em_profiles m)" "(s, x) = split_key ds k" by (elim conjE imageE) blast
    from resolve [OF k(1) k(2) [symmetric]] r show "?look = Some p" by simp
  qed
qed

lemma default_pair_unlisted:
  assumes "distinct (map fst (em_profiles m))" "\<And>k. k \<in> fst ` set (em_profiles m) \<Longrightarrow> contains ''::'' k"
    and "CHR '':'' \<notin> set ds"
    and "map_of (rev (map (\<lambda>(k, v). (split_key ds k, v)) (em_profiles m))) (ds, dm) = None"
  shows "profile_for_pair ds dm m = em_default_profile m"
proof -
  have "registry_key ds dm \<notin> fst ` set (em_profiles m)"
  proof
    assume k: "registry_key ds dm \<in> fst ` set (em_profiles m)"
    then have "map_of (em_profiles m) (registry_key ds dm) = None"
      using split_keys_lookup [OF assms(1,2) k, of ds] split_registry_key [OF assms(3), of ds dm] assms(4) by simp
    with k show False by (simp add: map_of_eq_None_iff)
  qed
  then have "map_of (em_profiles m) (registry_key ds dm) = None" by (simp add: map_of_eq_None_iff)
  then show ?thesis by (simp add: profile_for_pair_def)
qed

text \<open>The fan-out calls every configured pair once, with its own profile. When no legacy key is
  left, the pairs of a matrix are the default pair and those of its profile table, none
  twice, and each comes with the profile that looking the pair up gives.\<close>

lemma active_pairs_resolve:
  assumes "distinct (map fst (em_profiles m))" and "\<And>k. k \<in> fst ` set (em_profiles m) \<Longrightarrow> contains ''::'' k"
    and "CHR '':'' \<notin> set ds"
  shows "distinct (map (\<lambda>(s, x, _). (s, x)) (active_provider_profiles ds dm m)) \<and>
    (\<forall>s x p. (s, x, p) \<in> set (active_provider_profiles ds dm m) \<longleftrightarrow>
       p = profile_for_pair s x m \<and>
       ((s, x) = (ds, dm) \<or> (s, x) \<in> split_key ds ` fst ` set (em_profiles m)))"
proof -
  have "(s, x, p) \<in> set (active_provider_profiles ds dm m) \<longleftrightarrow>
       p = profile_for_pair s x m \<and> ((s, x) = (ds, dm) \<or> (s, x) \<in> split_key ds ` fst ` set (em_profiles m))" for s x p
  proof (cases "map_of (rev (map (\<lambda>(k, v). (split_key ds k, v)) (em_profiles m))) (s, x)")
    case None
    then have "(s, x) \<notin> split_key ds ` fst ` set (em_profiles m)"
      using split_keys_Some [OF assms(1,2), of ds s x "profile_for_pair s x m"] by simp
    then show ?thesis
      unfolding active_member using None default_pair_unlisted [OF assms, of dm] by auto
  next
    case (Some v)
    with split_keys_Some [OF assms(1,2), of ds s x v]
    have v: "(s, x) \<in> split_key ds ` fst ` set (em_profiles m)" "profile_for_pair s x m = v" by blast+
    have "(s, x, p) \<in> set (active_provider_profiles ds dm m) \<longleftrightarrow> v = p"
      by (simp only: active_member Some option.inject option.distinct simp_thms)
    then show ?thesis by (simp only: v simp_thms) (rule eq_commute)
  qed
  then show ?thesis by (intro conjI allI active_pairs_distinct)
qed

text \<open>With a legacy key and its joined key both in the table, the profile the fan-out uses for the
  default pair is the one the hash map happens to yield last.\<close>

lemma legacy_key_order_matters:
  assumes "CHR '':'' \<notin> set ds" and "\<not> contains ''::'' dm"
  shows "(ds, dm, q) \<in> set (active_provider_profiles ds dm (m\<lparr>em_profiles := [(dm, p), (registry_key ds dm, q)]\<rparr>)) \<and>
    (ds, dm, p) \<in> set (active_provider_profiles ds dm (m\<lparr>em_profiles := [(registry_key ds dm, q), (dm, p)]\<rparr>))"
proof -
  have "split_key ds dm = (ds, dm)" using assms(2) by (simp add: split_key_def split_once_def contains_def)
  then show ?thesis using split_registry_key [OF assms(1)] by (simp add: active_member)
qed

section \<open>Witnesses\<close>

definition demo_profile :: "nat list \<Rightarrow> nat temperature_profile" where
  "demo_profile ts = \<lparr>tp_temperatures = ts, tp_replicas = 1\<rparr>"

definition demo_matrix :: "(string, nat temperature_profile) hash_map \<Rightarrow> nat exploration_matrix" where
  "demo_matrix ps = \<lparr>em_dimensions = [], em_theses_per_cell = 1, em_profiles = ps,
     em_default_profile = demo_profile [10]\<rparr>"

end
