(* ===== verification/Thesis_Fanout.thy ===== *)
theory Thesis_Fanout imports Matrix Decimal begin

text \<open>
  The thesis fan-out of a discover run: \<open>src/phases/discover_theses.rs\<close>, the retry of one
  point in \<open>src/discovery/thesis_retry.rs\<close>, the records of \<open>src/domain/mod.rs\<close> and the
  reading back of the files in \<open>src/phases/discover_render.rs\<close>. A directory is the map from
  file names to what reading the file as a thesis gives. The model's answers to the
  attempts of a point, decoded, are a function of the attempt; points finish in any order.
\<close>

section \<open>Data\<close>

record 'f thesis_provenance =
  pv_section :: string
  pv_model :: string
  pv_temperature :: 'f
  pv_replica :: nat
  pv_index :: nat
  pv_source_run :: "string option"
  pv_source_thesis :: "string option"

record 'f thesis =
  th_id :: string
  th_claim :: string
  th_key_decisions :: "string list"
  th_architecture_outline :: string
  th_assumptions :: "string list"
  th_strengths :: "string list"
  th_weaknesses :: "string list"
  th_hard_constraint_check :: "(string, bool) btree_map"
  th_expected_validation :: string
  th_angle :: string
  th_provenance :: "'f thesis_provenance option"

record 'f fanout_point =
  fp_n :: nat
  fp_section :: string
  fp_model :: string
  fp_cell :: matrix_cell
  fp_temperature :: 'f
  fp_replica :: nat
  fp_index :: nat

datatype 'f point_outcome = Accepted "'f thesis" | Rejected nat | Failed error

type_synonym 'f thesis_dir = "(string, 'f thesis result) btree_map"

section \<open>Points\<close>

text \<open>\<open>{:04}\<close>.\<close>

definition pad4 :: "nat \<Rightarrow> string" where
  "pad4 n = replicate (4 - length (show_nat n)) (CHR ''0'') @ show_nat n"

definition point_thesis_id :: "'f fanout_point \<Rightarrow> string" where
  "point_thesis_id p = ''th_'' @ pad4 (fp_n p)"

definition thesis_path :: "'f fanout_point \<Rightarrow> string" where
  "thesis_path p = point_thesis_id p @ ''.json''"

definition fanout ::
  "(string \<times> string \<times> 'f temperature_profile) list \<Rightarrow> matrix_cell list \<Rightarrow> u64 \<Rightarrow> 'f fanout_point list"
where
  "fanout pairs cells theses_per_cell =
     map (\<lambda>(n, sec, model, cell, temperature, replica, index).
           \<lparr>fp_n = n, fp_section = sec, fp_model = model, fp_cell = cell, fp_temperature = temperature,
            fp_replica = replica, fp_index = index\<rparr>)
       (enumerate 0
          [(sec, model, cell, temperature, replica, index).
             (sec, model, profile) \<leftarrow> pairs, cell \<leftarrow> cells, temperature \<leftarrow> tp_temperatures profile,
             replica \<leftarrow> [0..<unat (max (tp_replicas profile) 1)], index \<leftarrow> [0..<unat (max theses_per_cell 1)]])"

definition pending :: "'f fanout_point list \<Rightarrow> 'f thesis_dir \<Rightarrow> 'f fanout_point list" where
  "pending points dir = filter (\<lambda>p. map_of dir (thesis_path p) = None) points"

section \<open>One point\<close>

definition min_claim_len :: nat where
  "min_claim_len = 30"

definition thesis_retries :: u32 where
  "thesis_retries = 2"

definition classify :: "'f thesis result \<Rightarrow> 'f point_outcome" where
  "classify r =
     (case r of
        Inl e \<Rightarrow> Failed e
      | Inr t \<Rightarrow> (let claim_len = length (trim (th_claim t))
                  in if claim_len < min_claim_len then Rejected claim_len else Accepted t))"

definition gate_short_claim :: "'f thesis \<Rightarrow> u32 \<Rightarrow> 'f thesis result" where
  "gate_short_claim t attempt =
     (let claim_len = length (trim (th_claim t))
      in if claim_len < min_claim_len \<and> attempt < thesis_retries
         then Inl (Err_SchemaViolation (''thesis claim too short: '' @ show_nat claim_len @ '' bytes, at least ''
                @ show_nat min_claim_len @ '' expected''))
         else Inr t)"

text \<open>The result and the waits, in milliseconds, between the attempts.\<close>

function retry_thesis_extraction :: "u32 \<Rightarrow> u32 \<Rightarrow> (u32 \<Rightarrow> 'a result) \<Rightarrow> 'a result \<times> u64 list" where
  "retry_thesis_extraction max_retries attempt op =
     (case op attempt of
        Inr v \<Rightarrow> (Inr v, [])
      | Inl e \<Rightarrow>
          (if max_retries \<le> attempt then (Inl e, [])
           else let attempt' = sat_add attempt 1;
                    backoff_ms = sat_mul 100 (push_bit (unat (min attempt' 20)) 1)
                in case retry_thesis_extraction max_retries attempt' op of (r, waits) \<Rightarrow> (r, backoff_ms # waits)))"
  by pat_completeness auto
termination
proof (relation "measure (\<lambda>(m, a, op). unat m - unat a)")
  fix max_retries attempt attempt' :: u32
  assume "\<not> max_retries \<le> attempt" and a': "attempt' = sat_add attempt 1"
  then have "unat attempt < unat max_retries" by (simp add: word_le_nat_alt)
  moreover have "unat attempt' = unat attempt + 1"
    using calculation unat_le_max [of max_retries] unfolding a' by (simp add: unat_sat_add)
  ultimately show "((max_retries, attempt', op), max_retries, attempt, op) \<in> measure (\<lambda>(m, a, op). unat m - unat a)"
    for op :: "u32 \<Rightarrow> 'a result" by simp
qed simp

declare retry_thesis_extraction.simps [simp del]

definition stamp :: "'f fanout_point \<Rightarrow> 'f thesis \<Rightarrow> 'f thesis" where
  "stamp point t = t\<lparr>th_id := point_thesis_id point,
     th_angle := mc_dimension_id (fp_cell point) @ '':'' @ mc_facet_id (fp_cell point),
     th_provenance := Some \<lparr>pv_section = fp_section point, pv_model = fp_model point,
       pv_temperature = fp_temperature point, pv_replica = fp_replica point, pv_index = fp_index point,
       pv_source_run = None, pv_source_thesis = None\<rparr>\<rparr>"

text \<open>\<open>answers k\<close> is the decoded answer of attempt \<open>k\<close>; \<open>cancelled\<close> the error of a cancelled run.\<close>

definition generate_thesis :: "error option \<Rightarrow> (u32 \<Rightarrow> 'f thesis result) \<Rightarrow> 'f fanout_point \<Rightarrow> 'f thesis result" where
  "generate_thesis cancelled answers point =
     (case cancelled of
        Some e \<Rightarrow> Inl e
      | None \<Rightarrow>
          fst (retry_thesis_extraction thesis_retries 0
            (\<lambda>this_attempt. rbind (answers this_attempt)
               (\<lambda>parsed. rbind (gate_short_claim parsed this_attempt) (\<lambda>t. Inr (stamp point t))))))"

section \<open>The phase\<close>

text \<open>One finished task: an accepted thesis is written, unless the write fails.\<close>

definition finish_point :: "bool \<Rightarrow> 'f fanout_point \<Rightarrow> 'f point_outcome \<Rightarrow> 'f thesis_dir \<Rightarrow> 'f thesis_dir" where
  "finish_point write_ok point outcome dir =
     (case outcome of
        Accepted t \<Rightarrow> if write_ok then bt_insert (thesis_path point) (Inr t) dir else dir
      | Rejected _ \<Rightarrow> dir
      | Failed _ \<Rightarrow> dir)"

section \<open>Reading the theses back\<close>

text \<open>The names \<open>primary_json_paths\<close> keeps: extension \<open>json\<close>, not a sidecar.\<close>

definition is_primary_json :: "string \<Rightarrow> bool" where
  "is_primary_json name \<longleftrightarrow> suffix ''.json'' name \<and> name \<noteq> ''.json'' \<and> \<not> suffix ''.meta.json'' name"

definition file_stem :: "string \<Rightarrow> string" where
  "file_stem name = take (length name - 5) name"

fun read_theses :: "'f thesis_dir \<Rightarrow> 'f thesis list result" where
  "read_theses [] = Inr []"
| "read_theses ((name, content) # dir) =
     rbind content (\<lambda>t. rbind (read_theses dir)
       (\<lambda>ts. Inr ((if th_id t = [] then t\<lparr>th_id := file_stem name\<rparr> else t) # ts)))"

definition load_theses :: "'f thesis_dir \<Rightarrow> 'f thesis list result" where
  "load_theses dir = read_theses (filter (\<lambda>(name, _). is_primary_json name) dir)"

section \<open>Runs\<close>

text \<open>
  One run of the phase over a directory: its finished tasks in the order in which they
  finish, each with its point, whether the run was cancelled when it started, the answers
  it got and whether its file could be written. A run starts tasks for pending points only,
  one each; a cancelled run just has fewer of them.
\<close>

type_synonym 'f task = "'f fanout_point \<times> error option \<times> (u32 \<Rightarrow> 'f thesis result) \<times> bool"

definition finish_task :: "'f task \<Rightarrow> 'f thesis_dir \<Rightarrow> 'f thesis_dir" where
  "finish_task = (\<lambda>(point, cancelled, answers, write_ok) dir.
     finish_point write_ok point (classify (generate_thesis cancelled answers point)) dir)"

definition run_tasks :: "'f task list \<Rightarrow> 'f thesis_dir \<Rightarrow> 'f thesis_dir" where
  "run_tasks tasks dir = fold finish_task tasks dir"

inductive discover_reachable :: "'f fanout_point list \<Rightarrow> 'f thesis_dir \<Rightarrow> 'f thesis_dir \<Rightarrow> bool" for points where
  start: "discover_reachable points dir dir"
| run: "discover_reachable points dir0 dir \<Longrightarrow> set (map fst tasks) \<subseteq> set (pending points dir) \<Longrightarrow>
     distinct (map fst tasks) \<Longrightarrow> discover_reachable points dir0 (run_tasks tasks dir)"

section \<open>The numbering of the points\<close>

lemma parse_digits_zeros: "0 < lim \<Longrightarrow> parse_digits lim 0 (replicate k (CHR ''0'') @ s) = parse_digits lim 0 s"
proof (induction k)
  case (Suc k)
  have "digit_val (CHR ''0'') = Some 0" by code_simp
  then show ?case using Suc by simp
qed simp

lemma parse_pad4: "n < lim \<Longrightarrow> parse_digits lim 0 (pad4 n) = Inr n"
  by (simp add: pad4_def parse_digits_zeros parse_digits_show)

lemma pad4_inj: "pad4 m = pad4 n \<Longrightarrow> m = n"
  using parse_pad4 [of m "m + n + 1"] parse_pad4 [of n "m + n + 1"] by simp

lemma thesis_path_inj: "thesis_path p = thesis_path q \<longleftrightarrow> fp_n p = fp_n q"
  by (auto simp: thesis_path_def point_thesis_id_def dest: pad4_inj)

lemma fanout_numbers: "map fp_n (fanout pairs cells tpc) = [0..<length (fanout pairs cells tpc)]"
  by (simp add: fanout_def comp_def case_prod_unfold enumerate_eq_zip)

lemma distinct_paths: "distinct (map thesis_path (fanout pairs cells tpc))"
proof -
  have "distinct (map fp_n (fanout pairs cells tpc))" unfolding fanout_numbers by simp
  then show ?thesis by (auto simp: distinct_map inj_on_def thesis_path_inj)
qed

lemma sum_replicate: "sum_list (map (\<lambda>_. k) xs) = length xs * (k :: nat)"
  by (induction xs) auto

text \<open>The fan-out is complete and numbered without gaps. It has, for every pair, one point per
  cell, temperature, replica and thesis (no count below one), point \<open>n\<close> is the \<open>n\<close>-th of
  the list, and no two points share a thesis file.\<close>

lemma fanout_numbering:
  "length (fanout pairs cells tpc) =
     sum_list (map (\<lambda>(_, _, p). length cells * length (tp_temperatures p) * unat (max (tp_replicas p) 1)
       * unat (max tpc 1)) pairs) \<and>
   map fp_n (fanout pairs cells tpc) = [0..<length (fanout pairs cells tpc)] \<and>
   distinct (map thesis_path (fanout pairs cells tpc))"
  by (simp add: distinct_paths fanout_numbers)
    (simp add: fanout_def length_concat comp_def case_prod_unfold sum_replicate mult.assoc)

section \<open>One point\<close>

definition long_claim :: "'f thesis \<Rightarrow> bool" where
  "long_claim t \<longleftrightarrow> min_claim_len \<le> length (trim (th_claim t))"

text \<open>What the attempts of a point come to.\<close>

lemma generate_outcome:
  "generate_thesis None answers p =
     (case answers 0 of
        Inr t \<Rightarrow> if long_claim t then Inr (stamp p t) else
          (case answers 1 of Inr t \<Rightarrow> if long_claim t then Inr (stamp p t) else map_sum id (stamp p) (answers 2)
           | Inl _ \<Rightarrow> map_sum id (stamp p) (answers 2))
      | Inl _ \<Rightarrow>
          (case answers 1 of Inr t \<Rightarrow> if long_claim t then Inr (stamp p t) else map_sum id (stamp p) (answers 2)
           | Inl _ \<Rightarrow> map_sum id (stamp p) (answers 2)))"
proof -
  let ?op = "\<lambda>k. rbind (answers k) (\<lambda>parsed. rbind (gate_short_claim parsed k) (\<lambda>t. Inr (stamp p t)))"
  let ?retry = "\<lambda>k. retry_thesis_extraction 2 k ?op"
  define err where "err t = Err_SchemaViolation (''thesis claim too short: '' @ show_nat (length (trim (th_claim t)))
    @ '' bytes, at least '' @ show_nat min_claim_len @ '' expected'')" for t :: "'a thesis"
  have gate: "k < 2 \<Longrightarrow> gate_short_claim t k = (if long_claim t then Inr t else Inl (err t))"
      "gate_short_claim t 2 = Inr t" for t :: "'a thesis" and k
    by (simp_all add: gate_short_claim_def long_claim_def thesis_retries_def Let_def err_def)
  have small: "(0 :: u32) < 2" "(1 :: u32) < 2" "\<not> (2 :: u32) \<le> 0" "\<not> (2 :: u32) \<le> 1" "sat_add 0 1 = (1 :: u32)" "sat_add 1 1 = (2 :: u32)"
    by (simp_all add: word_less_nat_alt word_le_nat_alt sat_add_def)
  have two: "fst (?retry 2) = map_sum id (stamp p) (answers 2)"
    by (subst retry_thesis_extraction.simps, cases "answers 2") (simp_all add: gate)
  have one: "fst (?retry 1) = (case answers 1 of Inr t \<Rightarrow> if long_claim t then Inr (stamp p t) else fst (?retry 2)
      | Inl _ \<Rightarrow> fst (?retry 2))"
    by (subst retry_thesis_extraction.simps)
      (simp add: gate small case_prod_unfold Let_def split: sum.split)
  have zero: "fst (?retry 0) = (case answers 0 of Inr t \<Rightarrow> if long_claim t then Inr (stamp p t) else fst (?retry 1)
      | Inl _ \<Rightarrow> fst (?retry 1))"
    by (subst retry_thesis_extraction.simps)
      (simp add: gate small case_prod_unfold Let_def split: sum.split)
  show ?thesis by (simp add: generate_thesis_def thesis_retries_def zero one two split: sum.split)
qed

text \<open>A point is asked at most three times. The first of the first two answers that decodes to a
  thesis with a long enough claim is kept; otherwise whatever the third answer is, which is
  then rejected if its claim is too short.\<close>

lemma generate_three_answers:
  "generate_thesis None answers p =
     (case answers 0 of
        Inr t \<Rightarrow> if long_claim t then Inr (stamp p t) else
          (case answers 1 of Inr t \<Rightarrow> if long_claim t then Inr (stamp p t) else map_sum id (stamp p) (answers 2)
           | Inl _ \<Rightarrow> map_sum id (stamp p) (answers 2))
      | Inl _ \<Rightarrow>
          (case answers 1 of Inr t \<Rightarrow> if long_claim t then Inr (stamp p t) else map_sum id (stamp p) (answers 2)
           | Inl _ \<Rightarrow> map_sum id (stamp p) (answers 2)))"
  by (rule generate_outcome)

section \<open>The directory\<close>

text \<open>A file of the fan-out: the thesis of its point, with a long enough claim.\<close>

definition thesis_of_point :: "'f fanout_point \<Rightarrow> 'f thesis \<Rightarrow> bool" where
  "thesis_of_point p t \<longleftrightarrow> long_claim t \<and> th_id t = point_thesis_id p \<and>
     th_angle t = mc_dimension_id (fp_cell p) @ '':'' @ mc_facet_id (fp_cell p)"

definition dir_ok :: "'f fanout_point list \<Rightarrow> 'f thesis_dir \<Rightarrow> bool" where
  "dir_ok points dir \<longleftrightarrow> bt_wf dir \<and>
     (\<forall>(name, c) \<in> set dir. \<exists>p\<in>set points. name = thesis_path p \<and> (\<exists>t. c = Inr t \<and> thesis_of_point p t))"

lemma stamp_simps [simp]:
  "th_id (stamp p t) = point_thesis_id p" "long_claim (stamp p t) = long_claim t"
  "th_angle (stamp p t) = mc_dimension_id (fp_cell p) @ '':'' @ mc_facet_id (fp_cell p)"
  by (simp_all add: stamp_def long_claim_def)

lemma generate_stamped: "generate_thesis c answers p = Inr t \<Longrightarrow> \<exists>u. t = stamp p u"
proof (cases c)
  case None
  assume "generate_thesis c answers p = Inr t"
  then show ?thesis
    unfolding None generate_outcome by (cases "answers 2") (auto split: sum.splits if_splits)
qed (simp add: generate_thesis_def)

lemma finish_task_cases:
  obtains (same) "finish_task (p, c, answers, w) dir = dir"
  | (written) t where "thesis_of_point p t" "finish_task (p, c, answers, w) dir = bt_insert (thesis_path p) (Inr t) dir"
proof (cases "w \<and> (\<exists>t. classify (generate_thesis c answers p) = Accepted t)")
  case True
  then obtain t where t: "w" "classify (generate_thesis c answers p) = Accepted t" by blast
  then have "generate_thesis c answers p = Inr t" "long_claim t"
    by (auto simp: classify_def long_claim_def Let_def split: sum.splits if_splits)
  then have "thesis_of_point p t" using generate_stamped by (fastforce simp: thesis_of_point_def)
  then show thesis by (rule written) (simp add: t finish_task_def finish_point_def)
next
  case False
  then show thesis by (intro same) (auto simp: finish_task_def finish_point_def split: point_outcome.split)
qed

lemma bt_insert_set: "bt_wf m \<Longrightarrow> set (bt_insert k v m) \<subseteq> insert (k, v) (set m)"
  by (induction k v m rule: bt_insert.induct) (auto simp: bt_wf_def)

lemma finish_task_ok:
  assumes "dir_ok points dir" "fst t \<in> set points"
  shows "dir_ok points (finish_task t dir)"
proof (cases t)
  case (fields p c answers w)
  show ?thesis
  proof (cases p c answers w dir rule: finish_task_cases)
    case same
    with assms fields show ?thesis by simp
  next
    case (written u)
    have "set (bt_insert (thesis_path p) (Inr u) dir) \<subseteq> insert (thesis_path p, Inr u) (set dir)"
      using assms(1) by (intro bt_insert_set) (simp add: dir_ok_def)
    then show ?thesis using assms written fields unfolding dir_ok_def by fastforce
  qed
qed

lemma run_tasks_ok: "dir_ok points dir \<Longrightarrow> fst ` set tasks \<subseteq> set points \<Longrightarrow> dir_ok points (run_tasks tasks dir)"
  by (induction tasks arbitrary: dir) (simp_all add: run_tasks_def finish_task_ok)

lemma finish_task_other: "bt_wf dir \<Longrightarrow> name \<noteq> thesis_path (fst t) \<Longrightarrow>
    bt_wf (finish_task t dir) \<and> map_of (finish_task t dir) name = map_of dir name"
proof (cases t)
  case (fields p c answers w)
  assume "bt_wf dir" "name \<noteq> thesis_path (fst t)"
  then show ?thesis unfolding fields by (cases p c answers w dir rule: finish_task_cases) auto
qed

lemma run_tasks_other:
  "bt_wf dir \<Longrightarrow> name \<notin> thesis_path ` fst ` set tasks \<Longrightarrow> map_of (run_tasks tasks dir) name = map_of dir name"
  by (induction tasks arbitrary: dir) (auto simp: run_tasks_def finish_task_other)

lemma run_tasks_wf: "bt_wf dir \<Longrightarrow> bt_wf (run_tasks tasks dir)"
proof (induction tasks arbitrary: dir)
  case (Cons t tasks)
  obtain p c answers w where t: "t = (p, c, answers, w)" by (cases t)
  have "bt_wf (finish_task t dir)"
    unfolding t using Cons.prems by (cases p c answers w dir rule: finish_task_cases) auto
  then show ?case using Cons.IH by (simp add: run_tasks_def)
qed (simp add: run_tasks_def)

lemma reachable_keeps:
  "discover_reachable points dir0 dir \<Longrightarrow> bt_wf dir0 \<Longrightarrow>
     bt_wf dir \<and> (\<forall>name c. map_of dir0 name = Some c \<longrightarrow> map_of dir name = Some c)"
proof (induction rule: discover_reachable.induct)
  case (run dir0 dir tasks)
  have "map_of (run_tasks tasks dir) name = Some c" if "map_of dir0 name = Some c" for name c
  proof -
    have "map_of dir name = Some c" using run that by blast
    moreover from this have "name \<notin> thesis_path ` fst ` set tasks"
      using run.hyps(2) by (auto simp: pending_def)
    ultimately show ?thesis using run by (simp add: run_tasks_other)
  qed
  then show ?case using run by (simp add: run_tasks_wf)
qed blast

lemma reachable_dir_ok:
  "discover_reachable points dir0 dir \<Longrightarrow> dir_ok points dir0 \<Longrightarrow> dir_ok points dir"
proof (induction rule: discover_reachable.induct)
  case (run dir0 dir tasks)
  then show ?case by (intro run_tasks_ok) (auto simp: pending_def)
qed

text \<open>C12: Running the phase again is safe. From an empty directory on, after any sequence of runs,
  whatever the answers, failures and the order in which tasks finish, every file is the
  thesis of the point its name stands for, with that point's cell and a long enough claim,
  and no later run ever changes or removes a file that is there.\<close>

theorem fanout_resume_safe:
  assumes "discover_reachable points [] dir" and "discover_reachable points dir dir'"
  shows "dir_ok points dir \<and> (\<forall>name c. map_of dir name = Some c \<longrightarrow> map_of dir' name = Some c)"
proof -
  have "dir_ok points []" by (simp add: dir_ok_def)
  then have "dir_ok points dir" by (rule reachable_dir_ok [OF assms(1)])
  moreover from this have "bt_wf dir" by (simp add: dir_ok_def)
  ultimately show ?thesis using reachable_keeps [OF assms(2)] by blast
qed

lemma finish_task_written:
  assumes "bt_wf dir" "generate_thesis c answers p = Inr t" "long_claim t"
  shows "map_of (finish_task (p, c, answers, True) dir) (thesis_path p) = Some (Inr t)"
  using assms by (simp add: finish_task_def finish_point_def classify_def long_claim_def Let_def)

text \<open>A run that succeeds everywhere finishes the fan-out: if it has a task for every pending
  point and each gets, in one of its three attempts, a thesis with a long enough claim and
  can write it, no point is pending afterwards.\<close>

lemma good_run_completes:
  assumes "bt_wf dir" and "set (map fst tasks) = set (pending points dir)" and "distinct (map (\<lambda>t. thesis_path (fst t)) tasks)"
    and "\<And>p c answers w. (p, c, answers, w) \<in> set tasks \<Longrightarrow> w \<and> (\<exists>t. generate_thesis c answers p = Inr t \<and> long_claim t)"
  shows "pending points (run_tasks tasks dir) = []"
proof -
  have written: "map_of (run_tasks ts dir) (thesis_path (fst t)) \<noteq> None"
    if "t \<in> set ts" "set ts \<subseteq> set tasks" "distinct (map (\<lambda>t. thesis_path (fst t)) ts)" "bt_wf dir" for t ts dir
    using that
  proof (induction ts arbitrary: dir)
    case (Cons u ts)
    obtain p c answers w where u: "u = (p, c, answers, w)" by (cases u)
    have wf: "bt_wf (finish_task u dir)" using run_tasks_wf [of dir "[u]"] Cons.prems(4) by (simp add: run_tasks_def)
    show ?case
    proof (cases "t = u")
      case True
      from assms(4) Cons.prems(2) u obtain v where v: "w" "generate_thesis c answers p = Inr v" "long_claim v" by fastforce
      have "map_of (finish_task u dir) (thesis_path p) = Some (Inr v)"
        using finish_task_written [OF Cons.prems(4) v(2,3)] v(1) u by simp
      moreover have "thesis_path p \<notin> thesis_path ` fst ` set ts" using Cons.prems(3) u by (auto simp: image_image)
      ultimately show ?thesis using run_tasks_other [OF wf, of "thesis_path p" ts] True u by (simp add: run_tasks_def)
    next
      case False
      then show ?thesis using Cons wf by (simp add: run_tasks_def)
    qed
  qed simp
  have "map_of (run_tasks tasks dir) (thesis_path p) \<noteq> None" if "p \<in> set points" for p
  proof (cases "map_of dir (thesis_path p)")
    case None
    then have "p \<in> fst ` set tasks" using that assms(2) by (auto simp: pending_def)
    then show ?thesis using written [of _ tasks dir] assms(1,3) by auto
  next
    case (Some c)
    then have "thesis_path p \<notin> thesis_path ` fst ` set tasks" using assms(2) by (auto simp: pending_def)
    then show ?thesis using Some run_tasks_other [OF assms(1)] by simp
  qed
  then show ?thesis by (auto simp: pending_def filter_empty_conv)
qed

section \<open>Witnesses\<close>

definition demo_thesis :: "nat thesis" where
  "demo_thesis = \<lparr>th_id = [], th_claim = ''Keep every event in one ordered log'', th_key_decisions = [],
     th_architecture_outline = [], th_assumptions = [], th_strengths = [], th_weaknesses = [],
     th_hard_constraint_check = [], th_expected_validation = [], th_angle = [], th_provenance = None\<rparr>"

definition demo_cell :: matrix_cell where
  "demo_cell = \<lparr>mc_dimension_id = ''store'', mc_facet_id = ''sql'', mc_label = ''Storage / SQL''\<rparr>"

definition demo_points :: "nat fanout_point list" where
  "demo_points = fanout [(''a'', ''m'', demo_profile [10])] [demo_cell] 1"

definition demo_point :: "nat fanout_point" where
  "demo_point = \<lparr>fp_n = 0, fp_section = ''a'', fp_model = ''m'', fp_cell = demo_cell, fp_temperature = 10,
     fp_replica = 0, fp_index = 0\<rparr>"

definition demo_tasks :: "nat task list" where
  "demo_tasks = [(demo_point, None, (\<lambda>_. Inr demo_thesis), True)]"

lemma demo_points_eq: "demo_points = [demo_point]"
  by (simp add: demo_points_def demo_point_def fanout_def demo_profile_def)

lemma demo_long: "long_claim demo_thesis"
  by code_simp

lemma demo_generated: "generate_thesis None (\<lambda>_. Inr demo_thesis) demo_point = Inr (stamp demo_point demo_thesis)"
  by (simp add: generate_outcome demo_long)

lemma demo_pending: "pending demo_points [] = [demo_point]"
  by (simp add: demo_points_eq pending_def)

lemma fanout_resume_safe_witness: "dir_ok demo_points (run_tasks demo_tasks [])"
proof -
  have "discover_reachable demo_points [] (run_tasks demo_tasks [])"
    by (rule discover_reachable.run [OF discover_reachable.start]) (simp_all add: demo_tasks_def demo_pending)
  from fanout_resume_safe [OF this discover_reachable.start] show ?thesis by blast
qed

end
