(* ===== verification/Catalog.thy ===== *)
theory Catalog imports Thesis_Fanout "HOL-Library.Multiset" begin

text \<open>
  The catalogue of a discover run: \<open>src/discovery/catalog.rs\<close>. Ids are compared byte by byte.
\<close>

section \<open>Data\<close>

record member =
  me_thesis_id :: string
  me_duplicate_of :: "string option"

record group =
  gr_label :: string
  gr_summary :: string
  gr_representative :: "string option"
  gr_members :: "member list"

record tension =
  tn_a :: string
  tn_b :: string
  tn_note :: string

datatype cell_curation = Flat | Grouped | Curation_Failed

record cell_entry =
  ce_dimension_id :: string
  ce_facet_id :: string
  ce_dimension_label :: string
  ce_facet_label :: string
  ce_description :: string
  ce_curation :: cell_curation
  ce_groups :: "group list"
  ce_tensions :: "tension list"

record catalog =
  ca_cells :: "cell_entry list"

datatype catalog_error = Missing string | Repeated string nat | Unknown string

section \<open>Building\<close>

definition empty_cell :: "facet_description list \<Rightarrow> dimension \<Rightarrow> facet \<Rightarrow> cell_entry" where
  "empty_cell descriptions d f =
     \<lparr>ce_dimension_id = dm_id d, ce_facet_id = fc_id f, ce_dimension_label = dm_label d, ce_facet_label = fc_label f,
      ce_description =
        (case find (\<lambda>x. fd_dimension_id x = dm_id d \<and> fd_facet_id x = fc_id f) descriptions of
           None \<Rightarrow> [] | Some x \<Rightarrow> fd_description x),
      ce_curation = Flat, ce_groups = [], ce_tensions = []\<rparr>"

definition matrix_entries :: "facet_description list \<Rightarrow> 'f exploration_matrix \<Rightarrow> cell_entry list" where
  "matrix_entries descriptions m =
     concat (map (\<lambda>d. map (empty_cell descriptions d) (dm_facets d)) (em_dimensions m))"

definition cell_key :: "cell_entry \<Rightarrow> string" where
  "cell_key c = ce_dimension_id c @ '':'' @ ce_facet_id c"

definition index_of :: "cell_entry list \<Rightarrow> (string, nat) btree_map" where
  "index_of cells = fold (\<lambda>(i, c) t. bt_or_insert (cell_key c) i t) (enumerate 0 cells) []"

definition outside_entry :: cell_entry where
  "outside_entry =
     \<lparr>ce_dimension_id = ''outside-matrix'', ce_facet_id = ''unmatched'', ce_dimension_label = ''Outside the matrix'',
      ce_facet_label = ''Unmatched angle'', ce_description = [], ce_curation = Flat, ce_groups = [], ce_tensions = []\<rparr>"

definition place_thesis ::
  "(string, nat) btree_map \<Rightarrow> 'f thesis \<Rightarrow> string list list \<times> string list \<Rightarrow> string list list \<times> string list"
where
  "place_thesis index t = (\<lambda>(members_of, outside).
     (case map_of index (th_angle t) of
        Some i \<Rightarrow> (members_of[i := members_of ! i @ [th_id t]], outside)
      | None \<Rightarrow> (members_of, outside @ [th_id t])))"

definition fill_cell :: "cell_entry \<Rightarrow> string list \<Rightarrow> cell_entry" where
  "fill_cell cell ids =
     (if ids = [] then cell
      else cell\<lparr>ce_groups := ce_groups cell @
        [\<lparr>gr_label = ''All theses'', gr_summary = [], gr_representative = None,
          gr_members = map (\<lambda>i. \<lparr>me_thesis_id = i, me_duplicate_of = None\<rparr>) (sort ids)\<rparr>]\<rparr>)"

definition build_catalog ::
  "'f exploration_matrix \<Rightarrow> facet_description list \<Rightarrow> 'f thesis list \<Rightarrow> catalog"
where
  "build_catalog m descriptions theses =
     (let cells = matrix_entries descriptions m in
      case fold (place_thesis (index_of cells)) theses (replicate (length cells) [], []) of
        (members_of, outside) \<Rightarrow>
          (let cells' = (if outside = [] then cells else cells @ [outside_entry]);
               members' = (if outside = [] then members_of else members_of @ [outside])
           in \<lparr>ca_cells = map2 fill_cell cells' members'\<rparr>))"

section \<open>Reading and checking\<close>

definition cell_members :: "cell_entry \<Rightarrow> member list" where
  "cell_members c = concat (map gr_members (ce_groups c))"

definition catalog_members :: "catalog \<Rightarrow> member list" where
  "catalog_members cat = concat (map cell_members (ca_cells cat))"

definition count_members :: "member list \<Rightarrow> (string, nat) btree_map" where
  "count_members ms =
     fold (\<lambda>m t. bt_insert (me_thesis_id m)
        ((case map_of t (me_thesis_id m) of None \<Rightarrow> 0 | Some n \<Rightarrow> n) + 1) t) ms []"

fun check_theses :: "(string, nat) btree_map \<Rightarrow> 'f thesis list \<Rightarrow> catalog_error + unit" where
  "check_theses counts [] = Inr ()"
| "check_theses counts (t # ts) =
     (case (case map_of counts (th_id t) of None \<Rightarrow> 0 | Some n \<Rightarrow> n) of
        0 \<Rightarrow> Inl (Missing (th_id t))
      | Suc 0 \<Rightarrow> check_theses counts ts
      | n \<Rightarrow> Inl (Repeated (th_id t) n))"

fun check_members :: "string set \<Rightarrow> member list \<Rightarrow> catalog_error + unit" where
  "check_members known [] = Inr ()"
| "check_members known (m # ms) =
     (if me_thesis_id m \<notin> known then Inl (Unknown (me_thesis_id m)) else check_members known ms)"

definition validate_catalog :: "catalog \<Rightarrow> 'f thesis list \<Rightarrow> catalog_error + unit" where
  "validate_catalog cat theses =
     rbind (check_theses (count_members (catalog_members cat)) theses)
       (\<lambda>_. check_members (set (map th_id theses)) (catalog_members cat))"

definition member_count :: "catalog \<Rightarrow> nat" where
  "member_count cat = length (catalog_members cat)"

definition cell_of :: "catalog \<Rightarrow> string \<Rightarrow> cell_entry option" where
  "cell_of cat thesis_id =
     find (\<lambda>cell. \<exists>g\<in>set (ce_groups cell). \<exists>m\<in>set (gr_members g). me_thesis_id m = thesis_id) (ca_cells cat)"

section \<open>What validation means\<close>

lemma count_members_wf: "bt_wf t \<Longrightarrow>
    bt_wf (fold (\<lambda>m t. bt_insert (me_thesis_id m) ((case map_of t (me_thesis_id m) of None \<Rightarrow> 0 | Some n \<Rightarrow> n) + 1) t) ms t) \<and>
    (case map_of (fold (\<lambda>m t. bt_insert (me_thesis_id m) ((case map_of t (me_thesis_id m) of None \<Rightarrow> 0 | Some n \<Rightarrow> n) + 1) t) ms t) i
       of None \<Rightarrow> 0 | Some n \<Rightarrow> n) = (case map_of t i of None \<Rightarrow> 0 | Some n \<Rightarrow> n) + count (mset (map me_thesis_id ms)) i"
  by (induction ms arbitrary: t) auto

lemma count_members_count:
  "(case map_of (count_members ms) i of None \<Rightarrow> 0 | Some n \<Rightarrow> n) = count (mset (map me_thesis_id ms)) i"
  using count_members_wf [of "[]" ms i] by (simp add: count_members_def)

lemma check_theses_Inr:
  "check_theses counts ts = Inr () \<longleftrightarrow>
     (\<forall>t\<in>set ts. (case map_of counts (th_id t) of None \<Rightarrow> 0 | Some n \<Rightarrow> n) = 1)"
  by (induction counts ts rule: check_theses.induct) (auto split: nat.split option.split)

lemma check_members_Inr: "check_members known ms = Inr () \<longleftrightarrow> set (map me_thesis_id ms) \<subseteq> known"
  by (induction known ms rule: check_members.induct) auto

abbreviation member_ids :: "catalog \<Rightarrow> string list" where
  "member_ids cat \<equiv> map me_thesis_id (catalog_members cat)"

lemma validate_catalog_iff:
  "validate_catalog cat theses = Inr () \<longleftrightarrow> set (member_ids cat) = set (map th_id theses) \<and> distinct (member_ids cat)"
proof -
  have "validate_catalog cat theses = Inr () \<longleftrightarrow>
      (\<forall>i\<in>set (map th_id theses). count (mset (member_ids cat)) i = 1) \<and> set (member_ids cat) \<subseteq> set (map th_id theses)"
    by (auto simp: validate_catalog_def rbind_eq_Inr check_theses_Inr check_members_Inr count_members_count)
  also have "\<dots> \<longleftrightarrow> set (member_ids cat) = set (map th_id theses) \<and> distinct (member_ids cat)"
  proof
    assume a: "(\<forall>i\<in>set (map th_id theses). count (mset (member_ids cat)) i = 1) \<and> set (member_ids cat) \<subseteq> set (map th_id theses)"
    then have "set (map th_id theses) \<subseteq> set (member_ids cat)"
      by (metis One_nat_def count_inI set_mset_mset subsetI zero_neq_one)
    moreover have "distinct (member_ids cat)"
      using a by (intro distinct_count_atmost_1 [THEN iffD2]) (metis count_eq_zero_iff set_mset_mset subset_iff)
    ultimately show "set (member_ids cat) = set (map th_id theses) \<and> distinct (member_ids cat)" using a by blast
  next
    assume "set (member_ids cat) = set (map th_id theses) \<and> distinct (member_ids cat)"
    then show "(\<forall>i\<in>set (map th_id theses). count (mset (member_ids cat)) i = 1) \<and> set (member_ids cat) \<subseteq> set (map th_id theses)"
      by (metis distinct_count_atmost_1 order_refl)
  qed
  finally show ?thesis .
qed

section \<open>Where a thesis goes\<close>

lemma cell_members_fill: "map me_thesis_id (cell_members (fill_cell c ids)) = map me_thesis_id (cell_members c) @ sort ids"
  by (simp add: fill_cell_def cell_members_def comp_def)

lemma empty_members [simp]: "cell_members (empty_cell descriptions d f) = []" "cell_members outside_entry = []"
  by (simp_all add: empty_cell_def cell_members_def outside_entry_def)

lemma matrix_entries_empty: "c \<in> set (matrix_entries descriptions m) \<Longrightarrow> cell_members c = []"
  by (auto simp: matrix_entries_def)


lemma index_of_range_aux:
  "bt_wf t \<Longrightarrow> (\<forall>k i. map_of t k = Some i \<longrightarrow> i < n + length cells) \<Longrightarrow>
   bt_wf (fold (\<lambda>(i, c) t. bt_or_insert (cell_key c) i t) (enumerate n cells) t) \<and>
   (\<forall>k i. map_of (fold (\<lambda>(i, c) t. bt_or_insert (cell_key c) i t) (enumerate n cells) t) k = Some i \<longrightarrow>
      i < n + length cells)"
proof (induction cells arbitrary: n t)
  case (Cons c cells)
  have "\<forall>k i. map_of (bt_or_insert (cell_key c) n t) k = Some i \<longrightarrow> i < Suc n + length cells"
    using Cons.prems by auto
  then show ?case using Cons.IH [of "bt_or_insert (cell_key c) n t" "Suc n"] Cons.prems(1) by simp
qed simp

lemma index_of_range: "map_of (index_of cells) k = Some i \<Longrightarrow> i < length cells"
  using index_of_range_aux [of "[]" 0 cells] by (simp add: index_of_def)

lemma index_of_known_aux:
  "bt_wf t \<Longrightarrow> (k \<in> cell_key ` set cells \<or> map_of t k \<noteq> None) \<longleftrightarrow>
   map_of (fold (\<lambda>(i, c) t. bt_or_insert (cell_key c) i t) (enumerate n cells) t) k \<noteq> None"
proof (induction cells arbitrary: n t)
  case (Cons c cells)
  then show ?case using Cons.IH [of "bt_or_insert (cell_key c) n t" "Suc n"] by auto
qed simp

lemma index_of_known: "map_of (index_of cells) k \<noteq> None \<longleftrightarrow> k \<in> cell_key ` set cells"
  using index_of_known_aux [of "[]" k cells 0] by (simp add: index_of_def)

text \<open>Placing keeps every id, once for each thesis.\<close>

lemma mset_concat_append: "i < length xs \<Longrightarrow> mset (concat (xs[i := xs ! i @ [x]])) = add_mset x (mset (concat xs))"
proof (induction xs arbitrary: i)
  case (Cons y ys)
  then show ?case by (cases i) auto
qed simp

lemma place_theses:
  assumes "\<And>k i. map_of index k = Some i \<Longrightarrow> i < length xs"
  shows "length (fst (fold (place_thesis index) theses (xs, out))) = length xs \<and>
    mset (concat (fst (fold (place_thesis index) theses (xs, out))) @ snd (fold (place_thesis index) theses (xs, out)))
      = mset (concat xs @ out) + mset (map th_id theses)"
  using assms
proof (induction theses arbitrary: xs out)
  case (Cons t theses)
  show ?case
  proof (cases "map_of index (th_angle t)")
    case None
    have "place_thesis index t (xs, out) = (xs, out @ [th_id t])" using None by (simp add: place_thesis_def)
    then show ?thesis using Cons.IH [of xs "out @ [th_id t]"] Cons.prems by simp
  next
    case (Some i)
    let ?xs = "xs[i := xs ! i @ [th_id t]]"
    have p: "place_thesis index t (xs, out) = (?xs, out)" using Some by (simp add: place_thesis_def)
    have "mset (concat ?xs) = add_mset (th_id t) (mset (concat xs))"
      by (rule mset_concat_append) (rule Cons.prems [OF Some])
    then show ?thesis using Cons.IH [of ?xs out] Cons.prems p by simp
  qed
qed simp

lemma place_theses_at:
  "i < length xs \<Longrightarrow> (\<And>k i. map_of index k = Some i \<Longrightarrow> i < length xs) \<Longrightarrow>
   fst (fold (place_thesis index) theses (xs, out)) ! i =
     xs ! i @ map th_id (filter (\<lambda>t. map_of index (th_angle t) = Some i) theses)"
proof (induction theses arbitrary: xs out)
  case (Cons t theses)
  show ?case
  proof (cases "map_of index (th_angle t)")
    case None
    then have "place_thesis index t (xs, out) = (xs, out @ [th_id t])" by (simp add: place_thesis_def)
    then show ?thesis using Cons None by simp
  next
    case (Some j)
    let ?xs = "xs[j := xs ! j @ [th_id t]]"
    have "place_thesis index t (xs, out) = (?xs, out)" using Some by (simp add: place_thesis_def)
    then show ?thesis using Cons.IH [of ?xs out] Cons.prems Some by (cases "i = j") simp_all
  qed
qed simp

lemma place_theses_outside:
  "snd (fold (place_thesis index) theses (xs, out)) =
     out @ map th_id (filter (\<lambda>t. map_of index (th_angle t) = None) theses)"
  by (induction theses arbitrary: xs out) (auto simp: place_thesis_def split: option.split)

lemma map2_fill_members:
  "length cs = length ms \<Longrightarrow> (\<And>c. c \<in> set cs \<Longrightarrow> cell_members c = []) \<Longrightarrow>
     map me_thesis_id (concat (map cell_members (map2 fill_cell cs ms))) = concat (map sort ms)"
proof (induction cs ms rule: list_induct2)
  case (Cons c cs m ms)
  then show ?case using cell_members_fill [of c m] by simp
qed simp

lemma mset_concat_sort: "mset (concat (map sort ms)) = mset (concat ms)"
  by (induction ms) auto

lemma build_catalog_cells:
  obtains members_of outside where
    "fold (place_thesis (index_of (matrix_entries descriptions m))) theses
       (replicate (length (matrix_entries descriptions m)) [], []) = (members_of, outside)"
    "length members_of = length (matrix_entries descriptions m)"
    "mset (concat members_of @ outside) = mset (map th_id theses)"
    "ca_cells (build_catalog m descriptions theses) =
       (if outside = [] then map2 fill_cell (matrix_entries descriptions m) members_of
        else map2 fill_cell (matrix_entries descriptions m @ [outside_entry]) (members_of @ [outside]))"
proof -
  let ?cells = "matrix_entries descriptions m"
  obtain members_of outside where f:
      "fold (place_thesis (index_of ?cells)) theses (replicate (length ?cells) [], []) = (members_of, outside)"
    by (cases "fold (place_thesis (index_of ?cells)) theses (replicate (length ?cells) [], [])")
  have "i < length (replicate (length ?cells) ([] :: string list))" if "map_of (index_of ?cells) k = Some i" for k i
    using index_of_range [OF that] by simp
  from place_theses [of "index_of ?cells", OF this, where theses = theses and out = "[]"] f
  have "length members_of = length ?cells" "mset (concat members_of @ outside) = mset (map th_id theses)"
    by (simp_all add: concat_replicate_trivial)
  with f show thesis by (intro that) (auto simp: build_catalog_def Let_def)
qed

lemma catalog_members_mset: "mset (member_ids (build_catalog m descriptions theses)) = mset (map th_id theses)"
proof -
  obtain members_of outside where
    l: "length members_of = length (matrix_entries descriptions m)"
    and ids: "mset (concat members_of @ outside) = mset (map th_id theses)"
    and c: "ca_cells (build_catalog m descriptions theses) =
       (if outside = [] then map2 fill_cell (matrix_entries descriptions m) members_of
        else map2 fill_cell (matrix_entries descriptions m @ [outside_entry]) (members_of @ [outside]))"
    by (rule build_catalog_cells [of descriptions m theses])
  have f: "map me_thesis_id (concat (map cell_members (map2 fill_cell (matrix_entries descriptions m) members_of)))
      = concat (map sort members_of)"
    using l matrix_entries_empty by (intro map2_fill_members) auto
  have "map me_thesis_id (concat (map cell_members
      (map2 fill_cell (matrix_entries descriptions m @ [outside_entry]) (members_of @ [outside]))))
      = concat (map sort (members_of @ [outside]))"
    using l matrix_entries_empty by (intro map2_fill_members) auto
  with f have "member_ids (build_catalog m descriptions theses) =
      (if outside = [] then concat (map sort members_of) else concat (map sort (members_of @ [outside])))"
    unfolding catalog_members_def c by (cases "outside = []") (simp_all only: if_True if_False simp_thms)
  then show ?thesis using ids by (auto simp: mset_concat_sort)
qed

lemma catalog_members_valid:
  "validate_catalog (build_catalog m descriptions theses) theses = Inr () \<longleftrightarrow> distinct (map th_id theses)"
proof -
  note ms = catalog_members_mset [of m descriptions theses]
  have "set (member_ids (build_catalog m descriptions theses)) = set (map th_id theses)"
    using ms by (metis set_mset_mset)
  moreover have "distinct (member_ids (build_catalog m descriptions theses)) \<longleftrightarrow> distinct (map th_id theses)"
    using ms by (metis mset_eq_imp_distinct_iff)
  ultimately show ?thesis using validate_catalog_iff by blast
qed

text \<open>C14: No thesis is lost in the catalogue. Whatever the matrix and the angles of the theses, every
  thesis is listed exactly as often as it occurs, so the check of the rendering phase passes
  exactly when no two theses share an id.\<close>

theorem catalog_lists_every_thesis:
  "mset (member_ids (build_catalog m descriptions theses)) = mset (map th_id theses) \<and>
   (validate_catalog (build_catalog m descriptions theses) theses = Inr () \<longleftrightarrow> distinct (map th_id theses))"
  by (intro conjI catalog_members_mset catalog_members_valid)

section \<open>Every thesis in its cell\<close>

lemma index_of_distinct_aux:
  "bt_wf t \<Longrightarrow> distinct (map cell_key cells) \<Longrightarrow> (\<And>c. c \<in> set cells \<Longrightarrow> map_of t (cell_key c) = None) \<Longrightarrow> i < length cells \<Longrightarrow>
   map_of (fold (\<lambda>(i, c) t. bt_or_insert (cell_key c) i t) (enumerate n cells) t) (cell_key (cells ! i)) = Some (n + i)"
proof (induction cells arbitrary: n t i)
  case (Cons c cells)
  let ?t = "bt_or_insert (cell_key c) n t"
  show ?case
  proof (cases i)
    case 0
    have keep: "map_of (fold (\<lambda>(i, c) t. bt_or_insert (cell_key c) i t) (enumerate k cs) u) x = Some v"
      if "bt_wf u" "map_of u x = Some v" for cs k u x v
      using that
    proof (induction cs arbitrary: k u)
      case (Cons d cs)
      have "map_of (bt_or_insert (cell_key d) k u) x = Some v" using Cons.prems by (auto simp: map_of_bt_or_insert)
      then show ?case using Cons by simp
    qed simp
    show ?thesis using keep [of ?t "cell_key c" n] Cons.prems 0 by simp
  next
    case (Suc j)
    have "map_of ?t (cell_key d) = None" if d: "d \<in> set cells" for d
    proof -
      have "cell_key d \<noteq> cell_key c" using Cons.prems(2) d by (auto simp: image_iff)
      then show ?thesis using Cons.prems(1,3) d by auto
    qed
    then show ?thesis using Cons.IH [of ?t j "Suc n"] Cons.prems Suc by simp
  qed
qed simp

lemma index_of_distinct:
  assumes "distinct (map cell_key cells)"
  shows "map_of (index_of cells) k = Some i \<longleftrightarrow> i < length cells \<and> k = cell_key (cells ! i)"
proof
  assume k: "map_of (index_of cells) k = Some i"
  then have "k \<in> cell_key ` set cells" using index_of_known [of cells k] by simp
  then obtain j where j: "j < length cells" "k = cell_key (cells ! j)" by (auto simp: in_set_conv_nth)
  then have "map_of (index_of cells) k = Some j"
    using index_of_distinct_aux [of "[]" cells j 0] assms by (simp add: index_of_def)
  with k j show "i < length cells \<and> k = cell_key (cells ! i)" by simp
next
  assume "i < length cells \<and> k = cell_key (cells ! i)"
  then show "map_of (index_of cells) k = Some i"
    using index_of_distinct_aux [of "[]" cells i 0] assms by (simp add: index_of_def)
qed

lemma catalog_in_matrix:
  assumes "distinct (map cell_key (matrix_entries descriptions m))"
  shows "length (ca_cells (build_catalog m descriptions theses)) = length (matrix_entries descriptions m) \<longleftrightarrow>
       th_angle ` set theses \<subseteq> cell_key ` set (matrix_entries descriptions m)"
proof -
  let ?cells = "matrix_entries descriptions m"
  obtain members_of outside where
    f: "fold (place_thesis (index_of ?cells)) theses (replicate (length ?cells) [], []) = (members_of, outside)"
    and l: "length members_of = length ?cells"
    and c: "ca_cells (build_catalog m descriptions theses) =
       (if outside = [] then map2 fill_cell ?cells members_of
        else map2 fill_cell (?cells @ [outside_entry]) (members_of @ [outside]))"
    by (rule build_catalog_cells [of descriptions m theses])
  have "outside = map th_id (filter (\<lambda>t. map_of (index_of ?cells) (th_angle t) = None) theses)"
    using place_theses_outside [of "index_of ?cells" theses "replicate (length ?cells) []" "[]"] f by simp
  then have "outside = [] \<longleftrightarrow> th_angle ` set theses \<subseteq> cell_key ` set ?cells"
    using index_of_known [of ?cells] by (auto simp: filter_empty_conv)
  moreover have "length (ca_cells (build_catalog m descriptions theses)) = length ?cells \<longleftrightarrow> outside = []"
    using l by (auto simp: c)
  ultimately show ?thesis by simp
qed

text \<open>A thesis goes to the cell of its angle. When no two cells share a key, each cell lists, in
  the order of their ids, the theses whose angle is its key, and a trailing outside cell
  exists exactly when some angle is the key of no cell.\<close>

lemma catalog_places_by_angle:
  assumes "distinct (map cell_key (matrix_entries descriptions m))"
  shows "(\<forall>i < length (matrix_entries descriptions m).
      map me_thesis_id (cell_members (ca_cells (build_catalog m descriptions theses) ! i)) =
        sort (map th_id (filter (\<lambda>t. th_angle t = cell_key (matrix_entries descriptions m ! i)) theses))) \<and>
    (length (ca_cells (build_catalog m descriptions theses)) = length (matrix_entries descriptions m) \<longleftrightarrow>
       th_angle ` set theses \<subseteq> cell_key ` set (matrix_entries descriptions m))"
proof -
  let ?cells = "matrix_entries descriptions m"
  obtain members_of outside where
    f: "fold (place_thesis (index_of ?cells)) theses (replicate (length ?cells) [], []) = (members_of, outside)"
    and l: "length members_of = length ?cells"
    and c: "ca_cells (build_catalog m descriptions theses) =
       (if outside = [] then map2 fill_cell ?cells members_of
        else map2 fill_cell (?cells @ [outside_entry]) (members_of @ [outside]))"
    by (rule build_catalog_cells [of descriptions m theses])
  have "members_of ! i = map th_id (filter (\<lambda>t. th_angle t = cell_key (?cells ! i)) theses)" if i: "i < length ?cells" for i
    using place_theses_at [of i "replicate (length ?cells) []" "index_of ?cells" theses "[]"] f i
      index_of_distinct [OF assms] by simp
  moreover have "map me_thesis_id (cell_members (ca_cells (build_catalog m descriptions theses) ! i)) = sort (members_of ! i)"
    if i: "i < length ?cells" for i
  proof -
    have "ca_cells (build_catalog m descriptions theses) ! i = fill_cell (?cells ! i) (members_of ! i)"
      using i l by (simp add: c nth_append)
    then show ?thesis using matrix_entries_empty [of "?cells ! i" descriptions m] i by (simp add: cell_members_fill)
  qed
  ultimately show ?thesis using catalog_in_matrix [OF assms] by simp
qed

section \<open>From the fan-out to the catalogue\<close>









section \<open>Witnesses\<close>





end
