(* ===== verification/Union_Find.thy ===== *)
theory Union_Find imports Ordered_Map begin

text \<open>
  The union-find structure of the curation of cells (\<open>src/discovery/curation.rs\<close>) and of
  the clustering of proposals (\<open>src/ranking/cluster.rs\<close>): a list of parents, each at most its
  index; a search halves the path it walks; of two roots the smaller one is kept. The sets are
  collected in a map from roots to members.
\<close>

partial_function (option) find_root :: "nat list \<Rightarrow> nat \<Rightarrow> (nat \<times> nat list) option" where
  "find_root parent n =
     (if parent ! n \<noteq> n
      then find_root (parent[n := parent ! (parent ! n)]) (parent[n := parent ! (parent ! n)] ! n)
      else Some (n, parent))"

declare find_root.simps [code]

fun collect_sets :: "nat list \<Rightarrow> nat list \<Rightarrow> (nat, nat list) btree_map \<Rightarrow> (nat, nat list) btree_map option" where
  "collect_sets [] parent sets = Some sets"
| "collect_sets (n # ns) parent sets =
     (case find_root parent n of
        None \<Rightarrow> None
      | Some (root, parent') \<Rightarrow>
          collect_sets ns parent'
            (bt_insert root ((case map_of sets root of None \<Rightarrow> [] | Some l \<Rightarrow> l) @ [n]) sets))"

section \<open>Roots\<close>

text \<open>The root of a node: the end of the path of parents, which go down.\<close>

function uf_root :: "nat list \<Rightarrow> nat \<Rightarrow> nat" where
  "uf_root p i = (if p ! i < i then uf_root p (p ! i) else i)"
  by pat_completeness auto
termination by (relation "measure snd") auto

declare uf_root.simps [simp del]

definition uf_wf :: "nat list \<Rightarrow> bool" where
  "uf_wf p \<longleftrightarrow> (\<forall>i<length p. p ! i \<le> i)"

lemma uf_root_le: "uf_root p i \<le> i"
  by (induction p i rule: uf_root.induct) (subst uf_root.simps, fastforce)

lemma uf_root_fix: "uf_wf p \<Longrightarrow> i < length p \<Longrightarrow> p ! uf_root p i = uf_root p i"
proof (induction p i rule: uf_root.induct)
  case (1 p i)
  show ?case
  proof (cases "p ! i < i")
    case True
    then have "p ! i < length p" using 1(3) by simp
    with True 1 show ?thesis by (subst (1 2) uf_root.simps) simp
  next
    case False
    with 1(2,3) show ?thesis by (subst (1 2) uf_root.simps) (simp add: uf_wf_def antisym)
  qed
qed

lemma uf_root_stop [simp]: "p ! i = i \<Longrightarrow> uf_root p i = i"
  by (subst uf_root.simps) simp

lemma uf_root_step: "uf_wf p \<Longrightarrow> i < length p \<Longrightarrow> uf_root p (p ! i) = uf_root p i"
  by (subst (2) uf_root.simps) (auto simp: uf_wf_def dest!: spec [of _ i])

lemma uf_wf_update: "uf_wf p \<Longrightarrow> x \<le> n \<Longrightarrow> uf_wf (p[n := x])"
  by (cases "n < length p") (auto simp: uf_wf_def nth_list_update)

lemma uf_wf_parents: "uf_wf p \<Longrightarrow> i < length p \<Longrightarrow> p ! i \<le> i \<and> p ! (p ! i) \<le> p ! i"
  by (meson le_less_trans uf_wf_def)

text \<open>Pointing a node past its parent changes no root.\<close>

lemma uf_root_compress:
  assumes "uf_wf p" "n < length p" "i < length p"
  shows "uf_root (p[n := p ! (p ! n)]) i = uf_root p i"
  using assms(3)
proof (induction i rule: less_induct)
  case (less i)
  let ?p = "p[n := p ! (p ! n)]"
  have le: "p ! i \<le> i" "p ! (p ! i) \<le> p ! i" using uf_wf_parents [OF assms(1) less.prems] by simp_all
  have step: "uf_root p (p ! j) = uf_root p j" if "j < length p" for j using uf_root_step [OF assms(1) that] .
  have eq: "?p ! i = (if i = n then p ! (p ! i) else p ! i)" using less.prems by (simp add: nth_list_update)
  show ?case
  proof (cases "?p ! i < i")
    case True
    have "uf_root ?p i = uf_root ?p (?p ! i)" using True by (subst uf_root.simps) simp
    also have "\<dots> = uf_root p (?p ! i)" using True less by simp
    also have "\<dots> = uf_root p i" unfolding eq using step [of i] step [of "p ! i"] le less.prems by (cases "i = n") simp_all
    finally show ?thesis .
  next
    case False
    then have "p ! i = i" using le by (auto simp: eq split: if_splits)
    then show ?thesis using eq by (auto split: if_splits)
  qed
qed

lemma find_root:
  assumes "uf_wf p" "n < length p"
  shows "\<exists>p'. find_root p n = Some (uf_root p n, p') \<and> uf_wf p' \<and> length p' = length p \<and>
    (\<forall>i<length p. uf_root p' i = uf_root p i)"
  using assms
proof (induction n arbitrary: p rule: less_induct)
  case (less n)
  let ?p = "p[n := p ! (p ! n)]"
  have le: "p ! n \<le> n" "p ! (p ! n) \<le> p ! n" using uf_wf_parents [OF less.prems] by simp_all
  show ?case
  proof (cases "p ! n = n")
    case True
    then show ?thesis using less.prems by (subst find_root.simps) simp
  next
    case False
    have wf: "uf_wf ?p" using less.prems le by (intro uf_wf_update) auto
    have at: "?p ! n = p ! (p ! n)" using less.prems by simp
    from less.IH [of "?p ! n" ?p] False le wf at less.prems obtain p' where
      p': "find_root ?p (?p ! n) = Some (uf_root ?p (?p ! n), p')" "uf_wf p'" "length p' = length p"
        "\<forall>i<length p. uf_root p' i = uf_root ?p i" by auto
    have same: "uf_root ?p i = uf_root p i" if "i < length p" for i
      using uf_root_compress [OF less.prems that] .
    have "uf_root ?p (?p ! n) = uf_root p n"
      using uf_root_step [OF wf, of n] same [of n] less.prems by simp
    moreover have "find_root p n = find_root ?p (?p ! n)" using False by (subst find_root.simps) simp
    ultimately show ?thesis using p' same by auto
  qed
qed

lemma uf_root_union:
  assumes "uf_wf p" "a < b" "b < length p" "p ! a = a" "p ! b = b" "i < length p"
  shows "uf_root (p[b := a]) i = (if uf_root p i = b then a else uf_root p i)"
  using assms(6)
proof (induction i rule: less_induct)
  case (less i)
  let ?p = "p[b := a]"
  consider "i = b" | "i \<noteq> b" "p ! i = i" | "i \<noteq> b" "p ! i < i"
    using assms(1) less.prems by (fastforce simp: uf_wf_def)
  then show ?case
  proof cases
    case 1
    have "uf_root ?p i = uf_root ?p a" using 1 assms by (subst uf_root.simps) simp
    also have "\<dots> = a" using assms by simp
    finally show ?thesis using 1 assms by simp
  next
    case 2
    then show ?thesis using assms by simp
  next
    case 3
    have "uf_root ?p i = uf_root ?p (p ! i)" using 3 by (subst uf_root.simps) simp
    also have "\<dots> = (if uf_root p (p ! i) = b then a else uf_root p (p ! i))" using 3 less by simp
    finally show ?thesis using uf_root_step [OF assms(1) less.prems] by simp
  qed
qed

definition same_set :: "(nat \<times> nat) set \<Rightarrow> (nat \<times> nat) set" where
  "same_set r = (r \<union> r\<inverse>)\<^sup>*"

lemma same_set_sym: "(a, b) \<in> same_set r \<Longrightarrow> (b, a) \<in> same_set r"
  unfolding same_set_def by (rule symD [OF sym_rtrancl]) (auto simp: sym_def)

lemma same_set_trans: "(a, b) \<in> same_set r \<Longrightarrow> (b, c) \<in> same_set r \<Longrightarrow> (a, c) \<in> same_set r"
  unfolding same_set_def by (rule rtrancl_trans)

lemma same_set_mono: "r \<subseteq> s \<Longrightarrow> same_set r \<subseteq> same_set s"
  unfolding same_set_def by (intro rtrancl_mono) auto

lemma same_set_pair: "(a, b) \<in> r \<Longrightarrow> (a, b) \<in> same_set r"
  unfolding same_set_def by auto

lemma same_set_refl [simp]: "(a, a) \<in> same_set r"
  unfolding same_set_def by simp

lemma same_set_imp:
  assumes "(a, b) \<in> same_set r" "\<And>x y. (x, y) \<in> r \<Longrightarrow> f x = f y"
  shows "f a = f b"
  using assms(1) unfolding same_set_def by (induction rule: rtrancl_induct) (auto dest!: assms(2))

text \<open>The parents stand for the pairs joined so far.\<close>

definition joined :: "nat list \<Rightarrow> (nat \<times> nat) set \<Rightarrow> bool" where
  "joined p r \<longleftrightarrow> uf_wf p \<and> (\<forall>n m. (n, m) \<in> r \<longrightarrow> uf_root p n = uf_root p m) \<and>
     (\<forall>i<length p. (i, uf_root p i) \<in> same_set r)"

lemma joined_same: "joined p r \<Longrightarrow> i < length p \<Longrightarrow> j < length p \<Longrightarrow>
    uf_root p i = uf_root p j \<longleftrightarrow> (i, j) \<in> same_set r"
  by (auto simp: joined_def dest: same_set_imp [where f = "uf_root p"]
      intro: same_set_trans same_set_sym) (metis same_set_sym same_set_trans)

lemma joined_roots:
  assumes "joined p r" "r \<subseteq> {..<length p} \<times> {..<length p}" "uf_wf q" "length q = length p"
    "\<forall>i<length p. uf_root q i = uf_root p i"
  shows "joined q r"
  unfolding joined_def
proof (intro conjI)
  show "\<forall>n m. (n, m) \<in> r \<longrightarrow> uf_root q n = uf_root q m"
  proof (intro allI impI)
    fix n m
    assume "(n, m) \<in> r"
    moreover from this have "n < length p" "m < length p" using assms(2) by auto
    ultimately show "uf_root q n = uf_root q m" using assms(1,5) by (simp add: joined_def)
  qed
  show "\<forall>i<length q. (i, uf_root q i) \<in> same_set r" using assms(1,4,5) by (simp add: joined_def)
qed (rule assms(3))

lemma joined_union:
  assumes j: "joined p r" and r: "r \<subseteq> {..<length p} \<times> {..<length p}" and nm: "n < length p" "m < length p"
  shows "joined (p[max (uf_root p n) (uf_root p m) := min (uf_root p n) (uf_root p m)]) (insert (n, m) r)"
proof -
  let ?a = "min (uf_root p n) (uf_root p m)" and ?b = "max (uf_root p n) (uf_root p m)"
  let ?q = "p[?b := ?a]" and ?s = "insert (n, m) r"
  have wf: "uf_wf p" using j by (simp add: joined_def)
  have lt: "?b < length p" using nm uf_root_le [of p n] uf_root_le [of p m] by simp
  have fx: "p ! ?a = ?a" "p ! ?b = ?b" using uf_root_fix [OF wf] nm by (auto simp: min_def max_def)
  have root: "uf_root ?q i = (if uf_root p i = ?b then ?a else uf_root p i)" if "i < length p" for i
  proof (cases "?a = ?b")
    case True
    then have "?q = p" using fx(2) by (metis list_update_id)
    then show ?thesis using True by simp
  next
    case False
    then have "?a < ?b" by linarith
    then show ?thesis by (rule uf_root_union [OF wf _ lt fx that])
  qed
  have mono: "same_set r \<subseteq> same_set ?s" by (rule same_set_mono) auto
  have in_r: "(i, uf_root p i) \<in> same_set ?s" if "i < length p" for i
    using j that mono by (auto simp: joined_def)
  have ab: "(?b, ?a) \<in> same_set ?s"
  proof -
    have "(uf_root p n, uf_root p m) \<in> same_set ?s"
      using same_set_trans [OF same_set_sym [OF in_r [OF nm(1)]] same_set_trans [OF same_set_pair in_r [OF nm(2)]]] by simp
    then show ?thesis by (auto simp: min_def max_def dest: same_set_sym)
  qed
  show ?thesis unfolding joined_def
  proof (intro conjI)
    show "uf_wf ?q" by (rule uf_wf_update [OF wf]) simp
    have "uf_root ?q n = uf_root ?q m" unfolding root [OF nm(1)] root [OF nm(2)] by (auto simp: min_def max_def)
    moreover have "uf_root ?q x = uf_root ?q y" if "(x, y) \<in> r" for x y
    proof -
      have "x < length p" "y < length p" using that r by auto
      then show ?thesis using that j by (simp add: root joined_def)
    qed
    ultimately show "\<forall>x y. (x, y) \<in> ?s \<longrightarrow> uf_root ?q x = uf_root ?q y" by auto
    show "\<forall>i<length ?q. (i, uf_root ?q i) \<in> same_set ?s"
    proof (intro allI impI)
      fix i
      assume "i < length ?q"
      then have i: "i < length p" by simp
      show "(i, uf_root ?q i) \<in> same_set ?s"
      proof (cases "uf_root p i = ?b")
        case True
        have "(i, ?b) \<in> same_set ?s" using in_r [OF i] unfolding True .
        then have "(i, ?a) \<in> same_set ?s" using ab by (rule same_set_trans)
        then show ?thesis unfolding root [OF i] if_P [OF True] .
      next
        case False
        show ?thesis unfolding root [OF i] if_not_P [OF False] by (rule in_r [OF i])
      qed
    qed
  qed
qed

abbreviation set_at :: "(nat, nat list) btree_map \<Rightarrow> nat \<Rightarrow> nat list" where
  "set_at sets root \<equiv> (case map_of sets root of None \<Rightarrow> [] | Some l \<Rightarrow> l)"

lemma collect_sets:
  assumes "uf_wf p" "set ns \<subseteq> {..<length p}" "bt_wf sets" "\<forall>root. map_of sets root \<noteq> Some []"
  shows "\<exists>out. collect_sets ns p sets = Some out \<and> bt_wf out \<and> (\<forall>root. map_of out root \<noteq> Some []) \<and>
    (\<forall>root. set_at out root = set_at sets root @ filter (\<lambda>n. uf_root p n = root) ns)"
  using assms
proof (induction ns arbitrary: p sets)
  case (Cons n ns)
  then obtain q where q: "find_root p n = Some (uf_root p n, q)" "uf_wf q" "length q = length p"
    "\<forall>i<length p. uf_root q i = uf_root p i" using find_root [of p n] by auto
  let ?sets = "bt_insert (uf_root p n) (set_at sets (uf_root p n) @ [n]) sets"
  have wf: "bt_wf ?sets" "\<forall>root. map_of ?sets root \<noteq> Some []" using Cons.prems(3,4) by simp_all
  have "set ns \<subseteq> {..<length q}" using Cons.prems(2) q(3) by simp
  from Cons.IH [OF q(2) this wf] obtain out where out: "collect_sets ns q ?sets = Some out" "bt_wf out"
    "\<forall>root. map_of out root \<noteq> Some []"
    "\<forall>root. set_at out root = set_at ?sets root @ filter (\<lambda>i. uf_root q i = root) ns" by blast
  have "filter (\<lambda>i. uf_root q i = root) ns = filter (\<lambda>i. uf_root p i = root) ns" for root
    using q(4) Cons.prems(2) by (intro filter_cong) auto
  moreover have "set_at ?sets root = set_at sets root @ (if uf_root p n = root then [n] else [])" for root
    using Cons.prems(3) by simp
  ultimately have "\<forall>root. set_at out root = set_at sets root @ filter (\<lambda>i. uf_root p i = root) (n # ns)"
    using out(4) by simp
  moreover have "collect_sets (n # ns) p sets = Some out" using q(1) out(1) by simp
  ultimately show ?case using out by blast
qed simp

text \<open>The collected sets are the classes of the joined pairs.\<close>

definition sets_of :: "nat \<Rightarrow> (nat \<times> nat) set \<Rightarrow> (nat, nat list) btree_map \<Rightarrow> bool" where
  "sets_of len r sets \<longleftrightarrow> distinct (map snd sets) \<and>
     (\<forall>ns\<in>set (map snd sets). ns \<noteq> [] \<and> set ns \<subseteq> {..<len}) \<and>
     (\<forall>i<len. \<exists>ns\<in>set (map snd sets). i \<in> set ns) \<and>
     (\<forall>ns\<in>set (map snd sets). \<forall>ms\<in>set (map snd sets). \<forall>i\<in>set ns. \<forall>j\<in>set ms. ns = ms \<longleftrightarrow> (i, j) \<in> same_set r)"

lemma sets_ofD:
  assumes "sets_of len r sets"
  shows "distinct (map snd sets)" "ns \<in> set (map snd sets) \<Longrightarrow> ns \<noteq> []"
    "ns \<in> set (map snd sets) \<Longrightarrow> i \<in> set ns \<Longrightarrow> i < len"
    "i < len \<Longrightarrow> \<exists>ns\<in>set (map snd sets). i \<in> set ns"
    "ns \<in> set (map snd sets) \<Longrightarrow> ms \<in> set (map snd sets) \<Longrightarrow> i \<in> set ns \<Longrightarrow> j \<in> set ms \<Longrightarrow>
      ns = ms \<longleftrightarrow> (i, j) \<in> same_set r"
  using assms unfolding sets_of_def by (simp_all only: subset_iff lessThan_iff not_False_eq_True)

lemma sets_of_class:
  assumes "sets_of len r sets" "i < len" "j < len"
  shows "(\<exists>ns\<in>set (map snd sets). i \<in> set ns \<and> j \<in> set ns) \<longleftrightarrow> (i, j) \<in> same_set r"
proof
  assume "\<exists>ns\<in>set (map snd sets). i \<in> set ns \<and> j \<in> set ns"
  then obtain ns where "ns \<in> set (map snd sets)" "i \<in> set ns" "j \<in> set ns" by (elim bexE conjE)
  then show "(i, j) \<in> same_set r" using sets_ofD(5) [OF assms(1), of ns ns i j] by simp
next
  assume ij: "(i, j) \<in> same_set r"
  obtain ns where ns: "ns \<in> set (map snd sets)" "i \<in> set ns" using sets_ofD(4) [OF assms(1,2)] by (elim bexE)
  obtain ms where ms: "ms \<in> set (map snd sets)" "j \<in> set ms" using sets_ofD(4) [OF assms(1,3)] by (elim bexE)
  have "ns = ms" using sets_ofD(5) [OF assms(1) ns(1) ms(1) ns(2) ms(2)] ij by simp
  then show "\<exists>ns\<in>set (map snd sets). i \<in> set ns \<and> j \<in> set ns" using ns ms by (intro bexI [of _ ns]) simp_all
qed

lemma sets_of_relation:
  assumes "sets_of len r sets"
  shows "{(i, j). \<exists>ns\<in>set (map snd sets). i \<in> set ns \<and> j \<in> set ns} = same_set r \<inter> {..<len} \<times> {..<len}"
proof (rule set_eqI, clarify)
  fix i j
  show "(i, j) \<in> {(i, j). \<exists>ns\<in>set (map snd sets). i \<in> set ns \<and> j \<in> set ns} \<longleftrightarrow> (i, j) \<in> same_set r \<inter> {..<len} \<times> {..<len}"
    using sets_of_class [OF assms, of i j] sets_ofD(3) [OF assms] by blast
qed

lemma collect_classes:
  assumes p: "joined p r"
  shows "\<exists>sets. collect_sets [0..<length p] p [] = Some sets \<and> sets_of (length p) r sets \<and> bt_wf sets \<and>
    (\<forall>(root, ns)\<in>set sets. sorted ns \<and> distinct ns \<and> hd ns = root)"
proof -
  let ?len = "length p"
  have wf: "uf_wf p" using p by (simp add: joined_def)
  have "set [0..<?len] \<subseteq> {..<length p}" by auto
  from collect_sets [OF wf this bt_wf_Nil] obtain sets where
    s: "collect_sets [0..<?len] p [] = Some sets" "bt_wf sets" "\<forall>root. map_of sets root \<noteq> Some []"
    "\<forall>root. set_at sets root = filter (\<lambda>n. uf_root p n = root) [0..<?len]" by auto
  have at: "ns \<in> set (map snd sets) \<longleftrightarrow> (\<exists>root. ns = filter (\<lambda>n. uf_root p n = root) [0..<?len] \<and> ns \<noteq> [])" for ns
  proof
    assume "ns \<in> set (map snd sets)"
    then obtain root where "map_of sets root = Some ns" using bt_mem [OF s(2)] by force
    then show "\<exists>root. ns = filter (\<lambda>n. uf_root p n = root) [0..<?len] \<and> ns \<noteq> []"
      using s(3) spec [OF s(4), of root] by (metis option.simps(5))
  next
    assume "\<exists>root. ns = filter (\<lambda>n. uf_root p n = root) [0..<?len] \<and> ns \<noteq> []"
    then obtain root where "set_at sets root = ns" "ns \<noteq> []" using s(4) by metis
    then have "map_of sets root = Some ns" by (cases "map_of sets root") simp_all
    then show "ns \<in> set (map snd sets)" using bt_mem [OF s(2)] by force
  qed
  have "sets_of ?len r sets" unfolding sets_of_def
  proof (intro conjI ballI allI impI)
    have "root = root'" if "(root, ns) \<in> set sets" "(root', ns) \<in> set sets" for root root' ns
    proof -
      have "map_of sets root = Some ns" "map_of sets root' = Some ns" using that bt_mem [OF s(2)] by simp_all
      then have "set_at sets root = ns" "set_at sets root' = ns" "ns \<noteq> []" using s(3) by auto
      then have "hd ns \<in> set (filter (\<lambda>n. uf_root p n = root) [0..<?len])"
        "hd ns \<in> set (filter (\<lambda>n. uf_root p n = root') [0..<?len])" using s(4) by (metis hd_in_set)+
      then show ?thesis by simp
    qed
    then have "inj_on snd (set sets)" by (auto simp: inj_on_def)
    then show "distinct (map snd sets)"
      using bt_wf_distinct [OF s(2)] by (simp add: distinct_map)
    show "ns \<noteq> []" "set ns \<subseteq> {..<?len}" if "ns \<in> set (map snd sets)" for ns using that at by auto
    show "\<exists>ns\<in>set (map snd sets). i \<in> set ns" if "i < ?len" for i
    proof (rule bexI)
      show "i \<in> set (filter (\<lambda>n. uf_root p n = uf_root p i) [0..<?len])" using that by simp
      then show "filter (\<lambda>n. uf_root p n = uf_root p i) [0..<?len] \<in> set (map snd sets)" unfolding at by fastforce
    qed
    fix ns ms i j
    assume a: "ns \<in> set (map snd sets)" "ms \<in> set (map snd sets)" "i \<in> set ns" "j \<in> set ms"
    from a(1,3) at obtain u where u: "ns = filter (\<lambda>n. uf_root p n = u) [0..<?len]" "uf_root p i = u" "i < ?len" by auto
    from a(2,4) at obtain v where v: "ms = filter (\<lambda>n. uf_root p n = v) [0..<?len]" "uf_root p j = v" "j < ?len" by auto
    have "u = v" if "ns = ms"
    proof -
      have "i \<in> set ms" using a(3) that by simp
      then show ?thesis using v(1) u(2) by simp
    qed
    then have "ns = ms \<longleftrightarrow> u = v" using u(1) v(1) by blast
    moreover have "uf_root p i = uf_root p j \<longleftrightarrow> (i, j) \<in> same_set r"
      using joined_same [OF p, of i j] u(3) v(3) by simp
    ultimately show "ns = ms \<longleftrightarrow> (i, j) \<in> same_set r" using u(2) v(2) by simp
  qed
  moreover have "sorted ns \<and> distinct ns \<and> hd ns = root" if "(root, ns) \<in> set sets" for root ns
  proof -
    have at: "map_of sets root = Some ns" using that bt_mem [OF s(2)] by simp
    then have ns: "ns = filter (\<lambda>n. uf_root p n = root) [0..<?len]" "ns \<noteq> []"
      using s(3) spec [OF s(4), of root] by auto
    then have sd: "sorted ns" "distinct ns" by (simp_all add: sorted_wrt_filter)
    have "hd ns \<in> set ns" using ns(2) by simp
    then have h: "uf_root p (hd ns) = root" "hd ns < ?len" using ns(1) by auto
    then have "root < ?len" using uf_root_le [of p "hd ns"] by simp
    moreover have "uf_root p root = root" using uf_root_fix [OF wf h(2)] h(1) by simp
    ultimately have "root \<in> set ns" using ns(1) by simp
    then have "hd ns \<le> root" using sd(1) ns(2) by (cases ns) auto
    then show ?thesis using sd h(1) uf_root_le [of p "hd ns"] by simp
  qed
  ultimately show ?thesis using s(1,2) by blast
qed

end
