(* ===== verification/Curation.thy ===== *)
theory Curation imports Catalog Union_Find begin

text \<open>
  The curation of the cells of a discover run: \<open>src/discovery/curation.rs\<close> and the phase
  \<open>src/phases/discover_curate.rs\<close>. The curator's answer is raw JSON of the library's value
  type; \<open>json_lib\<close> holds the library's accessors. Indices into the lists of one answer are
  natural numbers. The loop that follows parent pointers is an option-valued partial
  function; \<open>normalise_covers\<close> shows that it always ends.
\<close>

section \<open>Data\<close>

record 'j json_lib =
  jl_array :: "'j \<Rightarrow> 'j list option"
  jl_u64 :: "'j \<Rightarrow> u64 option"
  jl_str :: "'j \<Rightarrow> string option"
  jl_field :: "string \<Rightarrow> 'j \<Rightarrow> 'j option"
  jl_item :: "nat \<Rightarrow> 'j \<Rightarrow> 'j option"

record 'j raw_curation =
  rc_groups :: 'j
  rc_assign :: 'j
  rc_duplicates :: 'j
  rc_tensions :: 'j

record curation_report =
  cr_theses :: nat
  cr_unassigned :: nat
  cr_unknown :: nat
  cr_repeated :: nat
  cr_dropped_duplicates :: nat
  cr_dropped_tensions :: nat

record chunk_curation =
  cc_groups :: "group list"
  cc_tensions :: "tension list"
  cc_report :: curation_report

datatype curation_status = Curation_Ok | Curation_Is_Failed

record curation =
  cu_cell :: string
  cu_status :: curation_status
  cu_members :: "string list"
  cu_groups :: "group list"
  cu_tensions :: "tension list"
  cu_reports :: "curation_report list"

definition is_acceptable :: "curation_report \<Rightarrow> bool" where
  "is_acceptable r \<longleftrightarrow> cr_unassigned r * 5 \<le> cr_theses r"

definition max_theses_per_call :: nat where
  "max_theses_per_call = 140"

definition min_theses_to_curate :: nat where
  "min_theses_to_curate = 2"

section \<open>Reading the answer\<close>

definition index_field :: "'j json_lib \<Rightarrow> 'j \<Rightarrow> string \<Rightarrow> nat option" where
  "index_field lib v key =
     (case jl_field lib key v of None \<Rightarrow> None | Some x \<Rightarrow> map_option unat (jl_u64 lib x))"

definition pair_of :: "'j json_lib \<Rightarrow> 'j \<Rightarrow> nat \<Rightarrow> (nat \<times> nat) option" where
  "pair_of lib entry len =
     (let at = (\<lambda>i. case jl_item lib i entry of
                      None \<Rightarrow> None
                    | Some x \<Rightarrow> (case jl_u64 lib x of
                                   None \<Rightarrow> None
                                 | Some n \<Rightarrow> if unat n < len then Some (unat n) else None))
      in case at 0 of
           None \<Rightarrow> None
         | Some n \<Rightarrow> (case at 1 of None \<Rightarrow> None | Some m \<Rightarrow> if n \<noteq> m then Some (n, m) else None))"

definition one_line :: "string \<Rightarrow> string" where
  "one_line s = join_str '' '' (split_whitespace s)"

definition text_field :: "'j json_lib \<Rightarrow> 'j \<Rightarrow> string \<Rightarrow> string" where
  "text_field lib v key =
     (case jl_field lib key v of
        None \<Rightarrow> []
      | Some x \<Rightarrow> (case jl_str lib x of None \<Rightarrow> [] | Some s \<Rightarrow> one_line s))"

definition entries_of :: "'j json_lib \<Rightarrow> 'j \<Rightarrow> 'j list" where
  "entries_of lib v = (case jl_array lib v of None \<Rightarrow> [] | Some xs \<Rightarrow> xs)"

section \<open>Groups\<close>

definition assign_entry ::
  "'j json_lib \<Rightarrow> nat \<Rightarrow> nat \<Rightarrow> 'j \<Rightarrow> nat option list \<times> nat \<times> nat \<Rightarrow> nat option list \<times> nat \<times> nat"
where
  "assign_entry lib n_ids n_groups entry = (\<lambda>(group_of, repeated, unknown).
     (case (index_field lib entry ''n'', index_field lib entry ''g'') of
        (Some n, Some g) \<Rightarrow>
          (if n_ids \<le> n \<or> n_groups \<le> g then (group_of, repeated, unknown + 1)
           else if group_of ! n \<noteq> None then (group_of, repeated + 1, unknown)
           else (group_of[n := Some g], repeated, unknown))
      | _ \<Rightarrow> (group_of, repeated, unknown + 1)))"

definition make_group :: "string list \<Rightarrow> string \<Rightarrow> string \<Rightarrow> nat list \<Rightarrow> nat option \<Rightarrow> group" where
  "make_group ids label summary members wanted =
     (let sorted = sort (map ((!) ids) members);
          representative = (case wanted of None \<Rightarrow> sorted ! 0 | Some n \<Rightarrow> ids ! n);
          ordered = representative # filter (\<lambda>i. i \<noteq> representative) sorted
      in \<lparr>gr_label = label, gr_summary = summary, gr_representative = Some representative,
          gr_members = map (\<lambda>i. \<lparr>me_thesis_id = i, me_duplicate_of = None\<rparr>) ordered\<rparr>)"

text \<open>One group of the answer: skipped when it has no members, else appended at its slot.\<close>

definition group_entry ::
  "'j json_lib \<Rightarrow> string list \<Rightarrow> nat option list \<Rightarrow> nat \<times> 'j \<Rightarrow> group list \<times> (nat, nat) btree_map
     \<Rightarrow> group list \<times> (nat, nat) btree_map"
where
  "group_entry lib ids group_of = (\<lambda>(g, v) (groups, slot_of).
     (let members = filter (\<lambda>n. group_of ! n = Some g) [0..<length ids];
          label = (let l = text_field lib v ''label'' in if l = [] then ''Group '' @ show_nat (g + 1) else l);
          wanted = (case index_field lib v ''representative'' of
                      None \<Rightarrow> None | Some n \<Rightarrow> if n \<in> set members then Some n else None)
      in if members = [] then (groups, slot_of)
         else (groups @ [make_group ids label (text_field lib v ''summary'') members wanted],
               bt_insert g (length groups) slot_of)))"

section \<open>Duplicate sets\<close>

fun join_duplicates ::
  "'j json_lib \<Rightarrow> nat option list \<Rightarrow> 'j list \<Rightarrow> nat list \<Rightarrow> nat \<Rightarrow> (nat list \<times> nat) option"
where
  "join_duplicates lib group_of [] parent dropped = Some (parent, dropped)"
| "join_duplicates lib group_of (entry # es) parent dropped =
     (case pair_of lib entry (length group_of) of
        None \<Rightarrow> join_duplicates lib group_of es parent (dropped + 1)
      | Some (n, m) \<Rightarrow>
          (if group_of ! n \<noteq> None \<and> group_of ! n = group_of ! m
           then (case find_root parent n of
                   None \<Rightarrow> None
                 | Some (rn, parent1) \<Rightarrow>
                     (case find_root parent1 m of
                        None \<Rightarrow> None
                      | Some (rm, parent2) \<Rightarrow>
                          join_duplicates lib group_of es (parent2[max rn rm := min rn rm]) dropped))
           else join_duplicates lib group_of es parent (dropped + 1)))"

text \<open>The head of a set: the group's representative when it is in the set, else the least id.\<close>

definition set_head :: "string list \<Rightarrow> group \<Rightarrow> nat list \<Rightarrow> string" where
  "set_head ids gr ns =
     (case find (\<lambda>i. Some i = gr_representative gr) (map ((!) ids) ns) of
        Some i \<Rightarrow> i
      | None \<Rightarrow> fold min (map ((!) ids) (tl ns)) (ids ! hd ns))"

definition mark_set ::
  "string list \<Rightarrow> nat option list \<Rightarrow> (nat, nat) btree_map \<Rightarrow> nat list \<Rightarrow> group list \<Rightarrow> group list"
where
  "mark_set ids group_of slot_of ns groups =
     (case (case group_of ! hd ns of None \<Rightarrow> None | Some g \<Rightarrow> map_of slot_of g) of
        None \<Rightarrow> groups
      | Some slot \<Rightarrow>
          (let gr = groups ! slot; head = set_head ids gr ns in
           groups[slot := gr\<lparr>gr_members :=
             map (\<lambda>m. if me_thesis_id m \<in> set (map ((!) ids) ns) \<and> me_thesis_id m \<noteq> head
                      then m\<lparr>me_duplicate_of := Some head\<rparr> else m) (gr_members gr)\<rparr>]))"

section \<open>Tensions\<close>

definition tension_entry ::
  "'j json_lib \<Rightarrow> string list \<Rightarrow> 'j \<Rightarrow> tension list \<times> (nat \<times> nat) list \<times> nat
     \<Rightarrow> tension list \<times> (nat \<times> nat) list \<times> nat"
where
  "tension_entry lib ids entry = (\<lambda>(tensions, seen, dropped).
     (case pair_of lib entry (length ids) of
        None \<Rightarrow> (tensions, seen, dropped + 1)
      | Some (n, m) \<Rightarrow>
          (if (min n m, max n m) \<in> set seen then (tensions, seen, dropped + 1)
           else (tensions @ [\<lparr>tn_a = ids ! n, tn_b = ids ! m,
                   tn_note = (case jl_item lib 2 entry of
                                None \<Rightarrow> []
                              | Some x \<Rightarrow> (case jl_str lib x of None \<Rightarrow> [] | Some s \<Rightarrow> one_line s))\<rparr>],
                 (min n m, max n m) # seen, dropped))))"

section \<open>Normalisation\<close>

definition normalise :: "'j json_lib \<Rightarrow> string list \<Rightarrow> 'j raw_curation \<Rightarrow> chunk_curation option" where
  "normalise lib ids raw =
     (let raw_groups = entries_of lib (rc_groups raw);
          (group_of, repeated, unknown) =
            fold (assign_entry lib (length ids) (length raw_groups)) (entries_of lib (rc_assign raw))
              (replicate (length ids) None, 0, 0);
          (groups, slot_of) = fold (group_entry lib ids group_of) (enumerate 0 raw_groups) ([], []);
          unassigned = filter (\<lambda>n. group_of ! n = None) [0..<length ids];
          groups = (if unassigned = [] then groups
                    else groups @ [make_group ids ''Ungrouped'' [] unassigned None])
      in case join_duplicates lib group_of (entries_of lib (rc_duplicates raw)) [0..<length ids] 0 of
           None \<Rightarrow> None
         | Some (parent, dropped_duplicates) \<Rightarrow>
             (case collect_sets [0..<length ids] parent [] of
                None \<Rightarrow> None
              | Some sets \<Rightarrow>
                  (let groups = fold (mark_set ids group_of slot_of)
                         (filter (\<lambda>ns. 1 < length ns) (map snd sets)) groups;
                       (tensions, _, dropped_tensions) =
                         fold (tension_entry lib ids) (entries_of lib (rc_tensions raw)) ([], [], 0)
                   in Some \<lparr>cc_groups = groups, cc_tensions = tensions,
                        cc_report = \<lparr>cr_theses = length ids, cr_unassigned = length unassigned,
                          cr_unknown = unknown, cr_repeated = repeated,
                          cr_dropped_duplicates = dropped_duplicates,
                          cr_dropped_tensions = dropped_tensions\<rparr>\<rparr>)))"

section \<open>Chunks and cells\<close>

definition chunk_ranges :: "nat \<Rightarrow> nat \<Rightarrow> (nat \<times> nat) list" where
  "chunk_ranges n m =
     (let chunks = (n + max m 1 - 1) div max m 1
      in map (\<lambda>i. (i * n div chunks, (i + 1) * n div chunks)) [0..<chunks])"

definition merge_curation :: "string \<Rightarrow> string list \<Rightarrow> chunk_curation option list \<Rightarrow> curation" where
  "merge_curation cell members chunks =
     (let oks = List.map_filter id chunks;
          failed = None \<in> set chunks
      in \<lparr>cu_cell = cell, cu_status = (if failed then Curation_Is_Failed else Curation_Ok), cu_members = members,
          cu_groups = (if failed then [] else concat (map cc_groups oks)),
          cu_tensions = (if failed then [] else concat (map cc_tensions oks)),
          cu_reports = map cc_report oks\<rparr>)"

definition group_ids :: "group list \<Rightarrow> string list" where
  "group_ids gs = map me_thesis_id (concat (map gr_members gs))"

definition covers :: "curation \<Rightarrow> string \<Rightarrow> string list \<Rightarrow> bool" where
  "covers c cell ids =
     (if cu_cell c \<noteq> cell \<or> cu_members c \<noteq> ids then False
      else if cu_status c = Curation_Is_Failed then True
      else sort (group_ids (cu_groups c)) = ids)"

definition cell_member_ids :: "cell_entry \<Rightarrow> string list" where
  "cell_member_ids cell = sort (group_ids (ce_groups cell))"

text \<open>An id as a path segment; the bytes of one other character give one dash.\<close>

definition path_segment :: "string \<Rightarrow> string" where
  "path_segment s =
     (let seg = map (\<lambda>c. if is_ascii_alphanumeric c \<or> c = CHR ''-'' \<or> c = CHR ''_'' then c else CHR ''-'')
                  (filter (\<lambda>c. \<not> (128 \<le> (of_char c :: nat) \<and> (of_char c :: nat) < 192)) s)
      in if seg = [] then ''-'' else seg)"

definition curation_path :: "string \<Rightarrow> string \<Rightarrow> string" where
  "curation_path dimension_id facet_id = path_segment dimension_id @ ''__'' @ path_segment facet_id @ ''.json''"

definition apply_curation :: "curation list \<Rightarrow> cell_entry \<Rightarrow> cell_entry" where
  "apply_curation curations cell =
     (case find (\<lambda>c. covers c (cell_key cell) (cell_member_ids cell)) curations of
        None \<Rightarrow> cell
      | Some c \<Rightarrow>
          (case cu_status c of
             Curation_Ok \<Rightarrow> cell\<lparr>ce_groups := cu_groups c, ce_tensions := cu_tensions c, ce_curation := Grouped\<rparr>
           | Curation_Is_Failed \<Rightarrow> cell\<lparr>ce_curation := Curation_Failed\<rparr>))"

definition apply_curations :: "catalog \<Rightarrow> curation list \<Rightarrow> catalog" where
  "apply_curations cat curations = cat\<lparr>ca_cells := map (apply_curation curations) (ca_cells cat)\<rparr>"

section \<open>The phase\<close>

text \<open>The curation directory: what reading each file as a curation gives.\<close>

type_synonym curation_dir = "(string, curation result) btree_map"

definition pending_cells :: "cell_entry list \<Rightarrow> curation_dir \<Rightarrow> cell_entry list" where
  "pending_cells cells dir =
     filter (\<lambda>cell.
        (let ids = cell_member_ids cell
         in if length ids < min_theses_to_curate then False
            else \<not> (case map_of dir (curation_path (ce_dimension_id cell) (ce_facet_id cell)) of
                      Some (Inr c) \<Rightarrow> cu_status c = Curation_Ok \<and> covers c (cell_key cell) ids
                    | _ \<Rightarrow> False)))
       (filter (\<lambda>cell. ce_dimension_id cell \<noteq> ''outside-matrix'') cells)"

definition load_curations :: "curation_dir \<Rightarrow> curation list" where
  "load_curations dir =
     List.map_filter (\<lambda>(_, c). case c of Inr x \<Rightarrow> Some x | Inl _ \<Rightarrow> None)
       (filter (\<lambda>(name, _). is_primary_json name) dir)"

text \<open>The answers of the two attempts at a chunk, decoded; the first acceptable one counts.\<close>

fun curate_attempts :: "'j json_lib \<Rightarrow> string list \<Rightarrow> 'j raw_curation result list \<Rightarrow> chunk_curation option option" where
  "curate_attempts lib ids [] = Some None"
| "curate_attempts lib ids (a # as) =
     (case a of
        Inl _ \<Rightarrow> curate_attempts lib ids as
      | Inr raw \<Rightarrow>
          (case normalise lib ids raw of
             None \<Rightarrow> None
           | Some chunk \<Rightarrow> if is_acceptable (cc_report chunk) then Some (Some chunk) else curate_attempts lib ids as))"

definition curate_chunk ::
  "'j json_lib \<Rightarrow> string list \<Rightarrow> (nat \<Rightarrow> 'j raw_curation result) \<Rightarrow> chunk_curation option option"
where
  "curate_chunk lib ids answers = curate_attempts lib ids (map answers [0..<2])"

text \<open>Chunk by chunk; a cancellation seen before a chunk ends the loop with a failed one.\<close>

fun curate_chunks ::
  "'j json_lib \<Rightarrow> string list \<Rightarrow> (nat \<Rightarrow> bool) \<Rightarrow> (nat \<Rightarrow> nat \<Rightarrow> 'j raw_curation result) \<Rightarrow> (nat \<times> nat \<times> nat) list
     \<Rightarrow> chunk_curation option list option"
where
  "curate_chunks lib ids cancelled answers [] = Some []"
| "curate_chunks lib ids cancelled answers ((k, a, b) # rs) =
     (if cancelled k then Some [None]
      else case curate_chunk lib (take (b - a) (drop a ids)) (answers k) of
             None \<Rightarrow> None
           | Some chunk \<Rightarrow>
               (case curate_chunks lib ids cancelled answers rs of None \<Rightarrow> None | Some cs \<Rightarrow> Some (chunk # cs)))"

definition curate_cell ::
  "'j json_lib \<Rightarrow> bool \<Rightarrow> (nat \<Rightarrow> bool) \<Rightarrow> (nat \<Rightarrow> nat \<Rightarrow> 'j raw_curation result) \<Rightarrow> cell_entry \<Rightarrow> curation option"
where
  "curate_cell lib permit cancelled answers cell =
     (let ids = cell_member_ids cell; key = cell_key cell
      in if \<not> permit then Some (merge_curation key ids [None])
         else map_option (merge_curation key ids)
                (curate_chunks lib ids cancelled answers
                   (enumerate 0 (chunk_ranges (length ids) max_theses_per_call))))"

section \<open>Chunks\<close>

definition cut :: "nat \<Rightarrow> nat \<Rightarrow> nat \<Rightarrow> nat" where
  "cut n c i = i * n div c"

lemma cut_step: "0 < c \<Longrightarrow> cut n c i + n div c \<le> cut n c (Suc i) \<and> cut n c (Suc i) \<le> cut n c i + n div c + 1"
proof -
  assume c: "0 < c"
  have "i * n = cut n c i * c + i * n mod c" "n = n div c * c + n mod c"
      "Suc i * n = cut n c (Suc i) * c + Suc i * n mod c" by (simp_all only: cut_def div_mult_mod_eq)
  moreover have "Suc i * n = i * n + n" by simp
  ultimately have a: "cut n c (Suc i) * c + Suc i * n mod c = cut n c i * c + n div c * c + (i * n mod c + n mod c)"
    by linarith
  have m: "i * n mod c < c" "n mod c < c" "Suc i * n mod c < c" using c by simp_all
  have "(cut n c i + n div c) * c < (cut n c (Suc i) + 1) * c"
    unfolding add_mult_distrib using a m by linarith
  then have "cut n c i + n div c < cut n c (Suc i) + 1" using c by (simp only: mult_less_cancel2)
  moreover have "cut n c (Suc i) * c < (cut n c i + n div c + 2) * c"
    unfolding add_mult_distrib using a m by linarith
  then have "cut n c (Suc i) < cut n c i + n div c + 2" using c by (simp only: mult_less_cancel2)
  ultimately show ?thesis by simp
qed

lemma cut_step_le:
  assumes "0 < c" "n \<le> c * k"
  shows "cut n c (Suc i) \<le> cut n c i + k"
proof -
  have "cut n c (Suc i) \<le> (i * n + c * k) div c" using assms(2) by (simp add: cut_def div_le_mono)
  also have "\<dots> = cut n c i + k" using assms(1) by (simp add: cut_def)
  finally show ?thesis .
qed

lemma ceil_div:
  assumes "0 < n" "0 < k"
  shows "0 < (n + k - 1) div k" "(n + k - 1) div k \<le> n" "n \<le> (n + k - 1) div k * (k :: nat)"
proof -
  from assms obtain a b where ab: "n = Suc a" "k = Suc b" by (metis gr0_implies_Suc)
  show "0 < (n + k - 1) div k" using assms by (simp add: div_greater_zero_iff)
  have "(n + k - 1) div k \<le> n * k div k" by (intro div_le_mono) (simp add: ab)
  then show "(n + k - 1) div k \<le> n" using assms by simp
  have "n + k - 1 < k + (n + k - 1) div k * k" using assms(2) by (rule dividend_less_div_times)
  then show "n \<le> (n + k - 1) div k * k" by linarith
qed

lemma cut_concat: "0 < c \<Longrightarrow> concat (map (\<lambda>i. [cut n c i..<cut n c (Suc i)]) [0..<k]) = [0..<cut n c k]"
proof (induction k)
  case (Suc k)
  have "cut n c k \<le> cut n c (Suc k)" using cut_step [OF Suc.prems, of n k] by linarith
  then have "[0..<cut n c k] @ [cut n c k..<cut n c (Suc k)] = [0..<cut n c (Suc k)]"
    by (metis upt_add_eq_append le_add_diff_inverse zero_le)
  then show ?case using Suc by simp
qed (simp add: cut_def)

lemma cut_ranges:
  assumes "0 < c" "c \<le> n" "n \<le> c * k"
  defines "rs \<equiv> map (\<lambda>i. (cut n c i, cut n c (Suc i))) [0..<c]"
  shows "concat (map (\<lambda>(a, b). [a..<b]) rs) = [0..<n]"
    and "\<forall>(a, b)\<in>set rs. a < b \<and> b - a \<le> k \<and> b - a \<in> {n div c, n div c + 1}"
proof -
  have "concat (map (\<lambda>(a, b). [a..<b]) rs) = [0..<cut n c c]"
    using cut_concat [OF assms(1), of n c] by (simp add: rs_def comp_def)
  moreover have "cut n c c = n" using assms(1) by (simp add: cut_def)
  ultimately show "concat (map (\<lambda>(a, b). [a..<b]) rs) = [0..<n]" by simp
  have q: "0 < n div c" using assms(1,2) by (simp add: div_greater_zero_iff)
  have "cut n c i < cut n c (Suc i) \<and> cut n c (Suc i) - cut n c i \<le> k \<and>
      (cut n c (Suc i) - cut n c i = n div c \<or> cut n c (Suc i) - cut n c i = n div c + 1)" for i
    using cut_step [OF assms(1), of n i] cut_step_le [OF assms(1,3), of i] q by linarith
  then show "\<forall>(a, b)\<in>set rs. a < b \<and> b - a \<le> k \<and> b - a \<in> {n div c, n div c + 1}"
    by (simp add: rs_def)
qed

lemma chunk_ranges_cover:
  "concat (map (\<lambda>(a, b). [a..<b]) (chunk_ranges n m)) = [0..<n]"
  "\<exists>k. \<forall>(a, b)\<in>set (chunk_ranges n m). a < b \<and> b - a \<le> max m 1 \<and> b - a \<in> {k, k + 1}"
proof -
  define k where "k = max m 1"
  define c where "c = (n + k - 1) div k"
  have r: "chunk_ranges n m = map (\<lambda>i. (cut n c i, cut n c (Suc i))) [0..<c]"
    by (simp add: chunk_ranges_def cut_def Let_def c_def k_def)
  have "concat (map (\<lambda>(a, b). [a..<b]) (chunk_ranges n m)) = [0..<n] \<and>
      (\<exists>q. \<forall>(a, b)\<in>set (chunk_ranges n m). a < b \<and> b - a \<le> k \<and> b - a \<in> {q, q + 1})"
  proof (cases "n = 0")
    case True
    then have "c = 0" by (simp add: c_def k_def)
    then have "chunk_ranges n m = []" by (simp add: r)
    then show ?thesis using True by simp
  next
    case False
    have c: "0 < c" "c \<le> n" "n \<le> c * k" unfolding c_def using ceil_div [of n k] False by (simp_all add: k_def)
    show ?thesis unfolding r using cut_ranges [OF c] by blast
  qed
  then show "concat (map (\<lambda>(a, b). [a..<b]) (chunk_ranges n m)) = [0..<n]"
    "\<exists>q. \<forall>(a, b)\<in>set (chunk_ranges n m). a < b \<and> b - a \<le> max m 1 \<and> b - a \<in> {q, q + 1}"
    by (simp_all only: k_def)
qed

text \<open>The theses of a cell are cut into consecutive chunks. The ranges list every position once
  and in order; none is empty or longer than the maximum (at least one), and their lengths
  differ by one at most.\<close>

lemma chunk_ranges_partition:
  "concat (map (\<lambda>(a, b). [a..<b]) (chunk_ranges n m)) = [0..<n] \<and>
   (\<exists>k. \<forall>(a, b)\<in>set (chunk_ranges n m). a < b \<and> b - a \<le> max m 1 \<and> b - a \<in> {k, k + 1})"
  using chunk_ranges_cover by (rule conjI)

section \<open>Duplicate sets\<close>

text \<open>The accepted pairs of an answer, and their equivalence.\<close>

definition duplicate_pairs :: "'j json_lib \<Rightarrow> nat option list \<Rightarrow> 'j list \<Rightarrow> (nat \<times> nat) set" where
  "duplicate_pairs lib group_of es =
     {(n, m). group_of ! n \<noteq> None \<and> group_of ! n = group_of ! m \<and> (\<exists>e\<in>set es. pair_of lib e (length group_of) = Some (n, m))}"

lemma pair_of_bounds: "pair_of lib e len = Some (n, m) \<Longrightarrow> n < len \<and> m < len \<and> n \<noteq> m"
  by (auto simp: pair_of_def Let_def split: option.splits if_splits)

lemma join_duplicates:
  assumes "joined p r" "r \<subseteq> {..<length p} \<times> {..<length p}" "length p = length group_of"
  shows "\<exists>q k. join_duplicates lib group_of es p d = Some (q, k) \<and> length q = length p \<and>
    joined q (r \<union> duplicate_pairs lib group_of es)"
  using assms
proof (induction es arbitrary: p r d)
  case (Cons e es)
  show ?case
  proof (cases "\<exists>n m. pair_of lib e (length group_of) = Some (n, m) \<and> group_of ! n \<noteq> None \<and> group_of ! n = group_of ! m")
    case False
    then have "duplicate_pairs lib group_of (e # es) = duplicate_pairs lib group_of es"
      by (auto simp: duplicate_pairs_def)
    moreover have "join_duplicates lib group_of (e # es) p d = join_duplicates lib group_of es p (d + 1)"
      using False by (auto split: option.split)
    ultimately show ?thesis using Cons.IH [OF Cons.prems, of "d + 1"] by simp
  next
    case True
    then obtain n m where nm: "pair_of lib e (length group_of) = Some (n, m)" "group_of ! n \<noteq> None"
      "group_of ! n = group_of ! m" by blast
    then have lt: "n < length p" "m < length p" using pair_of_bounds Cons.prems(3) by fastforce+
    have wf: "uf_wf p" using Cons.prems(1) by (simp add: joined_def)
    from find_root [OF wf lt(1)] obtain p1 where p1: "find_root p n = Some (uf_root p n, p1)" "uf_wf p1"
      "length p1 = length p" "\<forall>i<length p. uf_root p1 i = uf_root p i" by blast
    from find_root [of p1 m] p1 lt obtain p2 where p2: "find_root p1 m = Some (uf_root p m, p2)" "uf_wf p2"
      "length p2 = length p" "\<forall>i<length p. uf_root p2 i = uf_root p i" by auto
    have "joined p2 r" using joined_roots [OF Cons.prems(1,2)] p2 by blast
    then have j: "joined (p2[max (uf_root p n) (uf_root p m) := min (uf_root p n) (uf_root p m)]) (insert (n, m) r)"
      using joined_union [of p2 r n m] Cons.prems(2) p2 lt by simp
    have pairs: "duplicate_pairs lib group_of (e # es) = insert (n, m) (duplicate_pairs lib group_of es)"
      using nm by (auto simp: duplicate_pairs_def)
    have "join_duplicates lib group_of (e # es) p d =
        join_duplicates lib group_of es (p2[max (uf_root p n) (uf_root p m) := min (uf_root p n) (uf_root p m)]) d"
      using nm p1 p2 by simp
    with Cons.IH [OF j, of d] Cons.prems p2 lt show ?thesis by (simp add: pairs)
  qed
qed (simp add: duplicate_pairs_def)

lemma duplicate_sets:
  "\<exists>parent k sets. join_duplicates lib group_of es [0..<length group_of] 0 = Some (parent, k) \<and>
     collect_sets [0..<length group_of] parent [] = Some sets \<and>
     sets_of (length group_of) (duplicate_pairs lib group_of es) sets"
proof -
  have "joined [0..<length group_of] {}" by (simp add: joined_def uf_wf_def)
  from join_duplicates [OF this, of group_of lib es 0] obtain p k where
    p: "join_duplicates lib group_of es [0..<length group_of] 0 = Some (p, k)" "length p = length group_of"
      "joined p (duplicate_pairs lib group_of es)" by auto
  from collect_classes [OF p(3)] show ?thesis unfolding p(2) using p(1) by blast
qed

text \<open>C27: The duplicate sets of an answer are the classes of the equivalence that its accepted
  pairs generate: pairs of two different theses of one group. Joining and collecting always
  end, every thesis is in a set, and two theses are in the same set exactly when a chain of
  accepted pairs connects them.\<close>

theorem duplicate_sets_are_classes:
  "\<exists>parent k sets. join_duplicates lib group_of es [0..<length group_of] 0 = Some (parent, k) \<and>
     collect_sets [0..<length group_of] parent [] = Some sets \<and>
     \<Union> (set (map set (map snd sets))) = {..<length group_of} \<and>
     {(i, j). \<exists>ns\<in>set (map snd sets). i \<in> set ns \<and> j \<in> set ns} =
       (duplicate_pairs lib group_of es \<union> (duplicate_pairs lib group_of es)\<inverse>)\<^sup>* \<inter> {..<length group_of} \<times> {..<length group_of}"
proof -
  obtain parent k sets where
    *: "join_duplicates lib group_of es [0..<length group_of] 0 = Some (parent, k)"
    "collect_sets [0..<length group_of] parent [] = Some sets"
    "sets_of (length group_of) (duplicate_pairs lib group_of es) sets"
    using duplicate_sets [of lib group_of es] by (elim exE conjE) (rule that)
  have "\<Union> (set (map set (map snd sets))) = {..<length group_of}"
    using sets_ofD(3,4) [OF *(3)] by fastforce
  then show ?thesis unfolding same_set_def [symmetric]
    using *(1,2) sets_of_relation [OF *(3)] by (intro exI conjI)
qed

section \<open>Groups of a normalised answer\<close>

definition group_wf :: "group \<Rightarrow> bool" where
  "group_wf gr \<longleftrightarrow> gr_members gr \<noteq> [] \<and> gr_representative gr = Some (me_thesis_id (hd (gr_members gr)))"

abbreviation fresh :: "group \<Rightarrow> bool" where
  "fresh gr \<equiv> \<forall>m\<in>set (gr_members gr). me_duplicate_of m = None"

lemma make_group:
  assumes "distinct ids" "set ms \<subseteq> {..<length ids}" "distinct ms" "ms \<noteq> []" "\<forall>n. w = Some n \<longrightarrow> n \<in> set ms"
  shows "mset (map me_thesis_id (gr_members (make_group ids l s ms w))) = image_mset ((!) ids) (mset ms)"
    and "group_wf (make_group ids l s ms w)" and "fresh (make_group ids l s ms w)"
proof -
  let ?sorted = "sort (map ((!) ids) ms)"
  define rep where "rep = (case w of None \<Rightarrow> ?sorted ! 0 | Some n \<Rightarrow> ids ! n)"
  have eq: "make_group ids l s ms w = \<lparr>gr_label = l, gr_summary = s, gr_representative = Some rep,
      gr_members = map (\<lambda>i. \<lparr>me_thesis_id = i, me_duplicate_of = None\<rparr>) (rep # filter (\<lambda>i. i \<noteq> rep) ?sorted)\<rparr>"
    by (simp add: make_group_def Let_def rep_def)
  have "inj_on ((!) ids) (set ms)" using assms(1,2) by (meson inj_onI lessThan_iff nth_eq_iff_index_eq subsetD)
  then have "distinct ?sorted" using assms(3) by (simp add: distinct_map)
  then have "filter (\<lambda>i. i \<noteq> rep) ?sorted = remove1 rep ?sorted"
    by (simp add: distinct_remove1_removeAll removeAll_filter_not_eq neq_commute)
  moreover have "?sorted \<noteq> []" using assms(4) by (metis length_0_conv length_map length_sort)
  then have "rep \<in> set ?sorted" using assms(4,5) nth_mem [of 0 ?sorted] by (auto simp: rep_def split: option.split)
  ultimately have "mset (rep # filter (\<lambda>i. i \<noteq> rep) ?sorted) = mset ?sorted"
    by (simp only: mset.simps mset_remove1) (simp only: insert_DiffM set_mset_mset)
  then show "mset (map me_thesis_id (gr_members (make_group ids l s ms w))) = image_mset ((!) ids) (mset ms)"
    by (simp add: eq comp_def)
  show "group_wf (make_group ids l s ms w)" "fresh (make_group ids l s ms w)" by (simp_all add: eq group_wf_def)
qed

abbreviation members_at :: "string list \<Rightarrow> nat option list \<Rightarrow> (nat option \<Rightarrow> bool) \<Rightarrow> nat list" where
  "members_at ids group_of P \<equiv> filter (\<lambda>n. P (group_of ! n)) [0..<length ids]"

definition groups_inv ::
  "string list \<Rightarrow> nat option list \<Rightarrow> nat \<Rightarrow> group list \<times> (nat, nat) btree_map \<Rightarrow> bool"
where
  "groups_inv ids group_of k = (\<lambda>(groups, slot_of).
     bt_wf slot_of \<and> (\<forall>gr\<in>set groups. group_wf gr \<and> fresh gr) \<and>
     mset (group_ids groups) = image_mset ((!) ids) (mset (members_at ids group_of (\<lambda>g. \<exists>i<k. g = Some i))) \<and>
     (\<forall>g s. map_of slot_of g = Some s \<longrightarrow> s < length groups \<and>
        (\<forall>n<length ids. group_of ! n = Some g \<longrightarrow> ids ! n \<in> me_thesis_id ` set (gr_members (groups ! s)))))"

lemma group_ids_simps [simp]:
  "group_ids [] = []" "group_ids (gs @ hs) = group_ids gs @ group_ids hs"
  "group_ids (g # gs) = map me_thesis_id (gr_members g) @ group_ids gs"
  by (simp_all add: group_ids_def)

lemma image_mset_disjoint:
  assumes "\<And>n. \<not> (P n \<and> Q n)"
  shows "image_mset f (mset (filter (\<lambda>n. P n \<or> Q n) ns)) = image_mset f (mset (filter P ns)) + image_mset f (mset (filter Q ns))"
  using assms by (induction ns) auto

lemma groups_invD:
  assumes "groups_inv ids group_of k (groups, slot_of)"
  shows "bt_wf slot_of" "gr \<in> set groups \<Longrightarrow> group_wf gr" "gr \<in> set groups \<Longrightarrow> fresh gr"
    "mset (group_ids groups) = image_mset ((!) ids) (mset (members_at ids group_of (\<lambda>g. \<exists>i<k. g = Some i)))"
    "map_of slot_of g = Some s \<Longrightarrow> s < length groups"
    "map_of slot_of g = Some s \<Longrightarrow> n < length ids \<Longrightarrow> group_of ! n = Some g \<Longrightarrow>
      ids ! n \<in> me_thesis_id ` set (gr_members (groups ! s))"
  using assms unfolding groups_inv_def prod.case by (elim conjE, fast)+

lemma members_at_Suc:
  "image_mset ((!) ids) (mset (members_at ids group_of (\<lambda>g. \<exists>i<Suc k. g = Some i))) =
   image_mset ((!) ids) (mset (members_at ids group_of (\<lambda>g. \<exists>i<k. g = Some i))) +
   image_mset ((!) ids) (mset (members_at ids group_of (\<lambda>g. g = Some k)))"
proof -
  have "members_at ids group_of (\<lambda>g. \<exists>i<Suc k. g = Some i) =
      members_at ids group_of (\<lambda>g. (\<exists>i<k. g = Some i) \<or> g = Some k)"
    by (intro filter_cong) (auto simp: less_Suc_eq)
  then show ?thesis by (simp only:) (rule image_mset_disjoint, auto)
qed

lemma groups_inv_push:
  assumes inv: "groups_inv ids group_of k (groups, slot_of)" and ok: "group_wf g" "fresh g"
    and ids: "mset (map me_thesis_id (gr_members g)) = image_mset ((!) ids) (mset (members_at ids group_of (\<lambda>g. g = Some k)))"
  shows "groups_inv ids group_of (Suc k) (groups @ [g], bt_insert k (length groups) slot_of)"
proof -
  note inv = groups_invD [OF inv]
  have "set_mset (mset (map me_thesis_id (gr_members g))) = (!) ids ` set (members_at ids group_of (\<lambda>g. g = Some k))"
    unfolding ids by simp
  then have new: "ids ! n \<in> me_thesis_id ` set (gr_members g)" if "n < length ids" "group_of ! n = Some k" for n
    using that by (auto simp: image_iff set_eq_iff)
  show ?thesis unfolding groups_inv_def prod.case
  proof (intro conjI allI impI ballI)
    show "me_duplicate_of m = None" if "gr \<in> set (groups @ [g])" "m \<in> set (gr_members gr)" for gr m
      using that inv(2,3) ok by auto
    show "group_wf gr" if "gr \<in> set (groups @ [g])" for gr using that inv(2) ok by auto
    show "mset (group_ids (groups @ [g])) = image_mset ((!) ids) (mset (members_at ids group_of (\<lambda>g. \<exists>i<Suc k. g = Some i)))"
      unfolding members_at_Suc using inv(4) ids by simp
    show "bt_wf (bt_insert k (length groups) slot_of)" using inv(1) by simp
    fix h s
    assume s: "map_of (bt_insert k (length groups) slot_of) h = Some s"
    then have cases: "h = k \<and> s = length groups \<or> map_of slot_of h = Some s"
      using inv(1) by (simp split: if_splits)
    then show "s < length (groups @ [g])" using inv(5) by fastforce
    fix n
    assume n: "n < length ids" "group_of ! n = Some h"
    from cases show "ids ! n \<in> me_thesis_id ` set (gr_members ((groups @ [g]) ! s))"
    proof
      assume "h = k \<and> s = length groups"
      then show ?thesis using new n by simp
    next
      assume "map_of slot_of h = Some s"
      then show ?thesis using inv(5,6) n by (simp add: nth_append)
    qed
  qed
qed

lemma group_entry_step:
  assumes "distinct ids" "groups_inv ids group_of k gs"
  shows "groups_inv ids group_of (Suc k) (group_entry lib ids group_of (k, v) gs)"
proof -
  obtain groups slot_of where gs: "gs = (groups, slot_of)" by fastforce
  let ?ms = "members_at ids group_of (\<lambda>g. g = Some k)"
  show ?thesis
  proof (cases "?ms = []")
    case True
    have "group_entry lib ids group_of (k, v) gs = gs"
      unfolding group_entry_def gs prod.case Let_def if_P [OF True] ..
    then show ?thesis using assms(2) members_at_Suc [of ids k group_of] unfolding True
      by (simp add: groups_inv_def gs) 
  next
    case False
    define w where "w = (case index_field lib v ''representative'' of
        None \<Rightarrow> None | Some n \<Rightarrow> if n \<in> set ?ms then Some n else None)"
    define l where "l = (let l = text_field lib v ''label'' in if l = [] then ''Group '' @ show_nat (k + 1) else l)"
    have e: "group_entry lib ids group_of (k, v) gs =
        (groups @ [make_group ids l (text_field lib v ''summary'') ?ms w], bt_insert k (length groups) slot_of)"
      unfolding group_entry_def gs prod.case Let_def w_def l_def if_not_P [OF False] by (rule refl)
    have w: "\<forall>n. w = Some n \<longrightarrow> n \<in> set ?ms" by (simp add: w_def split: option.split)
    have "set ?ms \<subseteq> {..<length ids}" "distinct ?ms" by auto
    note g = make_group [OF assms(1) this False w, of l "text_field lib v ''summary''"]
    show ?thesis unfolding e by (rule groups_inv_push [OF assms(2)[unfolded gs] g(2,3,1)])
  qed
qed

lemma groups_fold:
  assumes "distinct ids"
  shows "groups_inv ids group_of (length vs) (fold (group_entry lib ids group_of) (enumerate 0 vs) ([], []))"
proof (induction vs rule: rev_induct)
  case Nil
  show ?case by (simp add: groups_inv_def)
next
  case (snoc v vs)
  then show ?case using group_entry_step [OF assms snoc] by (simp add: enumerate_append_eq)
qed

lemma assign_fold:
  assumes "fold (assign_entry lib (length gs) k) es (gs, r, u) = (group_of, r', u')" "\<forall>g\<in>set gs. g = None \<or> (\<exists>i<k. g = Some i)"
  shows "length group_of = length gs \<and> (\<forall>g\<in>set group_of. g = None \<or> (\<exists>i<k. g = Some i))"
  using assms
proof (induction es arbitrary: gs r u)
  case (Cons e es)
  obtain gs' r1 u1 where e: "assign_entry lib (length gs) k e (gs, r, u) = (gs', r1, u1)" by (metis prod_cases3)
  then have "length gs' = length gs \<and> (\<forall>g\<in>set gs'. g = None \<or> (\<exists>i<k. g = Some i))"
    using Cons.prems(2)
    by (auto simp: assign_entry_def split: option.splits if_splits dest!: subsetD [OF set_update_subset_insert])
  with Cons.IH [of gs' r1 u1] Cons.prems(1) e show ?case by simp
qed simp

text \<open>What a list of groups says of its members, its shape, does not change when duplicates are marked.\<close>

abbreviation shape :: "group list \<Rightarrow> (string option \<times> string list) list" where
  "shape \<equiv> map (\<lambda>gr. (gr_representative gr, map me_thesis_id (gr_members gr)))"

definition slots_ok :: "string list \<Rightarrow> nat option list \<Rightarrow> (nat, nat) btree_map \<Rightarrow> (string option \<times> string list) list \<Rightarrow> bool" where
  "slots_ok ids group_of slot_of sh \<longleftrightarrow> (\<forall>g s. map_of slot_of g = Some s \<longrightarrow> s < length sh \<and>
     (\<forall>n<length ids. group_of ! n = Some g \<longrightarrow> ids ! n \<in> set (snd (sh ! s))))"

lemma group_ids_shape: "group_ids gs = concat (map snd (shape gs))"
  by (induction gs) simp_all

lemma group_wf_shape: "(\<forall>gr\<in>set gs. group_wf gr) \<longleftrightarrow> (\<forall>(r, ms)\<in>set (shape gs). ms \<noteq> [] \<and> r = Some (hd ms))"
  by (induction gs) (auto simp: group_wf_def list.map_sel)

definition with_ungrouped :: "string list \<Rightarrow> nat option list \<Rightarrow> group list \<Rightarrow> group list" where
  "with_ungrouped ids group_of groups =
     (let unassigned = members_at ids group_of (\<lambda>g. g = None)
      in if unassigned = [] then groups else groups @ [make_group ids ''Ungrouped'' [] unassigned None])"

lemma image_mset_nth: "image_mset ((!) ids) (mset [0..<length ids]) = mset ids"
  by (simp only: mset_map [symmetric] map_nth)

lemma with_ungrouped:
  assumes "distinct ids" "groups_inv ids group_of k (groups, slot_of)"
    "length group_of = length ids" "\<forall>g\<in>set group_of. g = None \<or> (\<exists>i<k. g = Some i)"
  shows "mset (group_ids (with_ungrouped ids group_of groups)) = mset ids"
    and "gr \<in> set (with_ungrouped ids group_of groups) \<Longrightarrow> group_wf gr \<and> fresh gr"
    and "slots_ok ids group_of slot_of (shape (with_ungrouped ids group_of groups))"
proof -
  note inv = groups_invD [OF assms(2)]
  let ?un = "members_at ids group_of (\<lambda>g. g = None)"
  have un: "members_at ids group_of (\<lambda>g. (\<exists>i<k. g = Some i) \<or> g = None) = [0..<length ids]"
    using assms(3,4) by (intro filter_True) (metis atLeast_upt lessThan_iff nth_mem)
  then have all: "image_mset ((!) ids) (mset (members_at ids group_of (\<lambda>g. \<exists>i<k. g = Some i))) +
      image_mset ((!) ids) (mset ?un) = mset ids"
    using image_mset_disjoint [of "\<lambda>n. \<exists>i<k. group_of ! n = Some i" "\<lambda>n. group_of ! n = None" "(!) ids" "[0..<length ids]"]
    unfolding un image_mset_nth by (metis option.distinct(1))
  have slots: "slots_ok ids group_of slot_of (shape (groups @ gs))" for gs
    unfolding slots_ok_def using inv(5,6) by (fastforce simp: nth_append)
  have "mset (group_ids (with_ungrouped ids group_of groups)) = mset ids \<and>
      (\<forall>gr\<in>set (with_ungrouped ids group_of groups). group_wf gr \<and> fresh gr) \<and>
      slots_ok ids group_of slot_of (shape (with_ungrouped ids group_of groups))"
  proof (cases "?un = []")
    case True
    then have "with_ungrouped ids group_of groups = groups" by (simp add: with_ungrouped_def)
    then show ?thesis using inv(2,3,4) all slots [of "[]"] unfolding True by simp
  next
    case False
    have "set ?un \<subseteq> {..<length ids}" "distinct ?un" by auto
    note g = make_group [OF assms(1) this False, of None "''Ungrouped''" "[]"]
    have "with_ungrouped ids group_of groups = groups @ [make_group ids ''Ungrouped'' [] ?un None]"
      using False by (simp add: with_ungrouped_def Let_def)
    then show ?thesis using inv(2,3,4) all slots [of "[make_group ids ''Ungrouped'' [] ?un None]"] g by auto
  qed
  then show "mset (group_ids (with_ungrouped ids group_of groups)) = mset ids"
    "gr \<in> set (with_ungrouped ids group_of groups) \<Longrightarrow> group_wf gr \<and> fresh gr"
    "slots_ok ids group_of slot_of (shape (with_ungrouped ids group_of groups))" by blast+
qed

text \<open>The marks of a list of groups: each points from a member of a set handled so far to another
  member of its set and group that is not marked; a first member is never marked.\<close>

definition marks_ok :: "string set set \<Rightarrow> group list \<Rightarrow> bool" where
  "marks_ok P groups \<longleftrightarrow> (\<forall>gr\<in>set groups. me_duplicate_of (hd (gr_members gr)) = None \<and>
     (\<forall>m\<in>set (gr_members gr). \<forall>h. me_duplicate_of m = Some h \<longrightarrow> h \<noteq> me_thesis_id m \<and>
        (\<exists>S\<in>P. me_thesis_id m \<in> S \<and> h \<in> S) \<and>
        (\<exists>m'\<in>set (gr_members gr). me_thesis_id m' = h \<and> me_duplicate_of m' = None)))"

definition mark_member :: "string set \<Rightarrow> string \<Rightarrow> member \<Rightarrow> member" where
  "mark_member S head m = (if me_thesis_id m \<in> S \<and> me_thesis_id m \<noteq> head then m\<lparr>me_duplicate_of := Some head\<rparr> else m)"

lemma mark_member_id [simp]: "me_thesis_id (mark_member S h m) = me_thesis_id m"
  by (simp add: mark_member_def)

lemma marks_okD:
  assumes "marks_ok P groups" "gr \<in> set groups"
  shows "me_duplicate_of (hd (gr_members gr)) = None"
    and "m \<in> set (gr_members gr) \<Longrightarrow> me_duplicate_of m = Some h \<Longrightarrow> h \<noteq> me_thesis_id m"
    and "m \<in> set (gr_members gr) \<Longrightarrow> me_duplicate_of m = Some h \<Longrightarrow> \<exists>S\<in>P. me_thesis_id m \<in> S \<and> h \<in> S"
    and "m \<in> set (gr_members gr) \<Longrightarrow> me_duplicate_of m = Some h \<Longrightarrow>
      \<exists>m'\<in>set (gr_members gr). me_thesis_id m' = h \<and> me_duplicate_of m' = None"
  using assms unfolding marks_ok_def by simp_all

lemma mark_group:
  assumes ok: "marks_ok P [gr]" and wf: "group_wf gr" and S: "S \<subseteq> me_thesis_id ` set (gr_members gr)" "head \<in> S"
    and dis: "\<forall>T\<in>P. T \<inter> S = {}" and rep: "\<forall>r\<in>S. gr_representative gr = Some r \<longrightarrow> head = r"
  shows "marks_ok (insert S P) [gr\<lparr>gr_members := map (mark_member S head) (gr_members gr)\<rparr>]"
proof -
  let ?ms = "gr_members gr"
  have ne: "?ms \<noteq> []" and r: "gr_representative gr = Some (me_thesis_id (hd ?ms))" using wf by (simp_all add: group_wf_def)
  have first: "me_duplicate_of (hd ?ms) = None" using ok by (simp add: marks_ok_def)
  have out: "me_duplicate_of m = None" if m: "m \<in> set ?ms" and S: "me_thesis_id m \<in> S" for m
  proof (rule ccontr)
    assume "me_duplicate_of m \<noteq> None"
    then obtain h where "me_duplicate_of m = Some h" by auto
    then obtain T where "T \<in> P" "me_thesis_id m \<in> T" using ok m unfolding marks_ok_def list.set by blast
    with dis S show False by blast
  qed
  obtain m0 where m0: "m0 \<in> set ?ms" "me_thesis_id m0 = head" using S by auto
  have "me_duplicate_of (mark_member S head (hd ?ms)) = None" using first rep r by (simp add: mark_member_def)
  moreover have "h \<noteq> me_thesis_id m \<and> (\<exists>T\<in>insert S P. me_thesis_id m \<in> T \<and> h \<in> T) \<and>
      (\<exists>m'\<in>set ?ms. me_thesis_id m' = h \<and> me_duplicate_of (mark_member S head m') = None)"
    if m: "m \<in> set ?ms" and h: "me_duplicate_of (mark_member S head m) = Some h" for m h
  proof (cases "me_thesis_id m \<in> S")
    case True
    then have "me_thesis_id m \<noteq> head" "h = head" using out [OF m] h by (auto simp: mark_member_def split: if_splits)
    moreover have "me_duplicate_of (mark_member S head m0) = None" using out [OF m0(1)] m0 S by (simp add: mark_member_def)
    ultimately show ?thesis using True S m0 by auto
  next
    case False
    then have "me_duplicate_of m = Some h" using h by (simp add: mark_member_def)
    note D = marks_okD(2-4) [OF ok _ m this, simplified]
    from D(2) obtain T where T: "T \<in> P" "me_thesis_id m \<in> T" "h \<in> T" by blast
    then have "h \<notin> S" using dis by blast
    from D(3) obtain m' where "m' \<in> set ?ms" "me_thesis_id m' = h" "me_duplicate_of m' = None" by blast
    then have "me_duplicate_of (mark_member S head m') = None" using \<open>h \<notin> S\<close> by (simp add: mark_member_def)
    with T D(1) \<open>m' \<in> _\<close> \<open>me_thesis_id m' = h\<close> show ?thesis by blast
  qed
  ultimately show ?thesis using ne by (simp add: marks_ok_def hd_map)
qed

lemma set_head:
  assumes "ns \<noteq> []"
  shows "set_head ids gr ns \<in> (!) ids ` set ns"
    and "r \<in> (!) ids ` set ns \<Longrightarrow> gr_representative gr = Some r \<Longrightarrow> set_head ids gr ns = r"
proof -
  have least: "fold min xs x \<in> insert x (set xs)" for xs and x :: string
    by (induction xs arbitrary: x) (auto simp: min_def split: if_splits)
  have "fold min (map ((!) ids) (tl ns)) (ids ! hd ns) \<in> (!) ids ` set ns"
    using least [of "map ((!) ids) (tl ns)" "ids ! hd ns"] assms by (cases ns) auto
  then show "set_head ids gr ns \<in> (!) ids ` set ns"
    by (auto simp: set_head_def find_Some_iff split: option.split)
  assume "r \<in> (!) ids ` set ns" "gr_representative gr = Some r"
  then show "set_head ids gr ns = r"
    by (auto simp: set_head_def find_None_iff find_Some_iff split: option.split)
qed

lemma mark_set_eq:
  "mark_set ids group_of slot_of ns groups =
     (case (case group_of ! hd ns of None \<Rightarrow> None | Some g \<Rightarrow> map_of slot_of g) of
        None \<Rightarrow> groups
      | Some slot \<Rightarrow> groups[slot := (groups ! slot)\<lparr>gr_members :=
          map (mark_member ((!) ids ` set ns) (set_head ids (groups ! slot) ns)) (gr_members (groups ! slot))\<rparr>])"
proof -
  have "mark_member S h = (\<lambda>m. if me_thesis_id m \<in> S \<and> me_thesis_id m \<noteq> h then m\<lparr>me_duplicate_of := Some h\<rparr> else m)" for S h
    by (simp add: mark_member_def fun_eq_iff)
  then show ?thesis unfolding mark_set_def Let_def by (simp only: set_map)
qed

lemma mark_set_shape [simp]: "shape (mark_set ids group_of slot_of ns groups) = shape groups"
proof -
  have "shape (groups[slot := (groups ! slot)\<lparr>gr_members := map (mark_member S h) (gr_members (groups ! slot))\<rparr>]) = shape groups"
    for slot S h
    by (cases "slot < length groups") (simp_all add: map_update comp_def list_update_same_conv list_update_beyond)
  then show ?thesis by (simp add: mark_set_eq split: option.split)
qed

lemma marks_ok_each: "marks_ok P groups \<longleftrightarrow> (\<forall>gr\<in>set groups. marks_ok P [gr])"
  by (simp add: marks_ok_def)

lemma marks_ok_mono: "marks_ok P groups \<Longrightarrow> P \<subseteq> Q \<Longrightarrow> marks_ok Q groups"
  unfolding marks_ok_def by (meson subsetD)

lemma marks_ok_update:
  assumes "marks_ok P groups" "P \<subseteq> Q" "marks_ok Q [x]"
  shows "marks_ok Q (groups[i := x])"
proof -
  have "marks_ok Q groups" using assms(1,2) by (rule marks_ok_mono)
  then show ?thesis using assms(3) set_update_subset_insert [of groups i x]
    unfolding marks_ok_each [of Q groups] marks_ok_each [of Q "groups[i := x]"] by auto
qed

lemma mark_set_step:
  assumes ok: "marks_ok P groups" and wf: "\<forall>gr\<in>set groups. group_wf gr"
    and slots: "slots_ok ids group_of slot_of (shape groups)"
    and ns: "ns \<noteq> []" "set ns \<subseteq> {..<length ids}" "\<forall>n\<in>set ns. group_of ! n = group_of ! hd ns"
    and dis: "\<forall>T\<in>P. T \<inter> (!) ids ` set ns = {}"
  shows "marks_ok (insert ((!) ids ` set ns) P) (mark_set ids group_of slot_of ns groups)"
proof (cases "case group_of ! hd ns of None \<Rightarrow> None | Some g \<Rightarrow> map_of slot_of g")
  case None
  then have "mark_set ids group_of slot_of ns groups = groups" by (simp add: mark_set_eq)
  then show ?thesis using marks_ok_mono [OF ok subset_insertI] by simp
next
  case (Some slot)
  let ?S = "(!) ids ` set ns" and ?gr = "groups ! slot"
  from Some obtain g where g: "group_of ! hd ns = Some g" "map_of slot_of g = Some slot" by (auto split: option.splits)
  then have lt: "slot < length groups" using slots by (auto simp: slots_ok_def)
  then have gr: "?gr \<in> set groups" by simp
  have "ids ! n \<in> set (snd (shape groups ! slot))" if "n \<in> set ns" for n
  proof -
    have "n < length ids" "group_of ! n = Some g" using that ns(2,3) g(1) by auto
    then show ?thesis using slots g(2) unfolding slots_ok_def by blast
  qed
  then have "?S \<subseteq> set (snd (shape groups ! slot))" by (rule image_subsetI)
  then have S: "?S \<subseteq> me_thesis_id ` set (gr_members ?gr)" using lt by simp
  have head: "set_head ids ?gr ns \<in> ?S" "\<forall>r\<in>?S. gr_representative ?gr = Some r \<longrightarrow> set_head ids ?gr ns = r"
    using set_head [OF ns(1)] by blast+
  have "marks_ok P [?gr]" "group_wf ?gr" using ok wf gr unfolding marks_ok_each [of P groups] by simp_all
  from mark_group [OF this S head(1) dis head(2)]
  have "marks_ok (insert ?S P) [?gr\<lparr>gr_members := map (mark_member ?S (set_head ids ?gr ns)) (gr_members ?gr)\<rparr>]" .
  with ok show ?thesis unfolding mark_set_eq Some option.case by (intro marks_ok_update) auto
qed

lemma mark_fold:
  assumes "marks_ok P groups" "\<forall>gr\<in>set groups. group_wf gr" "slots_ok ids group_of slot_of (shape groups)"
    "\<forall>ns\<in>set nss. ns \<noteq> [] \<and> set ns \<subseteq> {..<length ids} \<and> (\<forall>n\<in>set ns. group_of ! n = group_of ! hd ns)"
    "\<forall>T\<in>P. \<forall>ns\<in>set nss. T \<inter> (!) ids ` set ns = {}"
    "sorted_wrt (\<lambda>ns ms. (!) ids ` set ns \<inter> (!) ids ` set ms = {}) nss"
  shows "marks_ok (P \<union> (\<lambda>ns. (!) ids ` set ns) ` set nss) (fold (mark_set ids group_of slot_of) nss groups) \<and>
    shape (fold (mark_set ids group_of slot_of) nss groups) = shape groups"
  using assms
proof (induction nss arbitrary: P groups)
  case (Cons ns nss)
  let ?groups = "mark_set ids group_of slot_of ns groups" and ?P = "insert ((!) ids ` set ns) P"
  have ns: "ns \<noteq> []" "set ns \<subseteq> {..<length ids}" "\<forall>n\<in>set ns. group_of ! n = group_of ! hd ns"
    and rest: "\<forall>ns\<in>set nss. ns \<noteq> [] \<and> set ns \<subseteq> {..<length ids} \<and> (\<forall>n\<in>set ns. group_of ! n = group_of ! hd ns)"
    using Cons.prems(4) unfolding list.set ball_simps by blast+
  have "\<forall>T\<in>P. T \<inter> (!) ids ` set ns = {}" using Cons.prems(5) by simp
  from mark_set_step [OF Cons.prems(1-3) ns this]
  have "marks_ok ?P ?groups" .
  moreover have "\<forall>gr\<in>set ?groups. group_wf gr" using Cons.prems(2) by (simp only: group_wf_shape mark_set_shape)
  moreover have "slots_ok ids group_of slot_of (shape ?groups)" using Cons.prems(3) by (simp only: mark_set_shape)
  moreover note rest
  moreover have "\<forall>T\<in>?P. \<forall>ms\<in>set nss. T \<inter> (!) ids ` set ms = {}" using Cons.prems(5,6) by simp
  moreover have "sorted_wrt (\<lambda>ns ms. (!) ids ` set ns \<inter> (!) ids ` set ms = {}) nss" using Cons.prems(6) by simp
  ultimately have "marks_ok (?P \<union> (\<lambda>ns. (!) ids ` set ns) ` set nss) (fold (mark_set ids group_of slot_of) nss ?groups) \<and>
      shape (fold (mark_set ids group_of slot_of) nss ?groups) = shape ?groups"
    by (rule Cons.IH)
  moreover have "?P \<union> (\<lambda>ns. (!) ids ` set ns) ` set nss = P \<union> (\<lambda>ns. (!) ids ` set ns) ` set (ns # nss)" by simp
  ultimately show ?case by (simp only: fold_simps mark_set_shape)
qed simp

lemma distinct_sorted_wrt: "distinct xs \<Longrightarrow> sorted_wrt (\<noteq>) xs"
  by (induction xs) auto

lemma sets_disjoint:
  assumes sets: "sets_of (length ids) r sets" and ids: "distinct ids"
  shows "sorted_wrt (\<lambda>ns ms. (!) ids ` set ns \<inter> (!) ids ` set ms = {}) (filter P (map snd sets))"
proof -
  have dis: "(!) ids ` set ns \<inter> (!) ids ` set ms = {}"
    if "ns \<in> set (map snd sets)" "ms \<in> set (map snd sets)" "ns \<noteq> ms" for ns ms
  proof -
    have "i \<noteq> j" if "i \<in> set ns" "j \<in> set ms" for i j
      using sets_ofD(5) [OF sets \<open>ns \<in> _\<close> \<open>ms \<in> _\<close> that] \<open>ns \<noteq> ms\<close> same_set_refl by metis
    moreover have "i < length ids" if "i \<in> set ns \<union> set ms" for i
      using that sets_ofD(3) [OF sets] \<open>ns \<in> _\<close> \<open>ms \<in> _\<close> by blast
    ultimately show ?thesis using ids by (auto simp: nth_eq_iff_index_eq)
  qed
  have "distinct (filter P (map snd sets))" using sets_ofD(1) [OF sets] by simp
  then have "sorted_wrt (\<noteq>) (filter P (map snd sets))" by (rule distinct_sorted_wrt)
  then show ?thesis by (rule sorted_wrt_mono_rel [rotated]) (use dis in auto)
qed

section \<open>What normalisation guarantees\<close>

lemma normalise_ok:
  assumes ids: "distinct ids"
  shows "\<exists>c. normalise lib ids raw = Some c \<and> mset (group_ids (cc_groups c)) = mset ids \<and>
    (\<forall>gr\<in>set (cc_groups c). group_wf gr) \<and> marks_ok UNIV (cc_groups c)"
proof -
  let ?vs = "entries_of lib (rc_groups raw)" and ?ds = "entries_of lib (rc_duplicates raw)"
  obtain group_of repeated unknown where
    as: "fold (assign_entry lib (length ids) (length ?vs)) (entries_of lib (rc_assign raw)) (replicate (length ids) None, 0, 0) =
      (group_of, repeated, unknown)" by (metis prod_cases3)
  have as': "length group_of = length ids" "\<forall>g\<in>set group_of. g = None \<or> (\<exists>i<length ?vs. g = Some i)"
    using assign_fold [where gs = "replicate (length ids) None", unfolded length_replicate, OF as] by simp_all
  obtain groups slot_of where
    gs: "fold (group_entry lib ids group_of) (enumerate 0 ?vs) ([], []) = (groups, slot_of)" by fastforce
  have inv: "groups_inv ids group_of (length ?vs) (groups, slot_of)"
    using groups_fold [OF ids, of group_of ?vs lib] unfolding gs .
  note all = with_ungrouped [OF ids inv as']
  obtain parent k sets where
    ds: "join_duplicates lib group_of ?ds [0..<length ids] 0 = Some (parent, k)"
    "collect_sets [0..<length ids] parent [] = Some sets"
    "sets_of (length ids) (duplicate_pairs lib group_of ?ds) sets"
    using duplicate_sets [of lib group_of ?ds] unfolding as'(1) by (elim exE conjE) (rule that)
  let ?nss = "filter (\<lambda>ns. 1 < length ns) (map snd sets)" and ?gs = "with_ungrouped ids group_of groups"
  let ?out = "fold (mark_set ids group_of slot_of) ?nss ?gs"
  have "ns \<noteq> [] \<and> set ns \<subseteq> {..<length ids} \<and> (\<forall>n\<in>set ns. group_of ! n = group_of ! hd ns)" if "ns \<in> set ?nss" for ns
  proof -
    have ns: "ns \<in> set (map snd sets)" using that by (simp only: set_filter mem_Collect_eq)
    have "group_of ! n = group_of ! hd ns" if "n \<in> set ns" for n
    proof (rule same_set_imp [of n "hd ns" "duplicate_pairs lib group_of ?ds" "\<lambda>n. group_of ! n"])
      show "(n, hd ns) \<in> same_set (duplicate_pairs lib group_of ?ds)"
        using sets_ofD(5) [OF ds(3) ns ns that] sets_ofD(2) [OF ds(3) ns] hd_in_set by simp
    qed (simp add: duplicate_pairs_def)
    then show ?thesis using sets_ofD(2,3) [OF ds(3) ns] by blast
  qed
  moreover have "marks_ok {} ?gs"
  proof -
    have "me_duplicate_of (hd (gr_members gr)) = None \<and> (\<forall>m\<in>set (gr_members gr). me_duplicate_of m = None)"
      if "gr \<in> set ?gs" for gr using all(2) [OF that] by (auto simp: group_wf_def)
    then show ?thesis by (simp add: marks_ok_def)
  qed
  ultimately have out: "marks_ok ({} \<union> (\<lambda>ns. (!) ids ` set ns) ` set ?nss) ?out" "shape ?out = shape ?gs"
    using mark_fold [of "{}" ?gs ids group_of slot_of ?nss] all(2,3) sets_disjoint [OF ds(3) ids] by blast+
  have "marks_ok UNIV ?out" using out(1) by (rule marks_ok_mono) simp
  moreover have "mset (group_ids ?out) = mset ids" using all(1) unfolding group_ids_shape out(2) .
  moreover have "\<forall>gr\<in>set ?out. group_wf gr" using all(2) out(2) group_wf_shape [of ?out] group_wf_shape [of ?gs] by simp
  moreover have "\<exists>c. normalise lib ids raw = Some c \<and> cc_groups c = ?out"
  proof -
    obtain tensions seen dropped where
      ts: "fold (tension_entry lib ids) (entries_of lib (rc_tensions raw)) ([], [], 0) = (tensions, seen, dropped)"
      by (metis prod_cases3)
    show ?thesis unfolding normalise_def Let_def as prod.case gs ds(1,2) option.case ts with_ungrouped_def
      by (intro exI conjI, rule refl) simp
  qed
  ultimately show ?thesis by auto
qed

text \<open>C26: An answer about any theses with distinct ids, however malformed, is normalised (the
  loop that follows parents always ends) to groups that list every thesis exactly once. No group is
  empty, its representative is its first member and no duplicate, and every duplicate points to another
  member of its own group that is itself no duplicate.\<close>

theorem normalise_partitions:
  assumes "distinct ids"
  shows "\<exists>c. normalise lib ids raw = Some c \<and> mset (group_ids (cc_groups c)) = mset ids \<and>
    (\<forall>gr\<in>set (cc_groups c). gr_members gr \<noteq> [] \<and>
       gr_representative gr = Some (me_thesis_id (hd (gr_members gr))) \<and>
       me_duplicate_of (hd (gr_members gr)) = None \<and>
       (\<forall>m\<in>set (gr_members gr). \<forall>h. me_duplicate_of m = Some h \<longrightarrow> h \<noteq> me_thesis_id m \<and>
          (\<exists>m'\<in>set (gr_members gr). me_thesis_id m' = h \<and> me_duplicate_of m' = None)))"
proof -
  obtain c where c: "normalise lib ids raw = Some c" "mset (group_ids (cc_groups c)) = mset ids"
    "\<forall>gr\<in>set (cc_groups c). group_wf gr" "marks_ok UNIV (cc_groups c)"
    using normalise_ok [OF assms, of lib raw] by (elim exE conjE) (rule that)
  show ?thesis
  proof (intro exI conjI ballI allI impI)
    fix gr
    assume gr: "gr \<in> set (cc_groups c)"
    then show "gr_members gr \<noteq> []" "gr_representative gr = Some (me_thesis_id (hd (gr_members gr)))"
      using c(3) by (simp_all add: group_wf_def)
    show "me_duplicate_of (hd (gr_members gr)) = None" using marks_okD(1) [OF c(4) gr] .
    fix m h
    assume m: "m \<in> set (gr_members gr)" "me_duplicate_of m = Some h"
    show "h \<noteq> me_thesis_id m" using marks_okD(2) [OF c(4) gr m] .
    show "\<exists>m'\<in>set (gr_members gr). me_thesis_id m' = h \<and> me_duplicate_of m' = None" using marks_okD(4) [OF c(4) gr m] .
  qed (rule c(1), rule c(2))
qed

section \<open>Cells\<close>

lemma curate_attempts_ok:
  assumes "distinct ids"
  shows "\<exists>r. curate_attempts lib ids as = Some r \<and>
    (\<forall>c. r = Some c \<longrightarrow> mset (group_ids (cc_groups c)) = mset ids \<and> is_acceptable (cc_report c))"
proof (induction as)
  case (Cons a as)
  show ?case
  proof (cases a)
    case (Inr raw)
    obtain c where "normalise lib ids raw = Some c" "mset (group_ids (cc_groups c)) = mset ids"
      using normalise_ok [OF assms, of lib raw] by (elim exE conjE) (rule that)
    then show ?thesis using Cons Inr by simp
  qed (use Cons in simp)
qed simp

abbreviation cut_of :: "'a list \<Rightarrow> nat \<times> nat \<Rightarrow> 'a list" where
  "cut_of xs r \<equiv> take (snd r - fst r) (drop (fst r) xs)"

lemma curate_chunks_ok:
  assumes "distinct ids"
  shows "\<exists>cs. curate_chunks lib ids cancelled answers rs = Some cs \<and> (None \<notin> set cs \<longrightarrow>
    mset (group_ids (concat (map cc_groups (List.map_filter id cs)))) = mset (concat (map (cut_of ids \<circ> snd) rs)))"
proof (induction rs)
  case (Cons r rs)
  obtain k a b where r: "r = (k, a, b)" by (cases r) auto
  obtain x where x: "curate_attempts lib (take (b - a) (drop a ids)) (map (answers k) [0..<2]) = Some x"
    "\<forall>c. x = Some c \<longrightarrow> mset (group_ids (cc_groups c)) = mset (take (b - a) (drop a ids))"
    using curate_attempts_ok [of "take (b - a) (drop a ids)" lib "map (answers k) [0..<2]"] assms by auto
  obtain cs where cs: "curate_chunks lib ids cancelled answers rs = Some cs"
    "None \<notin> set cs \<longrightarrow> mset (group_ids (concat (map cc_groups (List.map_filter id cs)))) = mset (concat (map (cut_of ids \<circ> snd) rs))"
    using Cons.IH by blast
  show ?case
  proof (cases "cancelled k")
    case False
    then have "curate_chunks lib ids cancelled answers (r # rs) = Some (x # cs)"
      using x(1) cs(1) by (simp add: r curate_chunk_def)
    moreover have "mset (group_ids (concat (map cc_groups (List.map_filter id (x # cs))))) = mset (concat (map (cut_of ids \<circ> snd) (r # rs)))"
      if "None \<notin> set (x # cs)"
    proof -
      from that obtain c where "x = Some c" "None \<notin> set cs" by (cases x) auto
      then show ?thesis using x(2) cs(2) by (simp add: r map_filter_simps)
    qed
    ultimately show ?thesis by blast
  qed (simp add: r)
qed (simp add: map_filter_simps)

lemma concat_slices:
  assumes "concat (map (\<lambda>(a, b). [a..<b]) rs) = [0..<length xs]"
  shows "concat (map (cut_of xs) rs) = xs"
proof -
  have "cut_of xs r = map ((!) xs) [fst r..<snd r]" if "r \<in> set rs" for r
  proof (cases "fst r < snd r")
    case True
    then have "snd r - 1 \<in> set [fst r..<snd r]" by auto
    then have "snd r - 1 \<in> set (concat (map (\<lambda>(a, b). [a..<b]) rs))" using that unfolding set_concat set_map case_prod_beta by blast
    then have "snd r \<le> length xs" using assms True by simp
    then show ?thesis by (intro nth_equalityI) simp_all
  qed simp
  then have "concat (map (cut_of xs) rs) = concat (map (\<lambda>r. map ((!) xs) [fst r..<snd r]) rs)"
    by (metis (no_types, lifting) map_cong)
  also have "\<dots> = map ((!) xs) (concat (map (\<lambda>(a, b). [a..<b]) rs))"
    by (simp add: map_concat comp_def case_prod_beta)
  also have "\<dots> = xs" by (simp only: assms map_nth)
  finally show ?thesis .
qed

lemma covers_merge:
  assumes "sorted ids" "None \<notin> set cs \<longrightarrow> mset (group_ids (concat (map cc_groups (List.map_filter id cs)))) = mset ids"
  shows "covers (merge_curation key ids cs) key ids"
proof (cases "None \<in> set cs")
  case True
  then show ?thesis by (simp add: covers_def merge_curation_def Let_def)
next
  case False
  then have "sort (group_ids (concat (map cc_groups (List.map_filter id cs)))) = ids"
    using assms by (metis properties_for_sort)
  then show ?thesis using False by (simp add: covers_def merge_curation_def Let_def)
qed

lemma curate_cell_ok:
  assumes "distinct (cell_member_ids cell)"
  shows "\<exists>c. curate_cell lib permit cancelled answers cell = Some c \<and> covers c (cell_key cell) (cell_member_ids cell)"
proof -
  let ?ids = "cell_member_ids cell" let ?rs = "chunk_ranges (length ?ids) max_theses_per_call"
  have sorted: "sorted ?ids" by (simp add: cell_member_ids_def)
  have "concat (map (cut_of ?ids \<circ> snd) (enumerate 0 ?rs)) = concat (map (cut_of ?ids) ?rs)"
    by (simp only: map_map [symmetric] map_snd_enumerate)
  then have slices: "concat (map (cut_of ?ids \<circ> snd) (enumerate 0 ?rs)) = ?ids"
    using concat_slices [OF chunk_ranges_cover(1)] by simp
  obtain cs where cs: "curate_chunks lib ?ids cancelled answers (enumerate 0 ?rs) = Some cs"
    "None \<notin> set cs \<longrightarrow> mset (group_ids (concat (map cc_groups (List.map_filter id cs)))) = mset ?ids"
    using curate_chunks_ok [OF assms, of lib cancelled answers "enumerate 0 ?rs"] unfolding slices by blast
  have "covers (merge_curation (cell_key cell) ?ids [None]) (cell_key cell) ?ids" by (rule covers_merge [OF sorted]) simp
  then show ?thesis using cs(1) covers_merge [OF sorted cs(2)] by (simp add: curate_cell_def Let_def)
qed

text \<open>C28: Take a cell whose member ids are distinct, as the ids of the files that the fan-out writes are;
  the loader does not check it for other files. Whatever the curator answers to the two attempts
  at each chunk, and whenever the run is cancelled, the curation of the cell ends, and the curation
  it writes is one that a later run accepts for this cell: made for its key and its sorted ids and,
  when its status is ok, listing each of them once.\<close>

theorem curate_cell_covers:
  assumes "distinct (cell_member_ids cell)"
  shows "\<exists>c. curate_cell lib permit cancelled answers cell = Some c \<and> covers c (cell_key cell) (cell_member_ids cell)"
  using assms by (rule curate_cell_ok)

lemma apply_curation_keeps:
  "cell_key (apply_curation cs cell) = cell_key cell \<and>
   mset (map me_thesis_id (cell_members (apply_curation cs cell))) = mset (map me_thesis_id (cell_members cell))"
proof (cases "find (\<lambda>c. covers c (cell_key cell) (cell_member_ids cell)) cs")
  case (Some c)
  then have "covers c (cell_key cell) (cell_member_ids cell)" by (simp add: find_Some_iff) blast
  then have "cu_status c = Curation_Ok \<Longrightarrow> sort (group_ids (cu_groups c)) = sort (group_ids (ce_groups cell))"
    by (simp add: covers_def cell_member_ids_def split: if_splits)
  then have "cu_status c = Curation_Ok \<Longrightarrow> mset (group_ids (cu_groups c)) = mset (group_ids (ce_groups cell))"
    by (metis mset_sort)
  then show ?thesis using Some
    by (auto simp: apply_curation_def cell_members_def cell_key_def group_ids_def split: curation_status.split)
qed (simp add: apply_curation_def)

text \<open>C29: Curations read back from disk, whatever they hold, never move, lose or repeat a thesis:
  every cell keeps its key, its place and its theses, and the check of the catalogue against the
  theses of the run gives the same verdict before and after.\<close>

theorem curations_keep_catalogue:
  "map cell_key (ca_cells (apply_curations cat cs)) = map cell_key (ca_cells cat) \<and>
   map cell_member_ids (ca_cells (apply_curations cat cs)) = map cell_member_ids (ca_cells cat) \<and>
   (validate_catalog (apply_curations cat cs) theses = Inr () \<longleftrightarrow> validate_catalog cat theses = Inr ())"
proof -
  have ids: "cell_member_ids c = sort (map me_thesis_id (cell_members c))" for c
    by (simp add: cell_member_ids_def group_ids_def cell_members_def)
  have members: "cell_member_ids (apply_curation cs c) = cell_member_ids c" for c
    unfolding ids by (rule properties_for_sort) (use apply_curation_keeps [of cs c] in simp_all)
  have "mset (map me_thesis_id (catalog_members (apply_curations cat cs))) = mset (map me_thesis_id (catalog_members cat))"
    using apply_curation_keeps [of cs]
    by (simp add: catalog_members_def apply_curations_def map_concat mset_concat comp_def)
  then have "validate_catalog (apply_curations cat cs) theses = Inr () \<longleftrightarrow> validate_catalog cat theses = Inr ()"
    unfolding validate_catalog_iff using mset_eq_setD mset_eq_imp_distinct_iff by metis
  then show ?thesis using apply_curation_keeps members by (simp add: apply_curations_def comp_def)
qed

section \<open>Witnesses\<close>

lemma normalise_partitions_witness:
  "\<forall>(lib :: nat json_lib) raw. \<exists>c. normalise lib [''t1'', ''t2'', ''t3''] raw = Some c \<and>
     mset (group_ids (cc_groups c)) = mset [''t1'', ''t2'', ''t3'']"
  using normalise_partitions [of "[''t1'', ''t2'', ''t3'']"] by (simp, blast)

definition demo_curated :: cell_entry where
  "demo_curated = fill_cell \<lparr>ce_dimension_id = ''d'', ce_facet_id = ''f'', ce_dimension_label = [], ce_facet_label = [],
     ce_description = [], ce_curation = Flat, ce_groups = [], ce_tensions = []\<rparr> [''t1'', ''t2'']"

lemma curate_cell_covers_witness:
  "\<forall>(lib :: nat json_lib) permit cancelled answers. \<exists>c.
     curate_cell lib permit cancelled answers demo_curated = Some c \<and> covers c ''d:f'' [''t1'', ''t2'']"
proof -
  have ids: "cell_member_ids demo_curated = [''t1'', ''t2'']" by code_simp
  have key: "cell_key demo_curated = ''d:f''" by code_simp
  show ?thesis using curate_cell_covers [of demo_curated] unfolding ids key by (simp, blast)
qed

end
