(* ===== verification/Seccomp.thy ===== *)
theory Seccomp imports Errors begin

text \<open>
  The system-call filter of the sandbox: \<open>src/sandbox/seccomp.rs\<close>,
  \<open>src/sandbox/seccomp_allowlist.rs\<close>. The constants of the C library are fields of a record,
  and the kernel's machine that runs a filter is an argument with its documented behaviour on
  the three instructions the program uses as hypothesis.
\<close>

section \<open>The program\<close>

datatype seccomp_policy_kind = Permissive | Strict_Rust_Build

record libc_bpf =
  BPF_LD :: u32
  BPF_W :: u32
  BPF_ABS :: u32
  BPF_JMP :: u32
  BPF_JEQ :: u32
  BPF_K :: u32
  BPF_RET :: u32
  RET_KILL_PROCESS :: u32
  RET_ALLOW :: u32

record sock_filter =
  sf_code :: u16
  sf_jt :: u8
  sf_jf :: u8
  sf_k :: u32

definition bpf_stmt :: "u16 \<Rightarrow> u32 \<Rightarrow> sock_filter" where
  "bpf_stmt code k = \<lparr>sf_code = code, sf_jt = 0, sf_jf = 0, sf_k = k\<rparr>"

definition bpf_jump :: "u16 \<Rightarrow> u32 \<Rightarrow> u8 \<Rightarrow> u8 \<Rightarrow> sock_filter" where
  "bpf_jump code k jt jf = \<lparr>sf_code = code, sf_jt = jt, sf_jf = jf, sf_k = k\<rparr>"

definition audit_arch_x86_64 :: u32 where
  "audit_arch_x86_64 = 0xC000003E"

definition seccomp_data_offset_nr :: u32 where
  "seccomp_data_offset_nr = 0"

definition seccomp_data_offset_arch :: u32 where
  "seccomp_data_offset_arch = 4"

definition ld_abs :: "libc_bpf \<Rightarrow> u16" where
  "ld_abs lc = ucast (or (or (BPF_LD lc) (BPF_W lc)) (BPF_ABS lc))"

definition jmp_jeq :: "libc_bpf \<Rightarrow> u16" where
  "jmp_jeq lc = ucast (or (or (BPF_JMP lc) (BPF_JEQ lc)) (BPF_K lc))"

definition ret_k :: "libc_bpf \<Rightarrow> u16" where
  "ret_k lc = ucast (or (BPF_RET lc) (BPF_K lc))"

definition allow_entry :: "libc_bpf \<Rightarrow> int \<Rightarrow> sock_filter list" where
  "allow_entry lc nr = [bpf_jump (jmp_jeq lc) (word_of_int nr) 0 1, bpf_stmt (ret_k lc) (RET_ALLOW lc)]"

definition build_bpf_program :: "libc_bpf \<Rightarrow> int list \<Rightarrow> sock_filter list" where
  "build_bpf_program lc allow =
     [bpf_stmt (ld_abs lc) seccomp_data_offset_arch,
      bpf_jump (jmp_jeq lc) audit_arch_x86_64 0 1,
      bpf_stmt (ret_k lc) (RET_KILL_PROCESS lc),
      bpf_stmt (ld_abs lc) seccomp_data_offset_nr] @
     concat (map (allow_entry lc) allow) @
     [bpf_stmt (ret_k lc) (RET_KILL_PROCESS lc)]"

section \<open>The allow list and the loader\<close>

definition rust_build_allowlist :: "int list" where
  "rust_build_allowlist = remdups_adj (sort
     [0, 1, 2, 3, 4, 5, 8, 9, 10, 11, 12, 13, 14, 15, 16, 17, 18, 19, 20, 21, 22, 24, 28, 33, 35, 39,
      56, 57, 59, 60, 61, 62, 63, 72, 79, 96, 102, 104, 107, 108, 110, 112, 158, 186, 202, 218, 231,
      257, 262, 273, 292, 293, 302, 318, 332])"

definition allowlist_len :: nat where
  "allowlist_len = 55"

text \<open>The system calls of the loader, in order; \<open>Sys_Seccomp\<close> carries the length and the program.\<close>

datatype loader_call = Sys_Prctl int | Sys_Seccomp u16 "sock_filter list"

definition pr_set_no_new_privs :: int where
  "pr_set_no_new_privs = 38"

definition apply_strict_rust_build ::
  "libc_bpf \<Rightarrow> (loader_call \<Rightarrow> string option) \<Rightarrow> unit result \<times> loader_call list"
where
  "apply_strict_rust_build lc sys =
     (let prog = build_bpf_program lc rust_build_allowlist;
          prctl = Sys_Prctl pr_set_no_new_privs;
          seccomp = Sys_Seccomp (of_nat (length prog)) prog
      in case sys prctl of
           Some errno \<Rightarrow> (Inl (Err_InvalidState (''prctl(PR_SET_NO_NEW_PRIVS, 1) failed: '' @ errno)), [prctl])
         | None \<Rightarrow>
             (case sys seccomp of
                Some errno \<Rightarrow> (Inl (Err_InvalidState (''seccomp(SECCOMP_MODE_FILTER) failed: '' @ errno)), [prctl, seccomp])
              | None \<Rightarrow> (Inr (), [prctl, seccomp])))"

definition seccomp_apply ::
  "libc_bpf \<Rightarrow> (loader_call \<Rightarrow> string option) \<Rightarrow> seccomp_policy_kind \<Rightarrow> unit result \<times> loader_call list"
where
  "seccomp_apply lc sys kind =
     (case kind of Permissive \<Rightarrow> (Inr (), []) | Strict_Rust_Build \<Rightarrow> apply_strict_rust_build lc sys)"

section \<open>The kernel's machine\<close>

record seccomp_data =
  sd_nr :: u32
  sd_arch :: u32

text \<open>
  \<open>exec p d pc a\<close> is the verdict of the program \<open>p\<close> from instruction \<open>pc\<close> with accumulator \<open>a\<close>:
  a load fetches the word at its offset of the data, a jump is relative to the next
  instruction, a return ends with its constant.
\<close>

definition bpf_semantics ::
  "libc_bpf \<Rightarrow> (sock_filter list \<Rightarrow> seccomp_data \<Rightarrow> nat \<Rightarrow> u32 \<Rightarrow> u32) \<Rightarrow> bool"
where
  "bpf_semantics lc exec \<longleftrightarrow> (\<forall>p d pc a. pc < length p \<longrightarrow>
     (p ! pc = bpf_stmt (ld_abs lc) 0 \<longrightarrow> exec p d pc a = exec p d (pc + 1) (sd_nr d)) \<and>
     (p ! pc = bpf_stmt (ld_abs lc) 4 \<longrightarrow> exec p d pc a = exec p d (pc + 1) (sd_arch d)) \<and>
     (\<forall>k jt jf. p ! pc = bpf_jump (jmp_jeq lc) k jt jf \<longrightarrow>
        exec p d pc a = exec p d (pc + 1 + (if a = k then unat jt else unat jf)) a) \<and>
     (\<forall>k. p ! pc = bpf_stmt (ret_k lc) k \<longrightarrow> exec p d pc a = k))"

lemma bpf_semanticsD:
  assumes "bpf_semantics lc exec" "pc < length p"
  shows "p ! pc = bpf_stmt (ld_abs lc) 0 \<Longrightarrow> exec p d pc a = exec p d (pc + 1) (sd_nr d)"
    and "p ! pc = bpf_stmt (ld_abs lc) 4 \<Longrightarrow> exec p d pc a = exec p d (pc + 1) (sd_arch d)"
    and "p ! pc = bpf_jump (jmp_jeq lc) k jt jf \<Longrightarrow>
      exec p d pc a = exec p d (pc + 1 + (if a = k then unat jt else unat jf)) a"
    and "p ! pc = bpf_stmt (ret_k lc) k \<Longrightarrow> exec p d pc a = k"
  using assms unfolding bpf_semantics_def by blast+

section \<open>What the filter decides\<close>

text \<open>The allow list is a chain: the first equal number allows, else the default kills.\<close>

lemma allow_chain:
  assumes "bpf_semantics lc exec"
    "p = pre @ concat (map (allow_entry lc) allow) @ [bpf_stmt (ret_k lc) (RET_KILL_PROCESS lc)]"
  shows "exec p d (length pre) a =
    (if a \<in> word_of_int ` set allow then RET_ALLOW lc else RET_KILL_PROCESS lc)"
  using assms(2)
proof (induction allow arbitrary: pre)
  case Nil
  then show ?case using bpf_semanticsD(4) [OF assms(1), of "length pre" p] by (simp add: nth_append)
next
  case (Cons nr allow)
  have jump: "p ! length pre = bpf_jump (jmp_jeq lc) (word_of_int nr) 0 1"
    and ret: "p ! (length pre + 1) = bpf_stmt (ret_k lc) (RET_ALLOW lc)"
    and len: "length pre < length p" "length pre + 1 < length p"
    using Cons.prems by (simp_all add: allow_entry_def nth_append)
  have step: "exec p d (length pre) a = exec p d (length pre + 1 + (if a = word_of_int nr then 0 else 1)) a"
    using bpf_semanticsD(3) [OF assms(1) len(1) jump] by simp
  show ?case
  proof (cases "a = word_of_int nr")
    case True
    then show ?thesis using step bpf_semanticsD(4) [OF assms(1) len(2) ret] by simp
  next
    case False
    have "exec p d (length (pre @ allow_entry lc nr)) a =
        (if a \<in> word_of_int ` set allow then RET_ALLOW lc else RET_KILL_PROCESS lc)"
      using Cons.prems by (intro Cons.IH) simp
    then show ?thesis using step False by (simp add: allow_entry_def)
  qed
qed

lemma filter_verdict:
  assumes "bpf_semantics lc exec"
  shows "exec (build_bpf_program lc allow) d 0 a =
    (if sd_arch d = audit_arch_x86_64 then RET_KILL_PROCESS lc
     else if sd_nr d \<in> word_of_int ` set allow then RET_ALLOW lc else RET_KILL_PROCESS lc)"
proof -
  let ?p = "build_bpf_program lc allow"
  let ?pre = "[bpf_stmt (ld_abs lc) seccomp_data_offset_arch, bpf_jump (jmp_jeq lc) audit_arch_x86_64 0 1,
      bpf_stmt (ret_k lc) (RET_KILL_PROCESS lc), bpf_stmt (ld_abs lc) seccomp_data_offset_nr]"
  have p: "?p = ?pre @ concat (map (allow_entry lc) allow) @ [bpf_stmt (ret_k lc) (RET_KILL_PROCESS lc)]"
    by (simp add: build_bpf_program_def)
  have len: "0 < length ?p" "1 < length ?p" "2 < length ?p" "3 < length ?p" unfolding p by simp_all
  have at: "?p ! 0 = bpf_stmt (ld_abs lc) 4" "?p ! 1 = bpf_jump (jmp_jeq lc) audit_arch_x86_64 0 1"
    "?p ! 2 = bpf_stmt (ret_k lc) (RET_KILL_PROCESS lc)" "?p ! 3 = bpf_stmt (ld_abs lc) 0"
    unfolding p by (simp_all add: seccomp_data_offset_arch_def seccomp_data_offset_nr_def)
  have "exec ?p d 0 a = exec ?p d 1 (sd_arch d)" using bpf_semanticsD(2) [OF assms len(1) at(1)] by simp
  also have "\<dots> = exec ?p d (2 + (if sd_arch d = audit_arch_x86_64 then 0 else 1)) (sd_arch d)"
    using bpf_semanticsD(3) [OF assms len(2) at(2)] by simp
  finally have start: "exec ?p d 0 a = exec ?p d (2 + (if sd_arch d = audit_arch_x86_64 then 0 else 1)) (sd_arch d)" .
  show ?thesis
  proof (cases "sd_arch d = audit_arch_x86_64")
    case True
    then show ?thesis using start bpf_semanticsD(4) [OF assms len(3) at(3)] by simp
  next
    case False
    then have "exec ?p d 0 a = exec ?p d 4 (sd_nr d)"
      using start bpf_semanticsD(1) [OF assms len(4) at(4)] by simp
    moreover have four: "length ?pre = 4" by simp
    ultimately show ?thesis using False allow_chain [OF assms p, of d "sd_nr d"] unfolding four by simp
  qed
qed

text \<open>C15: The architecture test of the strict filter is inverted. On any kernel that runs filters as
  documented the program kills every system call made under the native architecture x86-64,
  those of the allow list included, and consults the allow list for every other architecture
  only.\<close>

theorem strict_filter_kills_native_calls:
  assumes "bpf_semantics lc exec"
  shows "exec (build_bpf_program lc allow) d 0 a =
    (if sd_arch d = audit_arch_x86_64 then RET_KILL_PROCESS lc
     else if sd_nr d \<in> word_of_int ` set allow then RET_ALLOW lc else RET_KILL_PROCESS lc)"
  using assms by (rule filter_verdict)

text \<open>The list is as long as announced, and no networking, tracing, mounting or module call is on it.\<close>

lemma allowlist_sorted: "rust_build_allowlist =
     [0, 1, 2, 3, 4, 5, 8, 9, 10, 11, 12, 13, 14, 15, 16, 17, 18, 19, 20, 21, 22, 24, 28, 33, 35, 39,
      56, 57, 59, 60, 61, 62, 63, 72, 79, 96, 102, 104, 107, 108, 110, 112, 158, 186, 202, 218, 231,
      257, 262, 273, 292, 293, 302, 318, 332]"
  unfolding rust_build_allowlist_def by (subst sorted_sort_id) simp_all

lemma program_length: "length (build_bpf_program lc rust_build_allowlist) = 4 + 2 * allowlist_len + 1"
  by (simp add: build_bpf_program_def allowlist_sorted allow_entry_def allowlist_len_def)

lemma strict_filter_blocks:
  assumes "bpf_semantics lc exec" "sd_nr d \<in> {41, 42, 44, 49, 50, 101, 135, 163, 165, 166, 169, 175, 246, 313, 320, 321, 323}"
  shows "exec (build_bpf_program lc rust_build_allowlist) d 0 a = RET_KILL_PROCESS lc"
proof -
  let ?blocked = "[41, 42, 44, 49, 50, 101, 135, 163, 165, 166, 169, 175, 246, 313, 320, 321, 323] :: u32 list"
  have "sd_nr d \<in> set ?blocked" using assms(2) by (simp only: list.set)
  moreover have "list_all (\<lambda>nr. nr \<notin> set (map word_of_int rust_build_allowlist)) ?blocked"
    unfolding allowlist_sorted by code_simp
  ultimately have "sd_nr d \<notin> word_of_int ` set rust_build_allowlist"
    unfolding list_all_iff set_map by (elim bspec [rotated])
  then show ?thesis using filter_verdict [OF assms(1)] by simp
qed

text \<open>Calls that the documentation of the list names and the list lacks: \<open>getdents64\<close>, \<open>mkdirat\<close>,
  \<open>unlinkat\<close>, \<open>symlinkat\<close>, \<open>readlinkat\<close>, \<open>renameat2\<close>, \<open>close_range\<close>, \<open>epoll_wait\<close>.\<close>

lemma documented_calls_missing:
  "set rust_build_allowlist \<inter> {217, 258, 263, 266, 267, 316, 436, 232} = {}"
  by (simp add: allowlist_sorted)

section \<open>A machine with the documented behaviour\<close>

definition demo_libc :: libc_bpf where
  "demo_libc = \<lparr>BPF_LD = 0, BPF_W = 0, BPF_ABS = 0x20, BPF_JMP = 5, BPF_JEQ = 0x10, BPF_K = 0, BPF_RET = 6,
     RET_KILL_PROCESS = 0x80000000, RET_ALLOW = 0x7FFF0000\<rparr>"

function demo_exec :: "sock_filter list \<Rightarrow> seccomp_data \<Rightarrow> nat \<Rightarrow> u32 \<Rightarrow> u32" where
  "demo_exec p d pc a =
     (if length p \<le> pc then 0
      else let i = p ! pc in
        if sf_code i = 0x20 then demo_exec p d (pc + 1) (if sf_k i = 0 then sd_nr d else if sf_k i = 4 then sd_arch d else 0)
        else if sf_code i = 0x15 then demo_exec p d (pc + 1 + (if a = sf_k i then unat (sf_jt i) else unat (sf_jf i))) a
        else sf_k i)"
  by pat_completeness auto
termination by (relation "measure (\<lambda>(p, d, pc, a). length p - pc)") auto

declare demo_exec.simps [simp del]

lemma demo_semantics: "bpf_semantics demo_libc demo_exec"
  unfolding bpf_semantics_def
proof (intro allI impI conjI)
  fix p :: "sock_filter list" and d :: seccomp_data and pc :: nat and a :: u32
  assume pc: "pc < length p"
  note step = demo_exec.simps [of p d pc a]
  show "demo_exec p d pc a = demo_exec p d (pc + 1) (sd_nr d)" if "p ! pc = bpf_stmt (ld_abs demo_libc) 0"
    unfolding step that using pc by (simp add: bpf_stmt_def ld_abs_def demo_libc_def)
  show "demo_exec p d pc a = demo_exec p d (pc + 1) (sd_arch d)" if "p ! pc = bpf_stmt (ld_abs demo_libc) 4"
    unfolding step that using pc by (simp add: bpf_stmt_def ld_abs_def demo_libc_def)
  show "demo_exec p d pc a = demo_exec p d (pc + 1 + (if a = k then unat jt else unat jf)) a"
    if "p ! pc = bpf_jump (jmp_jeq demo_libc) k jt jf" for k jt jf
    unfolding step that using pc by (simp add: bpf_jump_def jmp_jeq_def demo_libc_def)
  show "demo_exec p d pc a = k" if "p ! pc = bpf_stmt (ret_k demo_libc) k" for k
    unfolding step that using pc by (simp add: bpf_stmt_def ret_k_def demo_libc_def)
qed

lemma strict_filter_kills_native_calls_witness:
  "demo_exec (build_bpf_program demo_libc [0, 1, 2]) \<lparr>sd_nr = 1, sd_arch = audit_arch_x86_64\<rparr> 0 0 = RET_KILL_PROCESS demo_libc \<and>
   demo_exec (build_bpf_program demo_libc [0, 1, 2]) \<lparr>sd_nr = 1, sd_arch = 0x40000003\<rparr> 0 0 = RET_ALLOW demo_libc"
proof -
  note v = strict_filter_kills_native_calls [OF demo_semantics, of "[0, 1, 2]" _ 0]
  have "(0x40000003 :: u32) \<noteq> audit_arch_x86_64" by (simp add: audit_arch_x86_64_def)
  then show ?thesis
    using v [of "\<lparr>sd_nr = 1, sd_arch = audit_arch_x86_64\<rparr>"] v [of "\<lparr>sd_nr = 1, sd_arch = 0x40000003\<rparr>"] by simp
qed

end
