(* ===== verification/Sandbox_Policy.thy ===== *)
theory Sandbox_Policy imports Seccomp Text begin

text \<open>
  What a sandboxed command may be and reach: \<open>src/sandbox/allowlist.rs\<close>,
  \<open>src/sandbox/policy.rs\<close>, the scan for host names of \<open>src/sandbox/process.rs\<close>, and the
  namespaces and resource limits of \<open>src/sandbox/namespace.rs\<close> and \<open>src/sandbox/cgroup.rs\<close>.
  Sets of tokens are lists; only membership is used.
\<close>

section \<open>Commands\<close>

definition default_allowlist :: "string list" where
  "default_allowlist =
     [''cargo'', ''rustc'', ''rustup'', ''python'', ''python3'', ''pip'', ''tsc'', ''node'', ''npm'', ''npx'',
      ''psql'', ''sqlite3'', ''jq'', ''cat'', ''ls'', ''find'', ''grep'', ''head'', ''tail'', ''echo'', ''wc'', ''sh'']"

definition default_denylist :: "string list" where
  "default_denylist =
     [''curl'', ''wget'', ''ssh'', ''scp'', ''rsync'', ''nc'', ''ncat'', ''socat'', ''eval'', ''exec'', ''source'']"

definition basename :: "string \<Rightarrow> string" where
  "basename cmd = rev (takeWhile (\<lambda>c. c \<noteq> CHR ''/'' \<and> c \<noteq> CHR 0x5C) (rev cmd))"

definition permits :: "string list \<Rightarrow> string \<Rightarrow> bool" where
  "permits allowlist cmd \<longleftrightarrow> basename cmd \<in> set allowlist"

definition bans :: "string list \<Rightarrow> string \<Rightarrow> bool" where
  "bans denylist token \<longleftrightarrow> token \<in> set denylist"

definition is_allowed :: "string \<Rightarrow> string list \<Rightarrow> bool" where
  "is_allowed cmd allowlist = permits allowlist cmd"

fun contains_deny_token :: "string list \<Rightarrow> string list \<Rightarrow> bool" where
  "contains_deny_token [] denylist = False"
| "contains_deny_token (a # as) denylist = (if bans denylist a then True else contains_deny_token as denylist)"

section \<open>Hosts\<close>

datatype network_policy = Net_Off | Net_Allow_List "string list" | Net_Open

definition net_allows :: "network_policy \<Rightarrow> string \<Rightarrow> bool" where
  "net_allows policy host =
     (case policy of Net_Off \<Rightarrow> False | Net_Open \<Rightarrow> True | Net_Allow_List hosts \<Rightarrow> find (\<lambda>h. h = host) hosts \<noteq> None)"

definition deny_reason :: "network_policy \<Rightarrow> string \<Rightarrow> string option" where
  "deny_reason policy host =
     (case policy of
        Net_Off \<Rightarrow> Some (''network disabled (host='' @ host @ '')'')
      | Net_Allow_List hosts \<Rightarrow> if host \<notin> set hosts then Some (''host '' @ host @ '' not in allow_list'') else None
      | Net_Open \<Rightarrow> None)"

definition looks_like_host :: "string \<Rightarrow> bool" where
  "looks_like_host s \<longleftrightarrow> s \<noteq> [] \<and> CHR ''.'' \<in> set s \<and>
     (\<forall>c\<in>set s. is_ascii_alphanumeric c \<or> c = CHR ''.'' \<or> c = CHR ''-'' \<or> c = CHR '':'')"

text \<open>The binary is \<open>None\<close> when its path is not valid UTF-8.\<close>

definition extract_hosts :: "string option \<Rightarrow> string list \<Rightarrow> string list" where
  "extract_hosts binary args =
     concat (map (\<lambda>arg. filter looks_like_host (split_whitespace arg)) args) @
     (case binary of None \<Rightarrow> [] | Some b \<Rightarrow> filter looks_like_host (split_whitespace b))"

lemma deny_reason_allows: "deny_reason policy host = None \<longleftrightarrow> net_allows policy host"
  by (cases policy) (auto simp: deny_reason_def net_allows_def find_None_iff)

lemma contains_deny_token_iff: "contains_deny_token argv denylist \<longleftrightarrow> set argv \<inter> set denylist \<noteq> {}"
  by (induction argv denylist rule: contains_deny_token.induct) (auto simp: bans_def)

lemma host_has_no_slash: "looks_like_host s \<Longrightarrow> CHR ''/'' \<notin> set s"
  by (auto simp: looks_like_host_def is_ascii_alphanumeric_def is_ascii_digit_def Let_def)

text \<open>
  The scan does not see the host of a URL, as its documentation says it does: a word with a
  slash is never taken for a host.
\<close>

lemma urls_are_not_hosts: "h \<in> set (extract_hosts binary args) \<Longrightarrow> CHR ''/'' \<notin> set h"
  using host_has_no_slash by (auto simp: extract_hosts_def split: option.splits)

section \<open>Namespaces\<close>

type_synonym namespace_flags = u32

definition ns_contains :: "namespace_flags \<Rightarrow> namespace_flags \<Rightarrow> bool" where
  "ns_contains f other \<longleftrightarrow> and f other = other"

definition ns_table :: "(namespace_flags \<times> string) list" where
  "ns_table = [(1, ''mount''), (2, ''pid''), (4, ''net''), (8, ''uts''), (16, ''ipc'')]"

definition ns_all :: namespace_flags where
  "ns_all = 31"

definition ns_to_libc :: "namespace_flags \<Rightarrow> u32" where
  "ns_to_libc f =
     (let a = (if ns_contains f 1 then 0x20000 else 0);
          b = (if ns_contains f 2 then or a 0x20000000 else a);
          c = (if ns_contains f 4 then or b 0x40000000 else b);
          d = (if ns_contains f 8 then or c 0x4000000 else c)
      in if ns_contains f 16 then or d 0x8000000 else d)"

definition ns_display :: "namespace_flags \<Rightarrow> string" where
  "ns_display f =
     fst (fold (\<lambda>(flag, name) (out, sep). if ns_contains f flag then (out @ sep @ name, '','') else (out, sep)) ns_table ([], []))"

definition ns_lookup :: "string \<Rightarrow> namespace_flags option" where
  "ns_lookup name = map_of (map (\<lambda>(flag, n). (n, flag)) ns_table) (to_ascii_lowercase name)"

fun ns_names :: "string list \<Rightarrow> namespace_flags \<Rightarrow> string + namespace_flags" where
  "ns_names [] flags = Inr flags"
| "ns_names (name # names) flags =
     (case ns_lookup name of
        None \<Rightarrow> Inl (''unknown namespace: '' @ name)
      | Some f \<Rightarrow> ns_names names (or flags f))"

definition ns_from_str :: "string \<Rightarrow> string + namespace_flags" where
  "ns_from_str s = ns_names (filter (\<lambda>n. n \<noteq> []) (map trim (split_on (CHR '','') s))) 0"

lemma flags_cases:
  assumes "and f (31 :: u32) = f"
  shows "f \<in> {0, 1, 2, 3, 4, 5, 6, 7, 8, 9, 10, 11, 12, 13, 14, 15, 16, 17, 18, 19, 20, 21, 22, 23, 24, 25, 26, 27, 28, 29, 30, 31}"
proof -
  have "f \<le> 31" using assms by (metis word_and_le1)
  then have "unat f \<le> 31" by (simp add: word_le_nat_alt)
  then have "unat f \<in> set [0..<32]" by simp
  then have "word_of_nat (unat f) \<in> (word_of_nat :: nat \<Rightarrow> u32) ` set [0..<32]" by (rule imageI)
  then show ?thesis by (simp add: upt_rec)
qed

definition ns_selected :: "namespace_flags \<Rightarrow> (namespace_flags \<times> string) list" where
  "ns_selected f = filter (\<lambda>(flag, name). ns_contains f flag) ns_table"

lemma ns_display_join: "ns_display f = join_str '','' (map snd (ns_selected f))"
  by (simp add: ns_display_def ns_selected_def ns_table_def)

lemma ns_names_table:
  "set es \<subseteq> set ns_table \<Longrightarrow> ns_names (map snd es) g = Inr (fold (\<lambda>e h. or h (fst e)) es g)"
proof (induction es arbitrary: g)
  case (Cons e es)
  have "ns_lookup (snd e) = Some (fst e)"
    using Cons.prems by (auto simp: ns_table_def ns_lookup_def to_ascii_lowercase_def ascii_lower_def)
  then show ?case using Cons by simp
qed simp

lemma ns_name_ok: "e \<in> set ns_table \<Longrightarrow> CHR '','' \<notin> set (snd e) \<and> snd e \<noteq> [] \<and> trim (snd e) = snd e"
  by (auto simp: ns_table_def visible_def intro!: trim_visible)

lemma ns_fold: "and f 31 = f \<Longrightarrow> fold (\<lambda>e h. or h (fst e)) (ns_selected f) 0 = f"
proof -
  assume "and f 31 = f"
  then have "f \<in> set [0, 1, 2, 3, 4, 5, 6, 7, 8, 9, 10, 11, 12, 13, 14, 15, 16, 17, 18, 19, 20, 21, 22, 23, 24, 25, 26, 27, 28, 29, 30, 31]" using flags_cases [of f] by (simp only: list.set)
  moreover have "list_all (\<lambda>f. fold (\<lambda>e h. or h (fst e)) (ns_selected f) 0 = f) [0, 1, 2, 3, 4, 5, 6, 7, 8, 9, 10, 11, 12, 13, 14, 15, 16, 17, 18, 19, 20, 21, 22, 23, 24, 25, 26, 27, 28, 29, 30, 31]" by code_simp
  ultimately show ?thesis by (simp only: list_all_iff)
qed

text \<open>The textual form of a set of namespaces, which the configuration file stores, is read back as
  the same set.\<close>

lemma namespaces_read_back:
  assumes "and f ns_all = f"
  shows "ns_from_str (ns_display f) = Inr f"
proof (cases "ns_selected f = []")
  case True
  then have "f = 0" using ns_fold [of f] assms by (simp add: ns_all_def)
  moreover have "ns_display 0 = []" by (simp add: ns_display_def ns_table_def ns_contains_def)
  moreover have "trim [] = []" by (rule trim_visible) simp
  then have "ns_from_str [] = Inr 0" by (simp add: ns_from_str_def)
  ultimately show ?thesis by simp
next
  case False
  let ?names = "map snd (ns_selected f)"
  have sub: "set (ns_selected f) \<subseteq> set ns_table" by (auto simp: ns_selected_def)
  then have ok: "CHR '','' \<notin> set w \<and> w \<noteq> [] \<and> trim w = w" if "w \<in> set ?names" for w
    using that ns_name_ok by fastforce
  have "split_on (CHR '','') (ns_display f) = ?names"
    unfolding ns_display_join by (rule split_on_join) (use ok False in auto)
  moreover have "map trim ?names = ?names" using ok by (simp add: map_idI)
  moreover have "filter (\<lambda>n. n \<noteq> []) ?names = ?names" using ok by (simp add: filter_id_conv)
  ultimately have "ns_from_str (ns_display f) = ns_names ?names 0" unfolding ns_from_str_def by (simp only:)
  also have "\<dots> = Inr (fold (\<lambda>e h. or h (fst e)) (ns_selected f) 0)" by (rule ns_names_table [OF sub])
  also have "\<dots> = Inr f" using ns_fold [of f] assms by (simp add: ns_all_def)
  finally show ?thesis .
qed

end
