(* ===== verification/Sandbox.thy ===== *)
theory Sandbox imports Sandbox_Policy Cancel_Handles Ordered_Map begin

text \<open>
  Running a command in the sandbox: \<open>src/sandbox/process.rs\<close>. A path is its text, \<open>None\<close> in
  the second component of a command's binary when it is not valid UTF-8. What the operating
  system answers is a record: which files exist, the environment, whether the spawn works,
  whether the write to the standard input ends, what the reads of the two pipes give and in which
  order the events of the \<open>select!\<close> arrive. The list of reads of a pipe holds every read that ever
  completes; the end of the stream is a read of no bytes, so a list without one is a pipe that
  some process holds open.
  What the call does to the world is the list of its effects, and the registry of the cancel
  handle it holds. The redaction of secrets is an argument.
\<close>

section \<open>Configuration\<close>

datatype sandbox_error =
    Output_Truncated | Binary_Not_Found string | Not_Allowed string | Network_Denied string | Sandbox_Io string

definition sandbox_error_text :: "sandbox_error \<Rightarrow> string" where
  "sandbox_error_text e =
     (case e of
        Output_Truncated \<Rightarrow> ''sandbox output truncated''
      | Binary_Not_Found s \<Rightarrow> ''sandbox binary not found: '' @ s
      | Not_Allowed s \<Rightarrow> ''sandbox policy rejection: '' @ s
      | Network_Denied s \<Rightarrow> ''sandbox network denied: '' @ s
      | Sandbox_Io s \<Rightarrow> ''sandbox I/O failure: '' @ s)"

definition sandbox_error_into :: "sandbox_error \<Rightarrow> error" where
  "sandbox_error_into e = Err_InvalidState (sandbox_error_text e)"

record command_config =
  cf_name :: string
  cf_binary :: string
  cf_max_args :: nat
  cf_max_arg_len :: nat
  cf_max_output_bytes :: nat
  cf_timeout_secs :: nat
  cf_allow_network :: bool

definition default_output_cap_bytes :: nat where
  "default_output_cap_bytes = 64 * 1024"

definition command_configs :: "command_config list" where
  "command_configs =
     (let c = (\<lambda>name binary secs. \<lparr>cf_name = name, cf_binary = binary, cf_max_args = 32, cf_max_arg_len = 1024,
                 cf_max_output_bytes = 64 * 1024, cf_timeout_secs = secs, cf_allow_network = False\<rparr>)
      in [c ''rust'' ''cargo'' 180, c ''python'' ''python3'' 60, c ''typescript'' ''tsc'' 60, c ''sql'' ''sqlite3'' 30])"

definition config_for :: "string \<Rightarrow> command_config option" where
  "config_for name = find (\<lambda>c. cf_name c = name) command_configs"

text \<open>The last component of a path, if it names a file.\<close>

definition file_name :: "string \<Rightarrow> string option" where
  "file_name p =
     (let cs = filter (\<lambda>c. c \<noteq> [] \<and> c \<noteq> ''.'') (split_on (CHR ''/'') p)
      in if cs = [] \<or> last cs = ''..'' then None else Some (last cs))"

definition config_for_binary :: "string \<Rightarrow> command_config option" where
  "config_for_binary binary =
     (case file_name binary of None \<Rightarrow> None | Some b \<Rightarrow> find (\<lambda>c. cf_binary c = b) command_configs)"

record 'g sandbox_config =
  sc_timeout :: duration
  sc_allowlist :: "string list"
  sc_denylist :: "string list"
  sc_max_capture :: "nat option"
  sc_allow_network :: bool
  sc_network :: network_policy
  sc_allow_injection :: bool
  sc_namespaces :: namespace_flags
  sc_seccomp :: seccomp_policy_kind
  sc_cgroup :: "'g option"

definition sandbox_config_new :: "'g sandbox_config" where
  "sandbox_config_new =
     \<lparr>sc_timeout = from_secs 30, sc_allowlist = default_allowlist, sc_denylist = default_denylist,
      sc_max_capture = None, sc_allow_network = False, sc_network = Net_Off, sc_allow_injection = False,
      sc_namespaces = 0, sc_seccomp = Permissive, sc_cgroup = None\<rparr>"

definition with_timeout :: "duration \<Rightarrow> 'g sandbox_config \<Rightarrow> 'g sandbox_config" where
  "with_timeout t c = (if t = 0 then c else c\<lparr>sc_timeout := t\<rparr>)"

definition with_allowlist :: "string list \<Rightarrow> 'g sandbox_config \<Rightarrow> 'g sandbox_config" where
  "with_allowlist l c = c\<lparr>sc_allowlist := l\<rparr>"

definition with_max_capture :: "nat \<Rightarrow> 'g sandbox_config \<Rightarrow> 'g sandbox_config" where
  "with_max_capture n c = c\<lparr>sc_max_capture := Some n\<rparr>"

definition with_allow_network :: "bool \<Rightarrow> 'g sandbox_config \<Rightarrow> 'g sandbox_config" where
  "with_allow_network b c = c\<lparr>sc_allow_network := b, sc_network := (if b then Net_Open else Net_Off)\<rparr>"

definition with_network_policy :: "network_policy \<Rightarrow> 'g sandbox_config \<Rightarrow> 'g sandbox_config" where
  "with_network_policy p c = c\<lparr>sc_allow_network := (p \<noteq> Net_Off), sc_network := p\<rparr>"

definition with_allow_injection :: "bool \<Rightarrow> 'g sandbox_config \<Rightarrow> 'g sandbox_config" where
  "with_allow_injection b c = c\<lparr>sc_allow_injection := b\<rparr>"

text \<open>
  \<open>to_lowercase\<close> as far as a search for ASCII words can tell: ASCII capitals and the Kelvin
  sign, the one other character whose lower case is a letter of those words.
\<close>

fun lower_view :: "string \<Rightarrow> string" where
  "lower_view (a # b # c # s) =
     (if (of_char a :: nat) = 0xE2 \<and> (of_char b :: nat) = 0x84 \<and> (of_char c :: nat) = 0xAA then CHR ''k'' # lower_view s
      else ascii_lower a # lower_view (b # c # s))"
| "lower_view s = map ascii_lower s"

definition secret_name :: "string \<Rightarrow> bool" where
  "secret_name key \<longleftrightarrow>
     (let lower = lower_view key
      in contains ''key'' lower \<or> contains ''token'' lower \<or> contains ''secret'' lower \<or> contains ''password'' lower)"

definition strip_secrets_env :: "(string, string) hash_map \<Rightarrow> (string, string) hash_map" where
  "strip_secrets_env env = filter (\<lambda>(key, _). \<not> secret_name key) env"

section \<open>Arguments and environment\<close>

definition looks_like_secret :: "(string \<Rightarrow> string) \<Rightarrow> string \<Rightarrow> bool" where
  "looks_like_secret redact s \<longleftrightarrow> redact s \<noteq> s"

definition strip_secrets :: "(string \<Rightarrow> string) \<Rightarrow> string list \<Rightarrow> string list" where
  "strip_secrets redact args =
     map (\<lambda>a. if looks_like_secret redact a then (if redact a \<noteq> a then redact a else ''***REDACTED***'') else a) args"

definition path_join :: "string \<Rightarrow> string \<Rightarrow> string" where
  "path_join dir p = (if p \<noteq> [] \<and> hd p = CHR ''/'' then p else if dir = [] \<or> last dir = CHR ''/'' then dir @ p else dir @ ''/'' @ p)"

definition verify_binary_exists :: "(string \<Rightarrow> bool) \<Rightarrow> string option \<Rightarrow> string \<Rightarrow> sandbox_error + unit" where
  "verify_binary_exists exists path binary =
     (if binary \<noteq> [] \<and> hd binary = CHR ''/''
      then (if exists binary then Inr () else Inl (Binary_Not_Found binary))
      else case path of
             None \<Rightarrow> Inl (Binary_Not_Found binary)
           | Some paths \<Rightarrow>
               (if \<exists>dir\<in>set (split_on (CHR '':'') paths). exists (if dir = [] then binary else path_join dir binary)
                then Inr () else Inl (Binary_Not_Found binary)))"

definition build_env :: "'g sandbox_config \<Rightarrow> (string, string) hash_map \<Rightarrow> string \<Rightarrow> (string, string) hash_map" where
  "build_env cfg vars work =
     (let env = strip_secrets_env vars;
          inherited = (case map_of env ''PATH'' of None \<Rightarrow> ''/usr/local/bin:/usr/bin:/bin'' | Some p \<Rightarrow> p);
          env = AList.update ''PATH'' (''/usr/local/bin:/usr/bin:/bin:'' @ inherited) env;
          env = AList.update ''HOME'' work env
      in if sc_network cfg = Net_Off then AList.update ''CARGO_NET_OFFLINE'' ''true'' env else env)"

section \<open>Commands and outcomes\<close>

record command =
  cm_binary :: "string \<times> string option"
  cm_args :: "string list"
  cm_env :: "(string \<times> string) list"
  cm_cwd :: "string option"
  cm_stdin :: "u8 list option"
  cm_timeout :: "duration option"
  cm_max_stdout :: nat
  cm_max_stderr :: nat

definition command_new :: "string \<times> string option \<Rightarrow> string list \<Rightarrow> command" where
  "command_new binary args =
     \<lparr>cm_binary = binary, cm_args = args, cm_env = [], cm_cwd = None, cm_stdin = None, cm_timeout = None,
      cm_max_stdout = default_output_cap_bytes, cm_max_stderr = default_output_cap_bytes\<rparr>"

definition cm_add_env :: "string \<Rightarrow> string \<Rightarrow> command \<Rightarrow> command" where
  "cm_add_env k v c = c\<lparr>cm_env := cm_env c @ [(k, v)]\<rparr>"

record sandbox_output =
  so_stdout :: "u8 list"
  so_stderr :: "u8 list"
  so_exit_code :: "int option"
  so_duration :: duration
  so_killed_by_timeout :: bool

datatype sandbox_status = Sb_Pass | Sb_Fail | Sb_Timeout | Sb_Not_Allowed | Sb_Not_Found | Sb_Error

record sandbox_result =
  sr_exit_code :: int
  sr_stdout :: string
  sr_stderr :: string
  sr_duration :: duration
  sr_status :: sandbox_status
  sr_command :: string

text \<open>What runs in the child between fork and exec, in order.\<close>

datatype 'g pre_exec = Set_Pgid | Unshare namespace_flags | Load_Seccomp seccomp_policy_kind | Apply_Cgroup 'g

record 'g spawn_request =
  sp_binary :: string
  sp_args :: "string list"
  sp_dir :: string
  sp_env :: "(string, string) hash_map"
  sp_hooks :: "'g pre_exec list"

datatype 'g sandbox_effect =
    Eff_Spawn "'g spawn_request"
  | Eff_Watchdog int duration
  | Eff_Kill

datatype spawn_answer = Spawned "int option" | Spawn_Not_Found | Spawn_Failed string

datatype read_event = Read_Bytes "u8 list" | Read_Error string

datatype wait_event =
    Child_Exited "int option"
  | Wait_Failed
  | Reader_Truncated
  | Readers_Closed
  | Deadline

record sandbox_world =
  sw_exists :: "string \<Rightarrow> bool"
  sw_path :: "string option"
  sw_vars :: "(string, string) hash_map"
  sw_scratch :: "string + string"
  sw_spawn :: spawn_answer
  sw_stdin_taken :: bool
  sw_elapsed :: duration
  sw_events :: "wait_event list"
  sw_stdout :: "read_event list"
  sw_stderr :: "read_event list"
  sw_duration :: duration

section \<open>Reading the pipes and waiting\<close>

text \<open>A reader task; \<open>None\<close> when it waits for a read that never completes.\<close>

fun read_stream :: "nat \<Rightarrow> u8 list \<Rightarrow> read_event list \<Rightarrow> (sandbox_error + u8 list) option" where
  "read_stream cap output [] = None"
| "read_stream cap output (Read_Error e # es) = Some (Inl (Sandbox_Io e))"
| "read_stream cap output (Read_Bytes bs # es) =
     (if bs = [] then Some (Inr output)
      else if cap < length output + length bs then Some (Inl Output_Truncated)
      else read_stream cap (output @ bs) es)"

text \<open>
  The \<open>select!\<close> loop: exit code, whether the deadline passed, an early error, and whether the
  loop killed the child. Events after the one that ends the loop do not matter; \<open>None\<close> while
  none has come.
\<close>

fun wait_loop :: "wait_event list \<Rightarrow> (int option \<times> bool \<times> sandbox_error option \<times> bool) option" where
  "wait_loop [] = None"
| "wait_loop (Child_Exited code # es) = Some (code, False, None, False)"
| "wait_loop (Wait_Failed # es) = Some (None, False, Some (Sandbox_Io ''waitpid failed''), False)"
| "wait_loop (Reader_Truncated # es) = Some (None, False, Some Output_Truncated, True)"
| "wait_loop (Readers_Closed # es) = wait_loop es"
| "wait_loop (Deadline # es) = Some (None, True, None, True)"

section \<open>The run\<close>

record 'g sandbox =
  sb_config :: "'g sandbox_config"
  sb_cancel :: "cancel_handle option"

definition sandbox_new :: "'g sandbox_config \<Rightarrow> 'g sandbox result" where
  "sandbox_new cfg =
     (if sc_timeout cfg = 0
      then Inl (Err_InvalidState ''sandbox timeout must be > 0; use with_timeout() with a positive duration'')
      else Inr \<lparr>sb_config = cfg, sb_cancel = None\<rparr>)"

definition with_cancel :: "cancel_handle \<Rightarrow> 'g sandbox \<Rightarrow> 'g sandbox" where
  "with_cancel h sb = sb\<lparr>sb_cancel := Some h\<rparr>"

definition binary_name :: "string \<Rightarrow> string" where
  "binary_name binary = (case file_name binary of None \<Rightarrow> binary | Some b \<Rightarrow> b)"

definition policy_check :: "'g sandbox_config \<Rightarrow> string \<Rightarrow> string list \<Rightarrow> sandbox_error option" where
  "policy_check cfg name raw_args =
     (if \<not> is_allowed name (sc_allowlist cfg)
      then Some (Not_Allowed (''command '' @ [CHR 0x27] @ name @ [CHR 0x27] @ '' is not in the sandbox allowlist''))
      else if contains_deny_token (name # raw_args) (sc_denylist cfg)
      then Some (Not_Allowed ''argv contains a denylisted token'')
      else None)"

definition pre_exec_hooks :: "'g sandbox \<Rightarrow> 'g pre_exec list" where
  "pre_exec_hooks sb =
     (let cfg = sb_config sb
      in (if sb_cancel sb \<noteq> None then [Set_Pgid] else []) @
         (if sc_namespaces cfg \<noteq> 0 then [Unshare (sc_namespaces cfg)] else []) @
         (if sc_seccomp cfg \<noteq> Permissive then [Load_Seccomp (sc_seccomp cfg)] else []) @
         (case sc_cgroup cfg of None \<Rightarrow> [] | Some g \<Rightarrow> [Apply_Cgroup g]))"

text \<open>Everything up to the spawn.\<close>

definition prepare ::
  "(string \<Rightarrow> string) \<Rightarrow> 'g sandbox \<Rightarrow> command \<Rightarrow> sandbox_world \<Rightarrow> sandbox_error + 'g spawn_request"
where
  "prepare redact sb cmd sw =
     (let cfg = sb_config sb in
      case snd (cm_binary cmd) of
        None \<Rightarrow> Inl (Sandbox_Io (''binary path is not valid UTF-8: '' @ fst (cm_binary cmd)))
      | Some binary \<Rightarrow>
          (case policy_check cfg (binary_name binary) (cm_args cmd) of
             Some e \<Rightarrow> Inl e
           | None \<Rightarrow>
               rbind (verify_binary_exists (sw_exists sw) (sw_path sw) binary) (\<lambda>_.
               rbind (case cm_cwd cmd of Some dir \<Rightarrow> Inr dir | None \<Rightarrow> map_err Sandbox_Io (sw_scratch sw)) (\<lambda>dir.
                 Inr \<lparr>sp_binary = binary,
                      sp_args = (if sc_allow_injection cfg then cm_args cmd else strip_secrets redact (cm_args cmd)),
                      sp_dir = dir,
                      sp_env = fold (\<lambda>(k, v). AList.update k v) (cm_env cmd) (build_env cfg (sw_vars sw) dir),
                      sp_hooks = pre_exec_hooks sb\<rparr>))))"

definition registered_child :: "'g sandbox \<Rightarrow> int option \<Rightarrow> (cancel_handle \<times> int) option" where
  "registered_child sb pgid = (case (sb_cancel sb, pgid) of (Some h, Some p) \<Rightarrow> Some (h, p) | _ \<Rightarrow> None)"

definition guard_register :: "(cancel_handle \<times> int) option \<Rightarrow> cancel_world \<Rightarrow> cancel_world" where
  "guard_register g w = (case g of None \<Rightarrow> w | Some (h, p) \<Rightarrow> register_child p h w)"

definition guard_drop :: "(cancel_handle \<times> int) option \<Rightarrow> cancel_world \<Rightarrow> cancel_world" where
  "guard_drop g w = (case g of None \<Rightarrow> w | Some (h, p) \<Rightarrow> unregister_child p h w)"

text \<open>
  From the spawn to the return; \<open>during\<close> is what the rest of the program does to the cancel
  handles while the child is registered, and the world returned is the one when it no longer is.
  After the loop both reader tasks are awaited, also when an error ended the loop, and no deadline
  covers that wait. \<open>None\<close>: the call does not return.
\<close>

definition supervise ::
  "'g sandbox \<Rightarrow> command \<Rightarrow> sandbox_world \<Rightarrow> int option \<Rightarrow> cancel_op list \<Rightarrow> cancel_world
     \<Rightarrow> ((sandbox_error + sandbox_output) \<times> 'g sandbox_effect list \<times> cancel_world) option"
where
  "supervise sb cmd sw pgid during w =
     (let guard = registered_child sb pgid;
          w' = guard_drop guard (fold (\<lambda>ev s. cancel_step s ev) during (guard_register guard w));
          timeout = (case cm_timeout cmd of None \<Rightarrow> sc_timeout (sb_config sb) | Some t \<Rightarrow> t);
          remaining = timeout - sw_elapsed sw;
          watchdog = (case registered_child sb pgid of None \<Rightarrow> [] | Some (h, p) \<Rightarrow> [Eff_Watchdog p remaining])
      in if cm_stdin cmd \<noteq> None \<and> \<not> sw_stdin_taken sw then None
         else if timeout = 0
         then Some (Inl (Sandbox_Io ''sandbox timeout must be > 0; use a positive Duration''), [Eff_Kill], w')
         else case wait_loop (sw_events sw) of
                None \<Rightarrow> None
              | Some (code, timed_out, early, killed) \<Rightarrow>
                  (case (read_stream (cm_max_stdout cmd) [] (sw_stdout sw),
                         read_stream (cm_max_stderr cmd) [] (sw_stderr sw)) of
                     (Some stdout_result, Some stderr_result) \<Rightarrow>
                       Some
                         (case early of
                            Some e \<Rightarrow> Inl e
                          | None \<Rightarrow>
                              rbind stdout_result (\<lambda>out.
                              rbind stderr_result (\<lambda>err.
                                Inr \<lparr>so_stdout = out, so_stderr = err, so_exit_code = code,
                                     so_duration = sw_duration sw, so_killed_by_timeout = timed_out\<rparr>)),
                          watchdog @ (if killed then [Eff_Kill] else []), w')
                   | _ \<Rightarrow> None))"

definition run_in_with_limits ::
  "(string \<Rightarrow> string) \<Rightarrow> 'g sandbox \<Rightarrow> command \<Rightarrow> sandbox_world \<Rightarrow> cancel_op list \<Rightarrow> cancel_world
     \<Rightarrow> ((sandbox_error + sandbox_output) \<times> 'g sandbox_effect list \<times> cancel_world) option"
where
  "run_in_with_limits redact sb cmd sw during w =
     (case prepare redact sb cmd sw of
        Inl e \<Rightarrow> Some (Inl e, [], w)
      | Inr req \<Rightarrow>
          (case sw_spawn sw of
             Spawn_Not_Found \<Rightarrow> Some (Inl (Binary_Not_Found (sp_binary req)), [Eff_Spawn req], w)
           | Spawn_Failed e \<Rightarrow> Some (Inl (Sandbox_Io (''spawn failed: '' @ e)), [Eff_Spawn req], w)
           | Spawned pid \<Rightarrow>
               map_option (\<lambda>(r, effs, w'). (r, Eff_Spawn req # effs, w')) (supervise sb cmd sw pid during w)))"

text \<open>The signals of the watchdog of a child whose call ended at \<open>ended\<close>.\<close>

definition watchdog_signals :: "instant \<Rightarrow> duration \<Rightarrow> instant \<Rightarrow> int \<Rightarrow> (instant \<times> signal \<times> int) list" where
  "watchdog_signals start timeout ended pgid =
     (let t = min (start + timeout) ended in [(t, SIGTERM, pgid), (t + hard_kill_grace, SIGKILL, pgid)])"

section \<open>The older interface and the wrapper with a network policy\<close>

definition command_string :: "(string \<Rightarrow> string) \<Rightarrow> 'g sandbox \<Rightarrow> command \<Rightarrow> string" where
  "command_string redact sb cmd =
     join_str '' '' (fst (cm_binary cmd) #
       (if sc_allow_injection (sb_config sb) then cm_args cmd else strip_secrets redact (cm_args cmd)))"

definition output_to_result ::
  "(u8 list \<Rightarrow> string) \<Rightarrow> (string \<Rightarrow> string) \<Rightarrow> 'g sandbox \<Rightarrow> command \<Rightarrow> sandbox_output \<Rightarrow> sandbox_result"
where
  "output_to_result lossy redact sb cmd out =
     \<lparr>sr_exit_code = (case so_exit_code out of None \<Rightarrow> -1 | Some c \<Rightarrow> c),
      sr_stdout = lossy (so_stdout out), sr_stderr = lossy (so_stderr out), sr_duration = so_duration out,
      sr_status = (if so_killed_by_timeout out then Sb_Timeout
                   else if so_exit_code out = Some 0 then Sb_Pass else Sb_Fail),
      sr_command = command_string redact sb cmd\<rparr>"

definition output_to_status_result ::
  "(string \<Rightarrow> string) \<Rightarrow> 'g sandbox \<Rightarrow> command \<Rightarrow> string \<Rightarrow> sandbox_status \<Rightarrow> sandbox_result"
where
  "output_to_status_result redact sb cmd msg status =
     \<lparr>sr_exit_code = -1, sr_stdout = [], sr_stderr = msg, sr_duration = 0, sr_status = status,
      sr_command = command_string redact sb cmd\<rparr>"

definition legacy_translation ::
  "(u8 list \<Rightarrow> string) \<Rightarrow> (string \<Rightarrow> string) \<Rightarrow> 'g sandbox \<Rightarrow> command \<Rightarrow> sandbox_error + sandbox_output
     \<Rightarrow> sandbox_error + sandbox_result"
where
  "legacy_translation lossy redact sb cmd r =
     (case r of
        Inr out \<Rightarrow> Inr (output_to_result lossy redact sb cmd out)
      | Inl (Not_Allowed msg) \<Rightarrow> Inr (output_to_status_result redact sb cmd msg Sb_Not_Allowed)
      | Inl (Binary_Not_Found msg) \<Rightarrow>
          Inr (output_to_status_result redact sb cmd (''binary not found: '' @ msg) Sb_Not_Found)
      | Inl (Sandbox_Io msg) \<Rightarrow> Inr (output_to_status_result redact sb cmd (''spawn failed: '' @ msg) Sb_Error)
      | Inl other \<Rightarrow> Inl other)"

text \<open>The command that \<open>run_in\<close> builds.\<close>

definition run_in_command :: "'g sandbox \<Rightarrow> string \<Rightarrow> string \<Rightarrow> string list \<Rightarrow> command" where
  "run_in_command sb work cmd args =
     (let cap = (case sc_max_capture (sb_config sb) of
                   Some n \<Rightarrow> n
                 | None \<Rightarrow> (case config_for_binary (binary_name cmd) of
                              None \<Rightarrow> default_output_cap_bytes | Some c \<Rightarrow> cf_max_output_bytes c))
      in (command_new (cmd, Some cmd) args)\<lparr>cm_cwd := Some work, cm_max_stdout := cap, cm_max_stderr := cap\<rparr>)"

definition run_in ::
  "(u8 list \<Rightarrow> string) \<Rightarrow> (string \<Rightarrow> string) \<Rightarrow> 'g sandbox \<Rightarrow> string \<Rightarrow> string \<Rightarrow> string list \<Rightarrow> sandbox_world
     \<Rightarrow> cancel_op list \<Rightarrow> cancel_world \<Rightarrow> ((sandbox_error + sandbox_result) \<times> 'g sandbox_effect list \<times> cancel_world) option"
where
  "run_in lossy redact sb work cmd args sw during w =
     (let c = run_in_command sb work cmd args
      in map_option (\<lambda>(r, effs, w'). (legacy_translation lossy redact sb c r, effs, w'))
           (run_in_with_limits redact sb c sw during w))"

text \<open>The wrapper: the denials it logs, and the run, which they do not stop.\<close>

definition moa_run_cmd ::
  "(string \<Rightarrow> string) \<Rightarrow> 'g sandbox \<Rightarrow> network_policy \<Rightarrow> command \<Rightarrow> sandbox_world \<Rightarrow> cancel_op list \<Rightarrow> cancel_world
     \<Rightarrow> string list \<times> ((sandbox_error + sandbox_output) \<times> 'g sandbox_effect list \<times> cancel_world) option"
where
  "moa_run_cmd redact sb network cmd sw during w =
     (List.map_filter (deny_reason network) (extract_hosts (snd (cm_binary cmd)) (cm_args cmd)),
      run_in_with_limits redact sb cmd sw during w)"

section \<open>What is spawned\<close>

lemma verify_binary_exists_error: "verify_binary_exists exists path b = Inl e \<Longrightarrow> e = Binary_Not_Found b"
  by (auto simp: verify_binary_exists_def split: if_splits option.splits)

lemma policy_check_None:
  "policy_check cfg name args = None \<longleftrightarrow>
     basename name \<in> set (sc_allowlist cfg) \<and> set (name # args) \<inter> set (sc_denylist cfg) = {}"
  by (auto simp: policy_check_def is_allowed_def permits_def contains_deny_token_iff simp del: set_simps)

lemma prepare_Inr:
  assumes "prepare redact sb cmd sw = Inr req"
  shows "snd (cm_binary cmd) = Some (sp_binary req)"
    and "policy_check (sb_config sb) (binary_name (sp_binary req)) (cm_args cmd) = None"
    and "sp_env req = fold (\<lambda>(k, v). AList.update k v) (cm_env cmd) (build_env (sb_config sb) (sw_vars sw) (sp_dir req))"
    and "sp_args req = (if sc_allow_injection (sb_config sb) then cm_args cmd else strip_secrets redact (cm_args cmd))"
    and "sp_hooks req = pre_exec_hooks sb"
  using assms by (auto simp: prepare_def Let_def rbind_eq_Inr split: option.splits)

lemma run_spawns:
  assumes "run_in_with_limits redact sb cmd sw during w = Some (r, effs, w')" "Eff_Spawn req \<in> set effs"
  shows "prepare redact sb cmd sw = Inr req"
proof (cases "prepare redact sb cmd sw")
  case (Inl e)
  then show ?thesis using assms by (simp add: run_in_with_limits_def)
next
  case (Inr req')
  have "Eff_Spawn req \<in> set effs \<Longrightarrow> req = req'"
    using assms(1) Inr
    by (auto simp: run_in_with_limits_def supervise_def Let_def split: spawn_answer.splits if_splits option.splits)
  then show ?thesis using Inr assms(2) by simp
qed

lemma strip_secrets_env_map_of:
  "map_of (strip_secrets_env env) k = (if secret_name k then None else map_of env k)"
  by (induction env) (auto simp: strip_secrets_env_def)

lemma fold_update_env:
  "k \<notin> fst ` set kvs \<Longrightarrow> map_of (fold (\<lambda>(k, v). AList.update k v) kvs env) k = map_of env k"
  by (induction kvs arbitrary: env) (auto simp: update_conv')

lemma build_env_map_of:
  "map_of (build_env cfg vars work) k =
     (if k = ''CARGO_NET_OFFLINE'' \<and> sc_network cfg = Net_Off then Some ''true''
      else if k = ''HOME'' then Some work
      else if k = ''PATH'' then Some (''/usr/local/bin:/usr/bin:/bin:'' @
        (case map_of (strip_secrets_env vars) ''PATH'' of None \<Rightarrow> ''/usr/local/bin:/usr/bin:/bin'' | Some p \<Rightarrow> p))
      else map_of (strip_secrets_env vars) k)"
  by (simp add: build_env_def Let_def update_conv')

text \<open>C16: The sandbox starts a process only for a command whose base name is on the allow list and none of
  whose words is on the deny list. The environment of the process holds no inherited variable with
  a secret-looking name, its home is the working directory, and without network access it tells
  the build tool to stay offline, unless the caller sets these variables for the command.\<close>

theorem sandbox_spawns_only_admitted:
  assumes "run_in_with_limits redact sb cmd sw during w = Some (r, effs, w')" "Eff_Spawn req \<in> set effs"
  shows "snd (cm_binary cmd) = Some (sp_binary req) \<and>
    basename (binary_name (sp_binary req)) \<in> set (sc_allowlist (sb_config sb)) \<and>
    set (binary_name (sp_binary req) # cm_args cmd) \<inter> set (sc_denylist (sb_config sb)) = {} \<and>
    (\<forall>k. k \<notin> fst ` set (cm_env cmd) \<longrightarrow>
       (k = ''HOME'' \<longrightarrow> map_of (sp_env req) k = Some (sp_dir req)) \<and>
       (k = ''CARGO_NET_OFFLINE'' \<and> sc_network (sb_config sb) = Net_Off \<longrightarrow> map_of (sp_env req) k = Some ''true'') \<and>
       (secret_name k \<and> k \<notin> {''HOME'', ''PATH'', ''CARGO_NET_OFFLINE''} \<longrightarrow> map_of (sp_env req) k = None))"
proof -
  note p = prepare_Inr [OF run_spawns [OF assms]]
  have env: "map_of (sp_env req) k = map_of (build_env (sb_config sb) (sw_vars sw) (sp_dir req)) k"
    if "k \<notin> fst ` set (cm_env cmd)" for k
    unfolding p(3) using that by (rule fold_update_env)
  have "(k = ''HOME'' \<longrightarrow> map_of (sp_env req) k = Some (sp_dir req)) \<and>
       (k = ''CARGO_NET_OFFLINE'' \<and> sc_network (sb_config sb) = Net_Off \<longrightarrow> map_of (sp_env req) k = Some ''true'') \<and>
       (secret_name k \<and> k \<notin> {''HOME'', ''PATH'', ''CARGO_NET_OFFLINE''} \<longrightarrow> map_of (sp_env req) k = None)"
    if "k \<notin> fst ` set (cm_env cmd)" for k
    unfolding env [OF that] build_env_map_of strip_secrets_env_map_of by simp
  with p(1,2) show ?thesis unfolding policy_check_None by blast
qed

section \<open>What is returned, and when\<close>

lemma read_stream_Inr:
  "read_stream cap out es = Some (Inr bs) \<Longrightarrow> length out \<le> cap \<Longrightarrow> length bs \<le> cap \<and> prefix out bs"
proof (induction cap out es rule: read_stream.induct)
  case (3 cap out xs es)
  show ?case
  proof (cases "xs = [] \<or> cap < length out + length xs")
    case False
    then have "length bs \<le> cap \<and> prefix (out @ xs) bs" using 3 by (auto split: if_splits)
    then show ?thesis by (auto dest: append_prefixD)
  qed (use 3 in \<open>auto split: if_splits\<close>)
qed auto

definition read_size :: "read_event \<Rightarrow> nat" where
  "read_size ev = (case ev of Read_Bytes bs \<Rightarrow> length bs | Read_Error _ \<Rightarrow> 0)"

text \<open>A reader is done with a stream that is closed, fails or writes more than its cap.\<close>

definition stream_ends :: "nat \<Rightarrow> read_event list \<Rightarrow> bool" where
  "stream_ends cap es \<longleftrightarrow>
     Read_Bytes [] \<in> set es \<or> (\<exists>e. Read_Error e \<in> set es) \<or> cap < sum_list (map read_size es)"

lemma read_stream_None:
  "length out \<le> cap \<Longrightarrow> read_stream cap out es = None \<longleftrightarrow>
     Read_Bytes [] \<notin> set es \<and> (\<forall>e. Read_Error e \<notin> set es) \<and> length out + sum_list (map read_size es) \<le> cap"
  by (induction cap out es rule: read_stream.induct) (auto simp: read_size_def)

lemma read_stream_ends: "read_stream cap [] es = None \<longleftrightarrow> \<not> stream_ends cap es"
  by (auto simp: read_stream_None stream_ends_def)

definition ends_loop :: "wait_event \<Rightarrow> bool" where
  "ends_loop ev \<longleftrightarrow> ev \<noteq> Readers_Closed"

lemma wait_loop_None: "wait_loop es = None \<longleftrightarrow> (\<forall>ev\<in>set es. \<not> ends_loop ev)"
  by (induction es rule: wait_loop.induct) (auto simp: ends_loop_def)

text \<open>C18: When a call of the sandbox returns. It returns at once when the command is rejected or the spawn
  fails. Otherwise it returns exactly when the child takes the bytes written to its standard input
  and then either the timeout is zero, or an event ends the loop (the exit, a failed wait, a
  truncated reader or the deadline) and both pipes of the child are closed, fail or exceed their
  cap. So neither the exit of the child nor the deadline is enough: a child that does not read its
  input, or a descendant that keeps a pipe open, holds the call for ever.\<close>

theorem sandbox_returns_iff:
  "run_in_with_limits redact sb cmd sw during w \<noteq> None \<longleftrightarrow>
     (\<exists>e. prepare redact sb cmd sw = Inl e) \<or> (\<forall>pid. sw_spawn sw \<noteq> Spawned pid) \<or>
     ((cm_stdin cmd = None \<or> sw_stdin_taken sw) \<and>
      ((case cm_timeout cmd of None \<Rightarrow> sc_timeout (sb_config sb) | Some t \<Rightarrow> t) = 0 \<or>
       (\<exists>ev\<in>set (sw_events sw). ends_loop ev) \<and>
       stream_ends (cm_max_stdout cmd) (sw_stdout sw) \<and> stream_ends (cm_max_stderr cmd) (sw_stderr sw)))"
proof -
  have "supervise sb cmd sw pid during w = None \<longleftrightarrow>
      (cm_stdin cmd \<noteq> None \<and> \<not> sw_stdin_taken sw) \<or>
      ((case cm_timeout cmd of None \<Rightarrow> sc_timeout (sb_config sb) | Some t \<Rightarrow> t) \<noteq> 0 \<and>
       (wait_loop (sw_events sw) = None \<or>
        read_stream (cm_max_stdout cmd) [] (sw_stdout sw) = None \<or>
        read_stream (cm_max_stderr cmd) [] (sw_stderr sw) = None))" for pid
    by (auto simp: supervise_def Let_def split: option.split)
  then show ?thesis
    by (cases "prepare redact sb cmd sw"; cases "sw_spawn sw")
      (auto simp: run_in_with_limits_def wait_loop_None read_stream_ends)
qed

section \<open>Cancellation of a running command\<close>

lemma cancel_step_lengths:
  "length (cw_tokens w) \<le> length (cw_tokens (cancel_step w op)) \<and>
   length (cw_reasons w) \<le> length (cw_reasons (cancel_step w op)) \<and>
   length (cw_pgids w) \<le> length (cw_pgids (cancel_step w op))"
  by (cases op) (auto simp: cancel_ops token_new_def token_child_def token_cancel_def cancel_with_tier_def
      poll_kill_tasks_def unregister_child_def Let_def)

lemma handle_ok_step: "handle_ok w h \<Longrightarrow> handle_ok (cancel_step w op) h"
  using cancel_step_lengths [of w op] by (auto simp: handle_ok_def)

lemma cancel_step_signals: "set (cw_signals w) \<subseteq> set (cw_signals (cancel_step w op))"
  by (cases op) (auto simp: cancel_ops token_new_def token_child_def cancel_with_tier_def poll_kill_tasks_def
      unregister_child_def Let_def)

lemma nth_list_update': "xs[i := x] ! j = (if i = j \<and> j < length xs then x else xs ! j)"
  by (cases "i = j") (auto simp: list_update_beyond)

lemma cancel_step_registered:
  assumes "p \<in> set (cw_pgids w ! c)" "c < length (cw_pgids w)" "\<forall>h. op = Op_Unregister p h \<longrightarrow> ch_pgids h \<noteq> c"
  shows "p \<in> set (cw_pgids (cancel_step w op) ! c)"
  using assms by (cases op) (auto simp: cancel_ops token_new_def token_child_def cancel_with_tier_def
      poll_kill_tasks_def unregister_child_def nth_append nth_list_update' Let_def)

lemma cancel_run:
  assumes "p \<in> set (cw_pgids w ! c)" "c < length (cw_pgids w)" "handle_ok w h"
    "\<forall>h. Op_Unregister p h \<in> set ops \<longrightarrow> ch_pgids h \<noteq> c"
  defines "w' \<equiv> fold (\<lambda>ev s. cancel_step s ev) ops w"
  shows "p \<in> set (cw_pgids w' ! c) \<and> c < length (cw_pgids w') \<and> handle_ok w' h"
  unfolding w'_def using assms(1-4)
proof (induction ops arbitrary: w)
  case (Cons op ops)
  have "p \<in> set (cw_pgids (cancel_step w op) ! c)" using cancel_step_registered [OF Cons.prems(1,2)] Cons.prems(4) by auto
  moreover have "c < length (cw_pgids (cancel_step w op))" using Cons.prems(2) cancel_step_lengths [of w op] by linarith
  ultimately show ?case using Cons.IH [OF _ _ handle_ok_step [OF Cons.prems(3)]] Cons.prems(4) by simp
qed simp

lemma cancel_run_signals: "set (cw_signals w) \<subseteq> set (cw_signals (fold (\<lambda>ev s. cancel_step s ev) ops w))"
  by (induction ops arbitrary: w) (simp, metis cancel_step_signals fold_simps(2) subset_trans)

lemma cancel_run_lengths: "length (cw_pgids w) \<le> length (cw_pgids (fold (\<lambda>ev s. cancel_step s ev) ops w))"
  by (induction ops arbitrary: w) (simp, metis cancel_step_lengths fold_simps(2) order_trans)

lemma run_world:
  assumes "run_in_with_limits redact sb cmd sw during w = Some (r, effs, w')" "prepare redact sb cmd sw = Inr req"
    "sw_spawn sw = Spawned pid"
  shows "w' = guard_drop (registered_child sb pid) (fold (\<lambda>ev s. cancel_step s ev) during (guard_register (registered_child sb pid) w))"
proof -
  from assms obtain effs' where "supervise sb cmd sw pid during w = Some (r, effs', w')"
    by (auto simp: run_in_with_limits_def)
  then show ?thesis by (auto simp: supervise_def Let_def split: if_splits option.splits)
qed

text \<open>C17: A command that runs under a cancel handle leads its own process group. A hard cancellation of any
  handle of the family while the command runs sends the termination signal to that group, and
  however the call ends the group is no longer registered afterwards.\<close>

theorem hard_cancel_reaches_command:
  assumes "run_in_with_limits redact sb cmd sw during w = Some (r, effs, w')"
    "prepare redact sb cmd sw = Inr req" "sw_spawn sw = Spawned (Some p)" "sb_cancel sb = Some h"
    "handle_ok w h" "handle_ok w h'" "ch_pgids h' = ch_pgids h"
    "during = before @ Op_Cancel now reason Hard h' # after"
    "\<forall>h2. Op_Unregister p h2 \<notin> set before"
  shows "Set_Pgid \<in> set (sp_hooks req) \<and> (now, SIGTERM, p) \<in> set (cw_signals w') \<and>
    p \<notin> set (cw_pgids w' ! ch_pgids h)"
proof -
  let ?run = "\<lambda>ops. fold (\<lambda>ev s. cancel_step s ev) ops (register_child p h w)"
  have reg: "registered_child sb (Some p) = Some (h, p)" using assms(4) by (simp add: registered_child_def)
  have w': "w' = unregister_child p h (?run during)"
    using run_world [OF assms(1-3)] reg by (simp add: guard_drop_def guard_register_def)
  have len: "ch_pgids h < length (cw_pgids (register_child p h w))" using assms(5) by (simp add: handle_ok_def register_child_def)
  have "p \<in> set (cw_pgids (register_child p h w) ! ch_pgids h)" using assms(5) by (simp add: handle_ok_def register_child_def)
  moreover have "handle_ok (register_child p h w) h'" using assms(6) by (simp add: handle_ok_def register_child_def)
  ultimately have at: "p \<in> set (cw_pgids (?run before) ! ch_pgids h)" "handle_ok (?run before) h'"
    using cancel_run [OF _ len, of p h' before] assms(9) by blast+
  then have "(now, SIGTERM, p) \<in> set (cw_signals (cancel_step (?run before) (Op_Cancel now reason Hard h')))"
    using assms(7) by (auto simp: cancel_with_tier_def cancel_def Let_def)
  moreover have "set (cw_signals (cancel_step (?run before) (Op_Cancel now reason Hard h'))) \<subseteq> set (cw_signals (?run during))"
    unfolding assms(8) by (simp add: cancel_run_signals)
  ultimately have "(now, SIGTERM, p) \<in> set (cw_signals w')" unfolding w' by (auto simp: unregister_child_def)
  moreover have "p \<notin> set (cw_pgids w' ! ch_pgids h)"
  proof -
    have "ch_pgids h < length (cw_pgids (?run during))"
      using len cancel_run_lengths [of "register_child p h w" during] by linarith
    then show ?thesis unfolding w' by (simp add: unregister_child_def)
  qed
  moreover have "Set_Pgid \<in> set (sp_hooks req)" using prepare_Inr(5) [OF assms(2)] assms(4) by (simp add: pre_exec_hooks_def Let_def)
  ultimately show ?thesis by blast
qed

text \<open>What a returned output holds: everything the child wrote, never more than the caps.\<close>

lemma output_capped:
  assumes "run_in_with_limits redact sb cmd sw during w = Some (Inr out, effs, w')"
  shows "length (so_stdout out) \<le> cm_max_stdout cmd \<and> length (so_stderr out) \<le> cm_max_stderr cmd"
proof -
  from assms have "read_stream (cm_max_stdout cmd) [] (sw_stdout sw) = Some (Inr (so_stdout out))"
    "read_stream (cm_max_stderr cmd) [] (sw_stderr sw) = Some (Inr (so_stderr out))"
    by (auto simp: run_in_with_limits_def supervise_def Let_def rbind_eq_Inr
        split: sum.splits spawn_answer.splits option.splits if_splits)
  then show ?thesis using read_stream_Inr by fastforce
qed

section \<open>What the deny list does not see\<close>

text \<open>
  The deny list compares whole arguments. A denied word inside the argument of a shell passes,
  although the comment of the list gives such a word as the reason for its check.
\<close>

lemma shell_hides_denied_word:
  "policy_check sandbox_config_new ''sh'' [''-c'', ''eval x''] = None \<and>
   policy_check sandbox_config_new ''sh'' [''-c'', ''eval'', ''x''] \<noteq> None"
  by (simp add: policy_check_None sandbox_config_new_def basename_def default_allowlist_def default_denylist_def
      del: not_None_eq)

section \<open>Witnesses\<close>

definition demo_command :: command where
  "demo_command = command_new (''ls'', Some ''ls'') [''-l'']"

definition demo_machine :: sandbox_world where
  "demo_machine =
     \<lparr>sw_exists = (\<lambda>_. True), sw_path = Some ''/bin'', sw_vars = [(''API_KEY'', ''x''), (''LANG'', ''C'')],
      sw_scratch = Inr ''/tmp/s'', sw_spawn = Spawned (Some 7), sw_stdin_taken = False, sw_elapsed = 0,
      sw_events = [Readers_Closed, Child_Exited (Some 0)], sw_stdout = [Read_Bytes [104, 105], Read_Bytes []],
      sw_stderr = [Read_Bytes []],
      sw_duration = 5\<rparr>"

definition demo_cancel_world :: cancel_world where
  "demo_cancel_world = snd (cancel_new cancel_empty)"

definition demo_sandbox :: "unit sandbox" where
  "demo_sandbox = \<lparr>sb_config = sandbox_config_new, sb_cancel = Some (fst (cancel_new cancel_empty))\<rparr>"

definition demo_request :: "unit spawn_request" where
  "demo_request =
     \<lparr>sp_binary = ''ls'', sp_args = [''-l''], sp_dir = ''/tmp/s'',
      sp_env = build_env (sandbox_config_new :: unit sandbox_config) (sw_vars demo_machine) ''/tmp/s'', sp_hooks = [Set_Pgid]\<rparr>"

lemma demo_prepare: "prepare id demo_sandbox demo_command demo_machine = Inr demo_request"
proof -
  have "binary_name ''ls'' = ''ls''" by (simp add: binary_name_def file_name_def Let_def)
  moreover have "policy_check (sandbox_config_new :: unit sandbox_config) ''ls'' [''-l''] = None"
    by (simp add: policy_check_None sandbox_config_new_def basename_def default_allowlist_def default_denylist_def)
  ultimately show ?thesis
    by (simp add: prepare_def demo_sandbox_def demo_command_def command_new_def demo_machine_def demo_request_def
        verify_binary_exists_def pre_exec_hooks_def Let_def strip_secrets_def looks_like_secret_def)
      (simp add: sandbox_config_new_def)
qed

lemma demo_run:
  "\<exists>r w'. run_in_with_limits id demo_sandbox demo_command demo_machine
     [Op_Cancel 3 Requested Hard (fst (cancel_new cancel_empty))] demo_cancel_world =
     Some (r, [Eff_Spawn demo_request, Eff_Watchdog 7 (from_secs 30)], w')"
  unfolding run_in_with_limits_def demo_prepare
  by (simp add: supervise_def demo_machine_def demo_command_def command_new_def demo_sandbox_def registered_child_def
      sandbox_config_new_def Let_def from_secs_def)

lemma sandbox_spawns_only_admitted_witness:
  "basename (binary_name (sp_binary demo_request)) \<in> set (sc_allowlist (sb_config demo_sandbox)) \<and>
   map_of (sp_env demo_request) ''API_KEY'' = None"
proof -
  obtain r w' where run: "run_in_with_limits id demo_sandbox demo_command demo_machine
     [Op_Cancel 3 Requested Hard (fst (cancel_new cancel_empty))] demo_cancel_world =
     Some (r, [Eff_Spawn demo_request, Eff_Watchdog 7 (from_secs 30)], w')" using demo_run by (elim exE)
  have "secret_name ''API_KEY''" by code_simp
  then show ?thesis
    using sandbox_spawns_only_admitted [OF run, of demo_request] by (simp add: demo_command_def command_new_def)
qed

lemma hard_cancel_reaches_command_witness:
  "\<exists>r effs w'. run_in_with_limits id demo_sandbox demo_command demo_machine
     [Op_Cancel 3 Requested Hard (fst (cancel_new cancel_empty))] demo_cancel_world = Some (r, effs, w') \<and>
     (3, SIGTERM, 7) \<in> set (cw_signals w')"
proof -
  let ?h = "fst (cancel_new cancel_empty)"
  obtain r w' where run: "run_in_with_limits id demo_sandbox demo_command demo_machine
     [Op_Cancel 3 Requested Hard ?h] demo_cancel_world =
     Some (r, [Eff_Spawn demo_request, Eff_Watchdog 7 (from_secs 30)], w')" using demo_run by (elim exE)
  have ok: "handle_ok demo_cancel_world ?h" by code_simp
  have "(3, SIGTERM, 7) \<in> set (cw_signals w')"
    using hard_cancel_reaches_command [OF run demo_prepare _ _ ok ok, of 7 "[]" 3 Requested "[]"]
    by (simp add: demo_machine_def demo_sandbox_def)
  then show ?thesis using run by blast
qed

end
