(* ===== verification/Audit_Verify.thy ===== *)
theory Audit_Verify imports Errors Text Ordered_Map "HOL-Library.Multiset" begin

text \<open>
  The audit trail of the proxy and its comparison with the program's own call records:
  \<open>src/audit/format.rs\<close>, \<open>src/audit/verify.rs\<close>. JSON values are a data type; reading and
  printing them, the checksum, and decoding a value as a record are arguments. Time stamps
  with fractions are an abstract type with the floor the code takes. A \<open>HashMap\<close> that is
  iterated is an association list; the code sorts what it builds from it.
\<close>

section \<open>Records and their checksum\<close>

datatype 'n json = J_Null | J_Bool bool | J_Num 'n | J_Str string | J_Arr "'n json list" | J_Obj "(string \<times> 'n json) list"

record 'f audit_record =
  ar_ts :: 'f
  ar_event :: string
  ar_id :: string
  ar_method :: "string option"
  ar_url :: "string option"
  ar_status :: "u16 option"
  ar_headers :: "(string, string) btree_map"
  ar_body_canonical :: "string option"
  ar_body_sha256 :: string
  ar_body_size :: u64
  ar_elapsed_ms :: "u64 option"
  ar_crc32 :: string
  ar_error :: "string option"

text \<open>\<open>canonify\<close>: every object's entries in the order of their keys, the last of equal keys.\<close>

definition sort_entries :: "(string \<times> 'a) list \<Rightarrow> (string \<times> 'a) list" where
  "sort_entries kvs = fold (\<lambda>(k, v). bt_insert k v) kvs []"

fun canonify :: "'n json \<Rightarrow> 'n json" where
  "canonify (J_Obj kvs) = J_Obj (sort_entries (map (\<lambda>(k, v). (k, canonify v)) kvs))"
| "canonify (J_Arr vs) = J_Arr (map canonify vs)"
| "canonify v = v"

definition redact_header :: "string \<Rightarrow> string \<Rightarrow> string" where
  "redact_header name value =
     (if to_ascii_lowercase name \<in> {''x-api-key'', ''authorization'', ''proxy-authorization'', ''cookie'', ''set-cookie''}
      then ''***REDACTED***'' else value)"

definition remove_key :: "string \<Rightarrow> 'n json \<Rightarrow> 'n json" where
  "remove_key key v = (case v of J_Obj kvs \<Rightarrow> J_Obj (filter (\<lambda>(k, _). k \<noteq> key) kvs) | _ \<Rightarrow> v)"

definition get_str :: "string \<Rightarrow> 'n json \<Rightarrow> string option" where
  "get_str key v =
     (case v of
        J_Obj kvs \<Rightarrow> (case map_of kvs key of Some (J_Str s) \<Rightarrow> Some s | _ \<Rightarrow> None)
      | _ \<Rightarrow> None)"

record 'n json_io =
  ji_parse :: "string \<Rightarrow> 'n json option"
  ji_print :: "'n json \<Rightarrow> string"
  ji_crc32 :: "string \<Rightarrow> string"

text \<open>The checksum of a record's value, and the line that is written for it.\<close>

definition record_crc :: "'n json_io \<Rightarrow> 'n json \<Rightarrow> string" where
  "record_crc io v = ji_crc32 io (ji_print io (canonify (remove_key ''crc32'' v)))"

definition set_key :: "string \<Rightarrow> 'n json \<Rightarrow> 'n json \<Rightarrow> 'n json" where
  "set_key key x v = (case v of J_Obj kvs \<Rightarrow> J_Obj (AList.update key x kvs) | _ \<Rightarrow> v)"

definition write_record :: "'n json_io \<Rightarrow> 'n json \<Rightarrow> string" where
  "write_record io v = ji_print io (canonify (set_key ''crc32'' (J_Str (record_crc io v)) v)) @ [CHR 0x0A]"

text \<open>\<open>lines()\<close>: a line feed ends a line, with a carriage return before it.\<close>

definition lines_of :: "string \<Rightarrow> string list" where
  "lines_of s =
     (let ls = split_on (CHR 0x0A) s
      in map (\<lambda>l. if l \<noteq> [] \<and> last l = CHR 0x0D then butlast l else l) (butlast ls) @ (if last ls = [] then [] else [last ls]))"

definition crc_line_ok :: "'n json_io \<Rightarrow> string \<Rightarrow> bool" where
  "crc_line_ok io line =
     (case ji_parse io line of
        None \<Rightarrow> False
      | Some v \<Rightarrow> (case get_str ''crc32'' v of
                     None \<Rightarrow> False
                   | Some reported \<Rightarrow> record_crc io v = reported))"

definition count_invalid_crcs :: "'n json_io \<Rightarrow> string \<Rightarrow> nat \<times> string list" where
  "count_invalid_crcs io jsonl =
     (let bad = filter (\<lambda>l. \<not> crc_line_ok io l) (filter (\<lambda>l. l \<noteq> []) (lines_of jsonl)) in (length bad, bad))"

section \<open>The report\<close>

record verify_report =
  vr_match :: nat
  vr_body_mismatch :: nat
  vr_orphan_request :: nat
  vr_orphan_response :: nat
  vr_unmatched_internal :: nat
  vr_unmatched_external :: nat
  vr_crc_invalid :: nat
  vr_audit_missing :: bool
  vr_internal_missing :: bool
  vr_internal_invalid :: bool

definition report_default :: verify_report where
  "report_default =
     \<lparr>vr_match = 0, vr_body_mismatch = 0, vr_orphan_request = 0, vr_orphan_response = 0, vr_unmatched_internal = 0,
      vr_unmatched_external = 0, vr_crc_invalid = 0, vr_audit_missing = False, vr_internal_missing = False,
      vr_internal_invalid = False\<rparr>"

definition report_summary :: "verify_report \<Rightarrow> string" where
  "report_summary r =
     (if vr_audit_missing r \<or> vr_internal_missing r \<or> vr_internal_invalid r \<or> 0 < vr_crc_invalid r then ''invalid''
      else if vr_body_mismatch r = 0 \<and> vr_orphan_request r = 0 \<and> vr_orphan_response r = 0 \<and>
        vr_unmatched_internal r = 0 \<and> vr_unmatched_external r = 0 then ''ok''
      else ''mismatch'')"

definition report_exit_code :: "verify_report \<Rightarrow> int" where
  "report_exit_code r = (if report_summary r = ''ok'' then 0 else if report_summary r = ''mismatch'' then 1 else 2)"

section \<open>External calls\<close>

record external_call =
  xc_id :: string
  xc_sha :: string
  xc_started :: int

record 'f external_pair =
  xp_request :: "'f audit_record option"
  xp_terminal :: "'f audit_record option"
  xp_duplicate :: bool

definition pair_new :: "'f external_pair" where
  "pair_new = \<lparr>xp_request = None, xp_terminal = None, xp_duplicate = False\<rparr>"

definition pair_record :: "'f audit_record \<Rightarrow> 'f external_pair \<Rightarrow> 'f external_pair" where
  "pair_record rec p =
     (if ar_event rec = ''request''
      then p\<lparr>xp_request := Some rec, xp_duplicate := xp_duplicate p \<or> xp_request p \<noteq> None\<rparr>
      else if ar_event rec = ''response'' \<or> ar_event rec = ''upstream_error''
      then p\<lparr>xp_terminal := Some rec, xp_duplicate := xp_duplicate p \<or> xp_terminal p \<noteq> None\<rparr>
      else p\<lparr>xp_duplicate := True\<rparr>)"

definition add_record :: "'f audit_record \<Rightarrow> (string, 'f external_pair) hash_map \<Rightarrow> (string, 'f external_pair) hash_map" where
  "add_record rec pairs =
     AList.update (ar_id rec)
       (pair_record rec (case map_of pairs (ar_id rec) of None \<Rightarrow> pair_new | Some p \<Rightarrow> p)) pairs"

definition close_pair ::
  "('f \<Rightarrow> int) \<Rightarrow> string \<times> 'f external_pair \<Rightarrow> external_call list \<times> verify_report \<Rightarrow> external_call list \<times> verify_report"
where
  "close_pair secs = (\<lambda>(i, p) (external, r).
     (if xp_duplicate p then (external, r\<lparr>vr_crc_invalid := vr_crc_invalid r + 1\<rparr>)
      else case (xp_request p, xp_terminal p) of
             (Some request, Some _) \<Rightarrow>
               (if ar_body_sha256 request \<noteq> []
                then (external @ [\<lparr>xc_id = i, xc_sha = ar_body_sha256 request, xc_started = secs (ar_ts request)\<rparr>], r)
                else (external, r\<lparr>vr_crc_invalid := vr_crc_invalid r + 1\<rparr>))
           | (Some _, None) \<Rightarrow> (external, r\<lparr>vr_orphan_request := vr_orphan_request r + 1\<rparr>)
           | (None, Some _) \<Rightarrow> (external, r\<lparr>vr_orphan_response := vr_orphan_response r + 1\<rparr>)
           | (None, None) \<Rightarrow> (external, r)))"

definition pair_external_records ::
  "('f \<Rightarrow> int) \<Rightarrow> 'f audit_record list \<Rightarrow> verify_report \<Rightarrow> external_call list \<times> verify_report"
where
  "pair_external_records secs records r =
     (case fold (close_pair secs) (fold add_record records []) ([], r) of
        (external, r') \<Rightarrow> (sort_key (\<lambda>c. (xc_started c, xc_id c)) external, r'))"

section \<open>Internal calls\<close>

text \<open>The fields of a call record that the comparison reads.\<close>

record audited_call =
  ce_call_id :: string
  ce_provider :: string
  ce_body_sha256 :: "string option"
  ce_cache_hit :: bool
  ce_started_unix :: int

record internal_call =
  ic_call_id :: string
  ic_sha :: string
  ic_started :: int

definition internal_line ::
  "(string \<Rightarrow> audited_call option) \<Rightarrow> string \<Rightarrow> internal_call list \<times> verify_report \<Rightarrow> internal_call list \<times> verify_report"
where
  "internal_line decode line = (\<lambda>(internal, r).
     (case decode line of
        None \<Rightarrow> (internal, r\<lparr>vr_internal_invalid := True\<rparr>)
      | Some e \<Rightarrow>
          (if ce_cache_hit e then (internal, r)
           else case ce_body_sha256 e of
                  Some sha \<Rightarrow>
                    (if sha \<noteq> []
                     then (internal @ [\<lparr>ic_call_id = ce_call_id e, ic_sha = sha, ic_started = ce_started_unix e\<rparr>], r)
                     else (internal, r\<lparr>vr_internal_invalid := True\<rparr>))
                | None \<Rightarrow> (if ce_provider e \<noteq> ''minimax'' then (internal, r)
                           else (internal, r\<lparr>vr_internal_invalid := True\<rparr>)))))"

definition parse_internal_calls ::
  "(string \<Rightarrow> audited_call option) \<Rightarrow> string \<Rightarrow> verify_report \<Rightarrow> internal_call list \<times> verify_report"
where
  "parse_internal_calls decode text r =
     (case fold (internal_line decode) (filter (\<lambda>l. l \<noteq> []) (lines_of text)) ([], r) of
        (internal, r') \<Rightarrow> (sort_key (\<lambda>c. (ic_started c, ic_call_id c)) internal, r'))"

record call_row =
  cr_call_id :: string
  cr_body_sha256 :: "string option"
  cr_cache_hit :: int

definition compare_rows :: "call_row list \<Rightarrow> internal_call list \<Rightarrow> nat" where
  "compare_rows rows internal =
     (let expected = map_of (rev (map (\<lambda>c. (ic_call_id c, ic_sha c)) internal));
          live = filter (\<lambda>row. cr_cache_hit row = 0) rows
      in length (filter (\<lambda>row. \<not> (case (expected (cr_call_id row), cr_body_sha256 row) of
                                     (Some e, Some a) \<Rightarrow> e = a | _ \<Rightarrow> False)) live) +
         length (filter (\<lambda>c. ic_call_id c \<notin> set (map cr_call_id live)) internal))"

section \<open>Matching\<close>

definition match_window_secs :: nat where
  "match_window_secs = 1"

definition within_window :: "int \<Rightarrow> int \<Rightarrow> bool" where
  "within_window a b \<longleftrightarrow> nat \<bar>a - b\<bar> \<le> match_window_secs"

definition first_free :: "(internal_call \<Rightarrow> bool) \<Rightarrow> internal_call list \<Rightarrow> bool list \<Rightarrow> nat option" where
  "first_free P internal used = find (\<lambda>j. \<not> used ! j \<and> P (internal ! j)) [0..<length internal]"

definition exact_step ::
  "external_call list \<Rightarrow> internal_call list \<Rightarrow> nat \<Rightarrow> bool list \<times> bool list \<times> nat \<Rightarrow> bool list \<times> bool list \<times> nat"
where
  "exact_step external internal i = (\<lambda>(eu, iu, n).
     (case first_free (\<lambda>c. ic_sha c = xc_sha (external ! i) \<and> within_window (ic_started c) (xc_started (external ! i))) internal iu of
        None \<Rightarrow> (eu, iu, n)
      | Some j \<Rightarrow> (eu[i := True], iu[j := True], n + 1)))"

definition mismatch_step ::
  "external_call list \<Rightarrow> internal_call list \<Rightarrow> nat \<Rightarrow> bool list \<times> bool list \<times> nat \<Rightarrow> bool list \<times> bool list \<times> nat"
where
  "mismatch_step external internal i = (\<lambda>(eu, iu, n).
     (if eu ! i then (eu, iu, n)
      else case first_free (\<lambda>c. ic_sha c \<noteq> xc_sha (external ! i) \<and> within_window (ic_started c) (xc_started (external ! i))) internal iu of
             None \<Rightarrow> (eu, iu, n)
           | Some j \<Rightarrow> (eu[i := True], iu[j := True], n + 1)))"

definition match_calls :: "external_call list \<Rightarrow> internal_call list \<Rightarrow> verify_report \<Rightarrow> verify_report" where
  "match_calls external internal r =
     (let idx = [0..<length external];
          (eu1, iu1, matched) = fold (exact_step external internal) idx
            (replicate (length external) False, replicate (length internal) False, 0);
          (eu2, iu2, mismatched) = fold (mismatch_step external internal) idx (eu1, iu1, 0)
      in r\<lparr>vr_match := vr_match r + matched, vr_body_mismatch := vr_body_mismatch r + mismatched,
           vr_unmatched_external := vr_unmatched_external r + length (filter Not eu2),
           vr_unmatched_internal := vr_unmatched_internal r + length (filter Not iu2)\<rparr>)"

section \<open>The comparison\<close>

text \<open>What a file gives: absent, unreadable, or its text.\<close>

datatype file_text = File_Missing | File_Unreadable | File_Text string

definition verify_inner ::
  "'n json_io \<Rightarrow> (string \<Rightarrow> 'f audit_record option) \<Rightarrow> ('f \<Rightarrow> int) \<Rightarrow> (string \<Rightarrow> audited_call option)
     \<Rightarrow> file_text \<Rightarrow> file_text \<Rightarrow> call_row list result option \<Rightarrow> verify_report result"
where
  "verify_inner io decode_record secs decode_call audit calls db =
     (case audit of
        File_Missing \<Rightarrow> Inr (report_default\<lparr>vr_audit_missing := True\<rparr>)
      | _ \<Rightarrow>
     (case calls of
        File_Missing \<Rightarrow> Inr (report_default\<lparr>vr_internal_missing := True\<rparr>)
      | _ \<Rightarrow>
     (case audit of
        File_Text audit_text \<Rightarrow>
          (let r0 = report_default\<lparr>vr_crc_invalid := fst (count_invalid_crcs io audit_text)\<rparr>;
               records = List.map_filter decode_record (filter (\<lambda>l. l \<noteq> []) (lines_of audit_text));
               (external, r1) = pair_external_records secs records r0
           in case calls of
                File_Text calls_text \<Rightarrow>
                  (case parse_internal_calls decode_call calls_text r1 of
                     (internal, r2) \<Rightarrow>
                       (if vr_internal_invalid r2 then Inr r2
                        else rbind (case db of None \<Rightarrow> Inr 0 | Some rows \<Rightarrow> rbind rows (\<lambda>rs. Inr (compare_rows rs internal)))
                          (\<lambda>discrepancies.
                             let r3 = match_calls external internal r2
                             in Inr (r3\<lparr>vr_unmatched_internal := vr_unmatched_internal r3 + discrepancies\<rparr>))))
              | _ \<Rightarrow> Inr (r1\<lparr>vr_internal_invalid := True\<rparr>))
      | _ \<Rightarrow> Inr (report_default\<lparr>vr_crc_invalid := 1\<rparr>))))"

section \<open>What is written passes the check\<close>

lemma bt_wf_eqI:
  assumes "bt_wf m" "bt_wf n" "map_of m = map_of n"
  shows "m = n"
proof -
  have "set m = set n" using bt_mem [OF assms(1)] bt_mem [OF assms(2)] assms(3) by auto
  moreover have "sorted (map fst m)" "sorted (map fst n)" "distinct (map fst m)" "distinct (map fst n)"
    using assms(1,2) by (simp_all add: bt_wf_def strict_sorted_iff)
  moreover have "inj_on fst (set m \<union> set n)" using calculation by (simp add: distinct_map)
  ultimately show ?thesis by (intro map_sorted_distinct_set_unique [of fst m n]) simp_all
qed

lemma sort_entries:
  shows "bt_wf (sort_entries kvs)" and "map_of (sort_entries kvs) = map_of (rev kvs)"
proof -
  have "(\<lambda>(k, v). (k, v)) = (\<lambda>x. x)" by auto
  then show "bt_wf (sort_entries kvs)" "map_of (sort_entries kvs) = map_of (rev kvs)"
    using fold_bt_insert [of "[]" id kvs] by (simp_all add: sort_entries_def)
qed

lemma map_of_rev: "distinct (map fst kvs) \<Longrightarrow> map_of (rev kvs) = map_of kvs"
  by (intro map_of_inject_set [THEN iffD2]) (simp_all add: rev_map [symmetric])

lemma sort_entries_id: "bt_wf m \<Longrightarrow> sort_entries m = m"
  by (rule bt_wf_eqI) (simp_all add: sort_entries map_of_rev bt_wf_distinct)

lemma bt_wf_filter: "bt_wf m \<Longrightarrow> bt_wf (filter P m)"
  unfolding bt_wf_def by (induction m) (auto simp: sorted_wrt_append)

lemma bt_wf_map: "bt_wf (map (\<lambda>(k, v). (k, f v)) m) \<longleftrightarrow> bt_wf m"
  by (simp add: bt_wf_def comp_def case_prod_beta)

lemma sort_entries_mem: "(k, v) \<in> set (sort_entries kvs) \<Longrightarrow> (k, v) \<in> set kvs"
  using bt_mem [OF sort_entries(1)] by (metis map_of_SomeD set_rev sort_entries(2))

lemma canonify_idem: "canonify (canonify v) = canonify v"
proof (induction v rule: canonify.induct)
  case (1 kvs)
  let ?S = "sort_entries (map (\<lambda>(k, v). (k, canonify v)) kvs)"
  have "canonify v = v" if "(k, v) \<in> set ?S" for k v
  proof -
    from sort_entries_mem [OF that] obtain u where "(k, u) \<in> set kvs" "v = canonify u" by auto
    then show ?thesis using 1 by auto
  qed
  then have "map (\<lambda>(k, v). (k, canonify v)) ?S = ?S" by (intro map_idI) auto
  then show ?case by (simp add: sort_entries_id [OF sort_entries(1)])
next
  case (2 vs)
  then show ?case by simp
qed simp_all

lemma canonify_obj_filter:
  "canonify (J_Obj (filter (\<lambda>(k, _). k \<noteq> key) (sort_entries (map (\<lambda>(k, v). (k, canonify v)) kvs)))) =
   J_Obj (filter (\<lambda>(k, _). k \<noteq> key) (sort_entries (map (\<lambda>(k, v). (k, canonify v)) kvs)))"
proof -
  let ?S = "sort_entries (map (\<lambda>(k, v). (k, canonify v)) kvs)"
  have "canonify v = v" if "(k, v) \<in> set ?S" for k v
    using sort_entries_mem [OF that] by (auto simp: canonify_idem)
  then have "map (\<lambda>(k, v). (k, canonify v)) (filter (\<lambda>(k, _). k \<noteq> key) ?S) = filter (\<lambda>(k, _). k \<noteq> key) ?S"
    by (intro map_idI) auto
  then show ?thesis by (simp add: sort_entries_id bt_wf_filter sort_entries(1))
qed

lemma map_of_map_snd: "map_of (map (\<lambda>(k, v). (k, f v)) kvs) k = map_option f (map_of kvs k)"
  by (induction kvs) auto

lemma map_of_filter_key: "map_of (filter (\<lambda>(k, _). k \<noteq> key) kvs) k = (if k = key then None else map_of kvs k)"
  by (induction kvs) auto

lemma distinct_filter_fst: "distinct (map fst kvs) \<Longrightarrow> distinct (map fst (filter P kvs))"
  by (simp add: distinct_map_filter)

text \<open>Removing the checksum from the written value gives the value the checksum was taken of.\<close>

lemma remove_written:
  assumes "distinct (map fst kvs)"
  shows "canonify (remove_key key (canonify (set_key key x (J_Obj kvs)))) = canonify (remove_key key (J_Obj kvs))"
proof -
  let ?u = "AList.update key x kvs"
  have du: "distinct (map fst ?u)" using assms by (rule distinct_update)
  have dm: "distinct (map fst (map (\<lambda>(k, v). (k, canonify v)) ?u))"
    using du by (simp add: comp_def case_prod_beta)
  have "filter (\<lambda>(k, _). k \<noteq> key) (sort_entries (map (\<lambda>(k, v). (k, canonify v)) ?u)) =
      sort_entries (map (\<lambda>(k, v). (k, canonify v)) (filter (\<lambda>(k, _). k \<noteq> key) kvs))"
  proof (rule bt_wf_eqI)
    have d: "distinct (map fst (map (\<lambda>(k, v). (k, canonify v)) (filter (\<lambda>(k, _). k \<noteq> key) kvs)))"
      using distinct_filter_fst [OF assms] by (simp add: comp_def case_prod_beta)
    show "map_of (filter (\<lambda>(k, _). k \<noteq> key) (sort_entries (map (\<lambda>(k, v). (k, canonify v)) ?u))) =
      map_of (sort_entries (map (\<lambda>(k, v). (k, canonify v)) (filter (\<lambda>(k, _). k \<noteq> key) kvs)))"
      by (rule ext) (simp add: map_of_filter_key sort_entries(2) map_of_rev [OF dm] map_of_rev [OF d] map_of_map_snd update_conv')
  qed (simp_all add: bt_wf_filter sort_entries(1))
  then show ?thesis using canonify_obj_filter [of key ?u] by (simp add: set_key_def remove_key_def)
qed

lemma get_written:
  assumes "distinct (map fst kvs)"
  shows "get_str key (canonify (set_key key (J_Str s) (J_Obj kvs))) = Some s"
proof -
  let ?m = "map (\<lambda>(k, v). (k, canonify v)) (AList.update key (J_Str s) kvs)"
  have "distinct (map fst ?m)" using distinct_update [OF assms, of key "J_Str s"] by (simp add: comp_def case_prod_beta)
  then have "map_of (sort_entries ?m) key = Some (J_Str s)"
    by (simp add: sort_entries(2) map_of_rev map_of_map_snd update_conv')
  then show ?thesis by (simp add: set_key_def get_str_def)
qed

text \<open>The JSON library reads a value back from the text it prints for it, which is one line.\<close>

definition reads_back :: "'n json_io \<Rightarrow> 'n json \<Rightarrow> bool" where
  "reads_back io v \<longleftrightarrow> ji_parse io (ji_print io v) = Some v \<and>
     ji_print io v \<noteq> [] \<and> CHR 0x0A \<notin> set (ji_print io v) \<and> last (ji_print io v) \<noteq> CHR 0x0D"

lemma lines_of_written:
  assumes "\<And>l. l \<in> set ls \<Longrightarrow> l \<noteq> [] \<and> CHR 0x0A \<notin> set l \<and> last l \<noteq> CHR 0x0D"
  shows "lines_of (concat (map (\<lambda>l. l @ [CHR 0x0A]) ls)) = ls"
proof -
  have "split_on (CHR 0x0A) (concat (map (\<lambda>l. l @ [CHR 0x0A]) ls)) = ls @ [[]]"
    using assms by (induction ls) (simp_all add: split_on_append)
  moreover have "map (\<lambda>l. if l \<noteq> [] \<and> last l = CHR 0x0D then butlast l else l) ls = ls"
    using assms by (intro map_idI) auto
  ultimately show ?thesis by (simp add: lines_of_def Let_def)
qed

text \<open>A line of the audit writer passes the checksum test of the verifier when the JSON library reads
  back this one line; a number that it rounds, or a value too deep for it, can make it fail.\<close>

lemma written_lines_pass_check:
  assumes "\<forall>v\<in>set vs. \<exists>kvs. v = J_Obj kvs \<and> distinct (map fst kvs)"
    and "\<forall>v\<in>set vs. reads_back io (canonify (set_key ''crc32'' (J_Str (record_crc io v)) v))"
  shows "count_invalid_crcs io (concat (map (write_record io) vs)) = (0, [])"
proof -
  let ?val = "\<lambda>v. canonify (set_key ''crc32'' (J_Str (record_crc io v)) v)"
  have line: "l \<noteq> [] \<and> CHR 0x0A \<notin> set l \<and> last l \<noteq> CHR 0x0D" if "l \<in> set (map (\<lambda>v. ji_print io (?val v)) vs)" for l
    using that assms(2) by (auto simp: reads_back_def)
  have ok: "crc_line_ok io (ji_print io (?val v))" if v: "v \<in> set vs" for v
  proof -
    obtain kvs where kvs: "v = J_Obj kvs" "distinct (map fst kvs)" using assms(1) v by blast
    have "ji_parse io (ji_print io (?val v)) = Some (?val v)" using assms(2) v by (simp add: reads_back_def)
    moreover have "get_str ''crc32'' (?val v) = Some (record_crc io v)" unfolding kvs(1) using kvs(2) by (rule get_written)
    moreover have "record_crc io (?val v) = record_crc io v"
      unfolding record_crc_def kvs(1) remove_written [OF kvs(2)] ..
    ultimately show ?thesis by (simp add: crc_line_ok_def)
  qed
  have "concat (map (write_record io) vs) = concat (map (\<lambda>l. l @ [CHR 0x0A]) (map (\<lambda>v. ji_print io (?val v)) vs))"
    by (simp add: write_record_def [abs_def] comp_def)
  then have "lines_of (concat (map (write_record io) vs)) = map (\<lambda>v. ji_print io (?val v)) vs"
    using lines_of_written [of "map (\<lambda>v. ji_print io (?val v)) vs"] line by simp
  then show ?thesis using ok by (simp add: count_invalid_crcs_def Let_def filter_empty_conv)
qed

section \<open>Matching\<close>

text \<open>The pairs matched so far stand for the marks of both sides.\<close>

definition matched ::
  "(external_call \<Rightarrow> internal_call \<Rightarrow> bool) \<Rightarrow> external_call list \<Rightarrow> internal_call list \<Rightarrow> (nat \<times> nat) list
     \<Rightarrow> bool list \<times> bool list \<Rightarrow> bool"
where
  "matched Q external internal ps = (\<lambda>(eu, iu).
     length eu = length external \<and> length iu = length internal \<and>
     distinct (map fst ps) \<and> distinct (map snd ps) \<and>
     (\<forall>i<length external. eu ! i \<longleftrightarrow> i \<in> fst ` set ps) \<and>
     (\<forall>j<length internal. iu ! j \<longleftrightarrow> j \<in> snd ` set ps) \<and>
     (\<forall>(i, j)\<in>set ps. i < length external \<and> j < length internal \<and> Q (external ! i) (internal ! j)))"

lemma matched_add:
  assumes "matched Q external internal ps (eu, iu)" "i < length external" "\<not> eu ! i"
    "j < length internal" "\<not> iu ! j" "Q (external ! i) (internal ! j)"
  shows "matched Q external internal (ps @ [(i, j)]) (eu[i := True], iu[j := True])"
  using assms by (auto simp: matched_def nth_list_update)

lemma matched_weaken:
  "matched Q external internal ps u \<Longrightarrow> (\<And>x y. Q x y \<Longrightarrow> Q' x y) \<Longrightarrow> matched Q' external internal ps u"
  by (cases u) (auto simp: matched_def)

lemma first_free:
  "first_free P internal used = Some j \<Longrightarrow> j < length internal \<and> \<not> used ! j \<and> P (internal ! j)"
  "first_free P internal used = None \<longleftrightarrow> (\<forall>j<length internal. used ! j \<or> \<not> P (internal ! j))"
  by (auto simp: first_free_def find_Some_iff find_None_iff)

definition close_calls :: "external_call \<Rightarrow> internal_call \<Rightarrow> bool" where
  "close_calls x y \<longleftrightarrow> within_window (ic_started y) (xc_started x)"

definition same_call :: "external_call \<Rightarrow> internal_call \<Rightarrow> bool" where
  "same_call x y \<longleftrightarrow> ic_sha y = xc_sha x \<and> close_calls x y"

lemma exact_fold:
  assumes "distinct is" "set is \<subseteq> {..<length external}" "set is \<inter> fst ` set ps = {}"
    "matched same_call external internal ps (eu, iu)"
  shows "\<exists>qs eu' iu'. fold (exact_step external internal) is (eu, iu, n) = (eu', iu', n + length qs) \<and>
    matched same_call external internal (ps @ qs) (eu', iu')"
  using assms
proof (induction "is" arbitrary: ps eu iu n)
  case (Cons i "is")
  let ?P = "\<lambda>c. ic_sha c = xc_sha (external ! i) \<and> within_window (ic_started c) (xc_started (external ! i))"
  have i: "i < length external" "\<not> eu ! i" "i \<notin> fst ` set ps" using Cons.prems by (auto simp: matched_def)
  have tl: "distinct is" "set is \<subseteq> {..<length external}" "i \<notin> set is" "set is \<inter> fst ` set ps = {}" using Cons.prems by auto
  show ?case
  proof (cases "first_free ?P internal iu")
    case None
    then have "exact_step external internal i (eu, iu, n) = (eu, iu, n)" by (simp add: exact_step_def)
    then show ?thesis using Cons.IH [OF tl(1,2,4) Cons.prems(4), of n] by simp
  next
    case (Some j)
    note j = first_free(1) [OF Some]
    have m: "matched same_call external internal (ps @ [(i, j)]) (eu[i := True], iu[j := True])"
    proof (rule matched_add [OF Cons.prems(4) i(1,2)])
      show "same_call (external ! i) (internal ! j)" using j by (simp add: same_call_def close_calls_def)
    qed (use j in simp_all)
    have "set is \<inter> fst ` set (ps @ [(i, j)]) = {}" using tl(3,4) by auto
    from Cons.IH [OF tl(1,2) this m, of "n + 1"] obtain qs eu' iu' where
      "fold (exact_step external internal) is (eu[i := True], iu[j := True], n + 1) = (eu', iu', n + 1 + length qs)"
      "matched same_call external internal ((ps @ [(i, j)]) @ qs) (eu', iu')" by blast
    moreover have "exact_step external internal i (eu, iu, n) = (eu[i := True], iu[j := True], n + 1)"
      using Some by (simp add: exact_step_def)
    ultimately show ?thesis by (intro exI [of _ "(i, j) # qs"]) simp
  qed
qed auto

lemma mismatch_fold:
  assumes "distinct is" "set is \<subseteq> {..<length external}" "matched close_calls external internal ps (eu, iu)"
  shows "\<exists>qs eu' iu'. fold (mismatch_step external internal) is (eu, iu, n) = (eu', iu', n + length qs) \<and>
    matched close_calls external internal (ps @ qs) (eu', iu')"
  using assms
proof (induction "is" arbitrary: ps eu iu n)
  case (Cons i "is")
  let ?P = "\<lambda>c. ic_sha c \<noteq> xc_sha (external ! i) \<and> within_window (ic_started c) (xc_started (external ! i))"
  have tl: "distinct is" "set is \<subseteq> {..<length external}" "i < length external" using Cons.prems by auto
  show ?case
  proof (cases "eu ! i \<or> first_free ?P internal iu = None")
    case True
    then have "mismatch_step external internal i (eu, iu, n) = (eu, iu, n)" by (auto simp: mismatch_step_def)
    then show ?thesis using Cons.IH [OF tl(1,2) Cons.prems(3), of n] by simp
  next
    case False
    then obtain j where Some: "first_free ?P internal iu = Some j" by auto
    note j = first_free(1) [OF Some]
    have m: "matched close_calls external internal (ps @ [(i, j)]) (eu[i := True], iu[j := True])"
    proof (rule matched_add [OF Cons.prems(3) tl(3)])
      show "close_calls (external ! i) (internal ! j)" using j by (simp add: close_calls_def)
    qed (use j False in simp_all)
    from Cons.IH [OF tl(1,2) m, of "n + 1"] obtain qs eu' iu' where
      "fold (mismatch_step external internal) is (eu[i := True], iu[j := True], n + 1) = (eu', iu', n + 1 + length qs)"
      "matched close_calls external internal ((ps @ [(i, j)]) @ qs) (eu', iu')" by blast
    moreover have "mismatch_step external internal i (eu, iu, n) = (eu[i := True], iu[j := True], n + 1)"
      using Some False by (simp add: mismatch_step_def)
    ultimately show ?thesis by (intro exI [of _ "(i, j) # qs"]) simp
  qed
qed auto

lemma matched_count:
  assumes "matched Q external internal ps (eu, iu)"
  shows "length (filter Not eu) + length ps = length external" "length (filter Not iu) + length ps = length internal"
proof -
  have count: "length (filter Not u) + length zs = n"
    if u: "length u = n" "distinct zs" "\<forall>i<n. u ! i \<longleftrightarrow> i \<in> set zs" "set zs \<subseteq> {..<n}" for u :: "bool list" and zs n
  proof -
    have "{i. i < length u \<and> \<not> u ! i} = {..<n} - set zs" using u by auto
    then have "length (filter Not u) = card ({..<n} - set zs)" by (simp add: length_filter_conv_card)
    also have "\<dots> = n - length zs" using u(2,4) by (simp add: card_Diff_subset distinct_card)
    finally show ?thesis using u(2,4) card_mono [of "{..<n}" "set zs"] by (simp add: distinct_card)
  qed
  have sub: "set (map fst ps) \<subseteq> {..<length external}" "set (map snd ps) \<subseteq> {..<length internal}"
    using assms by (auto simp: matched_def)
  show "length (filter Not eu) + length ps = length external"
    using count [of eu "length external" "map fst ps"] assms sub by (simp add: matched_def)
  show "length (filter Not iu) + length ps = length internal"
    using count [of iu "length internal" "map snd ps"] assms sub by (simp add: matched_def)
qed

lemma matched_none: "matched Q external internal [] (replicate (length external) False, replicate (length internal) False)"
  by (simp add: matched_def)

lemma match_calls:
  "\<exists>ps qs eu iu eu' iu'. matched same_call external internal ps (eu, iu) \<and>
     matched close_calls external internal (ps @ qs) (eu', iu') \<and>
     match_calls external internal r = r\<lparr>vr_match := vr_match r + length ps, vr_body_mismatch := vr_body_mismatch r + length qs,
       vr_unmatched_external := vr_unmatched_external r + (length external - length (ps @ qs)),
       vr_unmatched_internal := vr_unmatched_internal r + (length internal - length (ps @ qs))\<rparr>"
proof -
  have idx: "distinct [0..<length external]" "set [0..<length external] \<subseteq> {..<length external}" by auto
  from exact_fold [OF idx _ matched_none, where n = 0 and internal = internal] obtain ps eu iu where
    ps: "fold (exact_step external internal) [0..<length external]
        (replicate (length external) False, replicate (length internal) False, 0) = (eu, iu, length ps)"
    "matched same_call external internal ps (eu, iu)" by auto
  have "matched close_calls external internal ps (eu, iu)" by (rule matched_weaken [OF ps(2)]) (simp add: same_call_def)
  from mismatch_fold [OF idx this, where n = 0] obtain qs eu' iu' where
    qs: "fold (mismatch_step external internal) [0..<length external] (eu, iu, 0) = (eu', iu', length qs)"
    "matched close_calls external internal (ps @ qs) (eu', iu')" by auto
  have "length (filter Not eu') = length external - length (ps @ qs)"
    "length (filter Not iu') = length internal - length (ps @ qs)" using matched_count [OF qs(2)] by linarith+
  then show ?thesis using ps qs by (intro exI conjI) (assumption+, simp add: match_calls_def Let_def)
qed

section \<open>Pairing by rank\<close>

definition rank :: "(nat \<Rightarrow> 'h) \<Rightarrow> nat \<Rightarrow> nat" where
  "rank f i = card {k. k < i \<and> f k = f i}"

lemma rank_less: "k < i \<Longrightarrow> f k = f i \<Longrightarrow> rank f k < rank f i"
  unfolding rank_def by (rule psubset_card_mono) auto

lemma rank_inj: "rank f i = rank f j \<Longrightarrow> f i = f j \<Longrightarrow> i = j"
  by (metis nat_neq_iff rank_less)

lemma rank_ex: "r < card {k. k < n \<and> f k = h} \<Longrightarrow> \<exists>k<n. f k = h \<and> rank f k = r"
proof (induction n)
  case (Suc n)
  show ?case
  proof (cases "r < card {k. k < n \<and> f k = h}")
    case True
    then show ?thesis using Suc.IH by (auto intro: less_SucI)
  next
    case False
    have "f n = h"
    proof (rule ccontr)
      assume "f n \<noteq> h"
      then have "{k. k < Suc n \<and> f k = h} = {k. k < n \<and> f k = h}" by (auto simp: less_Suc_eq)
      then show False using False Suc.prems by simp
    qed
    then have "{k. k < Suc n \<and> f k = h} = insert n {k. k < n \<and> f k = h}" by (auto simp: less_Suc_eq)
    then have "card {k. k < Suc n \<and> f k = h} = Suc (card {k. k < n \<and> f k = h})" by simp
    then have "rank f n = r" using False Suc.prems \<open>f n = h\<close> by (simp add: rank_def)
    then show ?thesis using \<open>f n = h\<close> by blast
  qed
qed simp

lemma class_from:
  assumes "i < n"
  shows "card {k. i \<le> k \<and> k < n \<and> f k = f i} + rank f i = card {k. k < n \<and> f k = f i}"
    "card {k. i < k \<and> k < n \<and> f k = f i} + Suc (rank f i) = card {k. k < n \<and> f k = f i}"
proof -
  let ?ge = "{k. i \<le> k \<and> k < n \<and> f k = f i}" and ?lt = "{k. k < i \<and> f k = f i}"
  have "{k. k < n \<and> f k = f i} = ?ge \<union> ?lt" "?ge \<inter> ?lt = {}" using assms by auto
  moreover have fin: "finite ?ge" "finite ?lt" by simp_all
  ultimately show a: "card ?ge + rank f i = card {k. k < n \<and> f k = f i}"
    unfolding rank_def by (simp add: card_Un_disjoint)
  have "?ge = insert i {k. i < k \<and> k < n \<and> f k = f i}" using assms by auto
  then have "card ?ge = Suc (card {k. i < k \<and> k < n \<and> f k = f i})" by simp
  then show "card {k. i < k \<and> k < n \<and> f k = f i} + Suc (rank f i) = card {k. k < n \<and> f k = f i}" using a by simp
qed

lemma class_card:
  assumes bij: "bij_betw \<pi> {..<n} {..<n}" and cls: "\<And>i. i < n \<Longrightarrow> fi (\<pi> i) = fe i"
  shows "card {k. k < n \<and> fe k = h} = card {l. l < n \<and> fi l = h}"
proof (rule bij_betw_same_card)
  have inj: "inj_on \<pi> {..<n}" and im: "\<pi> ` {..<n} = {..<n}" using bij by (simp_all add: bij_betw_def)
  have "\<pi> ` {k. k < n \<and> fe k = h} = {l. l < n \<and> fi l = h}"
  proof (intro equalityI subsetI)
    fix l
    assume l: "l \<in> {l. l < n \<and> fi l = h}"
    then have "l \<in> \<pi> ` {..<n}" using im by simp
    then obtain k where "k < n" "l = \<pi> k" by auto
    then show "l \<in> \<pi> ` {k. k < n \<and> fe k = h}" using l cls by auto
  qed (use im cls in auto)
  then show "bij_betw \<pi> {k. k < n \<and> fe k = h} {l. l < n \<and> fi l = h}"
    unfolding bij_betw_def using inj_on_subset [OF inj, of "{k. k < n \<and> fe k = h}"] by auto
qed

text \<open>When some one-to-one correspondence keeps classes and moves every time by at most \<open>d\<close>, so does the
  one that keeps the ranks in each class.\<close>

lemma rank_pairing_half:
  assumes bij: "bij_betw \<pi> {..<n} {..<n}" and cls: "\<And>i. i < n \<Longrightarrow> fi (\<pi> i) = fe i"
    and near: "\<And>i. i < n \<Longrightarrow> te i - ti (\<pi> i) \<le> (d :: int)"
    and mono: "\<And>i k. i \<le> k \<Longrightarrow> k < n \<Longrightarrow> te i \<le> te k" "\<And>i k. i \<le> k \<Longrightarrow> k < n \<Longrightarrow> ti i \<le> ti k"
    and ij: "i < n" "j < n" "fe i = fi j" "rank fe i = rank fi j"
  shows "te i - ti j \<le> d"
proof (rule ccontr)
  assume far: "\<not> te i - ti j \<le> d"
  have inj: "inj_on \<pi> {..<n}" and im: "\<pi> ` {..<n} = {..<n}" using bij by (simp_all add: bij_betw_def)
  let ?A = "{k. i \<le> k \<and> k < n \<and> fe k = fe i}" and ?B = "{l. j < l \<and> l < n \<and> fi l = fi j}"
  have "\<pi> ` ?A \<subseteq> ?B"
  proof (rule image_subsetI)
    fix k
    assume "k \<in> ?A"
    then have k: "i \<le> k" "k < n" "fe k = fe i" by simp_all
    then have l: "\<pi> k < n" "fi (\<pi> k) = fi j" using im cls ij(3) by auto
    have "ti j < ti (\<pi> k)" using mono(1) [OF k(1,2)] near [OF k(2)] far by linarith
    then have "j < \<pi> k" using mono(2) [of "\<pi> k" j] ij(2) by (meson not_less)
    then show "\<pi> k \<in> ?B" using l by simp
  qed
  moreover have "inj_on \<pi> ?A" by (rule inj_on_subset [OF inj]) auto
  ultimately have "card ?A \<le> card ?B" by (intro card_inj_on_le [of \<pi>]) auto
  moreover have "card {k. k < n \<and> fe k = fe i} = card {l. l < n \<and> fi l = fi j}"
    unfolding ij(3) by (rule class_card [where \<pi> = \<pi>]) (use bij cls in auto)
  ultimately show False using class_from(1) [OF ij(1), of fe] class_from(2) [OF ij(2), of fi] ij(4) by linarith
qed

text \<open>A one-to-one correspondence of the two lists with equal hashes and times at most a second apart.\<close>

definition agree :: "external_call list \<Rightarrow> internal_call list \<Rightarrow> bool" where
  "agree external internal \<longleftrightarrow> length external = length internal \<and>
     (\<exists>\<pi>. bij_betw \<pi> {..<length external} {..<length external} \<and>
        (\<forall>i<length external. same_call (external ! i) (internal ! \<pi> i)))"

lemma sorted_nth_le: "sorted (map f xs) \<Longrightarrow> i \<le> k \<Longrightarrow> k < length xs \<Longrightarrow> f (xs ! i) \<le> f (xs ! k)"
  using sorted_nth_mono [of "map f xs" i k] by simp

lemma within_window_iff: "within_window a b \<longleftrightarrow> \<bar>a - b\<bar> \<le> 1"
  unfolding within_window_def match_window_secs_def by (simp only: nat_le_iff of_nat_1)

lemma rank_pairing:
  assumes len: "length external = n" "length internal = n"
    and sorted: "sorted (map xc_started external)" "sorted (map ic_started internal)"
    and bij: "bij_betw \<pi> {..<n} {..<n}" and same: "\<And>i. i < n \<Longrightarrow> same_call (external ! i) (internal ! \<pi> i)"
    and ij: "i < n" "j < n" "xc_sha (external ! i) = ic_sha (internal ! j)"
      "rank (\<lambda>i. xc_sha (external ! i)) i = rank (\<lambda>j. ic_sha (internal ! j)) j"
  shows "within_window (ic_started (internal ! j)) (xc_started (external ! i))"
proof -
  let ?inv = "inv_into {..<n} \<pi>"
  have bij': "bij_betw ?inv {..<n} {..<n}" using bij by (rule bij_betw_inv_into)
  have im: "\<pi> ` {..<n} = {..<n}" using bij by (simp add: bij_betw_def)
  have inv: "\<pi> (?inv l) = l \<and> ?inv l < n" if "l < n" for l
    using that im bij' by (metis bij_betw_apply f_inv_into_f lessThan_iff)
  have win: "\<bar>ic_started (internal ! \<pi> i) - xc_started (external ! i)\<bar> \<le> 1" if "i < n" for i
    using same [OF that] by (simp add: same_call_def close_calls_def within_window_iff)
  have me: "xc_started (external ! a) \<le> xc_started (external ! b)" if "a \<le> b" "b < n" for a b
    using sorted_nth_le [OF sorted(1)] that len by simp
  have mi: "ic_started (internal ! a) \<le> ic_started (internal ! b)" if "a \<le> b" "b < n" for a b
    using sorted_nth_le [OF sorted(2)] that len by simp
  have "xc_started (external ! i) - ic_started (internal ! j) \<le> 1"
  proof (rule rank_pairing_half [OF bij, where fe = "\<lambda>i. xc_sha (external ! i)" and fi = "\<lambda>j. ic_sha (internal ! j)"])
    show "ic_sha (internal ! \<pi> l) = xc_sha (external ! l)" if "l < n" for l
      using same [OF that] by (simp add: same_call_def)
    show "xc_started (external ! l) - ic_started (internal ! \<pi> l) \<le> 1" if "l < n" for l using win [OF that] by linarith
  qed (rule me mi ij; assumption)+
  moreover have "ic_started (internal ! j) - xc_started (external ! i) \<le> 1"
  proof (rule rank_pairing_half [OF bij', where fe = "\<lambda>j. ic_sha (internal ! j)" and fi = "\<lambda>i. xc_sha (external ! i)"])
    show "xc_sha (external ! ?inv l) = ic_sha (internal ! l)" if "l < n" for l
      using same [of "?inv l"] inv [OF that] by (simp add: same_call_def)
    show "ic_started (internal ! l) - xc_started (external ! ?inv l) \<le> 1" if "l < n" for l
      using win [of "?inv l"] inv [OF that] by simp
  qed (rule me mi ij ij(3)[symmetric] ij(4)[symmetric]; assumption)+
  ultimately show ?thesis by (simp add: within_window_iff)
qed

text \<open>A call is identified by its hash and its rank among the calls of that hash.\<close>

definition ext_key :: "external_call list \<Rightarrow> nat \<Rightarrow> string \<times> nat" where
  "ext_key external i = (xc_sha (external ! i), rank (\<lambda>i. xc_sha (external ! i)) i)"

definition int_key :: "internal_call list \<Rightarrow> nat \<Rightarrow> string \<times> nat" where
  "int_key internal j = (ic_sha (internal ! j), rank (\<lambda>j. ic_sha (internal ! j)) j)"

lemma ext_key_inj: "ext_key external i = ext_key external j \<Longrightarrow> i = j"
  unfolding ext_key_def prod.inject by (elim conjE) (rule rank_inj)

lemma int_key_inj: "int_key internal i = int_key internal j \<Longrightarrow> i = j"
  unfolding int_key_def prod.inject by (elim conjE) (rule rank_inj)

lemma key_partner:
  assumes "m < n" and bij: "bij_betw \<pi> {..<n} {..<n}"
    and same: "\<And>i. i < n \<Longrightarrow> same_call (external ! i) (internal ! \<pi> i)"
  shows "\<exists>t<n. int_key internal t = ext_key external m"
proof -
  let ?fe = "\<lambda>i. xc_sha (external ! i)" and ?fi = "\<lambda>j. ic_sha (internal ! j)"
  have "?fi (\<pi> i) = ?fe i" if "i < n" for i using same [OF that] unfolding same_call_def by (rule conjunct1)
  then have "card {k. k < n \<and> ?fe k = ?fe m} = card {l. l < n \<and> ?fi l = ?fe m}"
    by (rule class_card [where fe = ?fe and fi = ?fi, OF bij])
  then have "rank ?fe m < card {l. l < n \<and> ?fi l = ?fe m}" using class_from(2) [OF assms(1), of ?fe] by linarith
  from rank_ex [OF this] show ?thesis unfolding ext_key_def int_key_def prod.inject .
qed

text \<open>An earlier call of the same hash has the rank of an earlier call of the other list.\<close>

lemma key_before:
  assumes "int_key internal t = ext_key external m" "j < t" "ic_sha (internal ! j) = xc_sha (external ! m)"
  shows "\<exists>k<m. ext_key external k = int_key internal j"
proof -
  let ?fe = "\<lambda>i. xc_sha (external ! i)" and ?fi = "\<lambda>j. ic_sha (internal ! j)"
  have t: "?fi t = ?fe m" "rank ?fi t = rank ?fe m" using assms(1) unfolding ext_key_def int_key_def by simp_all
  have "rank ?fi j < rank ?fi t" by (rule rank_less [OF assms(2)]) (simp only: assms(3) t(1))
  then have "rank ?fi j < card {k. k < m \<and> ?fe k = ?fe m}" unfolding t(2) rank_def [of ?fe m] .
  from rank_ex [OF this] show ?thesis unfolding ext_key_def int_key_def prod.inject assms(3) .
qed

lemma first_freeI:
  assumes "t < length internal" "\<not> used ! t" "P (internal ! t)" "\<And>j. j < t \<Longrightarrow> used ! j \<or> \<not> P (internal ! j)"
  shows "first_free P internal used = Some t"
proof -
  have "[0..<length internal] ! i = i" if "i < length internal" for i using that by simp
  then show ?thesis unfolding first_free_def find_Some_iff using assms by (intro exI [of _ t]) auto
qed

lemma exact_complete_step:
  assumes len: "length external = n" "length internal = n"
    and sorted: "sorted (map xc_started external)" "sorted (map ic_started internal)"
    and bij: "bij_betw \<pi> {..<n} {..<n}" and same: "\<And>i. i < n \<Longrightarrow> same_call (external ! i) (internal ! \<pi> i)"
    and m: "m < n" and iu: "length iu = n" "\<And>j. j < n \<Longrightarrow> iu ! j \<longleftrightarrow> int_key internal j \<in> ext_key external ` {..<m}"
  obtains t where "exact_step external internal m (eu, iu, c) = (eu[m := True], iu[t := True], c + 1)"
    "\<And>j. j < n \<Longrightarrow> iu[t := True] ! j \<longleftrightarrow> int_key internal j \<in> ext_key external ` {..<Suc m}"
proof -
  obtain t where t: "t < n" "int_key internal t = ext_key external m" using key_partner [OF m bij same] by blast
  have sha: "ic_sha (internal ! t) = xc_sha (external ! m)"
    "rank (\<lambda>i. xc_sha (external ! i)) m = rank (\<lambda>j. ic_sha (internal ! j)) t"
    using t(2) unfolding ext_key_def int_key_def by simp_all
  let ?P = "\<lambda>c. ic_sha c = xc_sha (external ! m) \<and> within_window (ic_started c) (xc_started (external ! m))"
  have free: "\<not> iu ! t" unfolding iu(2) [OF t(1)] t(2) using ext_key_inj by blast
  have near: "?P (internal ! t)"
    using rank_pairing [OF len sorted bij same m t(1) sha(1)[symmetric] sha(2)] sha(1) by (rule conjI [rotated])
  have "iu ! j \<or> \<not> ?P (internal ! j)" if "j < t" for j
    using key_before [OF t(2) that] iu(2) [OF less_trans [OF that t(1)]] by (metis imageI lessThan_iff)
  then have "first_free ?P internal iu = Some t" using t(1) len(2) free near by (intro first_freeI) auto
  then have "exact_step external internal m (eu, iu, c) = (eu[m := True], iu[t := True], c + 1)"
    unfolding exact_step_def by simp
  moreover have "iu[t := True] ! j \<longleftrightarrow> int_key internal j \<in> ext_key external ` {..<Suc m}" if j: "j < n" for j
  proof (cases "j = t")
    case True
    then show ?thesis using t iu(1) by (simp add: lessThan_Suc)
  next
    case False
    then have "int_key internal j \<noteq> ext_key external m" using int_key_inj t(2) by metis
    then show ?thesis using False iu(2) [OF j] by (simp add: lessThan_Suc)
  qed
  ultimately show thesis by (rule that)
qed

lemma exact_complete:
  assumes len: "length external = n" "length internal = n"
    and sorted: "sorted (map xc_started external)" "sorted (map ic_started internal)"
    and bij: "bij_betw \<pi> {..<n} {..<n}" and same: "\<And>i. i < n \<Longrightarrow> same_call (external ! i) (internal ! \<pi> i)"
    and m: "m \<le> n"
  shows "\<exists>eu iu. fold (exact_step external internal) [0..<m] (replicate n False, replicate n False, 0) = (eu, iu, m) \<and>
    length iu = n \<and> (\<forall>j<n. iu ! j \<longleftrightarrow> int_key internal j \<in> ext_key external ` {..<m})"
  using m
proof (induction m)
  case (Suc m)
  then have mn: "m < n" by simp
  obtain eu iu where IH: "fold (exact_step external internal) [0..<m] (replicate n False, replicate n False, 0) = (eu, iu, m)"
    "length iu = n" "\<And>j. j < n \<Longrightarrow> iu ! j \<longleftrightarrow> int_key internal j \<in> ext_key external ` {..<m}"
    using Suc.IH [OF less_imp_le [OF mn]] by blast
  obtain t where t: "exact_step external internal m (eu, iu, m) = (eu[m := True], iu[t := True], m + 1)"
    "\<And>j. j < n \<Longrightarrow> iu[t := True] ! j \<longleftrightarrow> int_key internal j \<in> ext_key external ` {..<Suc m}"
    using exact_complete_step [OF len sorted bij same mn IH(2,3), of eu m] by blast
  have "fold (exact_step external internal) [0..<Suc m] (replicate n False, replicate n False, 0) =
      (eu[m := True], iu[t := True], Suc m)"
    unfolding upt_Suc_append [OF le0] fold_append comp_def IH(1) by (simp add: t(1))
  then show ?case using IH(2) t(2) by (intro exI conjI) (assumption, simp_all)
qed simp

section \<open>When the answer is ok\<close>

text \<open>The records of one call: a request with a hash and one answer, in either order.\<close>

definition is_request :: "'f audit_record \<Rightarrow> bool" where
  "is_request rec \<longleftrightarrow> ar_event rec = ''request''"

definition is_terminal :: "'f audit_record \<Rightarrow> bool" where
  "is_terminal rec \<longleftrightarrow> ar_event rec = ''response'' \<or> ar_event rec = ''upstream_error''"

definition pair_ok :: "'f audit_record list \<Rightarrow> bool" where
  "pair_ok rs \<longleftrightarrow> (\<exists>request terminal. rs \<in> {[request, terminal], [terminal, request]} \<and>
     is_request request \<and> ar_body_sha256 request \<noteq> [] \<and> is_terminal terminal)"

definition well_paired :: "'f audit_record list \<Rightarrow> bool" where
  "well_paired records \<longleftrightarrow> (\<forall>i\<in>ar_id ` set records. pair_ok (filter (\<lambda>r. ar_id r = i) records))"

lemma requests_terminals: "is_request r \<Longrightarrow> \<not> is_terminal r"
  by (simp add: is_request_def is_terminal_def)

lemma pair_record_cases:
  "pair_record r p =
     (if is_request r then p\<lparr>xp_request := Some r, xp_duplicate := xp_duplicate p \<or> xp_request p \<noteq> None\<rparr>
      else if is_terminal r then p\<lparr>xp_terminal := Some r, xp_duplicate := xp_duplicate p \<or> xp_terminal p \<noteq> None\<rparr>
      else p\<lparr>xp_duplicate := True\<rparr>)"
  by (simp add: pair_record_def is_request_def is_terminal_def)

lemma pair_fold:
  fixes rs :: "'f audit_record list"
  defines "p \<equiv> fold pair_record rs pair_new"
  shows "xp_request p = (if filter is_request rs = [] then None else Some (last (filter is_request rs)))"
    "xp_terminal p = (if filter is_terminal rs = [] then None else Some (last (filter is_terminal rs)))"
    "xp_duplicate p \<longleftrightarrow> (\<exists>r\<in>set rs. \<not> is_request r \<and> \<not> is_terminal r) \<or>
       2 \<le> length (filter is_request rs) \<or> 2 \<le> length (filter is_terminal rs)"
proof -
  have "xp_request (fold pair_record rs pair_new) = (if filter is_request rs = [] then None else Some (last (filter is_request rs))) \<and>
    xp_terminal (fold pair_record rs pair_new) = (if filter is_terminal rs = [] then None else Some (last (filter is_terminal rs))) \<and>
    (xp_duplicate (fold pair_record rs pair_new) \<longleftrightarrow> (\<exists>r\<in>set rs. \<not> is_request r \<and> \<not> is_terminal r) \<or>
       2 \<le> length (filter is_request rs) \<or> 2 \<le> length (filter is_terminal rs))"
  proof (induction rs rule: rev_induct)
    case Nil
    show ?case by (simp add: pair_new_def)
  next
    case (snoc r rs)
    have one: "xs \<noteq> [] \<longleftrightarrow> Suc 0 \<le> length xs" for xs :: "'f audit_record list" by (cases xs) simp_all
    show ?case
    proof (cases "is_request r")
      case True
      then show ?thesis using snoc requests_terminals [OF True] one [of "filter is_request rs"]
        by (auto simp: pair_record_cases)
    next
      case False
      then show ?thesis using snoc one [of "filter is_terminal rs"] by (auto simp: pair_record_cases)
    qed
  qed
  then show "xp_request p = (if filter is_request rs = [] then None else Some (last (filter is_request rs)))"
    "xp_terminal p = (if filter is_terminal rs = [] then None else Some (last (filter is_terminal rs)))"
    "xp_duplicate p \<longleftrightarrow> (\<exists>r\<in>set rs. \<not> is_request r \<and> \<not> is_terminal r) \<or>
       2 \<le> length (filter is_request rs) \<or> 2 \<le> length (filter is_terminal rs)"
    unfolding p_def by blast+
qed

lemma pair_ok_iff:
  "pair_ok rs \<longleftrightarrow> (let p = fold pair_record rs pair_new in
     \<not> xp_duplicate p \<and> (\<exists>request terminal. xp_request p = Some request \<and> xp_terminal p = Some terminal \<and> ar_body_sha256 request \<noteq> []))"
  (is "_ \<longleftrightarrow> ?R")
proof
  assume "pair_ok rs"
  then obtain request terminal where rt: "rs = [request, terminal] \<or> rs = [terminal, request]" "is_request request"
    "ar_body_sha256 request \<noteq> []" "is_terminal terminal" by (auto simp: pair_ok_def)
  then have "\<not> is_terminal request" "\<not> is_request terminal" using requests_terminals by blast+
  then show ?R using rt by (auto simp: Let_def pair_fold)
next
  assume ?R
  then have no: "\<forall>r\<in>set rs. is_request r \<or> is_terminal r" "length (filter is_request rs) = 1" "length (filter is_terminal rs) = 1"
    and sha: "ar_body_sha256 (last (filter is_request rs)) \<noteq> []"
    by (auto simp: Let_def pair_fold split: if_splits simp: not_le less_Suc_eq numeral_2_eq_2)
  have "filter is_terminal rs = filter (\<lambda>r. \<not> is_request r) rs"
    using no(1) requests_terminals by (intro filter_cong) auto
  then have "length rs = 2" using no(2,3) sum_length_filter_compl [of is_request rs] by simp
  then obtain a b where ab: "rs = [a, b]" by (auto simp: numeral_2_eq_2 length_Suc_conv)
  show "pair_ok rs"
  proof (cases "is_request a")
    case True
    then have "is_terminal b" "last (filter is_request rs) = a" using no ab requests_terminals by (auto split: if_splits)
    then show ?thesis using True sha ab by (auto simp: pair_ok_def)
  next
    case False
    then have "is_terminal a" "is_request b" using no ab by (auto split: if_splits)
    then show ?thesis using False sha ab by (auto simp: pair_ok_def)
  qed
qed

lemma fold_add_record:
  "map_of (fold add_record rs ps) i =
     (if i \<in> ar_id ` set rs
      then Some (fold pair_record (filter (\<lambda>r. ar_id r = i) rs) (case map_of ps i of None \<Rightarrow> pair_new | Some p \<Rightarrow> p))
      else map_of ps i)"
proof (induction rs arbitrary: ps)
  case (Cons rec rs)
  have "filter (\<lambda>r. ar_id r = i) rs = []" if "i \<notin> ar_id ` set rs" using that by (auto simp: filter_empty_conv)
  then show ?case using Cons.IH [of "add_record rec ps"] by (auto simp: add_record_def update_conv')
qed simp

lemma fold_add_record_distinct: "distinct (map fst ps) \<Longrightarrow> distinct (map fst (fold add_record rs ps))"
  by (induction rs arbitrary: ps) (simp_all add: add_record_def distinct_update)

text \<open>A pair that adds nothing to the counters of the report.\<close>

definition pair_clean :: "'f external_pair \<Rightarrow> bool" where
  "pair_clean p \<longleftrightarrow> \<not> xp_duplicate p \<and>
     (case (xp_request p, xp_terminal p) of
        (Some request, Some _) \<Rightarrow> ar_body_sha256 request \<noteq> [] | (None, None) \<Rightarrow> True | _ \<Rightarrow> False)"

definition pair_faults :: "verify_report \<Rightarrow> nat" where
  "pair_faults r = vr_crc_invalid r + vr_orphan_request r + vr_orphan_response r"

definition same_but_faults :: "verify_report \<Rightarrow> verify_report \<Rightarrow> bool" where
  "same_but_faults r r' \<longleftrightarrow> vr_match r' = vr_match r \<and> vr_body_mismatch r' = vr_body_mismatch r \<and>
     vr_unmatched_internal r' = vr_unmatched_internal r \<and> vr_unmatched_external r' = vr_unmatched_external r \<and>
     vr_audit_missing r' = vr_audit_missing r \<and> vr_internal_missing r' = vr_internal_missing r \<and>
     vr_internal_invalid r' = vr_internal_invalid r"

lemma close_pair:
  shows "pair_faults (snd (close_pair secs (i, p) (e, r))) = pair_faults r + (if pair_clean p then 0 else 1)"
    and "same_but_faults r0 r \<Longrightarrow> same_but_faults r0 (snd (close_pair secs (i, p) (e, r)))"
    and "fst (close_pair secs (i, p) (e, r)) = fst (close_pair secs (i, p) (e, r'))"
  by (auto simp: close_pair_def pair_faults_def pair_clean_def same_but_faults_def split: option.splits)

lemma close_pairs:
  "pair_faults (snd (fold (close_pair secs) ps (e, r))) = pair_faults r + length (filter (\<lambda>(_, p). \<not> pair_clean p) ps) \<and>
   (same_but_faults r0 r \<longrightarrow> same_but_faults r0 (snd (fold (close_pair secs) ps (e, r)))) \<and>
   fst (fold (close_pair secs) ps (e, r)) = fst (fold (close_pair secs) ps (e, r'))"
proof (induction ps arbitrary: e r r')
  case (Cons ip ps)
  obtain i p where ip: "ip = (i, p)" by force
  obtain e1 r1 where c: "close_pair secs (i, p) (e, r) = (e1, r1)" by force
  obtain e2 r2 where c': "close_pair secs (i, p) (e, r') = (e2, r2)" by force
  have e: "e2 = e1" using close_pair(3) [of secs i p e r r'] c c' by simp
  have "pair_faults r1 = pair_faults r + (if pair_clean p then 0 else 1)" "same_but_faults r0 r \<Longrightarrow> same_but_faults r0 r1"
    using close_pair(1) [of secs i p e r] close_pair(2) [of r0 r secs i p e] c by simp_all
  then show ?case using Cons.IH [of e1 r1 r2] c c' by (simp add: ip e)
qed simp

lemma pair_external_records:
  fixes secs :: "'f \<Rightarrow> int"
  shows "fst (pair_external_records secs records r) = fst (pair_external_records secs records report_default)"
    "same_but_faults r (snd (pair_external_records secs records r))"
    "pair_faults (snd (pair_external_records secs records r)) = 0 \<longleftrightarrow> pair_faults r = 0 \<and> well_paired records"
    "sorted (map xc_started (fst (pair_external_records secs records r)))"
proof -
  let ?ps = "fold add_record records [] :: (string \<times> 'f external_pair) list"
  show "fst (pair_external_records secs records r) = fst (pair_external_records secs records report_default)"
    using close_pairs [of secs ?ps "[]" r r report_default] by (simp add: pair_external_records_def case_prod_beta)
  show "same_but_faults r (snd (pair_external_records secs records r))"
    using close_pairs [of secs ?ps "[]" r r r] by (simp add: pair_external_records_def case_prod_beta same_but_faults_def)
  have clean: "pair_clean p \<longleftrightarrow> pair_ok (filter (\<lambda>r. ar_id r = i) records)" if "(i, p) \<in> set ?ps" for i p
  proof -
    let ?rs = "filter (\<lambda>r. ar_id r = i) records"
    have "map_of ?ps i = Some p" using that fold_add_record_distinct [of "[]" records] by (simp add: map_of_eq_Some_iff)
    then have i: "i \<in> ar_id ` set records" and p: "p = fold pair_record ?rs pair_new"
      by (simp_all add: fold_add_record split: if_splits)
    obtain rec where "rec \<in> set ?rs" using i by auto
    then have "\<not> xp_duplicate p \<longrightarrow> xp_request p \<noteq> None \<or> xp_terminal p \<noteq> None"
      unfolding p pair_fold by (auto simp: filter_empty_conv split: if_splits)
    then show ?thesis unfolding pair_ok_iff p [symmetric] Let_def pair_clean_def by (auto split: option.splits)
  qed
  have dom: "fst ` set ?ps = ar_id ` set records"
  proof -
    have "dom (map_of ?ps) = ar_id ` set records" by (auto simp: dom_def fold_add_record)
    then show ?thesis by (simp add: dom_map_of_conv_image_fst)
  qed
  have "(\<forall>(i, p)\<in>set ?ps. pair_clean p) \<longleftrightarrow> (\<forall>(i, p)\<in>set ?ps. pair_ok (filter (\<lambda>r. ar_id r = i) records))"
    using clean by fastforce
  also have "\<dots> \<longleftrightarrow> well_paired records" unfolding well_paired_def dom [symmetric] by auto
  finally have "length (filter (\<lambda>(_, p). \<not> pair_clean p) ?ps) = 0 \<longleftrightarrow> well_paired records"
    by (auto simp: filter_empty_conv)
  then show "pair_faults (snd (pair_external_records secs records r)) = 0 \<longleftrightarrow> pair_faults r = 0 \<and> well_paired records"
    using close_pairs [of secs ?ps "[]" r r r] by (simp add: pair_external_records_def case_prod_beta)
  have "sorted (map xc_started xs)" if "sorted (map (\<lambda>c. (xc_started c, xc_id c)) xs)" for xs
    using that by (induction xs) (auto simp: less_eq_prod_def)
  from this [OF sorted_sort_key] show "sorted (map xc_started (fst (pair_external_records secs records r)))"
    by (simp add: pair_external_records_def case_prod_beta)
qed

lemma internal_lines:
  "fst (fold (internal_line decode) ls (xs, r)) = fst (fold (internal_line decode) ls (xs, r')) \<and>
   (vr_internal_invalid (snd (fold (internal_line decode) ls (xs, r))) \<longleftrightarrow>
      vr_internal_invalid r \<or> vr_internal_invalid (snd (fold (internal_line decode) ls (xs, report_default)))) \<and>
   (\<exists>b. snd (fold (internal_line decode) ls (xs, r)) = r\<lparr>vr_internal_invalid := b\<rparr>)"
proof -
  have one: "\<exists>bad zs. \<forall>r :: verify_report. internal_line decode l (xs, r) = (zs, if bad then r\<lparr>vr_internal_invalid := True\<rparr> else r)"
    for l and xs :: "internal_call list"
  proof (cases "decode l")
    case None
    then show ?thesis by (intro exI [of _ True] exI [of _ xs]) (simp add: internal_line_def)
  next
    case (Some e)
    have "?thesis" if "\<not> ce_cache_hit e" "ce_body_sha256 e = Some sha" for sha
      using Some that
      by (intro exI [of _ "sha = []"] exI [of _ "if sha = [] then xs else xs @ [\<lparr>ic_call_id = ce_call_id e, ic_sha = sha, ic_started = ce_started_unix e\<rparr>]"])
        (simp add: internal_line_def)
    moreover have "?thesis" if "\<not> ce_cache_hit e" "ce_body_sha256 e = None"
      using Some that by (intro exI [of _ "ce_provider e = ''minimax''"] exI [of _ xs]) (simp add: internal_line_def)
    moreover have "?thesis" if "ce_cache_hit e"
      using Some that by (intro exI [of _ False] exI [of _ xs]) (simp add: internal_line_def)
    ultimately show ?thesis by fast
  qed
  have "\<exists>bad zs. \<forall>r :: verify_report. fold (internal_line decode) ls (xs, r) = (zs, if bad then r\<lparr>vr_internal_invalid := True\<rparr> else r)"
  proof (induction ls arbitrary: xs)
    case (Cons l ls)
    obtain bad ys where 1: "\<And>r :: verify_report. internal_line decode l (xs, r) = (ys, if bad then r\<lparr>vr_internal_invalid := True\<rparr> else r)"
      using one by meson
    obtain bad' zs where 2: "\<And>r :: verify_report. fold (internal_line decode) ls (ys, r) = (zs, if bad' then r\<lparr>vr_internal_invalid := True\<rparr> else r)"
      using Cons.IH by meson
    show ?case using 1 2 by (intro exI [of _ "bad \<or> bad'"] exI [of _ zs]) simp
  qed (auto intro!: exI [of _ False])
  then obtain bad zs where *: "\<And>r :: verify_report. fold (internal_line decode) ls (xs, r) = (zs, if bad then r\<lparr>vr_internal_invalid := True\<rparr> else r)"
    by meson
  have "\<exists>b. r = r\<lparr>vr_internal_invalid := b\<rparr>" by (rule exI [of _ "vr_internal_invalid r"]) simp
  moreover have "\<exists>b. r\<lparr>vr_internal_invalid := True\<rparr> = r\<lparr>vr_internal_invalid := b\<rparr>" by blast
  ultimately show ?thesis unfolding * by (cases bad) (simp_all add: report_default_def)
qed

lemma parse_internal_calls:
  shows "fst (parse_internal_calls decode text r) = fst (parse_internal_calls decode text report_default)"
    "vr_internal_invalid (snd (parse_internal_calls decode text r)) \<longleftrightarrow>
       vr_internal_invalid r \<or> vr_internal_invalid (snd (parse_internal_calls decode text report_default))"
    "\<exists>b. snd (parse_internal_calls decode text r) = r\<lparr>vr_internal_invalid := b\<rparr>"
    "sorted (map ic_started (fst (parse_internal_calls decode text r)))"
proof -
  let ?ls = "filter (\<lambda>l. l \<noteq> []) (lines_of text)"
  note * = internal_lines [of decode ?ls "[]" r report_default]
  show "fst (parse_internal_calls decode text r) = fst (parse_internal_calls decode text report_default)"
    "vr_internal_invalid (snd (parse_internal_calls decode text r)) \<longleftrightarrow>
       vr_internal_invalid r \<or> vr_internal_invalid (snd (parse_internal_calls decode text report_default))"
    "\<exists>b. snd (parse_internal_calls decode text r) = r\<lparr>vr_internal_invalid := b\<rparr>"
    using * by (simp_all add: parse_internal_calls_def case_prod_beta)
  have "sorted (map ic_started xs)" if "sorted (map (\<lambda>c. (ic_started c, ic_call_id c)) xs)" for xs
    using that by (induction xs) (auto simp: less_eq_prod_def)
  from this [OF sorted_sort_key] show "sorted (map ic_started (fst (parse_internal_calls decode text r)))"
    by (simp add: parse_internal_calls_def case_prod_beta)
qed

lemma report_ok_iff:
  "report_summary r = ''ok'' \<longleftrightarrow> \<not> vr_audit_missing r \<and> \<not> vr_internal_missing r \<and> \<not> vr_internal_invalid r \<and>
     pair_faults r = 0 \<and> vr_body_mismatch r = 0 \<and> vr_unmatched_internal r = 0 \<and> vr_unmatched_external r = 0"
  by (auto simp: report_summary_def pair_faults_def)

text \<open>The greedy matching leaves nothing over exactly when there is a one-to-one correspondence.\<close>

lemma agree_iff:
  assumes sorted: "sorted (map xc_started external)" "sorted (map ic_started internal)"
    and zero: "vr_body_mismatch r = 0" "vr_unmatched_internal r = 0" "vr_unmatched_external r = 0"
  shows "vr_body_mismatch (match_calls external internal r) = 0 \<and> vr_unmatched_internal (match_calls external internal r) = 0 \<and>
    vr_unmatched_external (match_calls external internal r) = 0 \<longleftrightarrow> agree external internal"
  (is "?L \<longleftrightarrow> _")
proof
  obtain ps qs eu iu eu' iu' where m: "matched same_call external internal ps (eu, iu)"
    "match_calls external internal r = r\<lparr>vr_match := vr_match r + length ps, vr_body_mismatch := vr_body_mismatch r + length qs,
       vr_unmatched_external := vr_unmatched_external r + (length external - length (ps @ qs)),
       vr_unmatched_internal := vr_unmatched_internal r + (length internal - length (ps @ qs))\<rparr>"
    using match_calls [of external internal r] by blast
  assume ?L
  then have "length qs = 0 \<and> length external - length (ps @ qs) = 0 \<and> length internal - length (ps @ qs) = 0" unfolding m(2) by auto
  then have "length external \<le> length ps" "length internal \<le> length ps" by auto
  then have len: "length ps = length external" "length ps = length internal" using matched_count [OF m(1)] by linarith+
  have d: "distinct (map fst ps)" "distinct (map snd ps)"
    and rng: "\<And>i j. (i, j) \<in> set ps \<Longrightarrow> i < length ps \<and> j < length ps \<and> same_call (external ! i) (internal ! j)"
    using m(1) len by (auto simp: matched_def)
  have full: "set (map f ps) = {..<length ps}" if "distinct (map f ps)" "set (map f ps) \<subseteq> {..<length ps}" for f :: "nat \<times> nat \<Rightarrow> nat"
    using that(2) distinct_card [OF that(1)] by (intro card_subset_eq) simp_all
  have f: "set (map fst ps) = {..<length ps}" by (rule full [OF d(1)]) (use rng in auto)
  have s: "set (map snd ps) = {..<length ps}" by (rule full [OF d(2)]) (use rng in auto)
  let ?\<pi> = "\<lambda>i. the (map_of ps i)"
  have val: "?\<pi> i = j" if "(i, j) \<in> set ps" for i j using that d(1) by simp
  have "bij_betw ?\<pi> {..<length ps} {..<length ps}"
  proof (rule bij_betw_imageI)
    show "inj_on ?\<pi> {..<length ps}"
    proof (rule inj_onI)
      fix a b
      assume "a \<in> {..<length ps}" "b \<in> {..<length ps}" and eq: "?\<pi> a = ?\<pi> b"
      then have "a \<in> fst ` set ps" "b \<in> fst ` set ps" using f by simp_all
      then obtain x y where xy: "(a, x) \<in> set ps" "(b, y) \<in> set ps" by auto
      then have "x = y" using eq val by simp
      then have "(a, x) = (b, y)" using d(2) xy inj_onD [of snd "set ps" "(a, x)" "(b, y)"] by (simp add: distinct_map)
      then show "a = b" by simp
    qed
    have "?\<pi> ` {..<length ps} = ?\<pi> ` fst ` set ps" using f by simp
    also have "\<dots> = snd ` set ps" using val by (force simp: image_image)
    finally show "?\<pi> ` {..<length ps} = {..<length ps}" using s by simp
  qed
  moreover have "same_call (external ! i) (internal ! ?\<pi> i)" if i: "i < length ps" for i
  proof -
    have "i \<in> fst ` set ps" using f i by auto
    then obtain j where "(i, j) \<in> set ps" by auto
    then show ?thesis using rng val by auto
  qed
  ultimately show "agree external internal" using len unfolding agree_def by auto
next
  assume "agree external internal"
  then obtain \<pi> where len: "length internal = length external"
    and bij: "bij_betw \<pi> {..<length external} {..<length external}"
    and same: "\<And>i. i < length external \<Longrightarrow> same_call (external ! i) (internal ! \<pi> i)" by (auto simp: agree_def)
  let ?n = "length external"
  obtain eu iu where ex: "fold (exact_step external internal) [0..<?n] (replicate ?n False, replicate ?n False, 0) = (eu, iu, ?n)"
    using exact_complete [OF refl len sorted bij same order.refl] by blast
  have idx: "distinct [0..<?n]" "set [0..<?n] \<subseteq> {..<?n}" "set [0..<?n] \<inter> fst ` set ([] :: (nat \<times> nat) list) = {}" by auto
  from exact_fold [OF idx matched_none, where n = 0 and internal = internal] obtain ps eu1 iu1 where
    ps: "fold (exact_step external internal) [0..<?n] (replicate ?n False, replicate ?n False, 0) = (eu1, iu1, length ps)"
    "matched same_call external internal ps (eu1, iu1)" using len by auto
  have n: "length ps = ?n" "eu1 = eu" "iu1 = iu" using ps(1) ex by simp_all
  have all: "filter Not eu = []" "filter Not iu = []" using matched_count [OF ps(2)] n len by simp_all
  then have "eu ! i" if "i < length eu" for i using that by (auto simp: filter_empty_conv)
  moreover have "length eu = ?n" using ps(2) n by (simp add: matched_def)
  ultimately have "fold (mismatch_step external internal) [0..<?n] (eu, iu, 0) = (eu, iu, 0)"
    by (intro fold_invariant [where Q = "\<lambda>i. i < ?n" and P = "\<lambda>s. s = (eu, iu, 0)"]) (auto simp: mismatch_step_def)
  then show ?L using ex all len zero by (simp add: match_calls_def)
qed

lemma verify_texts:
  fixes io :: "'n json_io" and decode :: "string \<Rightarrow> 'f audit_record option"
  defines "records text \<equiv> List.map_filter decode (filter (\<lambda>l. l \<noteq> []) (lines_of text))"
  assumes "\<And>e. db \<noteq> Some (Inl e)"
  shows "\<exists>r. verify_inner io decode secs decode_call (File_Text a) (File_Text c) db = Inr r \<and>
    (report_summary r = ''ok'' \<longleftrightarrow>
       fst (count_invalid_crcs io a) = 0 \<and> well_paired (records a) \<and>
       \<not> vr_internal_invalid (snd (parse_internal_calls decode_call c report_default)) \<and>
       agree (fst (pair_external_records secs (records a) report_default)) (fst (parse_internal_calls decode_call c report_default)) \<and>
       (case db of Some (Inr rows) \<Rightarrow> compare_rows rows (fst (parse_internal_calls decode_call c report_default)) = 0 | _ \<Rightarrow> True))"
proof -
  let ?r0 = "report_default\<lparr>vr_crc_invalid := fst (count_invalid_crcs io a)\<rparr>"
  obtain external r1 where e: "pair_external_records secs (records a) ?r0 = (external, r1)" by force
  obtain internal r2 where i: "parse_internal_calls decode_call c r1 = (internal, r2)" by force
  note E = pair_external_records [where secs = secs and records = "records a" and r = ?r0, unfolded e fst_conv snd_conv]
  note I = parse_internal_calls [of decode_call c r1, unfolded i fst_conv snd_conv]
  let ?n = "case db of Some (Inr rows) \<Rightarrow> compare_rows rows internal | _ \<Rightarrow> 0"
  let ?r3 = "match_calls external internal r2"
  have r1: "\<not> vr_internal_invalid r1" using E(2) by (simp add: same_but_faults_def report_default_def)
  have n: "(case db of None \<Rightarrow> Inr 0 | Some rows \<Rightarrow> rbind rows (\<lambda>rs. Inr (compare_rows rs internal))) = (Inr ?n :: nat result)"
    using assms(2) by (cases db) (auto split: sum.splits)
  have v: "verify_inner io decode secs decode_call (File_Text a) (File_Text c) db =
      (if vr_internal_invalid r2 then Inr r2 else Inr (?r3\<lparr>vr_unmatched_internal := vr_unmatched_internal ?r3 + ?n\<rparr>))"
    unfolding verify_inner_def file_text.case Let_def records_def [symmetric] e i prod.case n by simp
  show ?thesis
  proof (cases "vr_internal_invalid r2")
    case True
    then have "report_summary r2 \<noteq> ''ok''" by (simp add: report_ok_iff)
    then show ?thesis using True v I(2) r1 by simp
  next
    case False
    obtain b where b: "r2 = r1\<lparr>vr_internal_invalid := b\<rparr>" using I(3) by blast
    have z: "vr_body_mismatch r2 = 0" "vr_unmatched_internal r2 = 0" "vr_unmatched_external r2 = 0"
      "\<not> vr_audit_missing r2" "\<not> vr_internal_missing r2" "pair_faults r2 = pair_faults r1"
      using E(2) by (simp_all add: b same_but_faults_def report_default_def pair_faults_def)
    have keep: "vr_audit_missing ?r3 = vr_audit_missing r2 \<and> vr_internal_missing ?r3 = vr_internal_missing r2 \<and>
        vr_internal_invalid ?r3 = vr_internal_invalid r2 \<and> pair_faults ?r3 = pair_faults r2"
      by (simp add: match_calls_def Let_def case_prod_beta pair_faults_def)
    have pf: "pair_faults r2 = 0 \<longleftrightarrow> fst (count_invalid_crcs io a) = 0 \<and> well_paired (records a)"
      using E(3) unfolding z(6) by (simp add: pair_faults_def report_default_def)
    have ag: "vr_body_mismatch ?r3 = 0 \<and> vr_unmatched_internal ?r3 = 0 \<and> vr_unmatched_external ?r3 = 0 \<longleftrightarrow> agree external internal"
      by (rule agree_iff [OF E(4) I(4) z(1-3)])
    have "report_summary (?r3\<lparr>vr_unmatched_internal := vr_unmatched_internal ?r3 + ?n\<rparr>) = ''ok'' \<longleftrightarrow>
        fst (count_invalid_crcs io a) = 0 \<and> well_paired (records a) \<and> agree external internal \<and> ?n = 0"
      using False keep z(4,5) ag pf by (auto simp: report_ok_iff pair_faults_def)
    moreover have "?n = 0 \<longleftrightarrow> (case db of Some (Inr rows) \<Rightarrow> compare_rows rows internal = 0 | _ \<Rightarrow> True)"
      by (auto split: option.splits sum.splits)
    ultimately show ?thesis using False v I(2) r1 unfolding E(1) [symmetric] I(1) [symmetric] by simp
  qed
qed

lemma verify_no_text:
  "verify_inner io decode secs decode_call audit calls db = Inr r \<Longrightarrow>
   report_summary r = ''ok'' \<Longrightarrow> \<exists>a c. audit = File_Text a \<and> calls = File_Text c"
  by (cases audit; cases calls)
    (auto simp: verify_inner_def report_ok_iff pair_faults_def report_default_def case_prod_beta Let_def)

text \<open>C24: The comparison of the proxy's records with the program's calls answers ok exactly when both files
  are readable, every line of the audit file has its checksum, every call in it is one request
  with a hash and one answer, every line of the calls file is valid, some one-to-one correspondence
  of the two lists has equal hashes and times at most a second apart, and the rows of the
  database agree. The greedy matching never misses such a correspondence.\<close>

theorem audit_ok_iff:
  "(\<exists>r. verify_inner io decode secs decode_call audit calls db = Inr r \<and> report_summary r = ''ok'') \<longleftrightarrow>
   (\<exists>a c. audit = File_Text a \<and> calls = File_Text c \<and>
      (let records = List.map_filter decode (filter (\<lambda>l. l \<noteq> []) (lines_of a));
           external = fst (pair_external_records secs records report_default);
           (internal, r) = parse_internal_calls decode_call c report_default
       in fst (count_invalid_crcs io a) = 0 \<and> well_paired records \<and> \<not> vr_internal_invalid r \<and> agree external internal \<and>
          (case db of None \<Rightarrow> True | Some (Inl _) \<Rightarrow> False | Some (Inr rows) \<Rightarrow> compare_rows rows internal = 0)))"
  (is "?L \<longleftrightarrow> ?R")
proof (cases "\<exists>a c. audit = File_Text a \<and> calls = File_Text c")
  case True
  then obtain a c where t: "audit = File_Text a" "calls = File_Text c" by blast
  show ?thesis
  proof (cases "\<exists>e. db = Some (Inl e)")
    case True
    then obtain e where "db = Some (Inl e)" ..
    then show ?thesis unfolding t
      by (auto simp: verify_inner_def Let_def case_prod_beta report_ok_iff)
  next
    case False
    have db: "(case db of None \<Rightarrow> True | Some (Inl _) \<Rightarrow> False | Some (Inr rows) \<Rightarrow> Q rows) \<longleftrightarrow>
        (case db of Some (Inr rows) \<Rightarrow> Q rows | _ \<Rightarrow> True)" for Q :: "call_row list \<Rightarrow> bool"
      using False by (auto split: option.splits sum.splits)
    show ?thesis
      using verify_texts [of db io decode secs decode_call a c] False
      unfolding t db by (auto simp: Let_def case_prod_beta)
  qed
next
  case False
  then show ?thesis using verify_no_text by blast
qed

text \<open>A live call whose row has no hash is a discrepancy with the database, although the reader of the calls file skips such calls.\<close>

lemma hashless_row_is_discrepancy:
  "row \<in> set rows \<Longrightarrow> cr_cache_hit row = 0 \<Longrightarrow> cr_body_sha256 row = None \<Longrightarrow> 0 < compare_rows rows internal"
  by (auto simp: compare_rows_def Let_def filter_empty_conv split: option.splits)

end
