(* ===== verification/Pareto.thy ===== *)
theory Pareto imports Errors begin

text \<open>
  Quality vectors, dominance, the Pareto front (\<open>src/ranking/pareto.rs\<close>) and the test
  whether a synthesis replaces its sources (\<open>src/phases/replace.rs\<close>). Floating-point numbers are
  an abstract type with the operations the code calls; that no operand is a NaN is a hypothesis
  (\<open>float_order\<close>) where it is needed.
\<close>

section \<open>Floats\<close>

record 'q floats =
  fl_less :: "'q \<Rightarrow> 'q \<Rightarrow> bool"
  fl_eq :: "'q \<Rightarrow> 'q \<Rightarrow> bool"
  fl_add :: "'q \<Rightarrow> 'q \<Rightarrow> 'q"
  fl_sub :: "'q \<Rightarrow> 'q \<Rightarrow> 'q"
  fl_mul :: "'q \<Rightarrow> 'q \<Rightarrow> 'q"
  fl_div :: "'q \<Rightarrow> 'q \<Rightarrow> 'q"
  fl_abs :: "'q \<Rightarrow> 'q"
  fl_of_nat :: "nat \<Rightarrow> 'q"
  fl_neg_inf :: "'q"

abbreviation fl_zero :: "'q floats \<Rightarrow> 'q" where
  "fl_zero fl \<equiv> fl_of_nat fl 0"

text \<open>Without NaN, the comparison is a strict weak order (the two zeros are equal and different).\<close>

definition float_order :: "'q floats \<Rightarrow> bool" where
  "float_order fl \<longleftrightarrow> (\<forall>x y. fl_less fl x y \<longrightarrow> \<not> fl_less fl y x) \<and>
     (\<forall>x y z. fl_less fl x z \<longrightarrow> fl_less fl x y \<or> fl_less fl y z) \<and>
     (\<forall>x y. fl_eq fl x y \<longleftrightarrow> \<not> fl_less fl x y \<and> \<not> fl_less fl y x)"

text \<open>\<open>partial_cmp(..).unwrap_or(Equal)\<close>, and the combination \<open>then\<close>.\<close>

datatype ordering = Less | Equal | Greater

definition fl_cmp :: "'q floats \<Rightarrow> 'q \<Rightarrow> 'q \<Rightarrow> ordering" where
  "fl_cmp fl x y = (if fl_less fl x y then Less else if fl_less fl y x then Greater else Equal)"

fun cmp_then :: "ordering \<Rightarrow> ordering \<Rightarrow> ordering" where
  "cmp_then Equal b = b"
| "cmp_then a b = a"

fun cmp_reverse :: "ordering \<Rightarrow> ordering" where
  "cmp_reverse Less = Greater"
| "cmp_reverse Equal = Equal"
| "cmp_reverse Greater = Less"

text \<open>\<open>f32::max\<close> returns the other operand when one is a NaN; a NaN is not equal to itself.\<close>

definition fl_max :: "'q floats \<Rightarrow> 'q \<Rightarrow> 'q \<Rightarrow> 'q" where
  "fl_max fl x y = (if \<not> fl_eq fl x x then y else if fl_less fl x y then y else x)"

text \<open>\<open>sort_by\<close> is stable: an element goes before the first one that is greater.\<close>

fun insert_by :: "('a \<Rightarrow> 'a \<Rightarrow> ordering) \<Rightarrow> 'a \<Rightarrow> 'a list \<Rightarrow> 'a list" where
  "insert_by cmp x [] = [x]"
| "insert_by cmp x (y # ys) = (if cmp x y = Greater then y # insert_by cmp x ys else x # y # ys)"

definition sort_by :: "('a \<Rightarrow> 'a \<Rightarrow> ordering) \<Rightarrow> 'a list \<Rightarrow> 'a list" where
  "sort_by cmp xs = foldr (insert_by cmp) xs []"

section \<open>Dominance\<close>

record 'q quality =
  qv_correctness :: "'q"
  qv_completeness :: "'q"
  qv_fit :: "'q"
  qv_evidence :: "'q"
  qv_clarity :: "'q"

definition qv_dims :: "'q quality \<Rightarrow> 'q list" where
  "qv_dims v = [qv_correctness v, qv_completeness v, qv_fit v, qv_evidence v, qv_clarity v]"

fun dominance_loop :: "'q floats \<Rightarrow> ('q \<times> 'q) list \<Rightarrow> bool \<Rightarrow> bool" where
  "dominance_loop fl [] any_gt = any_gt"
| "dominance_loop fl ((a, b) # rest) any_gt =
     (if fl_less fl a b then False else dominance_loop fl rest (any_gt \<or> fl_less fl b a))"

definition dominates :: "'q floats \<Rightarrow> 'q quality \<Rightarrow> 'q quality \<Rightarrow> bool" where
  "dominates fl a b = dominance_loop fl (zip (qv_dims a) (qv_dims b)) False"

section \<open>The front\<close>

fun front_inner :: "('v \<Rightarrow> 'v \<Rightarrow> bool) \<Rightarrow> 'v list \<Rightarrow> nat \<Rightarrow> nat list \<Rightarrow> nat option list \<Rightarrow> nat option list" where
  "front_inner better vs i [] marks = marks"
| "front_inner better vs i (j # js) marks =
     (if marks ! j \<noteq> None then front_inner better vs i js marks
      else if better (vs ! i) (vs ! j) then front_inner better vs i js (marks[j := Some i])
      else if better (vs ! j) (vs ! i) then marks[i := Some j]
      else front_inner better vs i js marks)"

definition front_outer :: "('v \<Rightarrow> 'v \<Rightarrow> bool) \<Rightarrow> 'v list \<Rightarrow> nat \<Rightarrow> nat option list \<Rightarrow> nat option list" where
  "front_outer better vs i marks =
     (if marks ! i \<noteq> None then marks else front_inner better vs i [i + 1..<length vs] marks)"

definition pareto_front :: "'q floats \<Rightarrow> 'q quality list \<Rightarrow> nat list" where
  "pareto_front fl vs =
     (let marks = fold (front_outer (dominates fl) vs) [0..<length vs] (replicate (length vs) None)
      in filter (\<lambda>i. marks ! i = None) [0..<length vs])"

section \<open>Replacing the sources of a synthesis\<close>

definition best_source :: "'q floats \<Rightarrow> 'q quality list \<Rightarrow> nat \<Rightarrow> 'q" where
  "best_source fl sources i = fold (\<lambda>v acc. fl_max fl acc (qv_dims v ! i)) sources (fl_neg_inf fl)"

definition should_replace_synthesis :: "'q floats \<Rightarrow> 'q quality \<Rightarrow> 'q quality list \<Rightarrow> bool" where
  "should_replace_synthesis fl syn sources =
     (if sources = [] then False
      else (let best = length (filter (\<lambda>i. fl_less fl (best_source fl sources i) (qv_dims syn ! i)) [0..<5]);
                dominated = (\<exists>v\<in>set sources. dominates fl v syn)
            in 2 \<le> best \<and> \<not> dominated))"

section \<open>Sorting\<close>

lemma insert_by_set [simp]: "set (insert_by cmp x ys) = insert x (set ys)"
  by (induction ys) auto

lemma insert_by_mset [simp]: "length (insert_by cmp x ys) = Suc (length ys)"
  by (induction ys) auto

lemma insert_by_distinct: "distinct (insert_by cmp x ys) \<longleftrightarrow> x \<notin> set ys \<and> distinct ys"
  by (induction ys) auto

lemma sort_by [simp]:
  "set (sort_by cmp xs) = set xs" "length (sort_by cmp xs) = length xs" "distinct (sort_by cmp xs) = distinct xs"
  by (induction xs) (simp_all add: sort_by_def insert_by_distinct)

text \<open>With a total preorder the result is in order.\<close>

definition cmp_order :: "('a \<Rightarrow> 'a \<Rightarrow> ordering) \<Rightarrow> bool" where
  "cmp_order cmp \<longleftrightarrow> (\<forall>x y. cmp x y = Greater \<longrightarrow> cmp y x \<noteq> Greater) \<and>
     (\<forall>x y z. cmp x y \<noteq> Greater \<longrightarrow> cmp y z \<noteq> Greater \<longrightarrow> cmp x z \<noteq> Greater)"

lemma insert_by_sorted:
  assumes "cmp_order cmp" "sorted_wrt (\<lambda>x y. cmp x y \<noteq> Greater) ys"
  shows "sorted_wrt (\<lambda>x y. cmp x y \<noteq> Greater) (insert_by cmp x ys)"
  using assms(2)
proof (induction ys)
  case (Cons y ys)
  have total: "cmp x y = Greater \<Longrightarrow> cmp y x \<noteq> Greater"
    and trans: "cmp x y \<noteq> Greater \<Longrightarrow> cmp y z \<noteq> Greater \<Longrightarrow> cmp x z \<noteq> Greater" for z
    using assms(1) unfolding cmp_order_def by blast+
  have tl: "sorted_wrt (\<lambda>x y. cmp x y \<noteq> Greater) ys" "\<And>z. z \<in> set ys \<Longrightarrow> cmp y z \<noteq> Greater" using Cons.prems by auto
  show ?case
  proof (cases "cmp x y = Greater")
    case True
    then show ?thesis using Cons.IH [OF tl(1)] tl(2) total by auto
  next
    case False
    then show ?thesis using tl trans [OF False] by auto
  qed
qed simp

lemma sort_by_sorted: "cmp_order cmp \<Longrightarrow> sorted_wrt (\<lambda>x y. cmp x y \<noteq> Greater) (sort_by cmp xs)"
  by (induction xs) (simp_all add: sort_by_def insert_by_sorted)

lemma fl_cmp_order:
  assumes "float_order fl"
  shows "cmp_order (\<lambda>x y. fl_cmp fl (f x) (f y))" "cmp_order (\<lambda>x y. fl_cmp fl (f y) (f x))"
proof -
  have asym: "fl_less fl x y \<Longrightarrow> \<not> fl_less fl y x" and neg: "fl_less fl x z \<Longrightarrow> fl_less fl x y \<or> fl_less fl y z" for x y z
    using assms unfolding float_order_def by blast+
  have g: "fl_cmp fl a b = Greater \<longleftrightarrow> fl_less fl b a" for a b using asym by (auto simp: fl_cmp_def)
  show "cmp_order (\<lambda>x y. fl_cmp fl (f x) (f y))" "cmp_order (\<lambda>x y. fl_cmp fl (f y) (f x))"
    unfolding cmp_order_def g using asym neg by blast+
qed

section \<open>Dominance as a strict order\<close>

lemma dominance_loop:
  "dominance_loop fl ps any_gt \<longleftrightarrow> (\<forall>(a, b)\<in>set ps. \<not> fl_less fl a b) \<and> (any_gt \<or> (\<exists>(a, b)\<in>set ps. fl_less fl b a))"
  by (induction fl ps any_gt rule: dominance_loop.induct) auto

lemma qv_dims_nth: "qv_dims v ! 0 = qv_correctness v" "qv_dims v ! 1 = qv_completeness v" "qv_dims v ! 2 = qv_fit v"
    "qv_dims v ! 3 = qv_evidence v" "qv_dims v ! 4 = qv_clarity v" "length (qv_dims v) = 5"
  by (simp_all add: qv_dims_def)

lemma dims_below: "{..<5 :: nat} = {0, 1, 2, 3, 4}"
  by auto

lemma all_dims: "(\<forall>i<5. P i) \<longleftrightarrow> P 0 \<and> P 1 \<and> P 2 \<and> P 3 \<and> P (4 :: nat)"
proof -
  have "(\<forall>i<5. P i) \<longleftrightarrow> (\<forall>i\<in>{..<5}. P i)" by auto
  then show ?thesis unfolding dims_below by simp
qed

lemma ex_dims: "(\<exists>i<5. P i) \<longleftrightarrow> P 0 \<or> P 1 \<or> P 2 \<or> P 3 \<or> P (4 :: nat)"
  using all_dims [of "\<lambda>i. \<not> P i"] by blast

lemma dominates_iff:
  "dominates fl a b \<longleftrightarrow> (\<forall>i<5. \<not> fl_less fl (qv_dims a ! i) (qv_dims b ! i)) \<and> (\<exists>i<5. fl_less fl (qv_dims b ! i) (qv_dims a ! i))"
  unfolding dominates_def dominance_loop all_dims ex_dims by (simp add: qv_dims_def)

lemma dominates_irrefl: "float_order fl \<Longrightarrow> \<not> dominates fl a a"
  unfolding dominates_iff float_order_def by blast

lemma dominates_trans:
  assumes "float_order fl" "dominates fl a b" "dominates fl b c"
  shows "dominates fl a c"
proof -
  have neg: "fl_less fl x z \<Longrightarrow> fl_less fl x y \<or> fl_less fl y z" for x y z
    using assms(1) unfolding float_order_def by blast
  obtain i where i: "i < 5" "fl_less fl (qv_dims b ! i) (qv_dims a ! i)" using assms(2) unfolding dominates_iff by blast
  have "\<not> fl_less fl (qv_dims b ! i) (qv_dims c ! i)" using assms(3) i(1) unfolding dominates_iff by blast
  then have "fl_less fl (qv_dims c ! i) (qv_dims a ! i)" using neg [OF i(2), of "qv_dims c ! i"] by blast
  moreover have "\<not> fl_less fl (qv_dims a ! k) (qv_dims c ! k)" if "k < 5" for k
    using assms(2,3) that neg [of "qv_dims a ! k" "qv_dims c ! k" "qv_dims b ! k"] unfolding dominates_iff by blast
  ultimately show ?thesis using i(1) unfolding dominates_iff by blast
qed

section \<open>The front is what nothing dominates\<close>

lemma front_inner:
  assumes "length marks = length vs" "i < length vs" "i \<notin> set js" "set js \<subseteq> {..<length vs}" "marks ! i = None"
  shows "let out = front_inner better vs i js marks in length out = length vs \<and>
    (\<forall>k. out ! k = None \<longrightarrow> marks ! k = None) \<and>
    (\<forall>k<length vs. out ! k \<noteq> None \<longrightarrow> marks ! k \<noteq> None \<or> (\<exists>j<length vs. better (vs ! j) (vs ! k))) \<and>
    (out ! i = None \<longrightarrow> (\<forall>j\<in>set js. out ! j = None \<longrightarrow> \<not> better (vs ! i) (vs ! j) \<and> \<not> better (vs ! j) (vs ! i))) \<and>
    (\<exists>k<length vs. out ! k = None)"
  using assms(1,3-5) unfolding Let_def
proof (induction js arbitrary: marks)
  case Nil
  then show ?case using assms(2) by auto
next
  case (Cons j js)
  then have j: "j < length vs" "i \<noteq> j" "i \<notin> set js" "set js \<subseteq> {..<length vs}" by auto
  consider "marks ! j \<noteq> None" | "marks ! j = None" "better (vs ! i) (vs ! j)"
    | "marks ! j = None" "\<not> better (vs ! i) (vs ! j)" "better (vs ! j) (vs ! i)"
    | "marks ! j = None" "\<not> better (vs ! i) (vs ! j)" "\<not> better (vs ! j) (vs ! i)" by blast
  then show ?case
  proof cases
    case 1
    then show ?thesis using Cons.IH [OF Cons.prems(1) j(3,4) Cons.prems(4)] by auto
  next
    case 2
    let ?m = "marks[j := Some i]"
    have m: "length ?m = length vs" "?m ! i = None" using Cons.prems(1,4) j(2) by simp_all
    have eq: "?m ! k = None \<longleftrightarrow> marks ! k = None \<and> k \<noteq> j" for k
      using j(1) Cons.prems(1) by (auto simp: nth_list_update)
    have out: "front_inner better vs i (j # js) marks = front_inner better vs i js ?m" using 2 by simp
    show ?thesis unfolding out using Cons.IH [OF m(1) j(3,4) m(2)] eq 2 assms(2) by (smt (verit) set_ConsD)
  next
    case 3
    have out: "front_inner better vs i (j # js) marks = marks[i := Some j]" using 3 by simp
    show ?thesis unfolding out using 3 j Cons.prems(1) assms(2) by (auto simp: nth_list_update)
  next
    case 4
    then show ?thesis using Cons.IH [OF Cons.prems(1) j(3,4) Cons.prems(4)] by auto
  qed
qed

text \<open>The marks after the outer loop has visited the indices below \<open>m\<close>.\<close>

definition front_inv :: "('v \<Rightarrow> 'v \<Rightarrow> bool) \<Rightarrow> 'v list \<Rightarrow> nat \<Rightarrow> nat option list \<Rightarrow> bool" where
  "front_inv better vs m marks \<longleftrightarrow> length marks = length vs \<and>
     (\<forall>k<length vs. marks ! k \<noteq> None \<longrightarrow> (\<exists>j<length vs. better (vs ! j) (vs ! k))) \<and>
     (\<forall>i j. i < m \<longrightarrow> i < j \<longrightarrow> j < length vs \<longrightarrow> marks ! i = None \<longrightarrow> marks ! j = None \<longrightarrow>
        \<not> better (vs ! i) (vs ! j) \<and> \<not> better (vs ! j) (vs ! i)) \<and>
     (vs \<noteq> [] \<longrightarrow> (\<exists>k<length vs. marks ! k = None))"

lemma front_outer_inv:
  assumes "front_inv better vs m marks" "m < length vs"
  shows "front_inv better vs (Suc m) (front_outer better vs m marks)"
proof (cases "marks ! m = None")
  case False
  then show ?thesis using assms by (auto simp: front_inv_def front_outer_def less_Suc_eq)
next
  case True
  have "set [m + 1..<length vs] \<subseteq> {..<length vs}" "m \<notin> set [m + 1..<length vs]" by auto
  from front_inner [OF _ assms(2) this(2,1) True, of better, unfolded Let_def] assms(1)
  have out: "length (front_outer better vs m marks) = length vs"
    "\<And>k. front_outer better vs m marks ! k = None \<Longrightarrow> marks ! k = None"
    "\<And>k. k < length vs \<Longrightarrow> front_outer better vs m marks ! k \<noteq> None \<Longrightarrow> marks ! k \<noteq> None \<or> (\<exists>j<length vs. better (vs ! j) (vs ! k))"
    "\<And>j. front_outer better vs m marks ! m = None \<Longrightarrow> m < j \<Longrightarrow> j < length vs \<Longrightarrow> front_outer better vs m marks ! j = None \<Longrightarrow>
      \<not> better (vs ! m) (vs ! j) \<and> \<not> better (vs ! j) (vs ! m)"
    "\<exists>k<length vs. front_outer better vs m marks ! k = None"
    using True by (auto simp: front_inv_def front_outer_def)
  have inv: "\<And>k. k < length vs \<Longrightarrow> marks ! k \<noteq> None \<Longrightarrow> \<exists>j<length vs. better (vs ! j) (vs ! k)"
    "\<And>i j. i < m \<Longrightarrow> i < j \<Longrightarrow> j < length vs \<Longrightarrow> marks ! i = None \<Longrightarrow> marks ! j = None \<Longrightarrow>
        \<not> better (vs ! i) (vs ! j) \<and> \<not> better (vs ! j) (vs ! i)"
    using assms(1) unfolding front_inv_def by blast+
  show ?thesis unfolding front_inv_def
  proof (intro conjI allI impI)
    fix k
    assume "k < length vs" "front_outer better vs m marks ! k \<noteq> None"
    then show "\<exists>j<length vs. better (vs ! j) (vs ! k)" using out(3) inv(1) by blast
  next
    fix i j
    assume a: "i < Suc m" "i < j" "j < length vs" "front_outer better vs m marks ! i = None" "front_outer better vs m marks ! j = None"
    show "\<not> better (vs ! i) (vs ! j)" "\<not> better (vs ! j) (vs ! i)"
      using a out(2,4) inv(2) by (metis less_Suc_eq)+
  qed (use out in auto)
qed

lemma front_all:
  "front_inv better vs (length vs) (fold (front_outer better vs) [0..<length vs] (replicate (length vs) None))"
proof -
  have "front_inv better vs m (fold (front_outer better vs) [0..<m] (replicate (length vs) None))" if "m \<le> length vs" for m
    using that
  proof (induction m)
    case 0
    then show ?case by (auto simp: front_inv_def)
  next
    case (Suc m)
    then have "m < length vs" by simp
    from front_outer_inv [OF Suc.IH [OF less_imp_le [OF this]] this] show ?case by simp
  qed
  then show ?thesis by simp
qed

lemma maximal_above:
  assumes "\<And>x. \<not> better x x" "\<And>x y z. better x y \<Longrightarrow> better y z \<Longrightarrow> better x z"
    "k < length vs" "j < length vs" "better (vs ! j) (vs ! k)"
  shows "\<exists>m<length vs. better (vs ! m) (vs ! k) \<and> (\<forall>l<length vs. \<not> better (vs ! l) (vs ! m))"
proof -
  let ?A = "\<lambda>j. {l. l < length vs \<and> better (vs ! l) (vs ! j)}"
  have "\<exists>m<length vs. better (vs ! m) (vs ! k) \<and> (\<forall>l<length vs. \<not> better (vs ! l) (vs ! m))"
    if "j < length vs" "better (vs ! j) (vs ! k)" for j
    using that
  proof (induction "card (?A j)" arbitrary: j rule: less_induct)
    case less
    show ?case
    proof (cases "\<exists>l<length vs. better (vs ! l) (vs ! j)")
      case True
      then obtain l where l: "l < length vs" "better (vs ! l) (vs ! j)" by blast
      have "?A l \<subset> ?A j"
      proof (rule psubsetI)
        show "?A l \<subseteq> ?A j" using l assms(2) by blast
        have "l \<in> ?A j" "l \<notin> ?A l" using l assms(1) by auto
        then show "?A l \<noteq> ?A j" by blast
      qed
      then have "card (?A l) < card (?A j)" by (intro psubset_card_mono) auto
      then show ?thesis using less.hyps [of l] l(1) assms(2) [OF l(2) less.prems(2)] by blast
    next
      case False
      then show ?thesis using less.prems by blast
    qed
  qed
  then show ?thesis using assms(4,5) by blast
qed

lemma front_marks:
  assumes "\<And>x. \<not> better x x" "\<And>x y z. better x y \<Longrightarrow> better y z \<Longrightarrow> better x z" and k: "k < length vs"
  shows "fold (front_outer better vs) [0..<length vs] (replicate (length vs) None) ! k = None \<longleftrightarrow>
    (\<forall>j<length vs. \<not> better (vs ! j) (vs ! k))"
proof -
  let ?marks = "fold (front_outer better vs) [0..<length vs] (replicate (length vs) None)"
  note inv = front_all [of better vs, unfolded front_inv_def]
  have sound: "?marks ! i \<noteq> None \<Longrightarrow> i < length vs \<Longrightarrow> \<exists>j<length vs. better (vs ! j) (vs ! i)" for i using inv by blast
  have both: "i < j \<Longrightarrow> j < length vs \<Longrightarrow> ?marks ! i = None \<Longrightarrow> ?marks ! j = None \<Longrightarrow>
      \<not> better (vs ! i) (vs ! j) \<and> \<not> better (vs ! j) (vs ! i)" for i j
    using inv by (meson less_trans)
  show ?thesis
  proof
    assume free: "?marks ! k = None"
    show "\<forall>j<length vs. \<not> better (vs ! j) (vs ! k)"
    proof (rule ccontr)
      assume "\<not> (\<forall>j<length vs. \<not> better (vs ! j) (vs ! k))"
      then obtain j where "j < length vs" "better (vs ! j) (vs ! k)" by blast
      then have "\<exists>m<length vs. better (vs ! m) (vs ! k) \<and> (\<forall>l<length vs. \<not> better (vs ! l) (vs ! m))"
        using assms(1,2) k by (intro maximal_above [where better = better]) auto
      then obtain m where m: "m < length vs" "better (vs ! m) (vs ! k)"
        "\<forall>l<length vs. \<not> better (vs ! l) (vs ! m)" by blast
      then have "?marks ! m = None" using sound by blast
      moreover have "m \<noteq> k" using m(2) assms(1) by blast
      ultimately show False using both [of m k] both [of k m] m(1,2) k free by (meson nat_neq_iff)
    qed
  next
    assume "\<forall>j<length vs. \<not> better (vs ! j) (vs ! k)"
    then show "?marks ! k = None" using sound k by blast
  qed
qed

lemma front_exact:
  "float_order fl \<Longrightarrow> pareto_front fl vs = filter (\<lambda>i. \<forall>j<length vs. \<not> dominates fl (vs ! j) (vs ! i)) [0..<length vs]"
  unfolding pareto_front_def Let_def
  by (rule filter_cong [OF refl]) (rule front_marks; auto intro: dominates_trans simp: dominates_irrefl)

lemma front_nonempty:
  assumes "vs \<noteq> []"
  shows "pareto_front fl vs \<noteq> []"
proof -
  obtain k where "k < length vs" "fold (front_outer (dominates fl) vs) [0..<length vs] (replicate (length vs) None) ! k = None"
    using front_all [of "dominates fl" vs] assms unfolding front_inv_def by blast
  then show ?thesis by (auto simp: pareto_front_def Let_def filter_empty_conv)
qed

lemma front_members: "set (pareto_front fl vs) \<subseteq> {..<length vs}" "distinct (pareto_front fl vs)" "sorted (pareto_front fl vs)"
  by (auto simp: pareto_front_def Let_def sorted_wrt_filter)

section \<open>The replacement test\<close>

lemma fl_max_less:
  assumes "float_order fl"
  shows "fl_less fl (fl_max fl x y) s \<longleftrightarrow> fl_less fl x s \<and> fl_less fl y s"
proof -
  have asym: "fl_less fl x y \<Longrightarrow> \<not> fl_less fl y x" and neg: "fl_less fl x z \<Longrightarrow> fl_less fl x y \<or> fl_less fl y z" for x y z
    using assms unfolding float_order_def by blast+
  have "fl_eq fl x x" using assms asym unfolding float_order_def by blast
  then show ?thesis unfolding fl_max_def using asym neg by (metis (full_types))
qed

lemma best_source_less:
  assumes "float_order fl" "sources \<noteq> []" "\<And>x. \<not> fl_less fl x (fl_neg_inf fl)"
  shows "fl_less fl (best_source fl sources i) s \<longleftrightarrow> (\<forall>v\<in>set sources. fl_less fl (qv_dims v ! i) s)"
proof -
  have fold: "fl_less fl (fold (\<lambda>v acc. fl_max fl acc (qv_dims v ! i)) vs a) s \<longleftrightarrow> fl_less fl a s \<and> (\<forall>v\<in>set vs. fl_less fl (qv_dims v ! i) s)" for vs a
    by (induction vs arbitrary: a) (auto simp: fl_max_less [OF assms(1)])
  have "fl_less fl (fl_neg_inf fl) s" if "fl_less fl x s" for x
    using that assms(1,3) unfolding float_order_def by blast
  moreover obtain v where "v \<in> set sources" using assms(2) by (cases sources) auto
  ultimately show ?thesis unfolding best_source_def fold by blast
qed

text \<open>A synthesis replaces its sources when it is better than all of them in two dimensions at least and
  none of them dominates it.\<close>

lemma should_replace_iff:
  assumes "float_order fl" "\<And>x. \<not> fl_less fl x (fl_neg_inf fl)"
  shows "should_replace_synthesis fl syn sources \<longleftrightarrow> sources \<noteq> [] \<and> \<not> (\<exists>v\<in>set sources. dominates fl v syn) \<and>
    2 \<le> card {i. i < 5 \<and> (\<forall>v\<in>set sources. fl_less fl (qv_dims v ! i) (qv_dims syn ! i))}"
proof (cases "sources = []")
  case False
  have "length (filter (\<lambda>i. fl_less fl (best_source fl sources i) (qv_dims syn ! i)) [0..<5]) =
      card {i. i < 5 \<and> (\<forall>v\<in>set sources. fl_less fl (qv_dims v ! i) (qv_dims syn ! i))}"
    unfolding best_source_less [OF assms(1) False assms(2)]
    by (subst distinct_card [symmetric]) (auto intro: arg_cong [of _ _ card])
  then show ?thesis using False by (auto simp: should_replace_synthesis_def Let_def)
qed (simp add: should_replace_synthesis_def)

end
