(* ===== verification/Portfolio.thy ===== *)
theory Portfolio imports Pareto Union_Find Text "HOL-Library.Multiset" begin

text \<open>
  From the Pareto front to a portfolio: clusters of similar texts (\<open>src/ranking/cluster.rs\<close>), the
  choice of representatives (\<open>src/ranking/diversity.rs\<close>) and the selection plans
  (\<open>src/phases/cardinality.rs\<close>). Token sets are lists without order; splitting at characters that
  are not alphanumeric is a parameter.
\<close>

section \<open>Clusters\<close>

definition jaccard_words :: "'q floats \<Rightarrow> string \<Rightarrow> string \<Rightarrow> 'q" where
  "jaccard_words fl a b =
     (let sa = set (split_whitespace a); sb = set (split_whitespace b)
      in if sa = {} \<and> sb = {} then fl_of_nat fl 0
         else (let inter = card (sa \<inter> sb); union = card (sa \<union> sb)
               in if union = 0 then fl_of_nat fl 0
                  else fl_sub fl (fl_of_nat fl 1) (fl_div fl (fl_of_nat fl inter) (fl_of_nat fl union))))"

definition near :: "'q floats \<Rightarrow> 'q \<Rightarrow> string \<Rightarrow> string \<Rightarrow> bool" where
  "near fl threshold a b \<longleftrightarrow> (let d = jaccard_words fl a b in fl_less fl d threshold \<or> fl_eq fl d threshold)"

fun union_pairs :: "(nat \<times> nat) list \<Rightarrow> nat list \<Rightarrow> nat list option" where
  "union_pairs [] parent = Some parent"
| "union_pairs ((a, b) # ps) parent =
     (case find_root parent a of
        None \<Rightarrow> None
      | Some (ra, p1) \<Rightarrow>
          (case find_root p1 b of
             None \<Rightarrow> None
           | Some (rb, p2) \<Rightarrow> union_pairs ps (if ra \<noteq> rb then p2[max ra rb := min ra rb] else p2)))"

definition near_pairs :: "'q floats \<Rightarrow> 'q \<Rightarrow> string list \<Rightarrow> (nat \<times> nat) list" where
  "near_pairs fl threshold texts =
     concat (map (\<lambda>i. map (Pair i) (filter (\<lambda>j. near fl threshold (texts ! i) (texts ! j)) [i + 1..<length texts]))
       [0..<length texts])"

definition cluster_by_simhash :: "'q floats \<Rightarrow> 'q \<Rightarrow> string list \<Rightarrow> nat list list option" where
  "cluster_by_simhash fl threshold texts =
     (case union_pairs (near_pairs fl threshold texts) [0..<length texts] of
        None \<Rightarrow> None
      | Some parent \<Rightarrow> map_option (map snd) (collect_sets [0..<length texts] parent []))"

section \<open>Representatives\<close>

definition compare_vectors :: "'q floats \<Rightarrow> 'q quality \<Rightarrow> 'q quality \<Rightarrow> ordering" where
  "compare_vectors fl a b = fold (\<lambda>(x, y) acc. cmp_then acc (fl_cmp fl x y)) (zip (qv_dims a) (qv_dims b)) Equal"

definition crowding_distance :: "'q floats \<Rightarrow> nat \<Rightarrow> nat list \<Rightarrow> 'q quality list \<Rightarrow> 'q" where
  "crowding_distance fl p members vs =
     fold (\<lambda>other total. if other = p then total
       else fold (\<lambda>(x, y) t. fl_add fl t (fl_abs fl (fl_sub fl x y))) (zip (qv_dims (vs ! p)) (qv_dims (vs ! other))) total)
       members (fl_of_nat fl 0)"

text \<open>One pass of the second round over the clusters with their \<open>exhausted\<close> marks.\<close>

fun peel_pass :: "nat \<Rightarrow> (nat list \<times> bool) list \<Rightarrow> nat list \<Rightarrow> (nat list \<times> bool) list \<times> nat list \<times> bool" where
  "peel_pass k [] reps = ([], reps, False)"
| "peel_pass k ((c, exhausted) # cs) reps =
     (if exhausted \<or> k \<le> length reps
      then (case peel_pass k cs reps of (cs', reps', picked) \<Rightarrow> ((c, exhausted) # cs', reps', picked))
      else if 1 < length c
      then (case peel_pass k cs (reps @ [c ! 1]) of
              (cs', reps', picked) \<Rightarrow> ((hd c # drop 2 c, exhausted) # cs', reps', True))
      else (case peel_pass k cs reps of (cs', reps', picked) \<Rightarrow> ((c, True) # cs', reps', picked)))"

lemma peel_pass_length:
  "peel_pass k cs reps = (cs', reps', picked) \<Longrightarrow> length reps \<le> length reps' \<and> (picked \<longrightarrow> length reps < length reps')"
  by (induction k cs reps arbitrary: cs' reps' picked rule: peel_pass.induct)
    (fastforce split: if_splits prod.splits)+

function peel_loop :: "nat \<Rightarrow> (nat list \<times> bool) list \<Rightarrow> nat list \<Rightarrow> nat list" where
  "peel_loop k cs reps =
     (if length reps < k
      then (case peel_pass k cs reps of (cs', reps', picked) \<Rightarrow> if picked then peel_loop k cs' reps' else reps')
      else reps)"
  by pat_completeness auto
termination
  by (relation "measure (\<lambda>(k, cs, reps). k - length reps)") (auto dest!: peel_pass_length [OF sym])

declare peel_loop.simps [simp del]

text \<open>The least crowded member; of equal ones the last, since later positions count as smaller.\<close>

definition crowding_cmp :: "'q floats \<Rightarrow> 'q quality list \<Rightarrow> nat list \<Rightarrow> nat \<Rightarrow> nat \<Rightarrow> ordering" where
  "crowding_cmp fl vs reps a b =
     cmp_then (fl_cmp fl (crowding_distance fl (reps ! a) reps vs) (crowding_distance fl (reps ! b) reps vs))
       (if b < a then Less else if a < b then Greater else Equal)"

definition crowding_victim :: "'q floats \<Rightarrow> 'q quality list \<Rightarrow> nat list \<Rightarrow> nat" where
  "crowding_victim fl vs reps =
     fold (\<lambda>x best. if crowding_cmp fl vs reps best x = Greater then x else best) [1..<length reps] 0"

lemma crowding_victim_less: "reps \<noteq> [] \<Longrightarrow> crowding_victim fl vs reps < length reps"
  unfolding crowding_victim_def
  by (rule fold_invariant [where Q = "\<lambda>x. x < length reps"]) auto

function drop_crowded :: "'q floats \<Rightarrow> 'q quality list \<Rightarrow> nat \<Rightarrow> nat list \<Rightarrow> nat list" where
  "drop_crowded fl vs k reps =
     (if k < length reps
      then (let v = crowding_victim fl vs reps in drop_crowded fl vs k (take v reps @ drop (v + 1) reps))
      else reps)"
  by pat_completeness auto
termination
proof (relation "measure (\<lambda>(fl, vs, k, reps). length reps)", goal_cases)
  case (2 fl vs k reps v)
  then have "v < length reps" by (auto intro: crowding_victim_less)
  then show ?case by simp
qed simp

declare drop_crowded.simps [simp del]

definition pick_with_crowding :: "'q floats \<Rightarrow> nat list list \<Rightarrow> 'q quality list \<Rightarrow> nat \<Rightarrow> nat list" where
  "pick_with_crowding fl clusters vs k =
     (if clusters = [] \<or> k = 0 then []
      else (let sorted = map (sort_by (\<lambda>x y. cmp_reverse (compare_vectors fl (vs ! x) (vs ! y)))) clusters;
                reps = concat (map (take 1) sorted)
            in if k \<le> length reps then take k reps
               else drop_crowded fl vs k (peel_loop k (map (\<lambda>c. (c, False)) sorted) reps)))"

section \<open>The clusters are the components\<close>

lemma union_pairs:
  assumes "joined p r" "r \<subseteq> {..<length p} \<times> {..<length p}" "set ps \<subseteq> {..<length p} \<times> {..<length p}"
  shows "\<exists>q. union_pairs ps p = Some q \<and> length q = length p \<and> joined q (r \<union> set ps)"
  using assms
proof (induction ps arbitrary: p r)
  case (Cons ab ps)
  obtain a b where ab: "ab = (a, b)" by force
  have lt: "a < length p" "b < length p" "set ps \<subseteq> {..<length p} \<times> {..<length p}" using Cons.prems(3) ab by auto
  have wf: "uf_wf p" using Cons.prems(1) by (simp add: joined_def)
  from find_root [OF wf lt(1)] obtain p1 where p1: "find_root p a = Some (uf_root p a, p1)" "uf_wf p1"
    "length p1 = length p" "\<forall>i<length p. uf_root p1 i = uf_root p i" by blast
  from find_root [of p1 b] p1 lt obtain p2 where p2: "find_root p1 b = Some (uf_root p b, p2)" "uf_wf p2"
    "length p2 = length p" "\<forall>i<length p. uf_root p2 i = uf_root p i" by auto
  let ?x = "max (uf_root p a) (uf_root p b)" and ?y = "min (uf_root p a) (uf_root p b)"
  have "joined p2 r" using joined_roots [OF Cons.prems(1,2)] p2 by blast
  then have j: "joined (p2[?x := ?y]) (insert (a, b) r)"
    using joined_union [of p2 r a b] Cons.prems(2) p2 lt by simp
  have "p2[?x := ?y] = p2" if "uf_root p a = uf_root p b"
  proof -
    have "p2 ! uf_root p a = uf_root p a" using uf_root_fix [OF p2(2), of a] p2(3,4) lt by simp
    then show ?thesis using that by simp (metis list_update_id)
  qed
  then have "union_pairs (ab # ps) p = union_pairs ps (p2[?x := ?y])" using p1(1) p2(1) ab by simp
  moreover have "insert (a, b) r \<subseteq> {..<length (p2[?x := ?y])} \<times> {..<length (p2[?x := ?y])}"
    "set ps \<subseteq> {..<length (p2[?x := ?y])} \<times> {..<length (p2[?x := ?y])}" using Cons.prems(2) lt p2(3) by auto
  ultimately show ?case using Cons.IH [OF j] p2(3) ab by auto
qed auto

lemma near_pairs: "set (near_pairs fl t texts) = {(i, j). i < j \<and> j < length texts \<and> near fl t (texts ! i) (texts ! j)}"
  by (force simp: near_pairs_def)

lemma cluster_sets:
  "\<exists>sets. cluster_by_simhash fl t texts = Some (map snd sets) \<and> bt_wf sets \<and>
     sets_of (length texts) (set (near_pairs fl t texts)) sets \<and>
     (\<forall>(root, ns)\<in>set sets. sorted ns \<and> distinct ns \<and> hd ns = root)"
proof -
  have "joined [0..<length texts] {}" by (simp add: joined_def uf_wf_def)
  moreover have "set (near_pairs fl t texts) \<subseteq> {..<length [0..<length texts]} \<times> {..<length [0..<length texts]}"
    by (auto simp: near_pairs)
  ultimately obtain q where q: "union_pairs (near_pairs fl t texts) [0..<length texts] = Some q" "length q = length texts"
    "joined q (set (near_pairs fl t texts))"
    using union_pairs [of "[0..<length texts]" "{}" "near_pairs fl t texts"] by auto
  from collect_classes [OF q(3)] q(1,2) show ?thesis by (auto simp: cluster_by_simhash_def)
qed

lemma sets_concat:
  assumes "bt_wf sets" "sets_of n r sets" "\<forall>(root, ns)\<in>set sets. sorted ns \<and> distinct ns \<and> hd ns = root"
  shows "distinct (concat (map snd sets))" "set (concat (map snd sets)) = {..<n}" "sorted (map hd (map snd sets))"
proof -
  have "distinct (concat (map snd sets))"
    using sets_ofD(1) [OF assms(2)]
  proof (rule distinct_concat)
    show "distinct ns" if "ns \<in> set (map snd sets)" for ns using that assms(3) by auto
    show "set ns \<inter> set ms = {}" if "ns \<in> set (map snd sets)" "ms \<in> set (map snd sets)" "ns \<noteq> ms" for ns ms
    proof (rule ccontr)
      assume "set ns \<inter> set ms \<noteq> {}"
      then obtain i where "i \<in> set ns" "i \<in> set ms" by auto
      then show False using sets_ofD(5) [OF assms(2) that(1,2), of i i] that(3) by simp
    qed
  qed
  then show "distinct (concat (map snd sets))" .
  show "set (concat (map snd sets)) = {..<n}"
    using sets_ofD(3,4) [OF assms(2)] by fastforce
  have "map hd (map snd sets) = map fst sets" using assms(3) by auto
  moreover have "sorted (map fst sets)" using assms(1) by (simp add: bt_wf_def strict_sorted_iff)
  ultimately show "sorted (map hd (map snd sets))" by (simp only:)
qed

text \<open>C23: Clustering always ends. The clusters partition the texts, in the order of their first members and
  with members in order, and two texts share a cluster exactly when a chain of texts connects
  them in which neighbours are at most the threshold apart.\<close>

theorem clusters_are_components:
  "\<exists>cs. cluster_by_simhash fl threshold texts = Some cs \<and>
     distinct (concat cs) \<and> set (concat cs) = {..<length texts} \<and> [] \<notin> set cs \<and> sorted (map hd cs) \<and> list_all sorted cs \<and>
     {(i, j). \<exists>c\<in>set cs. i \<in> set c \<and> j \<in> set c} =
       (let close = {(i, j). i < j \<and> j < length texts \<and> near fl threshold (texts ! i) (texts ! j)}
        in (close \<union> close\<inverse>)\<^sup>* \<inter> {..<length texts} \<times> {..<length texts})"
proof -
  from cluster_sets [of fl threshold texts] obtain sets where s:
    "cluster_by_simhash fl threshold texts = Some (map snd sets)" "bt_wf sets"
    "sets_of (length texts) (set (near_pairs fl threshold texts)) sets"
    "\<forall>(root, ns)\<in>set sets. sorted ns \<and> distinct ns \<and> hd ns = root" by blast
  have "[] \<notin> set (map snd sets)" using sets_ofD(2) [OF s(3)] by blast
  moreover have "list_all sorted (map snd sets)" using s(4) by (auto simp: list_all_iff)
  moreover note sets_of_relation [OF s(3)]
  ultimately show ?thesis
    using s(1) sets_concat [OF s(2,3,4)] unfolding same_set_def near_pairs Let_def by blast
qed

section \<open>The representatives\<close>

text \<open>What the passes keep: the representatives and what is left behind the heads.\<close>

definition left_over :: "(nat list \<times> bool) list \<Rightarrow> nat multiset" where
  "left_over cs = (\<Sum>(c, _)\<leftarrow>cs. mset (tl c))"

definition peel_marks_ok :: "(nat list \<times> bool) list \<Rightarrow> bool" where
  "peel_marks_ok cs \<longleftrightarrow> (\<forall>(c, exhausted)\<in>set cs. exhausted \<longrightarrow> tl c = [])"

lemma tl_peel: "1 < length c \<Longrightarrow> mset (tl c) = {#c ! 1#} + mset (drop 2 c)"
  by (cases c; cases "tl c") auto

lemma peel_pass_keeps:
  assumes "peel_pass k cs reps = (cs', reps', picked)" "peel_marks_ok cs" "length reps \<le> k"
  shows "mset reps' + left_over cs' = mset reps + left_over cs \<and> peel_marks_ok cs' \<and> length reps' \<le> k \<and>
    (\<exists>more. reps' = reps @ more) \<and> (picked \<or> length reps' = k \<or> left_over cs' = {#})"
  using assms
proof (induction k cs reps arbitrary: cs' reps' picked rule: peel_pass.induct)
  case (1 k reps)
  then show ?case by (simp add: left_over_def)
next
  case (2 k c exhausted cs reps)
  have ok: "peel_marks_ok cs" "exhausted \<Longrightarrow> tl c = []" using "2.prems"(2) by (auto simp: peel_marks_ok_def)
  consider "exhausted \<or> k \<le> length reps" | "\<not> (exhausted \<or> k \<le> length reps)" "1 < length c"
    | "\<not> (exhausted \<or> k \<le> length reps)" "\<not> 1 < length c" by blast
  then show ?case
  proof cases
    case 1
    obtain cs1 reps1 p1 where r: "peel_pass k cs reps = (cs1, reps1, p1)" by (metis prod_cases3)
    have eq: "cs' = (c, exhausted) # cs1" "reps' = reps1" "picked = p1" using "2.prems"(1) 1 r by simp_all
    have *: "mset reps1 + left_over cs1 = mset reps + left_over cs \<and> peel_marks_ok cs1 \<and> length reps1 \<le> k \<and>
        (\<exists>more. reps1 = reps @ more) \<and> (p1 \<or> length reps1 = k \<or> left_over cs1 = {#})"
      by (rule "2.IH"(1) [OF 1 r ok(1) "2.prems"(3)])
    have "length reps1 = k \<or> tl c = []" using 1 * "2.prems"(3) ok(2) by (metis dual_order.antisym length_append le_add1)
    then show ?thesis using * ok(2) unfolding eq by (auto simp: left_over_def peel_marks_ok_def)
  next
    case 2
    obtain cs1 reps1 p1 where r: "peel_pass k cs (reps @ [c ! 1]) = (cs1, reps1, p1)" by (metis prod_cases3)
    have eq: "cs' = (hd c # drop 2 c, exhausted) # cs1" "reps' = reps1" picked using "2.prems"(1) 2 r by simp_all
    have "length (reps @ [c ! 1]) \<le> k" using 2 by simp
    from "2.IH"(2) [OF 2 r ok(1) this] have *: "mset reps1 + left_over cs1 = mset (reps @ [c ! 1]) + left_over cs"
      "peel_marks_ok cs1" "length reps1 \<le> k" "\<exists>more. reps1 = reps @ [c ! 1] @ more" by auto
    have "tl c \<noteq> []" using 2(2) by (cases c) auto
    then show ?thesis using * ok(2) tl_peel [OF 2(2)] unfolding eq(1,2) using eq(3)
      by (auto simp: left_over_def peel_marks_ok_def)
  next
    case 3
    obtain cs1 reps1 p1 where r: "peel_pass k cs reps = (cs1, reps1, p1)" by (metis prod_cases3)
    have eq: "cs' = (c, True) # cs1" "reps' = reps1" "picked = p1" using "2.prems"(1) 3 r by simp_all
    have "tl c = []" using 3(2) by (cases c) auto
    then show ?thesis using "2.IH"(3) [OF 3 r ok(1) "2.prems"(3)] unfolding eq by (auto simp: left_over_def peel_marks_ok_def)
  qed
qed

lemma peel_loop_keeps:
  assumes "peel_marks_ok cs" "length reps \<le> k"
  shows "\<exists>more. peel_loop k cs reps = reps @ more \<and> length (reps @ more) = min k (length reps + size (left_over cs)) \<and>
    mset (reps @ more) \<subseteq># mset reps + left_over cs"
  using assms
proof (induction k cs reps rule: peel_loop.induct)
  case (1 k cs reps)
  show ?case
  proof (cases "length reps < k")
    case False
    then show ?thesis using "1.prems" by (subst peel_loop.simps) auto
  next
    case True
    obtain cs' reps' picked where r: "peel_pass k cs reps = (cs', reps', picked)" by (metis prod_cases3)
    note keep = peel_pass_keeps [OF r "1.prems"]
    obtain more where more: "reps' = reps @ more" using keep by blast
    have sizes: "length reps' + size (left_over cs') = length reps + size (left_over cs)"
      using keep by (metis size_mset size_union)
    show ?thesis
    proof (cases picked)
      case True
      have eq: "peel_loop k cs reps = peel_loop k cs' reps'" using \<open>length reps < k\<close> r True by (subst peel_loop.simps) simp
      have "peel_marks_ok cs'" "length reps' \<le> k" using keep by blast+
      from "1.IH" [OF \<open>length reps < k\<close> r [symmetric] refl True this] obtain more' where
        "peel_loop k cs' reps' = reps' @ more'" "length (reps' @ more') = min k (length reps' + size (left_over cs'))"
        "mset (reps' @ more') \<subseteq># mset reps' + left_over cs'" by blast
      moreover have "mset (reps' @ more') \<subseteq># mset reps + left_over cs" using calculation(3) keep by metis
      ultimately show ?thesis using sizes unfolding eq more by (intro exI [of _ "more @ more'"]) (simp add: add.assoc)
    next
      case False
      have eq: "peel_loop k cs reps = reps'" using \<open>length reps < k\<close> r False by (subst peel_loop.simps) simp
      have "length reps' = min k (length reps + size (left_over cs))" using keep False sizes by auto
      moreover have "mset reps' \<subseteq># mset reps + left_over cs" using keep by (metis mset_subset_eq_add_left)
      ultimately show ?thesis unfolding eq more by blast
    qed
  qed
qed

definition pick_sorted :: "'q floats \<Rightarrow> 'q quality list \<Rightarrow> nat list \<Rightarrow> nat list" where
  "pick_sorted fl vs = sort_by (\<lambda>x y. cmp_reverse (compare_vectors fl (vs ! x) (vs ! y)))"

lemma sort_by_mset: "mset (sort_by cmp xs) = mset xs"
proof (induction xs)
  case (Cons x xs)
  have "mset (insert_by cmp x ys) = add_mset x (mset ys)" for ys by (induction ys) auto
  then show ?case using Cons by (simp add: sort_by_def)
qed (simp add: sort_by_def)

lemma pick_sorted [simp]: "set (pick_sorted fl vs c) = set c" "mset (pick_sorted fl vs c) = mset c"
    "length (pick_sorted fl vs c) = length c"
  by (simp_all add: pick_sorted_def sort_by_mset)

lemma heads_take: "[] \<notin> set cs \<Longrightarrow> concat (map (take 1) cs) = map hd cs"
  by (induction cs) (auto simp: take_Suc)

lemma heads_left: "[] \<notin> set cs \<Longrightarrow> mset (map hd cs) + left_over (map (\<lambda>c. (c, False)) cs) = mset (concat cs)"
proof (induction cs)
  case (Cons c cs)
  then have "c \<noteq> []" by auto
  then obtain x xs where "c = x # xs" by (cases c) auto
  then show ?case using Cons by (simp add: left_over_def ac_simps)
qed (simp add: left_over_def)

lemma sorted_clusters: "[] \<notin> set cs \<Longrightarrow> [] \<notin> set (map (pick_sorted fl vs) cs)"
  by (metis (no_types, lifting) imageE list.set_map list.size(3) length_0_conv pick_sorted(3))

lemma sorted_clusters_mset: "mset (concat (map (pick_sorted fl vs) cs)) = mset (concat cs)"
  by (induction cs) simp_all

lemma clusters_le: "[] \<notin> set cs \<Longrightarrow> length cs \<le> length (concat cs)"
proof (induction cs)
  case (Cons c cs)
  then have "0 < length c" "length cs \<le> length (concat cs)" by auto
  then show ?case by (simp del: length_greater_0_conv)
qed simp

text \<open>No crowding distance is ever computed: the third round has nothing to do.\<close>

lemma pick_loop:
  assumes "[] \<notin> set cs" "length cs \<le> k"
  shows "\<exists>more. peel_loop k (map (\<lambda>c. (c, False)) cs) (map hd cs) = map hd cs @ more \<and>
    length (map hd cs @ more) = min k (length (concat cs)) \<and> mset (map hd cs @ more) \<subseteq># mset (concat cs)"
proof -
  have "peel_marks_ok (map (\<lambda>c. (c, False)) cs)" by (auto simp: peel_marks_ok_def)
  moreover have "length (map hd cs) \<le> k" using assms(2) by simp
  ultimately obtain more where more: "peel_loop k (map (\<lambda>c. (c, False)) cs) (map hd cs) = map hd cs @ more"
      "length (map hd cs @ more) = min k (length (map hd cs) + size (left_over (map (\<lambda>c. (c, False)) cs)))"
      "mset (map hd cs @ more) \<subseteq># mset (map hd cs) + left_over (map (\<lambda>c. (c, False)) cs)"
    using peel_loop_keeps by blast
  have "length (map hd cs) + size (left_over (map (\<lambda>c. (c, False)) cs)) = length (concat cs)"
    using arg_cong [OF heads_left [OF assms(1)], of size] by simp
  then show ?thesis using more heads_left [OF assms(1)] by metis
qed

lemma pick_rounds:
  fixes fl :: "'q floats" and vs
  assumes "[] \<notin> set clusters" "clusters \<noteq> []" "0 < k"
  defines "srt \<equiv> map (pick_sorted fl vs) clusters"
  shows "pick_with_crowding fl clusters vs k =
    (if k \<le> length clusters then map hd (take k srt) else peel_loop k (map (\<lambda>c. (c, False)) srt) (map hd srt))"
proof -
  have ne: "[] \<notin> set srt" unfolding srt_def by (rule sorted_clusters [OF assms(1)])
  have len: "length srt = length clusters" by (simp add: srt_def)
  have "drop_crowded fl vs k r = r" if "length r \<le> k" for r using that by (subst drop_crowded.simps) simp
  moreover have "length (peel_loop k (map (\<lambda>c. (c, False)) srt) (map hd srt)) \<le> k" if "\<not> k \<le> length clusters"
    using pick_loop [OF ne, of k] that len by auto
  moreover have "map (sort_by (\<lambda>x y. cmp_reverse (compare_vectors fl (vs ! x) (vs ! y)))) clusters = srt"
    by (simp add: srt_def pick_sorted_def [abs_def])
  then have "pick_with_crowding fl clusters vs k =
      (if k \<le> length (map hd srt) then take k (map hd srt)
       else drop_crowded fl vs k (peel_loop k (map (\<lambda>c. (c, False)) srt) (map hd srt)))"
    using assms(2,3) heads_take [OF ne] unfolding pick_with_crowding_def Let_def by simp
  ultimately show ?thesis using len by (simp add: take_map)
qed

lemma pick_parts:
  assumes "[] \<notin> set clusters"
  shows "\<exists>more. pick_with_crowding fl clusters vs k = map hd (take k (map (pick_sorted fl vs) clusters)) @ more \<and>
     length (pick_with_crowding fl clusters vs k) = min k (length (concat clusters)) \<and>
     mset (pick_with_crowding fl clusters vs k) \<subseteq># mset (concat clusters)"
proof (cases "clusters = [] \<or> k = 0")
  case True
  then show ?thesis by (auto simp: pick_with_crowding_def)
next
  case False
  let ?s = "map (pick_sorted fl vs) clusters"
  have ne: "[] \<notin> set ?s" by (rule sorted_clusters [OF assms(1)])
  have pick: "pick_with_crowding fl clusters vs k =
      (if k \<le> length clusters then map hd (take k ?s) else peel_loop k (map (\<lambda>c. (c, False)) ?s) (map hd ?s))"
    using pick_rounds [OF assms, of k fl vs] False by blast
  have all: "mset (concat ?s) = mset (concat clusters)" "length (concat ?s) = length (concat clusters)"
    using sorted_clusters_mset [of fl vs clusters] mset_eq_length [OF sorted_clusters_mset [of fl vs clusters]] by blast+
  show ?thesis
  proof (cases "k \<le> length clusters")
    case True
    have "mset (map hd (take k ?s)) \<subseteq># mset (map hd ?s)"
      by (metis append_take_drop_id map_append mset_append mset_subset_eq_add_left)
    also have "\<dots> \<subseteq># mset (concat ?s)" using heads_left [OF ne] by (metis mset_subset_eq_add_left)
    finally have "mset (map hd (take k ?s)) \<subseteq># mset (concat clusters)" unfolding all(1) .
    moreover have "length (map hd (take k ?s)) = min k (length (concat clusters))" using True clusters_le [OF assms] by simp
    ultimately show ?thesis using True unfolding pick by (intro exI [of _ "[]"]) simp
  next
    case False
    then have "length ?s \<le> k" "take k ?s = ?s" by simp_all
    then obtain more where "peel_loop k (map (\<lambda>c. (c, False)) ?s) (map hd ?s) = map hd ?s @ more"
      "length (map hd ?s @ more) = min k (length (concat clusters))" "mset (map hd ?s @ more) \<subseteq># mset (concat clusters)"
      using pick_loop [OF ne, of k] unfolding all by blast
    then show ?thesis using False \<open>take k ?s = ?s\<close> unfolding pick by (intro exI [of _ more]) (simp del: map_map)
  qed
qed

text \<open>Orderings that are total preorders, and their lexicographic combination.\<close>

definition cmp_total :: "('a \<Rightarrow> 'a \<Rightarrow> ordering) \<Rightarrow> bool" where
  "cmp_total c \<longleftrightarrow> (\<forall>x y. c y x = cmp_reverse (c x y)) \<and>
     (\<forall>x y z. c x y \<noteq> Greater \<longrightarrow> c y z \<noteq> Greater \<longrightarrow> c x z \<noteq> Greater)"

lemma cmp_reverse_simps [simp]: "cmp_reverse (cmp_reverse a) = a" "cmp_reverse a = Greater \<longleftrightarrow> a = Less"
  "cmp_reverse a = Less \<longleftrightarrow> a = Greater" "cmp_reverse a = Equal \<longleftrightarrow> a = Equal"
  by (cases a; simp)+

lemma cmp_total_order: "cmp_total c \<Longrightarrow> cmp_order c"
  unfolding cmp_total_def cmp_order_def by (metis cmp_reverse_simps(3) ordering.distinct(3))

lemma cmp_total_reverse: "cmp_total c \<Longrightarrow> cmp_total (\<lambda>x y. cmp_reverse (c x y))"
  unfolding cmp_total_def by (metis cmp_reverse_simps)

lemma cmp_total_then:
  assumes "cmp_total c" "cmp_total d"
  shows "cmp_total (\<lambda>x y. cmp_then (c x y) (d x y))"
proof -
  note cs = conjunct1 [OF assms(1) [unfolded cmp_total_def], rule_format]
  note ds = conjunct1 [OF assms(2) [unfolded cmp_total_def], rule_format]
  note ct = conjunct2 [OF assms(1) [unfolded cmp_total_def], rule_format]
  note dt = conjunct2 [OF assms(2) [unfolded cmp_total_def], rule_format]
  have eq: "cmp_then a b = Greater \<longleftrightarrow> a = Greater \<or> a = Equal \<and> b = Greater" for a b by (cases a) auto
  have rev: "cmp_then (cmp_reverse a) (cmp_reverse b) = cmp_reverse (cmp_then a b)" for a b by (cases a) auto
  have "cmp_then (c x z) (d x z) \<noteq> Greater"
    if "cmp_then (c x y) (d x y) \<noteq> Greater" "cmp_then (c y z) (d y z) \<noteq> Greater" for x y z
  proof -
    have "c x y \<noteq> Greater" "c y z \<noteq> Greater" using that unfolding eq by blast+
    then have xz: "c x z \<noteq> Greater" using ct by blast
    have "d x z \<noteq> Greater" if "c x z = Equal"
    proof -
      have "c z x = Equal" using that cs [of z x] by simp
      then have "c y x \<noteq> Greater" "c z y \<noteq> Greater"
        using ct [of y z x] ct [of z x y] \<open>c x y \<noteq> Greater\<close> \<open>c y z \<noteq> Greater\<close> by simp_all
      then have "c x y = Equal" "c y z = Equal"
        using cs [of y x] cs [of z y] \<open>c x y \<noteq> Greater\<close> \<open>c y z \<noteq> Greater\<close> by (cases "c x y"; cases "c y z"; simp)+
      then have "d x y \<noteq> Greater" "d y z \<noteq> Greater"
        using \<open>cmp_then (c x y) (d x y) \<noteq> Greater\<close> \<open>cmp_then (c y z) (d y z) \<noteq> Greater\<close> by simp_all
      then show ?thesis using dt by blast
    qed
    then show ?thesis using xz unfolding eq by blast
  qed
  moreover have "cmp_then (c y x) (d y x) = cmp_reverse (cmp_then (c x y) (d x y))" for x y
    unfolding cs [of y x] ds [of y x] rev ..
  ultimately show ?thesis unfolding cmp_total_def by (intro conjI allI impI)
qed

lemma fl_cmp_total:
  assumes "float_order fl"
  shows "cmp_total (\<lambda>x y. fl_cmp fl (f x) (f y))"
proof -
  have asym: "fl_less fl x y \<Longrightarrow> \<not> fl_less fl y x" for x y using assms unfolding float_order_def by blast
  have "fl_cmp fl b a = cmp_reverse (fl_cmp fl a b)" for a b using asym by (auto simp: fl_cmp_def)
  then show ?thesis using fl_cmp_order(1) [OF assms, of f] unfolding cmp_total_def cmp_order_def by blast
qed

lemma compare_vectors_total:
  assumes "float_order fl"
  shows "cmp_total (compare_vectors fl)"
proof -
  have "compare_vectors fl a b =
      cmp_then (cmp_then (cmp_then (cmp_then (fl_cmp fl (qv_correctness a) (qv_correctness b))
        (fl_cmp fl (qv_completeness a) (qv_completeness b))) (fl_cmp fl (qv_fit a) (qv_fit b)))
        (fl_cmp fl (qv_evidence a) (qv_evidence b))) (fl_cmp fl (qv_clarity a) (qv_clarity b))" for a b
    by (simp add: compare_vectors_def qv_dims_def)
  then have "compare_vectors fl = (\<lambda>a b. cmp_then (cmp_then (cmp_then (cmp_then (fl_cmp fl (qv_correctness a) (qv_correctness b))
        (fl_cmp fl (qv_completeness a) (qv_completeness b))) (fl_cmp fl (qv_fit a) (qv_fit b)))
        (fl_cmp fl (qv_evidence a) (qv_evidence b))) (fl_cmp fl (qv_clarity a) (qv_clarity b)))" by blast
  then show ?thesis by (simp only: cmp_total_then fl_cmp_total [OF assms])
qed

lemma pick_sorted_hd:
  assumes "float_order fl" "c \<noteq> []" "x \<in> set c"
  shows "compare_vectors fl (vs ! hd (pick_sorted fl vs c)) (vs ! x) \<noteq> Less" "hd (pick_sorted fl vs c) \<in> set c"
proof -
  let ?cmp = "\<lambda>x y. cmp_reverse (compare_vectors fl (vs ! x) (vs ! y))"
  have tot: "cmp_total ?cmp" using cmp_total_reverse [OF compare_vectors_total [OF assms(1)]]
    unfolding cmp_total_def by blast
  then have srt: "sorted_wrt (\<lambda>x y. ?cmp x y \<noteq> Greater) (pick_sorted fl vs c)"
    unfolding pick_sorted_def by (intro sort_by_sorted cmp_total_order)
  have "pick_sorted fl vs c \<noteq> []" using assms(2) pick_sorted(3) by (metis length_0_conv)
  then obtain h t where ht: "pick_sorted fl vs c = h # t" by (cases "pick_sorted fl vs c") auto
  have mem: "x = h \<or> x \<in> set t" using assms(3) pick_sorted(1) [of fl vs c] ht by auto
  have "?cmp h h = cmp_reverse (?cmp h h)" using tot unfolding cmp_total_def by blast
  then have "compare_vectors fl (vs ! h) (vs ! h) \<noteq> Less" by (cases "compare_vectors fl (vs ! h) (vs ! h)") simp_all
  then show "compare_vectors fl (vs ! hd (pick_sorted fl vs c)) (vs ! x) \<noteq> Less" using mem srt ht by auto
  show "hd (pick_sorted fl vs c) \<in> set c" using ht pick_sorted(1) [of fl vs c] by auto
qed

lemma mset_sub_distinct:
  assumes "mset r \<subseteq># mset xs" "distinct xs"
  shows "distinct r"
  unfolding distinct_count_atmost_1
proof (rule allI)
  fix a
  have one: "k \<le> 1 \<Longrightarrow> P \<longleftrightarrow> 0 < k \<Longrightarrow> k = (if P then 1 else 0)" for k :: nat and P by auto
  have "count (mset r) a \<le> count (mset xs) a" using assms(1) by (rule mset_subset_eq_count)
  moreover have "count (mset xs) a \<le> 1" using assms(2) by (simp add: distinct_count_atmost_1)
  moreover have "a \<in> set r \<longleftrightarrow> 0 < count (mset r) a" by (metis count_greater_zero_iff set_mset_mset)
  ultimately show "count (mset r) a = (if a \<in> set r then 1 else 0)" using one by (meson le_trans)
qed

text \<open>C22: The representatives are distinct members of the clusters, as many as asked for when there are enough,
  and the first ones are the best members of the first clusters, in the order of the clusters:
  clusters beyond the limit get none however good their members are.\<close>

theorem representatives_best:
  assumes "float_order fl" "[] \<notin> set clusters" "distinct (concat clusters)"
  shows "let reps = pick_with_crowding fl clusters vs k in
    distinct reps \<and> set reps \<subseteq> set (concat clusters) \<and> length reps = min k (length (concat clusters)) \<and>
    (\<forall>i<min k (length clusters). reps ! i \<in> set (clusters ! i) \<and>
       (\<forall>x\<in>set (clusters ! i). compare_vectors fl (vs ! (reps ! i)) (vs ! x) \<noteq> Less))"
proof -
  let ?r = "pick_with_crowding fl clusters vs k"
  obtain more where r: "?r = map hd (take k (map (pick_sorted fl vs) clusters)) @ more"
    "length ?r = min k (length (concat clusters))" "mset ?r \<subseteq># mset (concat clusters)"
    using pick_parts [OF assms(2), of fl vs k] by blast
  have "distinct ?r" by (rule mset_sub_distinct [OF r(3) assms(3)])
  moreover have "set ?r \<subseteq> set (concat clusters)" using set_mset_mono [OF r(3)] by simp
  moreover have "?r ! i \<in> set (clusters ! i) \<and> (\<forall>x\<in>set (clusters ! i). compare_vectors fl (vs ! (?r ! i)) (vs ! x) \<noteq> Less)"
    if i: "i < min k (length clusters)" for i
  proof -
    have at: "?r ! i = hd (pick_sorted fl vs (clusters ! i))" using i unfolding r(1) by (simp add: nth_append)
    have ne: "clusters ! i \<noteq> []" using i assms(2) by (metis min_less_iff_conj nth_mem)
    then have "hd (clusters ! i) \<in> set (clusters ! i)" by simp
    then show ?thesis unfolding at using pick_sorted_hd [OF assms(1) ne] by blast
  qed
  ultimately show ?thesis using r(2) by simp
qed

text \<open>Integers as floats.\<close>

definition int_floats :: "int floats" where
  "int_floats = \<lparr>fl_less = (<), fl_eq = (=), fl_add = (+), fl_sub = (-), fl_mul = (*), fl_div = (div), fl_abs = abs,
     fl_of_nat = int, fl_neg_inf = -1000\<rparr>"

lemma int_floats_order: "float_order int_floats"
  by (auto simp: float_order_def int_floats_def)

definition vector :: "int list \<Rightarrow> int quality" where
  "vector xs = \<lparr>qv_correctness = xs ! 0, qv_completeness = xs ! 1, qv_fit = xs ! 2, qv_evidence = xs ! 3, qv_clarity = xs ! 4\<rparr>"

theorem representatives_best_witness:
  "let vs = map vector [[5,5,5,5,5], [9,9,9,9,9], [6,1,1,1,1], [7,7,7,7,7]];
       reps = pick_with_crowding int_floats [[0, 2], [1], [3]] vs 2
   in length reps = 2 \<and> reps ! 0 \<in> {0, 2} \<and> compare_vectors int_floats (vs ! (reps ! 0)) (vs ! 2) \<noteq> Less"
proof -
  have "[] \<notin> set [[0, 2], [1], [3 :: nat]]" "distinct (concat [[0, 2], [1], [3 :: nat]])" by simp_all
  note reps = representatives_best [OF int_floats_order this, of "map vector [[5,5,5,5,5], [9,9,9,9,9], [6,1,1,1,1], [7,7,7,7,7]]" 2,
      unfolded Let_def]
  then have "length (pick_with_crowding int_floats [[0, 2], [1], [3]] (map vector [[5,5,5,5,5], [9,9,9,9,9], [6,1,1,1,1], [7,7,7,7,7]]) 2) = 2"
    by (elim conjE) simp
  moreover have "0 < min 2 (length [[0, 2], [1], [3 :: nat]])" by simp
  note conjunct2 [OF conjunct2 [OF conjunct2 [OF reps]], rule_format, OF this]
  ultimately show ?thesis unfolding Let_def by simp
qed

end
