(* ===== verification/Selection.thy ===== *)
theory Selection imports Portfolio Retry_Budget begin

text \<open>
  Cardinalities per mode, judge quorums and the selection plans of \<open>src/phases/cardinality.rs\<close>.
  The plans run on 64-bit floats (\<open>floats\<close>); splitting a text at characters that are not
  alphanumeric is the parameter \<open>alnum\<close>. The parallel reductions are the left-to-right ones: their
  operators are associative.
\<close>

section \<open>Cardinalities\<close>

record mode_cardinality =
  cd_soft :: nat
  cd_hard :: nat

definition range_for_mode :: "mode \<Rightarrow> nat \<times> nat" where
  "range_for_mode m = (case m of Fast \<Rightarrow> (3, 5) | Standard \<Rightarrow> (5, 10) | Deep \<Rightarrow> (10, 25) | Explore \<Rightarrow> (15, 40) | Batch \<Rightarrow> (8, 15))"

definition cardinality_for_mode :: "mode \<Rightarrow> mode_cardinality" where
  "cardinality_for_mode m =
     (case m of
        Fast \<Rightarrow> \<lparr>cd_soft = 3, cd_hard = 5\<rparr>
      | Standard \<Rightarrow> \<lparr>cd_soft = 5, cd_hard = 10\<rparr>
      | Deep \<Rightarrow> \<lparr>cd_soft = 10, cd_hard = 25\<rparr>
      | Explore \<Rightarrow> \<lparr>cd_soft = 15, cd_hard = 40\<rparr>
      | Batch \<Rightarrow> \<lparr>cd_soft = 8, cd_hard = 15\<rparr>)"

definition cardinality_for_mode_default :: "mode \<Rightarrow> mode_cardinality" where
  "cardinality_for_mode_default m = (case range_for_mode m of (s, e) \<Rightarrow> \<lparr>cd_soft = (s + e) div 2, cd_hard = e\<rparr>)"

definition cardinality_validate :: "mode_cardinality \<Rightarrow> nat \<Rightarrow> unit result" where
  "cardinality_validate c actual =
     (if actual \<le> cd_hard c then Inr ()
      else Inl (Err_InvalidState (''cardinality '' @ show_nat actual @ '' exceeds hard ceiling '' @ show_nat (cd_hard c) @
        '' (soft target '' @ show_nat (cd_soft c) @ '')'')))"

definition judge_quorum :: "mode \<Rightarrow> nat" where
  "judge_quorum m = (case m of Fast \<Rightarrow> 1 | Standard \<Rightarrow> 3 | Deep \<Rightarrow> 5 | Explore \<Rightarrow> 1 | Batch \<Rightarrow> 1)"

definition judge_quorum_for_mode :: "mode \<Rightarrow> (string \<rightharpoonup> nat) \<Rightarrow> nat" where
  "judge_quorum_for_mode m overrides = (case overrides (mode_as_str m) of Some v \<Rightarrow> v | None \<Rightarrow> judge_quorum m)"

section \<open>Proposals\<close>

record proposal =
  pr_id :: string
  pr_summary :: string
  pr_approach :: string
  pr_tradeoffs :: "string list"
  pr_evidence :: "string list"
  pr_replaced_by :: "string option"

definition proposal_default :: proposal where
  "proposal_default = \<lparr>pr_id = [], pr_summary = [], pr_approach = [], pr_tradeoffs = [], pr_evidence = [], pr_replaced_by = None\<rparr>"

definition proposal_text :: "proposal \<Rightarrow> string" where
  "proposal_text p = pr_summary p @ '' '' @ pr_approach p @ '' '' @ join_str '' '' (pr_tradeoffs p) @ '' '' @ join_str '' '' (pr_evidence p)"

definition token_features :: "(string \<Rightarrow> string list) \<Rightarrow> proposal \<Rightarrow> string list" where
  "token_features alnum p = remdups (map to_ascii_lowercase (filter (\<lambda>s. s \<noteq> []) (alnum (proposal_text p))))"

definition jaccard_tokens :: "'d floats \<Rightarrow> string list \<Rightarrow> string list \<Rightarrow> 'd" where
  "jaccard_tokens fd a b =
     (if a = [] \<and> b = [] then fl_of_nat fd 1
      else (let inter = card (set a \<inter> set b); union = card (set a \<union> set b)
            in if union = 0 then fl_of_nat fd 1
               else fl_sub fd (fl_of_nat fd 1) (fl_div fd (fl_of_nat fd inter) (fl_of_nat fd union))))"

section \<open>Selection plans\<close>

datatype selection_kind = TopN | DiverseN | OutlierN

record selection_plan =
  sp_kind :: selection_kind
  sp_count :: nat

definition keep_top :: "nat \<Rightarrow> selection_plan" where
  "keep_top n = \<lparr>sp_kind = TopN, sp_count = n\<rparr>"

definition keep_diverse :: "nat \<Rightarrow> selection_plan" where
  "keep_diverse n = \<lparr>sp_kind = DiverseN, sp_count = n\<rparr>"

definition keep_outlier :: "nat \<Rightarrow> selection_plan" where
  "keep_outlier n = \<lparr>sp_kind = OutlierN, sp_count = n\<rparr>"

definition default_plan_for_mode :: "string \<Rightarrow> selection_plan" where
  "default_plan_for_mode mode =
     (if mode = ''fast'' then keep_top 3
      else if mode = ''standard'' then keep_top 5
      else if mode = ''deep'' then keep_top 10
      else if mode = ''explore'' then keep_diverse 15
      else if mode = ''batch'' then keep_top 8
      else keep_top 5)"

type_synonym 'd scored = "string \<times> 'd \<times> proposal"

definition by_score_desc :: "'d floats \<Rightarrow> 'd scored \<Rightarrow> 'd scored \<Rightarrow> ordering" where
  "by_score_desc fd = (\<lambda>(_, a, _) (_, b, _). fl_cmp fd b a)"

definition apply_top :: "'d floats \<Rightarrow> nat \<Rightarrow> 'd scored list \<Rightarrow> string list" where
  "apply_top fd n scored =
     (if n = 0 \<or> scored = [] then [] else map fst (take n (sort_by (by_score_desc fd) scored)))"

definition fl_min :: "'q floats \<Rightarrow> 'q \<Rightarrow> 'q \<Rightarrow> 'q" where
  "fl_min fl x y = (if \<not> fl_eq fl x x then y else if fl_less fl y x then y else x)"

definition min_dist :: "'d floats \<Rightarrow> (string \<Rightarrow> string list) \<Rightarrow> string list list \<Rightarrow> proposal \<Rightarrow> 'd" where
  "min_dist fd alnum chosen p =
     (case map (jaccard_tokens fd (token_features alnum p)) chosen of
        [] \<Rightarrow> fl_of_nat fd 0
      | d # ds \<Rightarrow> fold (\<lambda>x acc. fl_min fd acc x) ds d)"

definition pick_better :: "'d floats \<Rightarrow> nat \<times> 'd \<times> 'd \<Rightarrow> nat \<times> 'd \<times> 'd \<Rightarrow> nat \<times> 'd \<times> 'd" where
  "pick_better fd a b =
     (if fl_less fd (fst (snd b)) (fst (snd a)) \<or>
         (fl_eq fd (fst (snd a)) (fst (snd b)) \<and> fl_less fd (snd (snd b)) (snd (snd a)))
      then a else b)"

definition pick_next :: "'d floats \<Rightarrow> (string \<Rightarrow> string list) \<Rightarrow> string list list \<Rightarrow> 'd scored list \<Rightarrow> nat" where
  "pick_next fd alnum chosen remaining =
     (case map (\<lambda>(idx, (_, score, p)). (idx, min_dist fd alnum chosen p, score)) (enumerate 0 remaining) of
        [] \<Rightarrow> 0
      | c # cs \<Rightarrow> fst (fold (\<lambda>x acc. pick_better fd acc x) cs c))"

fun diverse_loop :: "'d floats \<Rightarrow> (string \<Rightarrow> string list) \<Rightarrow> nat \<Rightarrow> string list list \<Rightarrow> 'd scored list \<Rightarrow> string list" where
  "diverse_loop fd alnum 0 chosen remaining = []"
| "diverse_loop fd alnum (Suc n) chosen remaining =
     (let i = pick_next fd alnum chosen remaining
      in case remaining ! i of
           (pid, _, p) \<Rightarrow> pid # diverse_loop fd alnum n (chosen @ [token_features alnum p]) (take i remaining @ drop (i + 1) remaining))"

definition apply_diverse :: "'d floats \<Rightarrow> (string \<Rightarrow> string list) \<Rightarrow> nat \<Rightarrow> 'd scored list \<Rightarrow> string list" where
  "apply_diverse fd alnum n scored =
     (if n = 0 \<or> scored = [] then []
      else diverse_loop fd alnum (min n (length scored)) [] (sort_by (by_score_desc fd) scored))"

text \<open>The token weights of the other proposals: only the tokens are used.\<close>

definition add_other ::
  "'d floats \<Rightarrow> (string \<Rightarrow> string list) \<Rightarrow> nat \<Rightarrow> 'd \<Rightarrow> 'd \<Rightarrow> nat \<times> 'd scored \<Rightarrow> (string, 'd) hash_map \<Rightarrow> (string, 'd) hash_map"
where
  "add_other fd alnum i total_score fallback = (\<lambda>(j, (_, score, p)) weights.
     (if i = j then weights
      else (let w = if fl_less fd (fl_of_nat fd 0) total_score then fl_div fd score total_score else fallback
            in fold (\<lambda>tok ws. AList.update tok (fl_add fd (case map_of ws tok of None \<Rightarrow> fl_of_nat fd 0 | Some x \<Rightarrow> x) w) ws)
                 (token_features alnum p) weights)))"

definition others_weights :: "'d floats \<Rightarrow> (string \<Rightarrow> string list) \<Rightarrow> 'd scored list \<Rightarrow> nat \<Rightarrow> (string, 'd) hash_map" where
  "others_weights fd alnum scored i =
     (let total_score = foldl (fl_add fd) (fl_of_nat fd 0) (map (fst \<circ> snd) scored);
          fallback = fl_div fd (fl_of_nat fd 1) (fl_of_nat fd (length scored - 1))
      in fold (add_other fd alnum i total_score fallback) (enumerate 0 scored) [])"

definition outlier_distances :: "'d floats \<Rightarrow> (string \<Rightarrow> string list) \<Rightarrow> 'd scored list \<Rightarrow> (string \<times> 'd) list" where
  "outlier_distances fd alnum scored =
     map (\<lambda>(i, (pid, _, p)). (pid, jaccard_tokens fd (token_features alnum p) (map fst (others_weights fd alnum scored i))))
       (enumerate 0 scored)"

definition apply_outlier :: "'d floats \<Rightarrow> (string \<Rightarrow> string list) \<Rightarrow> nat \<Rightarrow> 'd scored list \<Rightarrow> string list" where
  "apply_outlier fd alnum n scored =
     (if n = 0 \<or> scored = [] then []
      else map fst (take n (sort_by (\<lambda>(_, a) (_, b). fl_cmp fd b a) (outlier_distances fd alnum scored))))"

definition apply_plan :: "'d floats \<Rightarrow> (string \<Rightarrow> string list) \<Rightarrow> selection_plan \<Rightarrow> 'd scored list \<Rightarrow> string list" where
  "apply_plan fd alnum plan scored =
     (case sp_kind plan of
        TopN \<Rightarrow> apply_top fd (sp_count plan) scored
      | DiverseN \<Rightarrow> apply_diverse fd alnum (sp_count plan) scored
      | OutlierN \<Rightarrow> apply_outlier fd alnum (sp_count plan) scored)"

section \<open>Cardinalities agree\<close>

lemma cardinality_ranges: "cd_soft (cardinality_for_mode m) = fst (range_for_mode m)" "cd_hard (cardinality_for_mode m) = snd (range_for_mode m)"
    "cd_soft (cardinality_for_mode_default m) \<le> cd_hard (cardinality_for_mode_default m)"
  by (cases m; simp add: cardinality_for_mode_def range_for_mode_def cardinality_for_mode_default_def)+

section \<open>What a plan keeps\<close>

lemma pick_fold_mem: "fold (\<lambda>x acc. pick_better fd acc x) cs c \<in> set (c # cs)"
proof (induction cs arbitrary: c)
  case (Cons x cs)
  have "pick_better fd c x \<in> {c, x}" by (simp add: pick_better_def)
  then show ?case using Cons.IH [of "pick_better fd c x"] by auto
qed simp

lemma pick_next_less:
  assumes "remaining \<noteq> []"
  shows "pick_next fd alnum chosen remaining < length remaining"
proof -
  let ?l = "map (\<lambda>(idx, (_, score, p)). (idx, min_dist fd alnum chosen p, score)) (enumerate 0 remaining)"
  have "?l \<noteq> []" using assms by (metis (no_types) length_0_conv length_enumerate length_map)
  then obtain c cs where l: "?l = c # cs" by (cases ?l) auto
  have "fold (\<lambda>x acc. pick_better fd acc x) cs c \<in> set ?l" unfolding l by (rule pick_fold_mem)
  then have "fst (fold (\<lambda>x acc. pick_better fd acc x) cs c) < length remaining"
    by (auto simp: in_set_enumerate_eq)
  then show ?thesis unfolding pick_next_def l by simp
qed

lemma diverse_loop_mset:
  assumes "n \<le> length remaining"
  shows "mset (diverse_loop fd alnum n chosen remaining) \<subseteq># mset (map fst remaining) \<and> length (diverse_loop fd alnum n chosen remaining) = n"
  using assms
proof (induction fd alnum n chosen remaining rule: diverse_loop.induct)
  case (2 fd alnum n chosen remaining)
  let ?i = "pick_next fd alnum chosen remaining"
  have i: "?i < length remaining" using "2.prems" by (intro pick_next_less) auto
  obtain pid s p where r: "remaining ! ?i = (pid, s, p)" by (metis prod_cases3)
  let ?rest = "take ?i remaining @ drop (?i + 1) remaining"
  have split: "remaining = take ?i remaining @ remaining ! ?i # drop (?i + 1) remaining"
    using id_take_nth_drop [OF i] by simp
  have "mset (map fst remaining) = add_mset pid (mset (map fst ?rest))"
    using arg_cong [OF split, of "\<lambda>l. mset (map fst l)"] r by simp
  moreover have "n \<le> length ?rest" using i "2.prems" by simp
  ultimately show ?case using "2.IH" [OF refl r [symmetric] refl] r by (simp add: Let_def)
qed simp

lemma plan_keeps:
  "mset (apply_plan fd alnum plan scored) \<subseteq># mset (map fst scored) \<and>
   length (apply_plan fd alnum plan scored) = min (sp_count plan) (length scored)"
proof -
  have cut: "mset (take n (map fst xs)) \<subseteq># mset (map fst xs)" for n and xs :: "(string \<times> 'x) list"
    by (metis append_take_drop_id mset_append mset_subset_eq_add_left)
  show ?thesis
  proof (cases "sp_kind plan")
    case TopN
    then show ?thesis using cut [of "sp_count plan" "sort_by (by_score_desc fd) scored"]
      by (auto simp: apply_plan_def apply_top_def take_map sort_by_mset)
  next
    case DiverseN
    have "mset (map fst (sort_by (by_score_desc fd) scored)) = mset (map fst scored)" by (simp add: sort_by_mset)
    then show ?thesis using DiverseN diverse_loop_mset [of "min (sp_count plan) (length scored)" "sort_by (by_score_desc fd) scored" fd alnum "[]"]
      by (auto simp: apply_plan_def apply_diverse_def)
  next
    case OutlierN
    let ?d = "outlier_distances fd alnum scored"
    have "map fst ?d = map fst scored" by (rule nth_equalityI) (auto simp: outlier_distances_def nth_enumerate_eq case_prod_beta)
    then have "mset (map fst (sort_by (\<lambda>(_, a) (_, b). fl_cmp fd b a) ?d)) = mset (map fst scored)"
      by (metis mset_map sort_by_mset)
    moreover have "length ?d = length scored" by (simp add: outlier_distances_def)
    ultimately show ?thesis using OutlierN cut [of "sp_count plan" "sort_by (\<lambda>(_, a) (_, b). fl_cmp fd b a) ?d"]
      by (auto simp: apply_plan_def apply_outlier_def take_map)
  qed
qed

lemma plan_keeps_all:
  assumes "length scored \<le> sp_count plan"
  shows "set (apply_plan fd alnum plan scored) = fst ` set scored"
proof -
  have "mset (apply_plan fd alnum plan scored) = mset (map fst scored)"
    using plan_keeps [of fd alnum plan scored] assms mset_subset_size [of "mset (apply_plan fd alnum plan scored)" "mset (map fst scored)"]
    by (auto simp: subset_mset.le_less)
  from mset_eq_setD [OF this] show ?thesis by simp
qed

text \<open>The outlier plan does not look at the scores.\<close>

lemma token_keys:
  "map fst (fold (\<lambda>tok ws. AList.update tok (f ws tok) ws) toks m) = fold (\<lambda>tok ks. if tok \<in> set ks then ks else ks @ [tok]) toks (map fst m)"
  by (induction toks arbitrary: m) (simp_all add: update_keys)

lemma others_tokens:
  "map fst (others_weights fd alnum scored i) =
     fold (\<lambda>(j, (_, _, p)) ks. if i = j then ks else fold (\<lambda>tok ks. if tok \<in> set ks then ks else ks @ [tok]) (token_features alnum p) ks)
       (enumerate 0 scored) []"
proof -
  have "map fst (fold (add_other fd alnum i total_score fallback) xs m) =
      fold (\<lambda>(j, (_, _, p)) ks. if i = j then ks else fold (\<lambda>tok ks. if tok \<in> set ks then ks else ks @ [tok]) (token_features alnum p) ks)
        xs (map fst m)" for total_score fallback xs m
  proof (induction xs arbitrary: m)
    case (Cons x xs)
    obtain j a s p where x: "x = (j, a, s, p)" by (metis prod_cases4)
    have "map fst (add_other fd alnum i total_score fallback x m) =
        (if i = j then map fst m else fold (\<lambda>tok ks. if tok \<in> set ks then ks else ks @ [tok]) (token_features alnum p) (map fst m))"
      by (simp add: x add_other_def Let_def token_keys)
    then show ?case using Cons.IH [of "add_other fd alnum i total_score fallback x m"] by (simp add: x)
  qed simp
  then show ?thesis unfolding others_weights_def Let_def by simp
qed

text \<open>A plan keeps as many proposals as asked for, each of them once and taken from the given ones. The
  outlier plan, described as weighing by score, gives the same result whatever the scores are.\<close>

lemma plan_keeps_count:
  "mset (apply_plan fd alnum plan scored) \<subseteq># mset (map fst scored) \<and>
   length (apply_plan fd alnum plan scored) = min (sp_count plan) (length scored) \<and>
   apply_outlier fd alnum n scored = apply_outlier fd alnum n (map (\<lambda>(pid, _, p). (pid, f pid, p)) scored)"
proof -
  let ?s = "map (\<lambda>(pid, _, p). (pid, f pid, p)) scored"
  have en: "enumerate 0 ?s = map (\<lambda>(j, (pid, _, p)). (j, (pid, f pid, p))) (enumerate 0 scored)"
    by (rule nth_equalityI) (auto simp: nth_enumerate_eq case_prod_beta)
  have "map fst (others_weights fd alnum ?s i) = map fst (others_weights fd alnum scored i)" for i
    unfolding others_tokens en fold_map comp_def by (rule fold_cong) auto
  then have "outlier_distances fd alnum ?s = outlier_distances fd alnum scored"
    by (simp add: outlier_distances_def en comp_def case_prod_beta)
  then have "apply_outlier fd alnum n scored = apply_outlier fd alnum n ?s" by (simp add: apply_outlier_def)
  then show ?thesis using plan_keeps by blast
qed

end
