(* ===== verification/Ranking.thy ===== *)
theory Ranking imports Selection begin

text \<open>
  The rank phase on the evaluations it has read: \<open>src/phases/rank.rs\<close>, with the weighted score
  of \<open>src/config/mod.rs\<close> and the stability check of \<open>src/ranking/stability.rs\<close>. Single-precision
  floats are \<open>re_f32\<close>, double-precision ones \<open>re_f64\<close>; the order of the items is the order in
  which the directory lists them. The reason text of an entry, events and files other than the
  stamps on replaced proposals are left out.
\<close>

section \<open>The weighted score\<close>

record 'q weights =
  rw_correctness :: "'q"
  rw_completeness :: "'q"
  rw_fit :: "'q"
  rw_evidence :: "'q"
  rw_clarity :: "'q"
  rw_overall :: "'q"

definition fl_sum :: "'q floats \<Rightarrow> 'q list \<Rightarrow> 'q" where
  "fl_sum fl xs = foldl (fl_add fl) (fl_of_nat fl 0) xs"

definition weighted_score :: "'q floats \<Rightarrow> 'q weights \<Rightarrow> 'q quality \<Rightarrow> 'q \<Rightarrow> 'q" where
  "weighted_score fl w v overall =
     (let ws = [rw_correctness w, rw_completeness w, rw_fit w, rw_evidence w, rw_clarity w];
          sum = fl_sum fl ws;
          avg = (if fl_less fl (fl_of_nat fl 0) sum
                 then fl_div fl (fl_sum fl (map (\<lambda>(a, c). fl_mul fl a c) (zip ws (qv_dims v)))) sum
                 else fl_of_nat fl 0);
          all = fl_add fl sum (rw_overall w)
      in if fl_less fl (fl_of_nat fl 0) all
         then fl_div fl (fl_add fl (fl_mul fl sum avg) (fl_mul fl (rw_overall w) overall)) all
         else fl_of_nat fl 0)"

section \<open>Items and results\<close>

record 'q aggregated =
  ag_score :: "'q"
  ag_correctness :: "'q"
  ag_completeness :: "'q"
  ag_fit :: "'q"
  ag_evidence :: "'q"
  ag_clarity :: "'q"
  ag_judges :: nat

definition from_aggregated :: "'q aggregated \<Rightarrow> 'q quality" where
  "from_aggregated a =
     \<lparr>qv_correctness = ag_correctness a, qv_completeness = ag_completeness a, qv_fit = ag_fit a,
      qv_evidence = ag_evidence a, qv_clarity = ag_clarity a\<rparr>"

type_synonym 'q item = "string \<times> 'q aggregated \<times> proposal"

abbreviation item_id :: "'q item \<Rightarrow> string" where
  "item_id \<equiv> fst"

abbreviation item_quality :: "'q item \<Rightarrow> 'q quality" where
  "item_quality x \<equiv> from_aggregated (fst (snd x))"

record 'q rank_entry =
  re_id :: string
  re_score :: "'q"

record 'q ranking =
  rk_ranked :: "'q rank_entry list"
  rk_representatives :: "'q rank_entry list"
  rk_winner :: string

record ('q, 'd) rank_env =
  re_f32 :: "'q floats"
  re_f64 :: "'d floats"
  re_widen :: "'q \<Rightarrow> 'd"
  re_alnum :: "string \<Rightarrow> string list"
  re_threshold :: "'q"
  re_weights :: "'q weights"
  re_plan :: selection_plan
  re_replace :: bool

definition rank_top_k :: nat where
  "rank_top_k = 3"

definition rank_all :: "('q, 'd) rank_env \<Rightarrow> 'q item list \<Rightarrow> 'q rank_entry list" where
  "rank_all env items =
     sort_by (\<lambda>a b. fl_cmp (re_f32 env) (re_score b) (re_score a))
       (map (\<lambda>x. \<lparr>re_id = item_id x,
          re_score = weighted_score (re_f32 env) (re_weights env) (item_quality x) (ag_score (fst (snd x)))\<rparr>) items)"

definition front_clusters :: "('q, 'd) rank_env \<Rightarrow> 'q item list \<Rightarrow> nat list list option" where
  "front_clusters env items =
     (let front = pareto_front (re_f32 env) (map item_quality items);
          texts = map (\<lambda>i. proposal_text (snd (snd (items ! i)))) front
      in if length texts \<le> 1 then Some (map (\<lambda>i. [i]) front)
         else map_option (map (map (\<lambda>idx. front ! idx))) (cluster_by_simhash (re_f32 env) (re_threshold env) texts))"

definition entry_of :: "'q rank_entry list \<Rightarrow> string \<Rightarrow> 'q rank_entry option" where
  "entry_of ranked i = find (\<lambda>r. re_id r = i) ranked"

section \<open>Replacing sources by their synthesis\<close>

text \<open>A file of the directory of syntheses: its name, and its source ids when it can be read.\<close>

record synthesis_file =
  sf_name :: string
  sf_sources :: "string list option"

record replacement =
  rp_dropped :: "string list"
  rp_promoted :: "string list"
  rp_stamps :: "(string \<times> string) list"

definition synthesis_id :: "synthesis_file \<Rightarrow> string option" where
  "synthesis_id f =
     (if \<not> suffix ''.json'' (sf_name f) \<or> suffix ''.meta.json'' (sf_name f) then None
      else (let stem = take (length (sf_name f) - 5) (sf_name f)
            in if prefix ''s_'' stem then Some stem else None))"

definition replace_step :: "('q, 'd) rank_env \<Rightarrow> 'q item list \<Rightarrow> synthesis_file \<Rightarrow> replacement \<Rightarrow> replacement" where
  "replace_step env items f acc =
     (case synthesis_id f of
        None \<Rightarrow> acc
      | Some syn \<Rightarrow>
          (case sf_sources f of
             None \<Rightarrow> acc
           | Some sources \<Rightarrow>
               (if sources = [] then acc
                else (case map_of (rev items) syn of
                        None \<Rightarrow> acc
                      | Some (a, _) \<Rightarrow>
                          (let found = List.map_filter (\<lambda>sid. map_option (\<lambda>(b, _). from_aggregated b) (map_of (rev items) sid)) sources
                           in if length found \<noteq> length sources then acc
                              else if should_replace_synthesis (re_f32 env) (from_aggregated a) found
                              then \<lparr>rp_dropped = rp_dropped acc @ sources, rp_promoted = rp_promoted acc @ [syn],
                                    rp_stamps = rp_stamps acc @ map (\<lambda>sid. (sid, syn)) sources\<rparr>
                              else acc)))))"

definition apply_synthesis_replacement :: "('q, 'd) rank_env \<Rightarrow> 'q item list \<Rightarrow> synthesis_file list \<Rightarrow> replacement" where
  "apply_synthesis_replacement env items files =
     fold (replace_step env items) files \<lparr>rp_dropped = [], rp_promoted = [], rp_stamps = []\<rparr>"

definition insert_promoted ::
  "'q rank_entry list \<Rightarrow> string \<Rightarrow> 'q rank_entry list \<Rightarrow> 'q rank_entry list"
where
  "insert_promoted ranked syn reps =
     (if \<exists>r\<in>set reps. re_id r = syn then reps
      else case entry_of ranked syn of Some e \<Rightarrow> e # reps | None \<Rightarrow> reps)"

section \<open>The phase\<close>

definition scored_items :: "('q, 'd) rank_env \<Rightarrow> 'q item list \<Rightarrow> 'q rank_entry list \<Rightarrow> 'd scored list" where
  "scored_items env items ranked =
     map (\<lambda>r. (re_id r, re_widen env (re_score r),
       (case map_of (rev items) (re_id r) of Some (_, p) \<Rightarrow> p | None \<Rightarrow> proposal_default))) ranked"

definition chosen_ids ::
  "('q, 'd) rank_env \<Rightarrow> 'q item list \<Rightarrow> 'q rank_entry list \<Rightarrow> string list \<Rightarrow> string set"
where
  "chosen_ids env items ranked promoted =
     set (apply_plan (re_f64 env) (re_alnum env) (re_plan env) (scored_items env items ranked)) \<union>
     set (filter (prefix ''s_'') (map re_id ranked)) \<union> set promoted"

definition rank_winner :: "'q rank_entry list \<Rightarrow> 'q rank_entry list \<Rightarrow> string" where
  "rank_winner reps ranked = (case reps of r # _ \<Rightarrow> re_id r | [] \<Rightarrow> (case ranked of r # _ \<Rightarrow> re_id r | [] \<Rightarrow> []))"

definition rank_phase :: "('q, 'd) rank_env \<Rightarrow> 'q item list \<Rightarrow> synthesis_file list \<Rightarrow> ('q ranking \<times> replacement) option" where
  "rank_phase env items files =
     (if items = []
      then Some (\<lparr>rk_ranked = [], rk_representatives = [], rk_winner = []\<rparr>, \<lparr>rp_dropped = [], rp_promoted = [], rp_stamps = []\<rparr>)
      else case front_clusters env items of
        None \<Rightarrow> None
      | Some clusters \<Rightarrow>
          (let picked = pick_with_crowding (re_f32 env) clusters (map item_quality items) rank_top_k;
               ranked0 = rank_all env items;
               reps0 = List.map_filter (\<lambda>i. entry_of ranked0 (item_id (items ! i))) picked;
               rp = (if re_replace env then apply_synthesis_replacement env items files
                     else \<lparr>rp_dropped = [], rp_promoted = [], rp_stamps = []\<rparr>);
               ranked1 = filter (\<lambda>r. re_id r \<notin> set (rp_dropped rp)) ranked0;
               reps1 = (if rp_dropped rp = [] then reps0 else fold (insert_promoted ranked1) (rp_promoted rp) reps0);
               chosen = chosen_ids env items ranked1 (rp_promoted rp)
           in Some (\<lparr>rk_ranked = filter (\<lambda>r. re_id r \<in> chosen) ranked1,
                     rk_representatives = filter (\<lambda>r. re_id r \<in> chosen) reps1,
                     rk_winner = rank_winner reps1 ranked1\<rparr>, rp)))"

section \<open>Stability\<close>

definition clamp_weight :: "'q floats \<Rightarrow> 'q \<Rightarrow> 'q" where
  "clamp_weight fl x =
     (if fl_less fl x (fl_of_nat fl 0) then fl_of_nat fl 0 else if fl_less fl (fl_of_nat fl 2) x then fl_of_nat fl 2 else x)"

definition perturb_one :: "'q floats \<Rightarrow> 'q \<Rightarrow> 'q \<Rightarrow> 'q \<Rightarrow> 'q" where
  "perturb_one fl base sigma noise = clamp_weight fl (fl_add fl base (fl_mul fl noise sigma))"

text \<open>The draws of the generator are an argument, six for each perturbation.\<close>

definition perturb_weights :: "'q floats \<Rightarrow> 'q weights \<Rightarrow> nat \<Rightarrow> 'q \<Rightarrow> (nat \<Rightarrow> nat \<Rightarrow> 'q) \<Rightarrow> 'q weights list" where
  "perturb_weights fl base n sigma draw =
     (if n = 0 \<or> fl_less fl sigma (fl_of_nat fl 0) \<or> fl_eq fl sigma (fl_of_nat fl 0) then []
      else map (\<lambda>k. \<lparr>rw_correctness = perturb_one fl (rw_correctness base) sigma (draw k 0),
                     rw_completeness = perturb_one fl (rw_completeness base) sigma (draw k 1),
                     rw_fit = perturb_one fl (rw_fit base) sigma (draw k 2),
                     rw_evidence = perturb_one fl (rw_evidence base) sigma (draw k 3),
                     rw_clarity = perturb_one fl (rw_clarity base) sigma (draw k 4),
                     rw_overall = perturb_one fl (rw_overall base) sigma (draw k 5)\<rparr>) [0..<n])"

record 'q eval_snapshot =
  es_quality :: "'q quality"
  es_overall :: "'q"

definition best_step ::
  "'q floats \<Rightarrow> 'q weights \<Rightarrow> string \<times> 'q eval_snapshot \<Rightarrow> (string \<times> 'q) option \<Rightarrow> (string \<times> 'q) option"
where
  "best_step fl w = (\<lambda>(i, snap) best.
     (let score = weighted_score fl w (es_quality snap) (es_overall snap)
      in case best of
           None \<Rightarrow> Some (i, score)
         | Some (cur, cur_score) \<Rightarrow>
             (if fl_less fl cur_score score \<or> (fl_eq fl score cur_score \<and> i < cur) then Some (i, score) else Some (cur, cur_score))))"

definition top_under :: "'q floats \<Rightarrow> (string \<times> 'q eval_snapshot) list \<Rightarrow> 'q weights \<Rightarrow> string option" where
  "top_under fl snaps w = map_option fst (fold (best_step fl w) snaps None)"

definition wins_of :: "'q floats \<Rightarrow> 'q weights list \<Rightarrow> (string \<times> 'q eval_snapshot) list \<Rightarrow> string \<Rightarrow> nat" where
  "wins_of fl ws snaps i = length (filter (\<lambda>w. top_under fl snaps w = Some i) ws)"

definition stability_score :: "'q floats \<Rightarrow> 'q weights list \<Rightarrow> (string \<times> 'q eval_snapshot) list \<Rightarrow> (string \<times> 'q) list" where
  "stability_score fl ws snaps =
     (if ws = [] \<or> snaps = [] then []
      else if length snaps = 1 then [(fst (hd snaps), fl_of_nat fl 1)]
      else map (\<lambda>(i, _). (i, fl_div fl (fl_of_nat fl (wins_of fl ws snaps i)) (fl_of_nat fl (length ws)))) snaps)"

datatype stability_label = Stable | Sensitive

definition stability_label_of :: "'q floats \<Rightarrow> 'q \<Rightarrow> 'q \<Rightarrow> stability_label" where
  "stability_label_of fl score threshold = (if fl_less fl threshold score \<or> fl_eq fl threshold score then Stable else Sensitive)"

definition stability_check ::
  "'q floats \<Rightarrow> 'q weights list \<Rightarrow> (string \<times> 'q eval_snapshot) list \<Rightarrow> 'q \<Rightarrow> (string \<times> 'q) list \<times> stability_label"
where
  "stability_check fl ws snaps threshold =
     (let score = stability_score fl ws snaps
      in (score, case map snd score of
                   [] \<Rightarrow> Stable
                 | x # xs \<Rightarrow> stability_label_of fl (fold (\<lambda>y acc. fl_max fl acc y) xs x) threshold))"

section \<open>The clusters of the front\<close>

lemma front_clusters:
  "\<exists>cs. front_clusters env items = Some cs \<and> [] \<notin> set cs \<and> distinct (concat cs) \<and>
     set (concat cs) = set (pareto_front (re_f32 env) (map item_quality items))"
proof -
  let ?front = "pareto_front (re_f32 env) (map item_quality items)"
  let ?texts = "map (\<lambda>i. proposal_text (snd (snd (items ! i)))) ?front"
  show ?thesis
  proof (cases "length ?texts \<le> 1")
    case True
    have "concat (map (\<lambda>i. [i]) ?front) = ?front" by (induction ?front) simp_all
    moreover have "[] \<notin> set (map (\<lambda>i. [i]) ?front)" by auto
    ultimately show ?thesis using True front_members(2) [of "re_f32 env" "map item_quality items"]
      unfolding front_clusters_def Let_def by auto
  next
    case False
    from cluster_sets [of "re_f32 env" "re_threshold env" ?texts] obtain sets where s:
      "cluster_by_simhash (re_f32 env) (re_threshold env) ?texts = Some (map snd sets)" "bt_wf sets"
      "sets_of (length ?texts) (set (near_pairs (re_f32 env) (re_threshold env) ?texts)) sets"
      "\<forall>(root, ns)\<in>set sets. sorted ns \<and> distinct ns \<and> hd ns = root" by blast
    let ?cs = "map (map ((!) ?front)) (map snd sets)"
    note c = sets_concat [OF s(2,3,4)]
    have fc: "front_clusters env items = Some ?cs" using False s(1) by (simp add: front_clusters_def Let_def comp_def)
    have "concat ?cs = map ((!) ?front) (concat (map snd sets))" by (simp add: map_concat)
    moreover have "inj_on ((!) ?front) {..<length ?front}"
      using front_members(2) [of "re_f32 env" "map item_quality items"] by (simp add: inj_on_nth)
    moreover have "(!) ?front ` {..<length ?front} = set ?front" by (auto simp: set_conv_nth)
    ultimately have "distinct (concat ?cs)" "set (concat ?cs) = set ?front" using c(1,2) by (simp_all add: distinct_map)
    moreover have "[] \<notin> set ?cs" using sets_ofD(2) [OF s(3)] by auto
    ultimately show ?thesis using fc by blast
  qed
qed

lemma rank_all_ids: "mset (map re_id (rank_all env items)) = mset (map fst items)"
  unfolding rank_all_def mset_map sort_by_mset by (simp add: multiset.map_comp comp_def)

lemma rank_all_distinct: "distinct (map fst items) \<Longrightarrow> distinct (map re_id (rank_all env items))"
  using mset_eq_imp_distinct_iff [OF rank_all_ids [of env items]] by simp

lemma entry_of_rank_all:
  assumes "x \<in> set items"
  shows "\<exists>e\<in>set (rank_all env items). entry_of (rank_all env items) (fst x) = Some e \<and> re_id e = fst x"
proof -
  have "fst x \<in> set (map re_id (rank_all env items))"
    using assms unfolding mset_eq_setD [OF rank_all_ids] by simp
  then have "entry_of (rank_all env items) (fst x) \<noteq> None" unfolding entry_of_def find_None_iff by auto
  then obtain e where e: "entry_of (rank_all env items) (fst x) = Some e" by blast
  then obtain k where "k < length (rank_all env items)" "e = rank_all env items ! k" "re_id (rank_all env items ! k) = fst x"
    unfolding entry_of_def find_Some_iff by blast
  then show ?thesis using e by auto
qed

text \<open>The phase with everything but the plan named.\<close>

lemma rank_phase_cases:
  assumes "items \<noteq> []"
  obtains cs picked reps0 rp reps1 where
    "picked \<noteq> []" "set picked \<subseteq> set (pareto_front (re_f32 env) (map item_quality items))"
    "reps0 = List.map_filter (\<lambda>i. entry_of (rank_all env items) (item_id (items ! i))) picked"
    "rp = (if re_replace env then apply_synthesis_replacement env items files else \<lparr>rp_dropped = [], rp_promoted = [], rp_stamps = []\<rparr>)"
    "reps1 = (if rp_dropped rp = [] then reps0
       else fold (insert_promoted (filter (\<lambda>r. re_id r \<notin> set (rp_dropped rp)) (rank_all env items))) (rp_promoted rp) reps0)"
    "rank_phase env items files =
       (let ranked1 = filter (\<lambda>r. re_id r \<notin> set (rp_dropped rp)) (rank_all env items);
            chosen = chosen_ids env items ranked1 (rp_promoted rp)
        in Some (\<lparr>rk_ranked = filter (\<lambda>r. re_id r \<in> chosen) ranked1, rk_representatives = filter (\<lambda>r. re_id r \<in> chosen) reps1,
                  rk_winner = rank_winner reps1 ranked1\<rparr>, rp))"
    "front_clusters env items = Some cs"
    "picked = pick_with_crowding (re_f32 env) cs (map item_quality items) rank_top_k"
proof -
  obtain cs where cs: "front_clusters env items = Some cs" "[] \<notin> set cs" "distinct (concat cs)"
    "set (concat cs) = set (pareto_front (re_f32 env) (map item_quality items))" using front_clusters [of env items] by blast
  let ?p = "pick_with_crowding (re_f32 env) cs (map item_quality items) rank_top_k"
  have len: "length ?p = min rank_top_k (length (concat cs))" and sub: "mset ?p \<subseteq># mset (concat cs)"
    using pick_parts [OF cs(2), of "re_f32 env" "map item_quality items" rank_top_k] by blast+
  have "set (concat cs) \<noteq> {}" unfolding cs(4) using front_nonempty [of "map item_quality items" "re_f32 env"] assms by simp
  then have "0 < length (concat cs)" by (metis length_greater_0_conv set_empty)
  then have "0 < min rank_top_k (length (concat cs))" unfolding min_less_iff_conj by (simp add: rank_top_k_def)
  then have "0 < length ?p" by (simp only: len)
  then have "?p \<noteq> []" by simp
  moreover have "set ?p \<subseteq> set (pareto_front (re_f32 env) (map item_quality items))"
    using set_mset_mono [OF sub] cs(4) by simp
  ultimately show thesis
    by (rule that [OF _ _ refl refl refl _ cs(1) refl]) (simp add: rank_phase_def assms cs(1) Let_def)
qed

text \<open>C19: When no synthesis replaces its sources, the winner of a ranking is a proposal that no other proposal
  dominates; if the plan, of whatever kind, keeps as many proposals as there are, the winner heads
  the representatives and is in the ranked list.\<close>

theorem rank_winner_undominated:
  assumes "float_order (re_f32 env)" "items \<noteq> []"
    and "re_replace env \<longrightarrow> rp_dropped (apply_synthesis_replacement env items files) = []"
  shows "\<exists>rk rp x. rank_phase env items files = Some (rk, rp) \<and> x \<in> set items \<and> rk_winner rk = fst x \<and>
    (\<forall>y\<in>set items. \<not> dominates (re_f32 env) (item_quality y) (item_quality x)) \<and>
    (length items \<le> sp_count (re_plan env) \<longrightarrow>
       map re_id (take 1 (rk_representatives rk)) = [rk_winner rk] \<and> rk_winner rk \<in> re_id ` set (rk_ranked rk))"
proof -
  obtain picked reps0 rp reps1 where r: "picked \<noteq> []" "set picked \<subseteq> set (pareto_front (re_f32 env) (map item_quality items))"
    "reps0 = List.map_filter (\<lambda>i. entry_of (rank_all env items) (item_id (items ! i))) picked"
    "rp = (if re_replace env then apply_synthesis_replacement env items files else \<lparr>rp_dropped = [], rp_promoted = [], rp_stamps = []\<rparr>)"
    "reps1 = (if rp_dropped rp = [] then reps0
       else fold (insert_promoted (filter (\<lambda>r. re_id r \<notin> set (rp_dropped rp)) (rank_all env items))) (rp_promoted rp) reps0)"
    "rank_phase env items files =
       (let ranked1 = filter (\<lambda>r. re_id r \<notin> set (rp_dropped rp)) (rank_all env items);
            chosen = chosen_ids env items ranked1 (rp_promoted rp)
        in Some (\<lparr>rk_ranked = filter (\<lambda>r. re_id r \<in> chosen) ranked1, rk_representatives = filter (\<lambda>r. re_id r \<in> chosen) reps1,
                  rk_winner = rank_winner reps1 ranked1\<rparr>, rp))"
    by (rule rank_phase_cases [OF assms(2)])
  have drop: "rp_dropped rp = []" using assms(3) r(4) by auto
  then have reps: "reps1 = reps0" using r(5) by simp
  obtain i rest where i: "picked = i # rest" using r(1) by (cases picked) auto
  have fr: "i \<in> set (pareto_front (re_f32 env) (map item_quality items))" using r(2) i by simp
  then have lt: "i < length items" using front_members(1) by fastforce
  let ?x = "items ! i"
  have x: "?x \<in> set items" using lt by simp
  obtain e where e: "e \<in> set (rank_all env items)" "entry_of (rank_all env items) (fst ?x) = Some e" "re_id e = fst ?x"
    using entry_of_rank_all [OF x] by blast
  have hd: "reps1 = e # List.map_filter (\<lambda>i. entry_of (rank_all env items) (item_id (items ! i))) rest"
    unfolding reps r(3) i by (simp add: List.map_filter_simps e(2))
  have undom: "\<not> dominates (re_f32 env) (item_quality y) (item_quality ?x)" if y: "y \<in> set items" for y
  proof -
    obtain j where "j < length items" "items ! j = y" using y unfolding in_set_conv_nth by blast
    then show ?thesis using fr lt unfolding front_exact [OF assms(1)] by auto
  qed
  let ?chosen = "chosen_ids env items (rank_all env items) (rp_promoted rp)"
  have res: "rank_phase env items files = Some (\<lparr>rk_ranked = filter (\<lambda>r. re_id r \<in> ?chosen) (rank_all env items),
      rk_representatives = filter (\<lambda>r. re_id r \<in> ?chosen) reps1, rk_winner = fst ?x\<rparr>, rp)"
    unfolding r(6) Let_def drop by (simp add: rank_winner_def hd e(3))
  let ?rk = "\<lparr>rk_ranked = filter (\<lambda>r. re_id r \<in> ?chosen) (rank_all env items),
      rk_representatives = filter (\<lambda>r. re_id r \<in> ?chosen) reps1, rk_winner = fst ?x\<rparr>"
  have listed: "map re_id (take 1 (rk_representatives ?rk)) = [fst ?x] \<and> fst ?x \<in> re_id ` set (rk_ranked ?rk)"
    if plan: "length items \<le> sp_count (re_plan env)"
  proof -
    let ?s = "scored_items env items (rank_all env items)"
    have "length ?s = length items" by (simp add: scored_items_def rank_all_def)
    then have "set (apply_plan (re_f64 env) (re_alnum env) (re_plan env) ?s) = fst ` set ?s"
      using plan by (intro plan_keeps_all) simp
    moreover have "re_id e \<in> fst ` set ?s" using e(1) by (force simp: scored_items_def)
    ultimately have c: "re_id e \<in> ?chosen" by (simp add: chosen_ids_def)
    then have "filter (\<lambda>r. re_id r \<in> ?chosen) reps1 = e # filter (\<lambda>r. re_id r \<in> ?chosen) (tl reps1)" by (simp add: hd)
    moreover have "e \<in> set (filter (\<lambda>r. re_id r \<in> ?chosen) (rank_all env items))" using c e(1) by simp
    then have "fst ?x \<in> re_id ` set (filter (\<lambda>r. re_id r \<in> ?chosen) (rank_all env items))" using e(3) by (metis imageI)
    ultimately show ?thesis by (simp add: e(3))
  qed
  show ?thesis
    by (rule exI [of _ ?rk], rule exI [of _ rp], rule exI [of _ ?x], intro conjI ballI impI)
      (use res x undom listed in \<open>simp_all only: ranking.select_convs simp_thms\<close>)
qed

text \<open>Integer scores, one word per text and every proposal kept.\<close>

definition example_env :: "bool \<Rightarrow> (int, int) rank_env" where
  "example_env replace =
     \<lparr>re_f32 = int_floats, re_f64 = int_floats, re_widen = (\<lambda>x. x), re_alnum = split_whitespace, re_threshold = 0,
      re_weights = \<lparr>rw_correctness = 1, rw_completeness = 1, rw_fit = 1, rw_evidence = 1, rw_clarity = 1, rw_overall = 0\<rparr>,
      re_plan = keep_top 10, re_replace = replace\<rparr>"

definition example_item :: "string \<Rightarrow> int list \<Rightarrow> int item" where
  "example_item i xs = (i, \<lparr>ag_score = 0, ag_correctness = xs ! 0, ag_completeness = xs ! 1, ag_fit = xs ! 2, ag_evidence = xs ! 3,
     ag_clarity = xs ! 4, ag_judges = 1\<rparr>, proposal_default\<lparr>pr_summary := i\<rparr>)"

theorem rank_winner_undominated_witness:
  "\<exists>rk rp x. rank_phase (example_env False) [example_item ''p_1'' [9, 1, 1, 1, 1], example_item ''p_2'' [1, 9, 9, 9, 9]] [] = Some (rk, rp) \<and>
     rk_winner rk = fst x \<and> map re_id (take 1 (rk_representatives rk)) = [rk_winner rk]"
  using rank_winner_undominated [of "example_env False" "[example_item ''p_1'' [9, 1, 1, 1, 1], example_item ''p_2'' [1, 9, 9, 9, 9]]" "[]"]
  by (auto simp: example_env_def int_floats_order keep_top_def)

section \<open>How the winner is named\<close>

lemma replacement_inv:
  "set (rp_promoted (apply_synthesis_replacement env items files)) \<subseteq> fst ` set items \<and>
   (rp_dropped (apply_synthesis_replacement env items files) = [] \<longrightarrow> rp_promoted (apply_synthesis_replacement env items files) = [])"
proof -
  have step: "set (rp_promoted (replace_step env items f acc)) \<subseteq> fst ` set items \<and>
      (rp_dropped (replace_step env items f acc) = [] \<longrightarrow> rp_promoted (replace_step env items f acc) = [])"
    if "set (rp_promoted acc) \<subseteq> fst ` set items \<and> (rp_dropped acc = [] \<longrightarrow> rp_promoted acc = [])" for f acc
    using that by (auto simp: replace_step_def Let_def dest!: map_of_SomeD intro: rev_image_eqI split: option.split)
  have "set (rp_promoted (fold (replace_step env items) files acc)) \<subseteq> fst ` set items \<and>
      (rp_dropped (fold (replace_step env items) files acc) = [] \<longrightarrow> rp_promoted (fold (replace_step env items) files acc) = [])"
    if "set (rp_promoted acc) \<subseteq> fst ` set items \<and> (rp_dropped acc = [] \<longrightarrow> rp_promoted acc = [])" for acc
    using that
  proof (induction files arbitrary: acc)
    case (Cons f files)
    show ?case using Cons.IH [OF step [OF Cons.prems, of f]] by simp
  qed simp
  then show ?thesis unfolding apply_synthesis_replacement_def by simp
qed

lemma insert_promoted_ids:
  "map re_id (insert_promoted ranked syn reps) =
     (if syn \<in> re_id ` set reps \<or> syn \<notin> re_id ` set ranked then map re_id reps else syn # map re_id reps)"
proof (cases "entry_of ranked syn")
  case None
  then have "syn \<notin> re_id ` set ranked" by (auto simp: entry_of_def find_None_iff)
  then show ?thesis by (simp add: insert_promoted_def None)
next
  case (Some e)
  then have "re_id e = syn \<and> e \<in> set ranked" by (auto simp: entry_of_def find_Some_iff)
  then have "syn \<in> re_id ` set ranked" "re_id e = syn" by auto
  moreover have "(\<exists>r\<in>set reps. re_id r = syn) \<longleftrightarrow> syn \<in> re_id ` set reps" by auto
  ultimately show ?thesis unfolding insert_promoted_def Some by simp
qed

lemma insert_all_ids:
  "map re_id (fold (insert_promoted ranked) syns reps) =
     remdups (rev (filter (\<lambda>s. s \<notin> re_id ` set reps \<and> s \<in> re_id ` set ranked) syns)) @ map re_id reps"
proof (induction syns rule: rev_induct)
  case (snoc s syns)
  have "re_id ` set (fold (insert_promoted ranked) syns reps) =
      {s \<in> set syns. s \<notin> re_id ` set reps \<and> s \<in> re_id ` set ranked} \<union> re_id ` set reps"
    using arg_cong [OF snoc.IH, of set] by simp
  then show ?case by (auto simp: insert_promoted_ids snoc.IH)
qed simp

lemma picked_ids:
  assumes "\<forall>i\<in>set picked. i < length items"
  shows "map re_id (List.map_filter (\<lambda>i. entry_of (rank_all env items) (item_id (items ! i))) picked) = map (\<lambda>i. item_id (items ! i)) picked"
  using assms
proof (induction picked)
  case (Cons i picked)
  have "items ! i \<in> set items" using Cons.prems by simp
  from entry_of_rank_all [OF this, of env] show ?case using Cons by (auto simp: List.map_filter_simps)
qed (simp add: List.map_filter_simps)

text \<open>C21: How a ranking names its winner, whatever the proposals, syntheses and plan. Take the picked members of
  the clusters of the front, in the order of the clusters, and put before them each promoted
  synthesis that is not among them and is not replaced itself, the latest first. The winner is the
  head of this list, and the representatives are what the plan leaves of it. So the winner is a
  replaced proposal exactly when no synthesis is put in front and the first picked proposal has been
  replaced; then the ranking that is written lists it nowhere.\<close>

theorem rank_winner_rule:
  assumes "items \<noteq> []"
  shows "\<exists>cs rk rp. front_clusters env items = Some cs \<and> rank_phase env items files = Some (rk, rp) \<and>
    (let picked = map (\<lambda>i. item_id (items ! i)) (pick_with_crowding (re_f32 env) cs (map item_quality items) rank_top_k);
         front = remdups (rev (filter (\<lambda>s. s \<notin> set picked \<and> s \<notin> set (rp_dropped rp)) (rp_promoted rp)));
         kept = chosen_ids env items (filter (\<lambda>r. re_id r \<notin> set (rp_dropped rp)) (rank_all env items)) (rp_promoted rp)
     in picked \<noteq> [] \<and> rk_winner rk = hd (front @ picked) \<and>
        map re_id (rk_representatives rk) = filter (\<lambda>i. i \<in> kept) (front @ picked) \<and>
        (rk_winner rk \<in> set (rp_dropped rp) \<longleftrightarrow> front = [] \<and> hd picked \<in> set (rp_dropped rp)) \<and>
        (rk_winner rk \<in> set (rp_dropped rp) \<longrightarrow> rk_winner rk \<notin> re_id ` set (rk_ranked rk)))"
proof -
  obtain cs p reps0 rp reps1 where r: "p \<noteq> []" "set p \<subseteq> set (pareto_front (re_f32 env) (map item_quality items))"
    "reps0 = List.map_filter (\<lambda>i. entry_of (rank_all env items) (item_id (items ! i))) p"
    "rp = (if re_replace env then apply_synthesis_replacement env items files else \<lparr>rp_dropped = [], rp_promoted = [], rp_stamps = []\<rparr>)"
    "reps1 = (if rp_dropped rp = [] then reps0
       else fold (insert_promoted (filter (\<lambda>r. re_id r \<notin> set (rp_dropped rp)) (rank_all env items))) (rp_promoted rp) reps0)"
    "rank_phase env items files =
       (let ranked1 = filter (\<lambda>r. re_id r \<notin> set (rp_dropped rp)) (rank_all env items);
            chosen = chosen_ids env items ranked1 (rp_promoted rp)
        in Some (\<lparr>rk_ranked = filter (\<lambda>r. re_id r \<in> chosen) ranked1, rk_representatives = filter (\<lambda>r. re_id r \<in> chosen) reps1,
                  rk_winner = rank_winner reps1 ranked1\<rparr>, rp))"
    "front_clusters env items = Some cs"
    "p = pick_with_crowding (re_f32 env) cs (map item_quality items) rank_top_k"
    by (rule rank_phase_cases [OF assms])
  let ?picked = "map (\<lambda>i. item_id (items ! i)) p"
  let ?ranked1 = "filter (\<lambda>r. re_id r \<notin> set (rp_dropped rp)) (rank_all env items)"
  let ?front = "remdups (rev (filter (\<lambda>s. s \<notin> set ?picked \<and> s \<notin> set (rp_dropped rp)) (rp_promoted rp)))"
  have "\<forall>i\<in>set p. i < length items" using r(2) front_members(1) by fastforce
  then have reps0: "map re_id reps0 = ?picked" unfolding r(3) by (rule picked_ids)
  then have reps0_set: "re_id ` set reps0 = set ?picked" by (metis list.set_map)
  have inv: "set (rp_promoted rp) \<subseteq> fst ` set items" "rp_dropped rp = [] \<Longrightarrow> rp_promoted rp = []"
    using replacement_inv [of env items files] by (auto simp: r(4))
  have "re_id ` set (rank_all env items) = fst ` set items" using mset_eq_setD [OF rank_all_ids [of env items]] by simp
  then have "s \<in> re_id ` set ?ranked1 \<longleftrightarrow> s \<notin> set (rp_dropped rp)" if "s \<in> set (rp_promoted rp)" for s
    using inv(1) that by (fastforce simp: image_iff)
  then have "filter (\<lambda>s. s \<notin> re_id ` set reps0 \<and> s \<in> re_id ` set ?ranked1) (rp_promoted rp) =
      filter (\<lambda>s. s \<notin> set ?picked \<and> s \<notin> set (rp_dropped rp)) (rp_promoted rp)"
    unfolding reps0_set by (intro filter_cong) auto
  then have reps1: "map re_id reps1 = ?front @ ?picked"
    using insert_all_ids [of ?ranked1 "rp_promoted rp" reps0] inv(2) reps0 unfolding r(5) by auto
  have hd: "rank_winner reps1 ?ranked1 = hd (?front @ ?picked)"
  proof -
    have "reps1 \<noteq> []" using reps1 r(1) by auto
    then show ?thesis unfolding reps1 [symmetric] rank_winner_def by (cases reps1) simp_all
  qed
  let ?kept = "chosen_ids env items ?ranked1 (rp_promoted rp)"
  have c1: "map re_id (filter (\<lambda>r. re_id r \<in> ?kept) reps1) = filter (\<lambda>i. i \<in> ?kept) (?front @ ?picked)"
    unfolding reps1 [symmetric] by (simp add: filter_map comp_def)
  have c2: "hd (?front @ ?picked) \<in> set (rp_dropped rp) \<longleftrightarrow> ?front = [] \<and> hd ?picked \<in> set (rp_dropped rp)"
  proof (cases ?front)
    case (Cons s front)
    then have "s \<in> set ?front" by simp
    then have "s \<notin> set (rp_dropped rp)" by simp
    then show ?thesis unfolding Cons by simp
  qed simp
  let ?rk = "\<lparr>rk_ranked = filter (\<lambda>r. re_id r \<in> ?kept) ?ranked1,
      rk_representatives = filter (\<lambda>r. re_id r \<in> ?kept) reps1, rk_winner = hd (?front @ ?picked)\<rparr>"
  have c3: "w \<in> set (rp_dropped rp) \<longrightarrow> w \<notin> re_id ` set (rk_ranked ?rk)" for w by auto
  have c4: "rank_phase env items files = Some (?rk, rp)" unfolding r(6) Let_def hd ..
  have "?picked \<noteq> [] \<and> rk_winner ?rk = hd (?front @ ?picked) \<and>
      map re_id (rk_representatives ?rk) = filter (\<lambda>i. i \<in> ?kept) (?front @ ?picked) \<and>
      (rk_winner ?rk \<in> set (rp_dropped rp) \<longleftrightarrow> ?front = [] \<and> hd ?picked \<in> set (rp_dropped rp)) \<and>
      (rk_winner ?rk \<in> set (rp_dropped rp) \<longrightarrow> rk_winner ?rk \<notin> re_id ` set (rk_ranked ?rk))"
    using c1 c2 c3 r(1) unfolding ranking.select_convs map_is_Nil_conv by blast
  with r(7) c4 show ?thesis unfolding Let_def r(8) by blast
qed

text \<open>Both disagreements with the documentation at work: a replaced winner, and a winner that does not score highest.\<close>

lemma example_rankings:
  "(case rank_phase (example_env True)
       [example_item ''p_1'' [9, 1, 1, 1, 1], example_item ''s_0'' [1, 9, 9, 9, 9]] [\<lparr>sf_name = ''s_0.json'', sf_sources = Some [''p_1'']\<rparr>]
     of Some (rk, rp) \<Rightarrow> rk_winner rk = ''p_1'' \<and> rp_dropped rp = [''p_1''] \<and>
          map re_id (rk_ranked rk) = [''s_0''] \<and> map re_id (rk_representatives rk) = [''s_0'']
      | None \<Rightarrow> False) \<and>
   (case rank_phase (example_env False) [example_item ''p_1'' [9, 1, 1, 1, 1], example_item ''p_2'' [1, 9, 9, 9, 9]] []
     of Some (rk, rp) \<Rightarrow> rk_winner rk = ''p_1'' \<and> map re_id (rk_representatives rk) = [''p_1'', ''p_2''] \<and>
          map re_score (rk_representatives rk) = [2, 7]
      | None \<Rightarrow> False)"
  by code_simp

theorem rank_winner_rule_witness:
  "\<exists>rk rp. rank_phase (example_env True)
       [example_item ''p_1'' [9, 1, 1, 1, 1], example_item ''s_0'' [1, 9, 9, 9, 9]] [\<lparr>sf_name = ''s_0.json'', sf_sources = Some [''p_1'']\<rparr>]
     = Some (rk, rp) \<and> rk_winner rk \<in> set (rp_dropped rp) \<and> rk_winner rk \<notin> re_id ` set (rk_ranked rk)"
proof -
  let ?items = "[example_item ''p_1'' [9, 1, 1, 1, 1], example_item ''s_0'' [1, 9, 9, 9, 9]]"
  let ?files = "[\<lparr>sf_name = ''s_0.json'', sf_sources = Some [''p_1'']\<rparr>]"
  obtain rk rp where p: "rank_phase (example_env True) ?items ?files = Some (rk, rp)"
    and w: "rk_winner rk = ''p_1''" "rp_dropped rp = [''p_1'']"
    using conjunct1 [OF example_rankings] by (auto split: option.splits)
  have "?items \<noteq> []" by simp
  from rank_winner_rule [OF this, of "example_env True" ?files] p
  have "rk_winner rk \<in> set (rp_dropped rp) \<longrightarrow> rk_winner rk \<notin> re_id ` set (rk_ranked rk)"
    unfolding Let_def by (metis option.inject prod.inject)
  with p w show ?thesis by auto
qed

section \<open>The written ranking\<close>

lemma rank_all_sorted:
  assumes "float_order (re_f32 env)"
  shows "sorted_wrt (\<lambda>a b. \<not> fl_less (re_f32 env) (re_score a) (re_score b)) (rank_all env items)"
proof -
  have "sorted_wrt (\<lambda>a b. fl_cmp (re_f32 env) (re_score b) (re_score a) \<noteq> Greater) (rank_all env items)"
    unfolding rank_all_def by (rule sort_by_sorted [OF fl_cmp_order(2) [OF assms]])
  moreover have "\<not> fl_less (re_f32 env) a b" if "fl_cmp (re_f32 env) b a \<noteq> Greater" for a b
    using that assms unfolding fl_cmp_def float_order_def by (auto split: if_splits)
  ultimately show ?thesis by (rule sorted_wrt_mono_rel [rotated])
qed

text \<open>C20: The ranking that is written lists proposals that no synthesis has replaced, once each and by descending
  score, and every synthesis among them whatever the plan keeps.\<close>

theorem rank_lists_kept:
  assumes "float_order (re_f32 env)" "distinct (map fst items)" "items \<noteq> []"
  shows "\<exists>rk rp. rank_phase env items files = Some (rk, rp) \<and>
    distinct (map re_id (rk_ranked rk)) \<and>
    re_id ` set (rk_ranked rk) \<subseteq> fst ` set items - set (rp_dropped rp) \<and>
    {i \<in> fst ` set items. prefix ''s_'' i} - set (rp_dropped rp) \<subseteq> re_id ` set (rk_ranked rk) \<and>
    sorted_wrt (\<lambda>a b. \<not> fl_less (re_f32 env) (re_score a) (re_score b)) (rk_ranked rk)"
proof -
  obtain picked reps0 rp reps1 where r: "rank_phase env items files =
       (let ranked1 = filter (\<lambda>r. re_id r \<notin> set (rp_dropped rp)) (rank_all env items);
            chosen = chosen_ids env items ranked1 (rp_promoted rp)
        in Some (\<lparr>rk_ranked = filter (\<lambda>r. re_id r \<in> chosen) ranked1, rk_representatives = filter (\<lambda>r. re_id r \<in> chosen) reps1,
                  rk_winner = rank_winner reps1 ranked1\<rparr>, rp))"
    by (rule rank_phase_cases [OF assms(3), of env files]) blast
  let ?one = "filter (\<lambda>r. re_id r \<notin> set (rp_dropped rp)) (rank_all env items)"
  let ?chosen = "chosen_ids env items ?one (rp_promoted rp)"
  let ?ranked = "filter (\<lambda>r. re_id r \<in> ?chosen) ?one"
  have ids: "re_id ` set (rank_all env items) = fst ` set items" using mset_eq_setD [OF rank_all_ids [of env items]] by simp
  have "distinct (map re_id ?ranked)" using rank_all_distinct [OF assms(2), of env] by (simp add: distinct_map inj_on_def)
  moreover have "re_id ` set ?ranked \<subseteq> fst ` set items - set (rp_dropped rp)" unfolding ids [symmetric] by auto
  moreover have "i \<in> re_id ` set ?ranked" if i: "i \<in> fst ` set items" "prefix ''s_'' i" "i \<notin> set (rp_dropped rp)" for i
  proof -
    obtain e where e: "e \<in> set (rank_all env items)" "re_id e = i" using i(1) unfolding ids [symmetric] by blast
    then have one: "e \<in> set ?one" using i(3) by simp
    then have "i \<in> ?chosen" using e(2) i(2) by (auto simp: chosen_ids_def)
    then have "e \<in> set ?ranked" using one e(2) by simp
    then show ?thesis using e(2) by blast
  qed
  moreover have "sorted_wrt (\<lambda>a b. \<not> fl_less (re_f32 env) (re_score a) (re_score b)) ?ranked"
    by (intro sorted_wrt_filter rank_all_sorted assms(1))
  ultimately show ?thesis unfolding r Let_def
    by (intro exI [of _ "\<lparr>rk_ranked = ?ranked, rk_representatives = filter (\<lambda>r. re_id r \<in> ?chosen) reps1, rk_winner = rank_winner reps1 ?one\<rparr>"]
        exI [of _ rp] conjI subsetI) auto
qed

theorem rank_lists_kept_witness:
  "\<exists>rk rp. rank_phase (example_env True) [example_item ''s_1'' [1, 1, 1, 1, 1], example_item ''p_2'' [1, 9, 9, 9, 9]] [] = Some (rk, rp) \<and>
     {''s_1''} - set (rp_dropped rp) \<subseteq> re_id ` set (rk_ranked rk)"
  using rank_lists_kept [of "example_env True" "[example_item ''s_1'' [1, 1, 1, 1, 1], example_item ''p_2'' [1, 9, 9, 9, 9]]" "[]"]
  by (fastforce simp: example_env_def int_floats_order example_item_def)

section \<open>Stability counts\<close>

lemma best_step_mem:
  "snaps \<noteq> [] \<Longrightarrow> \<exists>i s. fold (best_step fl w) snaps None = Some (i, s) \<and> i \<in> fst ` set snaps"
proof -
  have step: "\<exists>i' s'. best_step fl w x (Some (i, s)) = Some (i', s') \<and> i' \<in> {i, fst x}" for x i s
    by (cases x) (simp add: best_step_def Let_def)
  have "\<exists>i' s'. fold (best_step fl w) xs (Some (i, s)) = Some (i', s') \<and> i' \<in> insert i (fst ` set xs)" for xs i s
  proof (induction xs arbitrary: i s)
    case (Cons x xs)
    obtain i1 s1 where 1: "best_step fl w x (Some (i, s)) = Some (i1, s1)" "i1 \<in> {i, fst x}" using step by blast
    then show ?case using Cons.IH [of i1 s1] by auto
  qed simp
  moreover assume "snaps \<noteq> []"
  then obtain x xs where "snaps = x # xs" by (cases snaps) auto
  moreover have "\<exists>s. best_step fl w x None = Some (fst x, s)" by (cases x) (simp add: best_step_def)
  ultimately show ?thesis by fastforce
qed

lemma count_classes:
  "distinct is \<Longrightarrow> (\<And>w. w \<in> set ws \<Longrightarrow> \<exists>i\<in>set is. f w = Some i) \<Longrightarrow>
   sum_list (map (\<lambda>i. length (filter (\<lambda>w. f w = Some i) ws)) is) = length ws"
proof (induction ws)
  case (Cons w ws)
  obtain i where i: "i \<in> set is" "f w = Some i" using Cons.prems(2) [of w] by auto
  have "sum_list (map (\<lambda>j. length (filter (\<lambda>w. f w = Some j) (w # ws))) is) =
      sum_list (map (\<lambda>j. (if j = i then 1 else 0) + length (filter (\<lambda>w. f w = Some j) ws)) is)"
    using i(2) by (intro arg_cong [of _ _ sum_list] map_cong) auto
  also have "\<dots> = sum_list (map (\<lambda>j. if j = i then 1 else 0) is) + length ws"
    using Cons.IH Cons.prems by (simp add: sum_list_addf)
  also have "sum_list (map (\<lambda>j. if j = i then 1 else 0) is) = (1 :: nat)"
    using Cons.prems(1) i(1) by (simp add: sum_list_distinct_conv_sum_set)
  finally show ?case by simp
qed simp

text \<open>Under each set of perturbed weights exactly one proposal wins: the win counts behind the stability
  scores add up to the number of perturbations.\<close>

lemma stability_wins_add_up:
  assumes "distinct (map fst snaps)" "snaps \<noteq> []"
  shows "sum_list (map (wins_of fl ws snaps) (map fst snaps)) = length ws"
  unfolding wins_of_def
proof (rule count_classes [OF assms(1)])
  fix w
  show "\<exists>i\<in>set (map fst snaps). top_under fl snaps w = Some i"
    using best_step_mem [OF assms(2), of fl w] by (auto simp: top_under_def)
qed

end
