(* ===== verification/Crash_Logic.thy ===== *)
theory Crash_Logic imports Prelude begin

text \<open>
  Straight-line code made of calls to the outside (the file system, the database) that can each
  work, fail, or be the last thing the process does. A run is given the outcome of every call, so a
  statement about all runs is a statement about every failure and every moment of death. A triple
  has a second postcondition for the runs that do not finish, as in logics for crash safety.
\<close>

text \<open>The outcome of a call; a failing or dying call may have done a part of its work, whose size
  the number gives.\<close>

datatype answer = Works | Fails string nat | Dies nat

datatype 'e ended = Finished | Errored 'e | Died

text \<open>A call with the error it is mapped to (\<open>map_err\<close>), or an early return.\<close>

datatype ('c, 'e) step = Call 'c "string \<Rightarrow> 'e" | Give_up 'e

fun run_steps :: "('c \<Rightarrow> 's \<Rightarrow> string + 's) \<Rightarrow> ('c \<Rightarrow> nat \<Rightarrow> 's \<Rightarrow> 's) \<Rightarrow> (nat \<Rightarrow> answer) \<Rightarrow> nat \<Rightarrow> ('c, 'e) step list \<Rightarrow> 's \<Rightarrow> 'e ended \<times> 's" where
  "run_steps exec part ans k [] s = (Finished, s)"
| "run_steps exec part ans k (Give_up e # rest) s = (Errored e, s)"
| "run_steps exec part ans k (Call c err # rest) s =
     (case ans k of
        Fails msg n \<Rightarrow> (Errored (err msg), part c n s)
      | Dies n \<Rightarrow> (Died, part c n s)
      | Works \<Rightarrow> (case exec c s of Inl msg \<Rightarrow> (Errored (err msg), s)
                               | Inr s' \<Rightarrow> run_steps exec part ans (Suc k) rest s'))"

definition crash_triple ::
  "('c \<Rightarrow> 's \<Rightarrow> string + 's) \<Rightarrow> ('c \<Rightarrow> nat \<Rightarrow> 's \<Rightarrow> 's) \<Rightarrow> ('s \<Rightarrow> bool) \<Rightarrow> ('c, 'e) step list \<Rightarrow> ('s \<Rightarrow> bool) \<Rightarrow> ('e ended \<Rightarrow> 's \<Rightarrow> bool) \<Rightarrow> bool"
where
  "crash_triple exec part P xs Q S \<longleftrightarrow>
     (\<forall>ans k s r s'. P s \<longrightarrow> run_steps exec part ans k xs s = (r, s') \<longrightarrow> (if r = Finished then Q s' else S r s'))"

locale crash_machine =
  fixes exec :: "'c \<Rightarrow> 's \<Rightarrow> string + 's"
    and part :: "'c \<Rightarrow> nat \<Rightarrow> 's \<Rightarrow> 's"
  assumes part_0: "part c 0 s = s"
begin

lemma run_append:
  "run_steps exec part ans k (xs @ ys) s =
     (case run_steps exec part ans k xs s of
        (Finished, s') \<Rightarrow> run_steps exec part ans (k + length xs) ys s' | (r, s') \<Rightarrow> (r, s'))"
proof (induction xs arbitrary: k s)
  case (Cons x xs)
  have shift: "k + length (x # xs) = Suc k + length xs" by simp
  show ?case unfolding shift by (cases x) (simp_all add: Cons.IH split: answer.split sum.split)
qed simp

lemma triple_nil: "(\<And>s. P s \<Longrightarrow> Q s) \<Longrightarrow> crash_triple exec part P [] Q S"
  by (simp add: crash_triple_def)

lemma triple_append:
  assumes "crash_triple exec part P xs R S" "crash_triple exec part R ys Q S"
  shows "crash_triple exec part P (xs @ ys) Q S"
  unfolding crash_triple_def
proof (intro allI impI)
  fix ans k s r s'
  assume P: "P s" and run: "run_steps exec part ans k (xs @ ys) s = (r, s')"
  obtain r1 s1 where run1: "run_steps exec part ans k xs s = (r1, s1)" by fastforce
  show "if r = Finished then Q s' else S r s'"
  proof (cases "r1 = Finished")
    case True
    with run run1 have "run_steps exec part ans (k + length xs) ys s1 = (r, s')" by (simp add: run_append)
    moreover have "R s1" using assms(1) P run1 True by (auto simp: crash_triple_def)
    ultimately show ?thesis using assms(2) by (auto simp: crash_triple_def)
  next
    case False
    with run run1 have "r = r1" "s' = s1" by (cases r1; auto simp: run_append)+
    with False show ?thesis using assms(1) P run1 unfolding crash_triple_def by presburger
  qed
qed

lemma triple_call:
  assumes "\<And>s s'. P s \<Longrightarrow> exec c s = Inr s' \<Longrightarrow> R s'"
    and "\<And>s n r. P s \<Longrightarrow> r = Died \<or> (\<exists>msg. r = Errored (err msg)) \<Longrightarrow> S r (part c n s)"
  shows "crash_triple exec part P [Call c err] R S"
  unfolding crash_triple_def
proof (intro allI impI)
  fix ans k s r s'
  assume P: "P s" and run: "run_steps exec part ans k [Call c err] s = (r, s')"
  have died: "S Died (part c n s)" and failed: "S (Errored (err msg)) (part c n s)" for n msg
    using assms(2) [OF P] by blast+
  from failed [of _ 0] have "S (Errored (err msg)) s" for msg by (simp add: part_0)
  with died failed assms(1) [OF P] run show "if r = Finished then R s' else S r s'"
    by (auto split: answer.splits sum.splits)
qed

lemma triple_cons:
  "crash_triple exec part P [Call c err] R S \<Longrightarrow> crash_triple exec part R xs Q S \<Longrightarrow>
   crash_triple exec part P (Call c err # xs) Q S"
  using triple_append [of P "[Call c err]" R S xs Q] by simp

lemma triple_give_up: "(\<And>s. P s \<Longrightarrow> S (Errored e) s) \<Longrightarrow> crash_triple exec part P (Give_up e # xs) Q S"
  by (simp add: crash_triple_def)

lemma triple_if:
  "(b \<Longrightarrow> crash_triple exec part P xs Q S) \<Longrightarrow> (\<not> b \<Longrightarrow> crash_triple exec part P ys Q S) \<Longrightarrow>
   crash_triple exec part P (if b then xs else ys) Q S"
  by simp

lemma triple_weaken:
  "crash_triple exec part P xs Q S \<Longrightarrow> (\<And>s. P' s \<Longrightarrow> P s) \<Longrightarrow> (\<And>s. Q s \<Longrightarrow> Q' s) \<Longrightarrow>
   (\<And>r s. S r s \<Longrightarrow> S' r s) \<Longrightarrow> crash_triple exec part P' xs Q' S'"
  unfolding crash_triple_def by (smt (verit, best))

text \<open>A list of calls that all keep an assertion keeps it.\<close>

lemma triple_all:
  "(\<And>x. x \<in> set xs \<Longrightarrow> crash_triple exec part P [x] P S) \<Longrightarrow> crash_triple exec part P xs P S"
proof (induction xs)
  case (Cons x xs)
  then show ?case using triple_append [of P "[x]" P S xs P] by simp
qed (simp add: triple_nil)

end

lemma crash_tripleD:
  "crash_triple exec part P xs Q S \<Longrightarrow> P s \<Longrightarrow> run_steps exec part ans k xs s = (r, s') \<Longrightarrow>
   if r = Finished then Q s' else S r s'"
  unfolding crash_triple_def by presburger

end
