(* ===== verification/Crc32c.thy ===== *)
theory Crc32c imports Prelude begin

text \<open>
  The CRC32C fingerprint of the atomic writer (\<open>mod crc32c\<close> in \<open>src/atomic/writer.rs\<close>):
  the table computed at compile time and the loop over the bytes. The loop is proved equal to the
  bit-serial division it stands for, and that to be injective in any window of four bytes.
\<close>

unbundle bit_operations_syntax

section \<open>The source\<close>

text \<open>The body of the inner loop over \<open>k\<close>.\<close>

definition crc_bit :: "u32 \<Rightarrow> u32" where
  "crc_bit c = (if c AND 1 \<noteq> 0 then 0x82f63b78 XOR drop_bit 1 c else drop_bit 1 c)"

fun crc_bits :: "nat \<Rightarrow> u32 \<Rightarrow> u32" where
  "crc_bits 0 c = c"
| "crc_bits (Suc k) c = crc_bits k (crc_bit c)"

definition crc_table :: "u32 list" where
  "crc_table = map (\<lambda>i. crc_bits 8 (of_nat i)) [0..<256]"

definition byte_word :: "char \<Rightarrow> u32" where
  "byte_word b = of_nat (of_char b)"

definition crc_byte :: "u32 \<Rightarrow> char \<Rightarrow> u32" where
  "crc_byte crc b = drop_bit 8 crc XOR crc_table ! unat ((crc XOR byte_word b) AND 0xff)"

definition crc32c :: "string \<Rightarrow> u32" where
  "crc32c data = foldl crc_byte 0xffffffff data XOR 0xffffffff"

text \<open>\<open>{:08x}\<close>: the digits of a 32-bit number, all eight of them.\<close>

definition hex_digit :: "nat \<Rightarrow> char" where
  "hex_digit n = ''0123456789abcdef'' ! n"

fun hex_digits :: "nat \<Rightarrow> nat \<Rightarrow> string" where
  "hex_digits 0 n = []"
| "hex_digits (Suc k) n = hex_digits k (n div 16) @ [hex_digit (n mod 16)]"

definition crc32c_hex_of :: "string \<Rightarrow> string" where
  "crc32c_hex_of data = hex_digits 8 (unat (crc32c data))"

section \<open>The table is a shortcut\<close>

lemma crc_bit_xor: "crc_bit (a XOR b) = crc_bit a XOR crc_bit b"
proof -
  have odd_iff: "(x AND 1 \<noteq> 0) \<longleftrightarrow> bit x 0" for x :: u32
    by (simp add: and_one_eq bit_0 odd_iff_mod_2_eq_one)
  show ?thesis
    by (rule bit_eqI) (auto simp: crc_bit_def odd_iff bit_xor_iff bit_drop_bit_eq)
qed

lemma crc_bits_xor: "crc_bits k (a XOR b) = crc_bits k a XOR crc_bits k b"
  by (induction k arbitrary: a b) (simp_all add: crc_bit_xor)

lemma crc_bits_shift: "(\<And>i. i < k \<Longrightarrow> \<not> bit x i) \<Longrightarrow> crc_bits k x = drop_bit k x"
proof (induction k arbitrary: x)
  case (Suc k)
  have "x AND 1 = 0" using Suc.prems [of 0] by (simp add: and_one_eq bit_0 even_iff_mod_2_eq_zero)
  then have one: "crc_bit x = drop_bit 1 x" by (simp add: crc_bit_def)
  have "\<And>i. i < k \<Longrightarrow> \<not> bit (drop_bit 1 x) i" using Suc.prems by (simp add: bit_drop_bit_eq)
  from Suc.IH [OF this] one show ?case by simp
qed simp

lemma crc_bits_add: "crc_bits (j + k) c = crc_bits k (crc_bits j c)"
  by (induction j arbitrary: c) simp_all

lemma low_byte: "(x AND 0xff :: u32) = take_bit 8 x"
  by (simp add: take_bit_eq_mask mask_numeral)

lemma crc_bits_split: "crc_bits 8 x = drop_bit 8 x XOR crc_bits 8 (take_bit 8 x)"
proof -
  let ?hi = "push_bit 8 (drop_bit 8 x)"
  have "x = ?hi XOR take_bit 8 x"
    by (rule bit_eqI) (auto simp: bit_xor_iff bit_push_bit_iff bit_drop_bit_eq bit_take_bit_iff)
  then have "crc_bits 8 x = crc_bits 8 ?hi XOR crc_bits 8 (take_bit 8 x)"
    by (metis crc_bits_xor)
  moreover have "crc_bits 8 ?hi = drop_bit 8 ?hi"
    by (rule crc_bits_shift) (simp add: bit_push_bit_iff)
  moreover have "drop_bit 8 ?hi = drop_bit 8 x"
    by (rule bit_eqI) (auto simp: bit_push_bit_iff bit_drop_bit_eq dest: bit_imp_le_length)
  ultimately show ?thesis by simp
qed

lemma byte_word_bit: "bit (byte_word b) n \<longleftrightarrow> n < 8 \<and> bit (of_char b :: nat) n"
proof -
  have "take_bit 8 (of_char b :: nat) = of_char b" by (simp add: take_bit_eq_mod)
  then have "bit (of_char b :: nat) n \<longleftrightarrow> n < 8 \<and> bit (of_char b :: nat) n"
    by (metis bit_take_bit_iff)
  then show ?thesis by (auto simp: byte_word_def bit_of_nat_iff)
qed

lemma byte_word_inj: "byte_word b = byte_word c \<longleftrightarrow> b = c"
proof
  assume eq: "byte_word b = byte_word c"
  have "unat (byte_word d) = of_char d" for d
    by (simp add: byte_word_def unat_of_nat order_less_trans [OF nat_of_char_less_256])
  with eq show "b = c" by (metis of_char_eq_iff)
qed simp

lemma crc_byte_serial: "crc_byte crc b = crc_bits 8 (crc XOR byte_word b)"
proof -
  let ?x = "crc XOR byte_word b :: u32"
  have "unat (?x AND 0xff) < 256"
    using take_bit_nat_less_exp [of 8 "unat ?x"]
    by (simp add: low_byte unsigned_take_bit_eq del: take_bit_xor)
  then have tab: "crc_table ! unat (?x AND 0xff) = crc_bits 8 (take_bit 8 ?x)"
    by (simp add: crc_table_def low_byte del: take_bit_xor)
  have "drop_bit 8 (byte_word b) = 0"
    by (rule bit_eqI) (simp add: bit_drop_bit_eq byte_word_bit)
  then have "drop_bit 8 ?x = drop_bit 8 crc" by simp
  with tab show ?thesis by (simp add: crc_byte_def crc_bits_split [of ?x])
qed

lemma crc32c_serial: "crc32c data = foldl (\<lambda>crc b. crc_bits 8 (crc XOR byte_word b)) 0xffffffff data XOR 0xffffffff"
  by (simp add: crc32c_def crc_byte_serial [abs_def])

section \<open>What it detects\<close>

lemma crc_bit_0: "crc_bit c = 0 \<Longrightarrow> c = 0"
proof (cases "bit c 0")
  case True
  assume "crc_bit c = 0"
  with True have "bit (0x82f63b78 XOR drop_bit 1 c :: u32) 31 = bit (0 :: u32) 31"
    by (simp add: crc_bit_def and_one_eq bit_0 odd_iff_mod_2_eq_one)
  moreover have "bit (0x82f63b78 :: u32) 31" by simp
  moreover have "\<not> bit (drop_bit 1 c) 31"
    using bit_imp_le_length [of c 32] by (auto simp: bit_drop_bit_eq)
  ultimately show ?thesis by (simp add: bit_xor_iff)
next
  case False
  assume "crc_bit c = 0"
  with False have shifted: "drop_bit 1 c = 0"
    by (simp add: crc_bit_def and_one_eq bit_0 even_iff_mod_2_eq_zero split: if_splits)
  show ?thesis
  proof (rule bit_eqI)
    fix n
    show "bit c n = bit 0 n"
      using False arg_cong [OF shifted, of "\<lambda>x. bit x (n - 1)"] by (cases n) (simp_all add: bit_drop_bit_eq)
  qed
qed

lemma crc_bits_0: "crc_bits k c = 0 \<Longrightarrow> c = 0"
  by (induction k arbitrary: c) (auto dest: crc_bit_0)

lemma crc_bits_inj: "crc_bits k a = crc_bits k b \<longleftrightarrow> a = b"
proof
  assume "crc_bits k a = crc_bits k b"
  then have "crc_bits k (a XOR b) = 0" by (simp add: crc_bits_xor)
  then have "a XOR b = 0" by (rule crc_bits_0)
  then show "a = b" by (metis xor.left_neutral xor.assoc xor_self_eq xor.right_neutral)
qed simp

lemma xor_cancel: "a XOR c = b XOR c \<longleftrightarrow> a = b" for a b c :: u32
  by (metis xor.assoc xor_self_eq xor.right_neutral)

lemma crc_fold_inj: "foldl crc_byte a s = foldl crc_byte b s \<longleftrightarrow> a = b"
proof (induction s arbitrary: a b)
  case (Cons c s)
  then show ?case by (simp add: crc_byte_serial crc_bits_inj xor_cancel)
qed simp

text \<open>Up to four bytes as one little-endian number.\<close>

fun le_word :: "string \<Rightarrow> u32" where
  "le_word [] = 0"
| "le_word (b # bs) = byte_word b XOR push_bit 8 (le_word bs)"

lemma le_word_bit: "8 * length bs \<le> n \<Longrightarrow> \<not> bit (le_word bs) n"
  by (induction bs arbitrary: n) (auto simp: bit_xor_iff bit_push_bit_iff byte_word_bit)

lemma crc_fold_word:
  "length bs \<le> 4 \<Longrightarrow> foldl crc_byte s bs = crc_bits (8 * length bs) (s XOR le_word bs)"
proof (induction bs arbitrary: s)
  case (Cons b bs)
  let ?hi = "push_bit 8 (le_word bs)"
  have "crc_bits 8 ?hi = drop_bit 8 ?hi" by (rule crc_bits_shift) (simp add: bit_push_bit_iff)
  also have "\<dots> = le_word bs"
  proof (rule bit_eqI)
    fix n
    have "24 \<le> n \<Longrightarrow> \<not> bit (le_word bs) n" using Cons.prems by (intro le_word_bit) simp
    then show "bit (drop_bit 8 ?hi) n = bit (le_word bs) n"
      by (cases "n < 24") (simp_all add: bit_push_bit_iff bit_drop_bit_eq)
  qed
  finally have hi: "crc_bits 8 (s XOR byte_word b) XOR le_word bs = crc_bits 8 (s XOR le_word (b # bs))"
    by (simp add: crc_bits_xor xor.assoc)
  have "foldl crc_byte s (b # bs) = crc_bits (8 * length bs) (crc_bits 8 (s XOR byte_word b) XOR le_word bs)"
    using Cons.IH [of "crc_byte s b"] Cons.prems by (simp del: le_word.simps) (simp add: crc_byte_serial)
  also have "\<dots> = crc_bits (8 + 8 * length bs) (s XOR le_word (b # bs))"
    by (simp only: hi crc_bits_add)
  finally show ?case by simp
qed simp

lemma le_word_inj:
  "length bs = length cs \<Longrightarrow> length bs \<le> 4 \<Longrightarrow> le_word bs = le_word cs \<longleftrightarrow> bs = cs"
proof (induction bs cs rule: list_induct2)
  case (Cons b bs c cs)
  show ?case
  proof
    assume eq: "le_word (b # bs) = le_word (c # cs)"
    have bits: "bit (le_word (b # bs)) n = bit (le_word (c # cs)) n" for n
      unfolding eq ..
    have "byte_word b = byte_word c"
    proof (rule bit_eqI)
      fix n
      show "bit (byte_word b) n = bit (byte_word c) n"
        using bits [of n] by (cases "n < 8") (simp_all add: bit_xor_iff bit_push_bit_iff byte_word_bit)
    qed
    then have "b = c" by (simp add: byte_word_inj)
    moreover have "le_word bs = le_word cs"
    proof (rule bit_eqI)
      fix n
      have out: "24 \<le> n \<Longrightarrow> \<not> bit (le_word bs) n \<and> \<not> bit (le_word cs) n"
        using Cons.prems Cons.hyps by (auto intro!: le_word_bit)
      show "bit (le_word bs) n = bit (le_word cs) n"
        using out bits [of "n + 8"] by (cases "n < 24") (auto simp: bit_xor_iff bit_push_bit_iff byte_word_bit)
    qed
    ultimately show "b # bs = c # cs" using Cons by simp
  qed simp
qed simp

lemma crc32c_burst:
  assumes "length w = length w'" "length w \<le> 4"
  shows "crc32c (p @ w @ s) = crc32c (p @ w' @ s) \<longleftrightarrow> w = w'"
proof -
  let ?a = "foldl crc_byte 0xffffffff p"
  have "crc32c (p @ w @ s) = crc32c (p @ w' @ s) \<longleftrightarrow> foldl crc_byte (foldl crc_byte ?a w) s = foldl crc_byte (foldl crc_byte ?a w') s"
    by (simp only: crc32c_def foldl_append xor_cancel)
  also have "\<dots> \<longleftrightarrow> foldl crc_byte ?a w = foldl crc_byte ?a w'" by (rule crc_fold_inj)
  also have "\<dots> \<longleftrightarrow> ?a XOR le_word w = ?a XOR le_word w'"
    using assms by (simp add: crc_fold_word crc_bits_inj)
  also have "\<dots> \<longleftrightarrow> le_word w = le_word w'"
    by (metis xor.commute xor_cancel)
  finally show ?thesis using le_word_inj [OF assms] by simp
qed

section \<open>The printed form\<close>

lemma hex_digits_length [simp]: "length (hex_digits k n) = k"
  by (induction k arbitrary: n) simp_all

lemma hex_digit_inj: "m < 16 \<Longrightarrow> n < 16 \<Longrightarrow> hex_digit m = hex_digit n \<longleftrightarrow> m = n"
proof -
  have d: "distinct ''0123456789abcdef''" by simp
  show "m < 16 \<Longrightarrow> n < 16 \<Longrightarrow> hex_digit m = hex_digit n \<longleftrightarrow> m = n"
    unfolding hex_digit_def by (rule nth_eq_iff_index_eq [OF d]) simp_all
qed

lemma hex_digits_inj:
  "m < 16 ^ k \<Longrightarrow> n < 16 ^ k \<Longrightarrow> hex_digits k m = hex_digits k n \<longleftrightarrow> m = n"
proof (induction k arbitrary: m n)
  case (Suc k)
  have "hex_digits (Suc k) m = hex_digits (Suc k) n \<longleftrightarrow> m div 16 = n div 16 \<and> m mod 16 = n mod 16"
    using Suc.IH [of "m div 16" "n div 16"] Suc.prems by (simp add: hex_digit_inj less_mult_imp_div_less mult.commute)
  also have "\<dots> \<longleftrightarrow> m = n" by (metis div_mult_mod_eq)
  finally show ?case .
qed simp

lemma crc32c_hex_inj: "crc32c_hex_of a = crc32c_hex_of b \<longleftrightarrow> crc32c a = crc32c b"
proof -
  have "unat x < 16 ^ 8" for x :: u32 using unat_lt_pow [of x] by simp
  then show ?thesis by (simp add: crc32c_hex_of_def hex_digits_inj unsigned_word_eqI word_eq_iff_unsigned [where 'a = nat])
qed

lemma crc_bits_numeral: "crc_bits (numeral k) c = crc_bits (pred_numeral k) (crc_bit c)"
  by (simp add: numeral_eq_Suc)

lemma hex_digits_numeral:
  "hex_digits (numeral k) n = hex_digits (pred_numeral k) (n div 16) @ [hex_digit (n mod 16)]"
  unfolding numeral_eq_Suc [of k] by simp

lemma crc32c_known_vector: "crc32c_hex_of ''123456789'' = ''e3069283''"
proof -
  have "crc32c ''123456789'' = 0xe3069283"
    by (simp add: crc32c_serial crc_bits_numeral byte_word_def crc_bit_def)
  then show ?thesis
    by (simp add: crc32c_hex_of_def hex_digits_numeral hex_digit_def)
qed

end
