(* ===== verification/Atomic_Files.thy ===== *)
theory Atomic_Files imports Crash_Logic Crc32c Text Errors begin

text \<open>
  The atomic writer (\<open>src/atomic/writer.rs\<close>): temporary files, the metadata sidecar, the
  renames and the flushes, over a file system with its directory entries, what a power loss may
  leave of them, and the contents of files by inode. Every call can fail or be the last.

  What the operating system does is modelled as POSIX documents it: a rename replaces an entry in
  one step, flushing a file keeps its bytes over a power loss, flushing a directory keeps its
  entries, and an entry that was not flushed is, after a power loss, any of the values it had since.
  Paths are absolute, as lists of components; the empty list is the root. One process writes;
  links, permissions and the sizes of disks are only reasons for a call to fail.
\<close>

section \<open>Files\<close>

type_synonym path = "string list"

datatype node = Dir | File nat

record fs =
  fs_tree :: "path \<Rightarrow> node option"
  fs_disk :: "path \<Rightarrow> node option list"
  fs_data :: "nat \<Rightarrow> string"
  fs_synced :: "nat \<Rightarrow> bool"
  fs_next :: nat
  fs_handle :: nat

definition empty_fs :: fs where
  "empty_fs = \<lparr>fs_tree = (\<lambda>p. if p = [] then Some Dir else None), fs_disk = (\<lambda>p. if p = [] then [Some Dir] else [None]),
     fs_data = (\<lambda>i. []), fs_synced = (\<lambda>i. False), fs_next = 0, fs_handle = 0\<rparr>"

definition set_entry :: "path \<Rightarrow> node option \<Rightarrow> fs \<Rightarrow> fs" where
  "set_entry p v s = s\<lparr>fs_tree := (fs_tree s)(p := v), fs_disk := (fs_disk s)(p := v # fs_disk s p)\<rparr>"

definition ancestors :: "path \<Rightarrow> path list" where
  "ancestors p = map (\<lambda>k. take k p) [0..<length p]"

definition reachable_dir :: "fs \<Rightarrow> path \<Rightarrow> bool" where
  "reachable_dir s p \<longleftrightarrow> list_all (\<lambda>q. fs_tree s q = Some Dir) (ancestors p)"

definition read_file :: "fs \<Rightarrow> path \<Rightarrow> string option" where
  "read_file s p =
     (if reachable_dir s p then (case fs_tree s p of Some (File i) \<Rightarrow> Some (fs_data s i) | _ \<Rightarrow> None) else None)"

text \<open>The calls the writer makes. The data calls work on the handle of the file created last,
  and only files are renamed.\<close>

datatype syscall =
    Mkdir path
  | Create path
  | Write_all string
  | Sync_all
  | Rename path path
  | Open_dir path
  | Sync_dir path

definition enoent :: string where "enoent = ''No such file or directory''"
definition eisdir :: string where "eisdir = ''Is a directory''"
definition enotdir :: string where "enotdir = ''Not a directory''"

fun sys_exec :: "syscall \<Rightarrow> fs \<Rightarrow> string + fs" where
  "sys_exec (Mkdir p) s =
     (case fs_tree s p of
        Some Dir \<Rightarrow> Inr s
      | Some (File i) \<Rightarrow> Inl enotdir
      | None \<Rightarrow> if reachable_dir s p then Inr (set_entry p (Some Dir) s) else Inl enoent)"
| "sys_exec (Create p) s =
     (if \<not> reachable_dir s p then Inl enoent
      else case fs_tree s p of
        Some Dir \<Rightarrow> Inl eisdir
      | Some (File i) \<Rightarrow> Inr (s\<lparr>fs_data := (fs_data s)(i := []), fs_synced := (fs_synced s)(i := False), fs_handle := i\<rparr>)
      | None \<Rightarrow> Inr (set_entry p (Some (File (fs_next s)))
          (s\<lparr>fs_data := (fs_data s)(fs_next s := []), fs_synced := (fs_synced s)(fs_next s := False),
             fs_handle := fs_next s, fs_next := Suc (fs_next s)\<rparr>)))"
| "sys_exec (Write_all bytes) s =
     Inr (s\<lparr>fs_data := (fs_data s)(fs_handle s := fs_data s (fs_handle s) @ bytes), fs_synced := (fs_synced s)(fs_handle s := False)\<rparr>)"
| "sys_exec Sync_all s = Inr (s\<lparr>fs_synced := (fs_synced s)(fs_handle s := True)\<rparr>)"
| "sys_exec (Rename src dst) s =
     (if \<not> reachable_dir s src \<or> \<not> reachable_dir s dst then Inl enoent
      else case fs_tree s src of
        Some (File i) \<Rightarrow> if fs_tree s dst = Some Dir then Inl eisdir else Inr (set_entry dst (Some (File i)) (set_entry src None s))
      | _ \<Rightarrow> Inl enoent)"
| "sys_exec (Open_dir p) s = (if reachable_dir s p \<and> fs_tree s p = Some Dir then Inr s else Inl enoent)"
| "sys_exec (Sync_dir p) s = Inr (s\<lparr>fs_disk := (\<lambda>q. if q \<noteq> [] \<and> butlast q = p then [fs_tree s q] else fs_disk s q)\<rparr>)"

text \<open>A write that fails or is cut off may have written an initial part.\<close>

fun sys_part :: "syscall \<Rightarrow> nat \<Rightarrow> fs \<Rightarrow> fs" where
  "sys_part (Write_all bytes) n s =
     (if n = 0 then s
      else s\<lparr>fs_data := (fs_data s)(fs_handle s := fs_data s (fs_handle s) @ take n bytes), fs_synced := (fs_synced s)(fs_handle s := False)\<rparr>)"
| "sys_part c n s = s"

interpretation file_calls: crash_machine sys_exec sys_part
proof
  fix c :: syscall and s :: fs
  show "sys_part c 0 s = s" by (cases c) simp_all
qed

text \<open>What a power loss may leave.\<close>

definition power_loss :: "fs \<Rightarrow> fs \<Rightarrow> bool" where
  "power_loss s s' \<longleftrightarrow> (\<forall>p. fs_tree s' p \<in> set (fs_disk s p)) \<and> (\<forall>i. fs_synced s i \<longrightarrow> fs_data s' i = fs_data s i)"

section \<open>The writer\<close>

definition path_text :: "path \<Rightarrow> string" where
  "path_text p = ''/'' @ join_str ''/'' p"

definition add_ext :: "path \<Rightarrow> string \<Rightarrow> path" where
  "add_ext p e = butlast p @ [last p @ e]"

definition meta_path :: "path \<Rightarrow> path" where
  "meta_path dest = add_ext dest ''.meta.json''"

definition tmp_path :: "path \<Rightarrow> u64 \<Rightarrow> path" where
  "tmp_path dest nonce = add_ext dest (''.tmp.'' @ hex_digits 16 (unat nonce))"

definition tmp_meta_path :: "path \<Rightarrow> u64 \<Rightarrow> path" where
  "tmp_meta_path dest nonce = add_ext (meta_path dest) (''.tmp.'' @ hex_digits 16 (unat nonce))"

text \<open>The third-party code: the hash, and the JSON form of the sidecar with its reader.\<close>

record fs_libs =
  fl_blake3_hex :: "string \<Rightarrow> string"
  fl_to_vec :: "artifact_meta \<Rightarrow> string + string"
  fl_from_slice :: "string \<Rightarrow> string + artifact_meta"

definition compute_meta_at :: "fs_libs \<Rightarrow> string \<Rightarrow> int \<Rightarrow> artifact_meta" where
  "compute_meta_at lib data sealed =
     \<lparr>schema_version = ''v1'', size_bytes = of_nat (length data), blake3_hex = fl_blake3_hex lib data,
      sealed_at_unix = sealed, crc32c_hex = crc32c_hex_of data\<rparr>"

definition fsync_dir :: "path \<Rightarrow> (syscall, io_error) step list" where
  "fsync_dir dir = [Call (Open_dir dir) (Io_OpenDir (path_text dir)), Call (Sync_dir dir) (Io_Sync (path_text dir))]"

definition write_temp :: "bool \<Rightarrow> path \<Rightarrow> string \<Rightarrow> (syscall, io_error) step list" where
  "write_temp fsync p bytes =
     [Call (Create p) (Io_CreateFile (path_text p)), Call (Write_all bytes) (Io_Write (path_text p))] @
     (if fsync then [Call Sync_all (Io_Sync (path_text p))] else [])"

definition rename_step :: "path \<Rightarrow> path \<Rightarrow> (syscall, io_error) step" where
  "rename_step src dst = Call (Rename src dst) (Io_Rename (path_text src) (path_text dst))"

text \<open>\<open>create_dir_all\<close> makes the missing ones of the directories on the way. The library starts at the
  last one and goes up when a parent is missing; the directories made and the failures are the same.\<close>

definition create_dir_all :: "path \<Rightarrow> (syscall, io_error) step list" where
  "create_dir_all parent = map (\<lambda>k. Call (Mkdir (take (Suc k) parent)) (Io_CreateDir (path_text parent))) [0..<length parent]"

definition write_plan :: "fs_libs \<Rightarrow> bool \<Rightarrow> path \<Rightarrow> string \<Rightarrow> u64 \<Rightarrow> int \<Rightarrow> (syscall, io_error) step list" where
  "write_plan lib fsync dest data nonce now =
     (if dest = [] then [Give_up (Io_NoParent (path_text dest))]
      else create_dir_all (butlast dest) @ write_temp fsync (tmp_path dest nonce) data @
        (case fl_to_vec lib (compute_meta_at lib data now) of
           Inl e \<Rightarrow> [Give_up (Io_SerializeMeta e)]
         | Inr meta_bytes \<Rightarrow>
             write_temp fsync (tmp_meta_path dest nonce) meta_bytes @
             [rename_step (tmp_path dest nonce) dest, rename_step (tmp_meta_path dest nonce) (meta_path dest)] @
             (if fsync then fsync_dir (butlast dest) else [])))"

text \<open>The call: its result, or none when the process died in it.\<close>

definition atomic_write :: "fs_libs \<Rightarrow> bool \<Rightarrow> path \<Rightarrow> string \<Rightarrow> u64 \<Rightarrow> int \<Rightarrow> (nat \<Rightarrow> answer) \<Rightarrow> fs \<Rightarrow> (error + artifact_meta) option \<times> fs" where
  "atomic_write lib fsync dest data nonce now ans s =
     (case run_steps sys_exec sys_part ans 0 (write_plan lib fsync dest data nonce now) s of
        (Finished, s') \<Rightarrow> (Some (Inr (compute_meta_at lib data now)), s')
      | (Errored e, s') \<Rightarrow> (Some (Inl (Err_Io e)), s')
      | (Died, s') \<Rightarrow> (None, s'))"

section \<open>The reader\<close>

definition data_fingerprint_matches :: "fs_libs \<Rightarrow> string \<Rightarrow> artifact_meta \<Rightarrow> bool" where
  "data_fingerprint_matches lib data meta \<longleftrightarrow>
     (of_nat (length data) :: u64) = size_bytes meta \<and> fl_blake3_hex lib data = blake3_hex meta \<and>
     crc32c_hex_of data = crc32c_hex meta"

definition fs_read :: "fs \<Rightarrow> path \<Rightarrow> string + string" where
  "fs_read s p = (case read_file s p of None \<Rightarrow> Inl enoent | Some d \<Rightarrow> Inr d)"

definition read_with_meta :: "fs_libs \<Rightarrow> (path \<Rightarrow> string + string) \<Rightarrow> path \<Rightarrow> error + string \<times> artifact_meta" where
  "read_with_meta lib rd dest =
     rbind (map_err (\<lambda>e. Err_Io (Io_Read (path_text dest) e)) (rd dest)) (\<lambda>data.
     rbind (map_err (\<lambda>e. Err_Io (Io_Read (path_text (meta_path dest)) e)) (rd (meta_path dest))) (\<lambda>meta_bytes.
     rbind (map_err (\<lambda>e. Err_Io (Io_DeserializeMeta e)) (fl_from_slice lib meta_bytes)) (\<lambda>meta.
       if data_fingerprint_matches lib data meta then Inr (data, meta)
       else Inl (Err_Io (Io_MetaMismatch (path_text dest) (compute_meta_at lib data (sealed_at_unix meta)) meta)))))"

section \<open>The names\<close>

lemma add_ext_butlast [simp]: "butlast (add_ext p e) = butlast p"
  by (simp add: add_ext_def)

lemma add_ext_last [simp]: "last (add_ext p e) = last p @ e"
  by (simp add: add_ext_def)

lemma add_ext_not_Nil [simp]: "add_ext p e \<noteq> []"
  by (simp add: add_ext_def)

lemma add_ext_length [simp]: "p \<noteq> [] \<Longrightarrow> length (add_ext p e) = length p"
  by (simp add: add_ext_def)

lemma path_neqI: "length (last p) \<noteq> length (last q) \<Longrightarrow> p \<noteq> q"
  by auto

lemma names_distinct:
  "distinct [dest, meta_path dest, tmp_path dest nonce, tmp_meta_path dest nonce]"
  by (auto simp: meta_path_def tmp_path_def tmp_meta_path_def dest!: arg_cong [where f = "\<lambda>p. length (last p)"])

lemmas name_neqs [simp] = names_distinct [simplified distinct_length_2_or_more, simplified]

lemma name_neqs' [simp]:
  "meta_path dest \<noteq> dest" "tmp_path dest nonce \<noteq> dest" "tmp_meta_path dest nonce \<noteq> dest"
  "tmp_path dest nonce \<noteq> meta_path dest" "tmp_meta_path dest nonce \<noteq> meta_path dest"
  "tmp_meta_path dest nonce \<noteq> tmp_path dest nonce"
  using name_neqs by metis+

lemma names_butlast [simp]:
  "butlast (meta_path dest) = butlast dest" "butlast (tmp_path dest nonce) = butlast dest"
  "butlast (tmp_meta_path dest nonce) = butlast dest"
  by (simp_all add: meta_path_def tmp_path_def tmp_meta_path_def)

lemma names_length [simp]:
  assumes "dest \<noteq> []"
  shows "length (meta_path dest) = length dest" "length (tmp_path dest nonce) = length dest"
    "length (tmp_meta_path dest nonce) = length dest"
  using assms by (simp_all add: meta_path_def tmp_path_def tmp_meta_path_def)

lemma names_not_Nil [simp]:
  "meta_path dest \<noteq> []" "tmp_path dest nonce \<noteq> []" "tmp_meta_path dest nonce \<noteq> []"
  by (simp_all add: meta_path_def tmp_path_def tmp_meta_path_def)

lemma ancestors_snoc: "ancestors (p @ [x]) = ancestors p @ [p]"
  by (simp add: ancestors_def)

lemma ancestors_butlast: "p \<noteq> [] \<Longrightarrow> ancestors p = ancestors (butlast p) @ [butlast p]"
  using ancestors_snoc [of "butlast p" "last p"] by simp

lemma ancestors_sibling: "p \<noteq> [] \<Longrightarrow> q \<noteq> [] \<Longrightarrow> butlast p = butlast q \<Longrightarrow> ancestors p = ancestors q"
  by (simp add: ancestors_butlast)

lemma ancestors_shorter: "q \<in> set (ancestors p) \<Longrightarrow> length q < length p"
  by (auto simp: ancestors_def)

lemma reachable_sibling: "p \<noteq> [] \<Longrightarrow> q \<noteq> [] \<Longrightarrow> butlast p = butlast q \<Longrightarrow> reachable_dir s p = reachable_dir s q"
  unfolding reachable_dir_def by (simp add: ancestors_sibling [of p q])

section \<open>Assertions\<close>

text \<open>An entry holds a value, and over a power loss that value or one it had at the start.\<close>

definition entry_is :: "fs \<Rightarrow> path \<Rightarrow> node option \<Rightarrow> fs \<Rightarrow> bool" where
  "entry_is s0 p v s \<longleftrightarrow> fs_tree s p = v \<and> set (fs_disk s p) \<subseteq> insert v (insert (fs_tree s0 p) (set (fs_disk s0 p)))"

text \<open>What every moment of a write keeps: the contents of the files there were, all other entries,
  and the directories on the way, which are only added to.\<close>

definition kept :: "fs \<Rightarrow> path \<Rightarrow> u64 \<Rightarrow> fs \<Rightarrow> bool" where
  "kept s0 dest nonce s \<longleftrightarrow>
     fs_next s0 \<le> fs_next s \<and>
     (\<forall>i<fs_next s0. fs_data s i = fs_data s0 i \<and> fs_synced s i = fs_synced s0 i) \<and>
     (\<forall>p. p \<notin> {dest, meta_path dest, tmp_path dest nonce, tmp_meta_path dest nonce} \<longrightarrow>
        entry_is s0 p (fs_tree s0 p) s \<or> (p \<in> set (ancestors dest) \<and> fs_tree s0 p = None \<and> entry_is s0 p (Some Dir) s)) \<and>
     (\<forall>p \<in> set (ancestors dest). set (fs_disk s0 p) \<subseteq> set (fs_disk s p))"

definition holds :: "fs \<Rightarrow> bool \<Rightarrow> nat \<Rightarrow> string \<Rightarrow> fs \<Rightarrow> bool" where
  "holds s0 fsync i bytes s \<longleftrightarrow> fs_next s0 \<le> i \<and> i < fs_next s \<and> fs_data s i = bytes \<and> fs_synced s i = fsync"

definition now_file :: "fs \<Rightarrow> bool \<Rightarrow> path \<Rightarrow> string \<Rightarrow> fs \<Rightarrow> bool" where
  "now_file s0 fsync p bytes s \<longleftrightarrow>
     fs_tree s0 p \<noteq> Some Dir \<and> (\<exists>i. entry_is s0 p (Some (File i)) s \<and> holds s0 fsync i bytes s)"

definition untouched :: "fs \<Rightarrow> path \<Rightarrow> fs \<Rightarrow> bool" where
  "untouched s0 p s \<longleftrightarrow> entry_is s0 p (fs_tree s0 p) s"

text \<open>A step that changes one entry and files that were not there yet.\<close>

definition only_at :: "path \<Rightarrow> fs \<Rightarrow> fs \<Rightarrow> bool" where
  "only_at p s1 s \<longleftrightarrow>
     fs_next s1 \<le> fs_next s \<and> (\<forall>i<fs_next s1. fs_data s i = fs_data s1 i \<and> fs_synced s i = fs_synced s1 i) \<and>
     (\<forall>q. q \<noteq> p \<longrightarrow> fs_tree s q = fs_tree s1 q \<and> fs_disk s q = fs_disk s1 q)"

lemma only_at_refl: "only_at p s s"
  by (simp add: only_at_def)

lemma reachable_only_at:
  assumes "only_at p s1 s" "length q \<le> length p"
  shows "reachable_dir s q = reachable_dir s1 q"
proof -
  have "fs_tree s r = fs_tree s1 r" if "r \<in> set (ancestors q)" for r
    using ancestors_shorter [OF that] assms unfolding only_at_def by (metis leD)
  then show ?thesis by (simp add: reachable_dir_def list_all_iff)
qed

lemma untouched_only_at: "untouched s0 q s1 \<Longrightarrow> only_at p s1 s \<Longrightarrow> q \<noteq> p \<Longrightarrow> untouched s0 q s"
  by (simp add: untouched_def entry_is_def only_at_def)

lemma kept_only_at:
  assumes "kept s0 dest nonce s1" "only_at p s1 s"
    "p \<in> {dest, meta_path dest, tmp_path dest nonce, tmp_meta_path dest nonce}" "dest \<noteq> []"
  shows "kept s0 dest nonce s"
proof -
  have len: "length p = length dest"
    using assms(3,4) by (auto simp: meta_path_def tmp_path_def tmp_meta_path_def)
  then have anc: "fs_disk s q = fs_disk s1 q" if "q \<in> set (ancestors dest)" for q
    using ancestors_shorter [OF that] assms(2) unfolding only_at_def by (metis nat_neq_iff)
  have nexts: "fs_next s0 \<le> fs_next s"
    using assms(1,2) unfolding kept_def only_at_def by linarith
  have old: "fs_data s i = fs_data s0 i \<and> fs_synced s i = fs_synced s0 i" if "i < fs_next s0" for i
    using assms(1,2) that unfolding kept_def only_at_def by (metis order_less_le_trans)
  have same: "entry_is s0 q v s \<longleftrightarrow> entry_is s0 q v s1"
    if "q \<notin> {dest, meta_path dest, tmp_path dest nonce, tmp_meta_path dest nonce}" for q v
  proof -
    from that assms(3) have "q \<noteq> p" by auto
    with assms(2) show ?thesis by (simp add: only_at_def entry_is_def)
  qed
  have kept1: "entry_is s0 q (fs_tree s0 q) s1 \<or> (q \<in> set (ancestors dest) \<and> fs_tree s0 q = None \<and> entry_is s0 q (Some Dir) s1)"
    if "q \<notin> {dest, meta_path dest, tmp_path dest nonce, tmp_meta_path dest nonce}" for q
    using assms(1) that unfolding kept_def by metis
  show ?thesis unfolding kept_def
  proof (intro conjI allI impI ballI)
    fix q assume q: "q \<notin> {dest, meta_path dest, tmp_path dest nonce, tmp_meta_path dest nonce}"
    show "entry_is s0 q (fs_tree s0 q) s \<or> (q \<in> set (ancestors dest) \<and> fs_tree s0 q = None \<and> entry_is s0 q (Some Dir) s)"
      using kept1 [OF q] unfolding same [OF q] .
  next
    fix q assume q: "q \<in> set (ancestors dest)"
    with assms(1) show "set (fs_disk s0 q) \<subseteq> set (fs_disk s q)" unfolding kept_def anc [OF q] by blast
  qed (use nexts old in auto)
qed

lemma kept_refl: "kept s dest nonce s"
  by (auto simp: kept_def entry_is_def)

lemma untouched_refl: "untouched s p s"
  by (auto simp: untouched_def entry_is_def)

section \<open>The steps of a write\<close>

definition temp_file :: "fs \<Rightarrow> bool \<Rightarrow> path \<Rightarrow> string \<Rightarrow> fs \<Rightarrow> bool" where
  "temp_file s1 synced p bytes s \<longleftrightarrow>
     fs_tree s p = Some (File (fs_next s1)) \<and> fs_next s1 < fs_next s \<and> fs_data s (fs_next s1) = bytes \<and>
     fs_synced s (fs_next s1) = synced \<and> reachable_dir s p"

definition open_temp :: "(fs \<Rightarrow> bool) \<Rightarrow> path \<Rightarrow> bool \<Rightarrow> string \<Rightarrow> fs \<Rightarrow> bool" where
  "open_temp I p synced bytes s \<longleftrightarrow>
     (\<exists>s1. I s1 \<and> only_at p s1 s \<and> temp_file s1 synced p bytes s \<and> fs_handle s = fs_next s1)"

lemma create_opens:
  assumes "I s1" "fs_tree s1 p = None" "sys_exec (Create p) s1 = Inr s"
  shows "open_temp I p False [] s"
proof -
  have made: "only_at p s1 s \<and> fs_tree s p = Some (File (fs_next s1)) \<and> fs_next s1 < fs_next s \<and> fs_data s (fs_next s1) = [] \<and>
      \<not> fs_synced s (fs_next s1) \<and> fs_handle s = fs_next s1 \<and> reachable_dir s1 p"
    using assms(2,3) by (auto simp: only_at_def set_entry_def split: if_splits)
  then have "temp_file s1 False p [] s"
    using reachable_only_at [of p s1 s p] by (simp add: temp_file_def)
  with made assms(1) show ?thesis unfolding open_temp_def by blast
qed

lemma handle_write:
  assumes "open_temp I p synced bytes s"
  shows "open_temp I p False (bytes @ more_bytes)
     (s\<lparr>fs_data := (fs_data s)(fs_handle s := fs_data s (fs_handle s) @ more_bytes), fs_synced := (fs_synced s)(fs_handle s := False)\<rparr>)"
    and "open_temp I p True bytes (s\<lparr>fs_synced := (fs_synced s)(fs_handle s := True)\<rparr>)"
  using assms by (auto simp: open_temp_def only_at_def temp_file_def reachable_dir_def)

lemma open_temp_crash: "open_temp I p synced bytes s \<Longrightarrow> \<exists>s1. I s1 \<and> only_at p s1 s"
  by (auto simp: open_temp_def)

lemma write_part_keeps:
  "open_temp I p synced bytes s \<Longrightarrow> \<exists>s1. I s1 \<and> only_at p s1 (sys_part c n s)"
  by (cases "(c, n, s)" rule: sys_part.cases) (auto dest: open_temp_crash handle_write)

lemma write_temp_triple:
  assumes S: "\<And>s1 s r. I s1 \<Longrightarrow> only_at p s1 s \<Longrightarrow> S r s"
  shows "crash_triple sys_exec sys_part (\<lambda>s. I s \<and> fs_tree s p = None) (write_temp fsync p bytes)
           (\<lambda>s. \<exists>s1. I s1 \<and> only_at p s1 s \<and> temp_file s1 fsync p bytes s) S"
proof -
  have crash: "S r (sys_part c n s)" if "open_temp I p synced b s" for r c n s synced b
    using write_part_keeps [OF that] S by blast
  have create: "crash_triple sys_exec sys_part (\<lambda>s. I s \<and> fs_tree s p = None) [Call (Create p) (Io_CreateFile (path_text p))]
      (open_temp I p False []) S"
    by (rule file_calls.triple_call) (auto intro: create_opens S only_at_refl simp del: sys_exec.simps)
  have "crash_triple sys_exec sys_part (open_temp I p False []) [Call (Write_all bytes) (Io_Write (path_text p))]
      (open_temp I p False bytes) S"
    by (rule file_calls.triple_call) (use handle_write(1) [of I p False "[]" _ bytes] crash in \<open>auto simp del: sys_part.simps\<close>)
  from file_calls.triple_append [OF create this]
  have written: "crash_triple sys_exec sys_part (\<lambda>s. I s \<and> fs_tree s p = None)
      [Call (Create p) (Io_CreateFile (path_text p)), Call (Write_all bytes) (Io_Write (path_text p))]
      (open_temp I p False bytes) S" by simp
  have "crash_triple sys_exec sys_part (open_temp I p False bytes)
      (if fsync then [Call Sync_all (Io_Sync (path_text p))] else []) (open_temp I p fsync bytes) S"
  proof (cases fsync)
    case True
    have "crash_triple sys_exec sys_part (open_temp I p False bytes) [Call Sync_all (Io_Sync (path_text p))] (open_temp I p True bytes) S"
      by (rule file_calls.triple_call) (use handle_write(2) crash in \<open>auto simp del: sys_part.simps\<close>)
    with True show ?thesis by simp
  qed (simp add: file_calls.triple_nil)
  from file_calls.triple_append [OF written this] show ?thesis
    unfolding write_temp_def by (rule file_calls.triple_weaken) (auto simp: open_temp_def)
qed

text \<open>Before the renames: nothing a reader sees has changed.\<close>

definition before_write :: "fs \<Rightarrow> path \<Rightarrow> u64 \<Rightarrow> fs \<Rightarrow> bool" where
  "before_write s0 dest nonce s \<longleftrightarrow>
     kept s0 dest nonce s \<and> untouched s0 dest s \<and> untouched s0 (meta_path dest) s"

lemma before_write_refl: "before_write s dest nonce s"
  by (simp add: before_write_def kept_refl untouched_refl)

lemma before_write_only_at:
  "before_write s0 dest nonce s1 \<Longrightarrow> only_at p s1 s \<Longrightarrow> p \<in> {tmp_path dest nonce, tmp_meta_path dest nonce} \<Longrightarrow> dest \<noteq> [] \<Longrightarrow>
   before_write s0 dest nonce s"
  unfolding before_write_def using kept_only_at [of s0 dest nonce s1 p s] untouched_only_at [of s0 _ s1 p s] by auto

lemma mkdir_keeps:
  assumes "before_write s0 dest nonce s" "q \<in> set (ancestors dest)" "q \<noteq> []" "dest \<noteq> []" "sys_exec (Mkdir q) s = Inr s'"
  shows "before_write s0 dest nonce s' \<and> (\<forall>p. p \<noteq> q \<longrightarrow> fs_tree s' p = fs_tree s p)"
proof (cases "fs_tree s q = Some Dir")
  case True
  with assms show ?thesis by simp
next
  case False
  with assms(5) have q: "fs_tree s q = None" and s': "s' = set_entry q (Some Dir) s"
    by (auto split: option.splits node.splits if_splits)
  have "length q < length dest" using assms(2) by (rule ancestors_shorter)
  then have names: "q \<notin> {dest, meta_path dest, tmp_path dest nonce, tmp_meta_path dest nonce}"
    using assms(4) by (auto simp: meta_path_def tmp_path_def tmp_meta_path_def)
  have same: "fs_tree s' p = fs_tree s p" "fs_disk s' p = fs_disk s p" if "p \<noteq> q" for p
    using that by (simp_all add: s' set_entry_def)
  have kept: "kept s0 dest nonce s" using assms(1) by (simp add: before_write_def)
  with names have "entry_is s0 q (fs_tree s0 q) s \<or> entry_is s0 q (Some Dir) s" unfolding kept_def by metis
  with q have q0: "fs_tree s0 q = None" "set (fs_disk s q) \<subseteq> insert None (set (fs_disk s0 q))"
    by (auto simp: entry_is_def)
  have "kept s0 dest nonce s'" unfolding kept_def
  proof (intro conjI allI impI ballI)
    fix p assume p: "p \<notin> {dest, meta_path dest, tmp_path dest nonce, tmp_meta_path dest nonce}"
    show "entry_is s0 p (fs_tree s0 p) s' \<or> (p \<in> set (ancestors dest) \<and> fs_tree s0 p = None \<and> entry_is s0 p (Some Dir) s')"
    proof (cases "p = q")
      case True
      have "entry_is s0 q (Some Dir) s'" using q0 by (auto simp: entry_is_def s' set_entry_def)
      with True q0 assms(2) show ?thesis by blast
    next
      case False
      with kept p show ?thesis unfolding kept_def entry_is_def same [OF False] by blast
    qed
  next
    fix p assume "p \<in> set (ancestors dest)"
    with kept have "set (fs_disk s0 p) \<subseteq> set (fs_disk s p)" unfolding kept_def by blast
    then show "set (fs_disk s0 p) \<subseteq> set (fs_disk s' p)" by (auto simp: s' set_entry_def)
  qed (use kept in \<open>auto simp: kept_def s' set_entry_def\<close>)
  moreover have "untouched s0 dest s'" "untouched s0 (meta_path dest) s'"
    using assms(1) names by (auto simp: before_write_def untouched_def entry_is_def same)
  ultimately show ?thesis using same by (simp add: before_write_def)
qed

text \<open>The stages of a write after the directories are there.\<close>

definition temp_holds :: "fs \<Rightarrow> bool \<Rightarrow> path \<Rightarrow> string \<Rightarrow> fs \<Rightarrow> bool" where
  "temp_holds s0 fsync p bytes s \<longleftrightarrow> (\<exists>i. fs_tree s p = Some (File i) \<and> holds s0 fsync i bytes s)"

definition ready :: "fs \<Rightarrow> path \<Rightarrow> u64 \<Rightarrow> fs \<Rightarrow> bool" where
  "ready s0 dest nonce s \<longleftrightarrow>
     before_write s0 dest nonce s \<and> fs_tree s (tmp_path dest nonce) = None \<and> fs_tree s (tmp_meta_path dest nonce) = None"

definition data_written :: "fs \<Rightarrow> bool \<Rightarrow> path \<Rightarrow> u64 \<Rightarrow> string \<Rightarrow> fs \<Rightarrow> bool" where
  "data_written s0 fsync dest nonce data s \<longleftrightarrow>
     reachable_dir s dest \<and>
     before_write s0 dest nonce s \<and> temp_holds s0 fsync (tmp_path dest nonce) data s \<and> fs_tree s (tmp_meta_path dest nonce) = None"

definition both_written :: "fs \<Rightarrow> bool \<Rightarrow> path \<Rightarrow> u64 \<Rightarrow> string \<Rightarrow> string \<Rightarrow> fs \<Rightarrow> bool" where
  "both_written s0 fsync dest nonce data meta s \<longleftrightarrow>
     reachable_dir s dest \<and>
     before_write s0 dest nonce s \<and> temp_holds s0 fsync (tmp_path dest nonce) data s \<and>
     temp_holds s0 fsync (tmp_meta_path dest nonce) meta s"

definition data_renamed :: "fs \<Rightarrow> bool \<Rightarrow> path \<Rightarrow> u64 \<Rightarrow> string \<Rightarrow> string \<Rightarrow> fs \<Rightarrow> bool" where
  "data_renamed s0 fsync dest nonce data meta s \<longleftrightarrow>
     reachable_dir s dest \<and>
     kept s0 dest nonce s \<and> now_file s0 fsync dest data s \<and> untouched s0 (meta_path dest) s \<and>
     fs_tree s (tmp_path dest nonce) = None \<and> temp_holds s0 fsync (tmp_meta_path dest nonce) meta s"

definition both_renamed :: "fs \<Rightarrow> bool \<Rightarrow> path \<Rightarrow> u64 \<Rightarrow> string \<Rightarrow> string \<Rightarrow> fs \<Rightarrow> bool" where
  "both_renamed s0 fsync dest nonce data meta s \<longleftrightarrow>
     reachable_dir s dest \<and>
     kept s0 dest nonce s \<and> now_file s0 fsync dest data s \<and> now_file s0 fsync (meta_path dest) meta s \<and>
     fs_tree s (tmp_path dest nonce) = None \<and> fs_tree s (tmp_meta_path dest nonce) = None"

definition entries_durable :: "path \<Rightarrow> fs \<Rightarrow> bool" where
  "entries_durable dest s \<longleftrightarrow>
     fs_disk s dest = [fs_tree s dest] \<and> fs_disk s (meta_path dest) = [fs_tree s (meta_path dest)]"

text \<open>What a run that stops before its end leaves.\<close>

definition stopped :: "fs \<Rightarrow> bool \<Rightarrow> path \<Rightarrow> u64 \<Rightarrow> string \<Rightarrow> string \<Rightarrow> io_error ended \<Rightarrow> fs \<Rightarrow> bool" where
  "stopped s0 fsync dest nonce data meta r s \<longleftrightarrow> kept s0 dest nonce s \<and>
     (untouched s0 dest s \<and> untouched s0 (meta_path dest) s \<or>
      reachable_dir s dest \<and> now_file s0 fsync dest data s \<and> untouched s0 (meta_path dest) s \<and>
        (r = Died \<or> (\<exists>msg. r = Errored (Io_Rename (path_text (tmp_meta_path dest nonce)) (path_text (meta_path dest)) msg))) \<or>
      reachable_dir s dest \<and> now_file s0 fsync dest data s \<and> now_file s0 fsync (meta_path dest) meta s)"

lemma stopped_before: "before_write s0 dest nonce s \<Longrightarrow> stopped s0 fsync dest nonce data meta r s"
  by (simp add: stopped_def before_write_def)

lemma temp_holds_new:
  "kept s0 dest nonce s1 \<Longrightarrow> temp_file s1 fsync p bytes s \<Longrightarrow> temp_holds s0 fsync p bytes s"
  by (auto simp: temp_holds_def holds_def temp_file_def kept_def)

lemma temp_holds_only_at:
  "temp_holds s0 fsync q bytes s1 \<Longrightarrow> only_at p s1 s \<Longrightarrow> q \<noteq> p \<Longrightarrow> temp_holds s0 fsync q bytes s"
  by (auto simp: temp_holds_def holds_def only_at_def)

lemma now_file_only_at:
  "now_file s0 fsync q bytes s1 \<Longrightarrow> only_at p s1 s \<Longrightarrow> q \<noteq> p \<Longrightarrow> now_file s0 fsync q bytes s"
  by (auto simp: now_file_def holds_def only_at_def entry_is_def)

lemma set_entry_only_at: "only_at p s (set_entry p v s)"
  by (simp add: only_at_def set_entry_def)

lemma set_entry_lookup [simp]: "fs_tree (set_entry p v s) q = (if q = p then v else fs_tree s q)"
  by (simp add: set_entry_def)

lemma set_entry_holds [simp]: "holds s0 fsync i bytes (set_entry p v s) = holds s0 fsync i bytes s"
  by (simp add: holds_def set_entry_def)

lemma set_entry_now_file:
  assumes "untouched s0 p s" "fs_tree s p \<noteq> Some Dir" "holds s0 fsync i bytes s"
  shows "now_file s0 fsync p bytes (set_entry p (Some (File i)) s)"
proof -
  have "entry_is s0 p (Some (File i)) (set_entry p (Some (File i)) s)"
    using assms(1) by (auto simp: untouched_def entry_is_def set_entry_def)
  moreover have "holds s0 fsync i bytes (set_entry p (Some (File i)) s)"
    using assms(3) by simp
  moreover have "fs_tree s0 p \<noteq> Some Dir" using assms(1,2) by (simp add: untouched_def entry_is_def)
  ultimately show ?thesis unfolding now_file_def by blast
qed

lemma write_data_triple:
  assumes "dest \<noteq> []" and stop: "\<And>r s. before_write s0 dest nonce s \<Longrightarrow> S r s"
  shows "crash_triple sys_exec sys_part (ready s0 dest nonce) (write_temp fsync (tmp_path dest nonce) data)
     (data_written s0 fsync dest nonce data) S"
proof -
  have keep: "before_write s0 dest nonce s" if "before_write s0 dest nonce s1" "only_at (tmp_path dest nonce) s1 s" for s1 s
    using before_write_only_at [OF that] assms by simp
  let ?I = "\<lambda>s. before_write s0 dest nonce s \<and> fs_tree s (tmp_meta_path dest nonce) = None"
  have "crash_triple sys_exec sys_part (\<lambda>s. ?I s \<and> fs_tree s (tmp_path dest nonce) = None) (write_temp fsync (tmp_path dest nonce) data)
     (\<lambda>s. \<exists>s1. ?I s1 \<and> only_at (tmp_path dest nonce) s1 s \<and> temp_file s1 fsync (tmp_path dest nonce) data s)
     S"
    by (rule write_temp_triple) (auto intro: stop keep)
  then show ?thesis
  proof (rule file_calls.triple_weaken)
    fix s assume "\<exists>s1. ?I s1 \<and> only_at (tmp_path dest nonce) s1 s \<and> temp_file s1 fsync (tmp_path dest nonce) data s"
    then obtain s1 where s1: "?I s1" "only_at (tmp_path dest nonce) s1 s" "temp_file s1 fsync (tmp_path dest nonce) data s" by blast
    moreover have "fs_tree s (tmp_meta_path dest nonce) = None"
      using s1(1,2) name_neqs unfolding only_at_def by metis
    moreover have "reachable_dir s dest"
      using s1(3) reachable_sibling [of "tmp_path dest nonce" dest s] assms(1) by (simp add: temp_file_def)
    ultimately show "data_written s0 fsync dest nonce data s"
      using keep [OF _ s1(2)] temp_holds_new [OF _ s1(3), of s0 dest nonce] by (simp add: data_written_def before_write_def)
  qed (auto simp: ready_def)
qed

lemma write_meta_triple:
  assumes "dest \<noteq> []"
  shows "crash_triple sys_exec sys_part (data_written s0 fsync dest nonce data) (write_temp fsync (tmp_meta_path dest nonce) meta)
     (both_written s0 fsync dest nonce data meta) (stopped s0 fsync dest nonce data meta)"
proof -
  have keep: "before_write s0 dest nonce s" if "before_write s0 dest nonce s1" "only_at (tmp_meta_path dest nonce) s1 s" for s1 s
    using before_write_only_at [OF that] assms by simp
  let ?I = "\<lambda>s. before_write s0 dest nonce s \<and> temp_holds s0 fsync (tmp_path dest nonce) data s"
  have "crash_triple sys_exec sys_part (\<lambda>s. ?I s \<and> fs_tree s (tmp_meta_path dest nonce) = None) (write_temp fsync (tmp_meta_path dest nonce) meta)
     (\<lambda>s. \<exists>s1. ?I s1 \<and> only_at (tmp_meta_path dest nonce) s1 s \<and> temp_file s1 fsync (tmp_meta_path dest nonce) meta s)
     (stopped s0 fsync dest nonce data meta)"
    by (rule write_temp_triple) (auto intro: stopped_before keep)
  then show ?thesis
  proof (rule file_calls.triple_weaken)
    fix s assume "\<exists>s1. ?I s1 \<and> only_at (tmp_meta_path dest nonce) s1 s \<and> temp_file s1 fsync (tmp_meta_path dest nonce) meta s"
    then obtain s1 where s1: "?I s1" "only_at (tmp_meta_path dest nonce) s1 s" "temp_file s1 fsync (tmp_meta_path dest nonce) meta s" by blast
    then have "kept s0 dest nonce s1" by (simp add: before_write_def)
    moreover have "reachable_dir s dest"
      using s1(3) reachable_sibling [of "tmp_meta_path dest nonce" dest s] assms(1) by (simp add: temp_file_def)
    ultimately show "both_written s0 fsync dest nonce data meta s"
      using s1 keep [OF _ s1(2)] temp_holds_new [OF _ s1(3), of s0 dest nonce] temp_holds_only_at [OF _ s1(2)]
      by (simp add: both_written_def before_write_def)
  qed (auto simp: data_written_def)
qed

lemma rename_runs:
  assumes "sys_exec (Rename src dst) s = Inr s'" "fs_tree s src = Some (File i)"
  shows "s' = set_entry dst (Some (File i)) (set_entry src None s)" "fs_tree s dst \<noteq> Some Dir"
  using assms by (auto split: if_splits)

lemma rename_data_triple:
  assumes "dest \<noteq> []"
  shows "crash_triple sys_exec sys_part (both_written s0 fsync dest nonce data meta) [rename_step (tmp_path dest nonce) dest]
     (data_renamed s0 fsync dest nonce data meta) (stopped s0 fsync dest nonce data meta)"
  unfolding rename_step_def
proof (rule file_calls.triple_call)
  fix s s' assume s: "both_written s0 fsync dest nonce data meta s" and run: "sys_exec (Rename (tmp_path dest nonce) dest) s = Inr s'"
  let ?t = "tmp_path dest nonce"
  from s obtain i where i: "fs_tree s ?t = Some (File i)" "holds s0 fsync i data s"
    by (auto simp: both_written_def temp_holds_def)
  let ?s1 = "set_entry ?t None s"
  note s' = rename_runs [OF run i(1)]
  have at: "only_at ?t s ?s1" "only_at dest ?s1 s'" unfolding s'(1) by (rule set_entry_only_at)+
  have facts: "kept s0 dest nonce ?s1" "untouched s0 dest ?s1" "untouched s0 (meta_path dest) ?s1"
    "temp_holds s0 fsync (tmp_meta_path dest nonce) meta ?s1" "holds s0 fsync i data ?s1"
    using s i kept_only_at [OF _ at(1)] untouched_only_at [OF _ at(1)] temp_holds_only_at [OF _ at(1)] assms
    by (simp_all add: both_written_def before_write_def)
  have "now_file s0 fsync dest data s'" unfolding s'(1)
    using facts(2,5) s'(2) by (intro set_entry_now_file) simp_all
  moreover have "reachable_dir s' dest"
    using s reachable_only_at [OF at(1), of dest] reachable_only_at [OF at(2), of dest] assms by (simp add: both_written_def)
  ultimately show "data_renamed s0 fsync dest nonce data meta s'"
    using facts kept_only_at [OF facts(1) at(2)] untouched_only_at [OF facts(3) at(2)] temp_holds_only_at [OF facts(4) at(2)] assms
    by (simp add: data_renamed_def s'(1))
next
  fix s n and r :: "io_error ended" assume "both_written s0 fsync dest nonce data meta s"
  then show "stopped s0 fsync dest nonce data meta r (sys_part (Rename (tmp_path dest nonce) dest) n s)"
    by (simp add: both_written_def stopped_before)
qed

lemma rename_meta_triple:
  assumes "dest \<noteq> []"
  shows "crash_triple sys_exec sys_part (data_renamed s0 fsync dest nonce data meta) [rename_step (tmp_meta_path dest nonce) (meta_path dest)]
     (both_renamed s0 fsync dest nonce data meta) (stopped s0 fsync dest nonce data meta)"
  unfolding rename_step_def
proof (rule file_calls.triple_call)
  fix s s' assume s: "data_renamed s0 fsync dest nonce data meta s"
    and run: "sys_exec (Rename (tmp_meta_path dest nonce) (meta_path dest)) s = Inr s'"
  let ?t = "tmp_meta_path dest nonce"
  from s obtain i where i: "fs_tree s ?t = Some (File i)" "holds s0 fsync i meta s"
    by (auto simp: data_renamed_def temp_holds_def)
  let ?s1 = "set_entry ?t None s"
  note s' = rename_runs [OF run i(1)]
  have at: "only_at ?t s ?s1" "only_at (meta_path dest) ?s1 s'" unfolding s'(1) by (rule set_entry_only_at)+
  have facts: "kept s0 dest nonce ?s1" "untouched s0 (meta_path dest) ?s1" "now_file s0 fsync dest data ?s1" "holds s0 fsync i meta ?s1"
    using s i kept_only_at [OF _ at(1)] untouched_only_at [OF _ at(1)] now_file_only_at [OF _ at(1)] assms
    by (simp_all add: data_renamed_def)
  have "now_file s0 fsync (meta_path dest) meta s'" unfolding s'(1)
    using facts(2,4) s'(2) by (intro set_entry_now_file) simp_all
  moreover have "reachable_dir s' dest"
    using s reachable_only_at [OF at(1), of dest] reachable_only_at [OF at(2), of dest] assms by (simp add: data_renamed_def)
  ultimately show "both_renamed s0 fsync dest nonce data meta s'"
    using s facts kept_only_at [OF facts(1) at(2)] now_file_only_at [OF facts(3) at(2)] assms
    by (simp add: both_renamed_def data_renamed_def s'(1))
next
  fix s n and r :: "io_error ended"
  assume "data_renamed s0 fsync dest nonce data meta s"
    and "r = Died \<or> (\<exists>msg. r = Errored (Io_Rename (path_text (tmp_meta_path dest nonce)) (path_text (meta_path dest)) msg))"
  then show "stopped s0 fsync dest nonce data meta r (sys_part (Rename (tmp_meta_path dest nonce) (meta_path dest)) n s)"
    by (simp add: data_renamed_def stopped_def)
qed

lemma sync_dir_keeps:
  assumes "both_renamed s0 fsync dest nonce data meta s" "dest \<noteq> []" "sys_exec (Sync_dir (butlast dest)) s = Inr s'"
  shows "both_renamed s0 fsync dest nonce data meta s' \<and> entries_durable dest s'"
proof -
  have s': "s' = s\<lparr>fs_disk := (\<lambda>q. if q \<noteq> [] \<and> butlast q = butlast dest then [fs_tree s q] else fs_disk s q)\<rparr>"
    using assms(3) by simp
  have entry: "entry_is s0 p v s'" if "entry_is s0 p v s" for p v
    using that by (auto simp: entry_is_def s')
  have anc: "fs_disk s' p = fs_disk s p" if "p \<in> set (ancestors dest)" for p
  proof -
    have "\<not> (p \<noteq> [] \<and> butlast p = butlast dest)"
      using ancestors_shorter [OF that] length_butlast [of p] length_butlast [of dest] length_greater_0_conv [of p]
      by (metis One_nat_def Suc_pred less_nat_zero_code nat_neq_iff order_less_trans)
    then show ?thesis by (auto simp: s')
  qed
  have "kept s0 dest nonce s'" unfolding kept_def
  proof (intro conjI allI impI ballI)
    fix p assume "p \<notin> {dest, meta_path dest, tmp_path dest nonce, tmp_meta_path dest nonce}"
    with assms(1) show "entry_is s0 p (fs_tree s0 p) s' \<or> (p \<in> set (ancestors dest) \<and> fs_tree s0 p = None \<and> entry_is s0 p (Some Dir) s')"
      unfolding both_renamed_def kept_def by (blast intro: entry)
  next
    fix p assume p: "p \<in> set (ancestors dest)"
    with assms(1) show "set (fs_disk s0 p) \<subseteq> set (fs_disk s' p)"
      unfolding anc [OF p] both_renamed_def kept_def by blast
  qed (use assms(1) in \<open>auto simp: both_renamed_def kept_def s'\<close>)
  moreover have "now_file s0 fsync p bytes s'" if "now_file s0 fsync p bytes s" for p bytes
    using that entry unfolding now_file_def holds_def by (auto simp: s')
  moreover have "reachable_dir s' dest = reachable_dir s dest" by (simp add: s' reachable_dir_def)
  ultimately show ?thesis using assms(1,2) by (auto simp: both_renamed_def entries_durable_def s')
qed

lemma fsync_dir_triple:
  assumes "dest \<noteq> []"
  shows "crash_triple sys_exec sys_part (both_renamed s0 fsync dest nonce data meta) (fsync_dir (butlast dest))
     (\<lambda>s. both_renamed s0 fsync dest nonce data meta s \<and> entries_durable dest s) (stopped s0 fsync dest nonce data meta)"
proof -
  have stop: "stopped s0 fsync dest nonce data meta r s" if "both_renamed s0 fsync dest nonce data meta s" for r s
    using that by (simp add: both_renamed_def stopped_def)
  show ?thesis unfolding fsync_dir_def
    by (rule file_calls.triple_cons [where R = "both_renamed s0 fsync dest nonce data meta"]; rule file_calls.triple_call)
      (use stop sync_dir_keeps [OF _ assms] in \<open>auto split: if_splits simp del: sys_exec.simps(7)\<close>)
qed

lemma create_dir_all_triple:
  assumes "dest \<noteq> []" and stop: "\<And>r s. before_write s0 dest nonce s \<Longrightarrow> S r s"
  shows "crash_triple sys_exec sys_part (ready s0 dest nonce) (create_dir_all (butlast dest)) (ready s0 dest nonce)
     S"
  unfolding create_dir_all_def
proof (rule file_calls.triple_all)
  fix x :: "(syscall, io_error) step"
  assume "x \<in> set (map (\<lambda>k. Call (Mkdir (take (Suc k) (butlast dest))) (Io_CreateDir (path_text (butlast dest)))) [0..<length (butlast dest)])"
  then obtain k where k: "k < length (butlast dest)"
    and x: "x = Call (Mkdir (take (Suc k) (butlast dest))) (Io_CreateDir (path_text (butlast dest)))" by auto
  let ?q = "take (Suc k) (butlast dest)"
  have len: "length ?q < length dest" and nonempty: "?q \<noteq> []" using k by (auto simp: min_def simp flip: length_greater_0_conv)
  have q: "?q \<in> set (ancestors dest)"
    using k by (auto simp: ancestors_def take_butlast intro!: image_eqI [of _ _ "Suc k"])
  have temps: "length (tmp_path dest nonce) = length dest" "length (tmp_meta_path dest nonce) = length dest"
    using assms(1) by (simp_all add: tmp_path_def tmp_meta_path_def meta_path_def)
  show "crash_triple sys_exec sys_part (ready s0 dest nonce) [x] (ready s0 dest nonce) S"
    unfolding x
  proof (rule file_calls.triple_call)
    fix s s' assume "ready s0 dest nonce s" "sys_exec (Mkdir ?q) s = Inr s'"
    then show "ready s0 dest nonce s'"
      using mkdir_keeps [of s0 dest nonce s ?q s', OF _ q nonempty assms(1)] len temps
      unfolding ready_def by (metis nat_neq_iff)
  qed (simp add: ready_def stop)
qed

lemma first_rename_triple:
  assumes "dest \<noteq> []"
  shows "crash_triple sys_exec sys_part (ready s0 dest nonce)
     (create_dir_all (butlast dest) @ write_temp fsync (tmp_path dest nonce) data @ write_temp fsync (tmp_meta_path dest nonce) meta @
      [rename_step (tmp_path dest nonce) dest])
     (data_renamed s0 fsync dest nonce data meta) (stopped s0 fsync dest nonce data meta)"
  by (rule file_calls.triple_append [OF create_dir_all_triple [OF assms stopped_before]
      file_calls.triple_append [OF write_data_triple [OF assms stopped_before]
        file_calls.triple_append [OF write_meta_triple [OF assms] rename_data_triple [OF assms]]]])

lemma write_plan_triple:
  assumes "dest \<noteq> []" "fl_to_vec lib (compute_meta_at lib data now) = Inr meta"
  shows "crash_triple sys_exec sys_part (ready s0 dest nonce) (write_plan lib fsync dest data nonce now)
     (\<lambda>s. both_renamed s0 fsync dest nonce data meta s \<and> (fsync \<longrightarrow> entries_durable dest s))
     (stopped s0 fsync dest nonce data meta)"
proof -
  let ?T = "\<lambda>P xs Q. crash_triple sys_exec sys_part P xs Q (stopped s0 fsync dest nonce data meta)"
  have tail: "?T (both_renamed s0 fsync dest nonce data meta) (if fsync then fsync_dir (butlast dest) else [])
    (\<lambda>s. both_renamed s0 fsync dest nonce data meta s \<and> (fsync \<longrightarrow> entries_durable dest s))"
  proof (cases fsync)
    case True
    show ?thesis using fsync_dir_triple [OF assms(1), of s0 fsync nonce data meta] True by simp
  qed (simp add: file_calls.triple_nil)
  note all = file_calls.triple_append [OF first_rename_triple [OF assms(1)]
      file_calls.triple_append [OF rename_meta_triple [OF assms(1)] tail]]
  show ?thesis using all assms by (simp add: write_plan_def)
qed

lemma write_plan_no_meta:
  assumes "dest \<noteq> []" "fl_to_vec lib (compute_meta_at lib data now) = Inl e"
  shows "crash_triple sys_exec sys_part (ready s0 dest nonce) (write_plan lib fsync dest data nonce now)
     (\<lambda>s. False) (\<lambda>r. before_write s0 dest nonce)"
proof -
  have give_up: "crash_triple sys_exec sys_part (data_written s0 fsync dest nonce data) [Give_up (Io_SerializeMeta e)]
     (\<lambda>s. False) (\<lambda>r. before_write s0 dest nonce)"
    by (rule file_calls.triple_give_up) (simp add: data_written_def)
  note all = file_calls.triple_append [OF create_dir_all_triple [OF assms(1)]
      file_calls.triple_append [OF write_data_triple [OF assms(1)] give_up]]
  show ?thesis using all assms by (simp add: write_plan_def)
qed

section \<open>What readers see\<close>

text \<open>File systems as the calls leave them: every entry is in a directory, and inodes are numbered.\<close>

definition fs_ok :: "fs \<Rightarrow> bool" where
  "fs_ok s \<longleftrightarrow>
     (\<forall>p. fs_tree s p \<noteq> None \<longrightarrow> reachable_dir s p) \<and>
     (\<forall>p i. Some (File i) \<in> insert (fs_tree s p) (set (fs_disk s p)) \<longrightarrow> i < fs_next s) \<and>
     (\<forall>p. fs_tree s p \<in> set (fs_disk s p))"

lemma fs_ok_inode:
  "fs_ok s \<Longrightarrow> fs_tree s p = Some (File i) \<Longrightarrow> i < fs_next s"
  "fs_ok s \<Longrightarrow> Some (File i) \<in> set (fs_disk s p) \<Longrightarrow> i < fs_next s"
  unfolding fs_ok_def by (metis insertI1) (metis insertI2)

lemma empty_fs_ok: "fs_ok empty_fs"
  by (auto simp: fs_ok_def empty_fs_def reachable_dir_def ancestors_def split: if_splits)

lemma kept_dir:
  assumes "kept s0 dest nonce s" "q \<in> set (ancestors dest)" "dest \<noteq> []" "fs_tree s0 q = Some Dir"
  shows "fs_tree s q = Some Dir"
proof -
  have "q \<notin> {dest, meta_path dest, tmp_path dest nonce, tmp_meta_path dest nonce}"
    using ancestors_shorter [OF assms(2)] assms(3) by auto
  with assms(1,4) show ?thesis unfolding kept_def entry_is_def by metis
qed

lemma kept_reachable:
  assumes "kept s0 dest nonce s" "dest \<noteq> []" "reachable_dir s0 dest"
  shows "reachable_dir s dest"
  using assms kept_dir [OF assms(1) _ assms(2)] by (simp add: reachable_dir_def list_all_iff)

lemma sibling_reachable [simp]: "dest \<noteq> [] \<Longrightarrow> reachable_dir s (meta_path dest) = reachable_dir s dest"
  by (rule reachable_sibling) simp_all

lemma read_untouched:
  assumes "fs_ok s0" "kept s0 dest nonce s" "untouched s0 p s" "p = dest \<or> p = meta_path dest" "dest \<noteq> []"
  shows "read_file s p = read_file s0 p"
proof (cases "fs_tree s0 p")
  case None
  with assms(3) show ?thesis by (simp add: untouched_def entry_is_def read_file_def)
next
  case (Some v)
  then have "reachable_dir s0 p" using assms(1) unfolding fs_ok_def by blast
  with assms(4,5) have r0: "reachable_dir s0 dest" "reachable_dir s0 p" by auto
  from kept_reachable [OF assms(2,5) r0(1)] assms(4,5) have r: "reachable_dir s p" by auto
  show ?thesis
  proof (cases v)
    case Dir
    with Some assms(3) show ?thesis by (simp add: untouched_def entry_is_def read_file_def)
  next
    case (File i)
    with Some have "i < fs_next s0" using fs_ok_inode(1) [OF assms(1)] by simp
    with Some File r r0 assms(2,3) show ?thesis
      by (simp add: untouched_def entry_is_def read_file_def kept_def)
  qed
qed

lemma read_now_file:
  "now_file s0 fsync p bytes s \<Longrightarrow> reachable_dir s p \<Longrightarrow> read_file s p = Some bytes"
  by (auto simp: now_file_def entry_is_def holds_def read_file_def)

text \<open>All other files.\<close>

lemma read_elsewhere:
  assumes "fs_ok s0" "kept s0 dest nonce s" "dest \<noteq> []" "read_file s0 p = Some x"
    "fs_tree s0 (tmp_path dest nonce) = None" "fs_tree s0 (tmp_meta_path dest nonce) = None"
    "fs_tree s0 dest = Some Dir \<Longrightarrow> untouched s0 dest s" "fs_tree s0 (meta_path dest) = Some Dir \<Longrightarrow> untouched s0 (meta_path dest) s"
    "p \<notin> {dest, meta_path dest, tmp_path dest nonce, tmp_meta_path dest nonce}"
  shows "read_file s p = Some x"
proof -
  from assms(4) obtain i where i: "fs_tree s0 p = Some (File i)" "fs_data s0 i = x" "reachable_dir s0 p"
    by (auto simp: read_file_def split: if_splits option.splits node.splits)
  have entry: "fs_tree s q = fs_tree s0 q" if "fs_tree s0 q = Some v" "v = Dir \<or> q = p" for q v
  proof (cases "q \<in> {dest, meta_path dest, tmp_path dest nonce, tmp_meta_path dest nonce}")
    case True
    with that assms(9) have "v = Dir" by auto
    with True that assms(5-8) show ?thesis by (auto simp: untouched_def entry_is_def)
  next
    case False
    with assms(2) that(1) show ?thesis unfolding kept_def entry_is_def by (metis option.discI)
  qed
  then have "reachable_dir s p" using i(3) by (simp add: reachable_dir_def list_all_iff)
  moreover have "i < fs_next s0" using fs_ok_inode(1) [OF assms(1) i(1)] .
  ultimately show ?thesis using i entry [of p] assms(2) by (simp add: read_file_def kept_def)
qed

section \<open>Crash safety\<close>

lemma write_outcome:
  assumes "dest \<noteq> []" "fl_to_vec lib (compute_meta_at lib data now) = Inr meta"
    "fs_tree s (tmp_path dest nonce) = None" "fs_tree s (tmp_meta_path dest nonce) = None"
    "run_steps sys_exec sys_part ans k (write_plan lib fsync dest data nonce now) s = (r, s')"
  shows "if r = Finished then both_renamed s fsync dest nonce data meta s' \<and> (fsync \<longrightarrow> entries_durable dest s')
         else stopped s fsync dest nonce data meta r s'"
proof -
  have "ready s dest nonce s" using assms(3,4) by (simp add: ready_def before_write_refl)
  from crash_tripleD [OF write_plan_triple [OF assms(1,2)] this assms(5)] show ?thesis by simp
qed

lemma write_kept:
  assumes "if r = Finished then both_renamed s fsync dest nonce data meta s' \<and> (fsync \<longrightarrow> entries_durable dest s')
         else stopped s fsync dest nonce data meta r s'"
  shows "kept s dest nonce s'"
    "fs_tree s dest = Some Dir \<Longrightarrow> untouched s dest s'"
    "fs_tree s (meta_path dest) = Some Dir \<Longrightarrow> untouched s (meta_path dest) s'"
  using assms by (auto simp: both_renamed_def stopped_def now_file_def split: if_splits)

lemma stopped_reads:
  assumes "fs_ok s" "dest \<noteq> []" "stopped s fsync dest nonce data meta r s'"
  shows "read_file s' dest = read_file s dest \<and> read_file s' (meta_path dest) = read_file s (meta_path dest) \<or>
     read_file s' dest = Some data \<and> read_file s' (meta_path dest) = read_file s (meta_path dest) \<and>
       (r = Died \<or> (\<exists>msg. r = Errored (Io_Rename (path_text (tmp_meta_path dest nonce)) (path_text (meta_path dest)) msg))) \<or>
     read_file s' dest = Some data \<and> read_file s' (meta_path dest) = Some meta"
proof -
  have kept: "kept s dest nonce s'" using assms(3) by (simp add: stopped_def)
  note old = read_untouched [OF assms(1) kept _ _ assms(2)]
  have new: "read_file s' p = Some b" if "now_file s fsync p b s'" "reachable_dir s' dest" "p = dest \<or> p = meta_path dest" for p b
    using that assms(2) by (intro read_now_file [OF that(1)]) auto
  from assms(3) show ?thesis unfolding stopped_def by (elim conjE disjE) (auto simp: old new)
qed

lemma finished_reads:
  assumes "dest \<noteq> []" "both_renamed s fsync dest nonce data meta s'"
  shows "read_file s' dest = Some data" "read_file s' (meta_path dest) = Some meta"
    "read_file s' (tmp_path dest nonce) = None" "read_file s' (tmp_meta_path dest nonce) = None"
  using assms read_now_file [of s fsync dest data s'] read_now_file [of s fsync "meta_path dest" meta s']
  by (auto simp: both_renamed_def) (simp_all add: read_file_def)

text \<open>C25: A write never shows a reader a part of it. Take a file system as the calls leave it, a destination
  below the root whose two temporary names are free, and metadata that the library can print.
  Whichever call of the write fails, however much of a failing write reached the disk, and wherever the
  process dies, the destination and its sidecar hold afterwards what they held before, or the new
  data beside the old sidecar, or both new. The middle case arises only from a death, or from the
  failure of the second rename. A write that returns success has both new and no temporary file
  left. In every case all other files keep their contents.\<close>

theorem write_crash_safe:
  assumes ok: "fs_ok s" and dest: "dest \<noteq> []"
    and fresh: "fs_tree s (tmp_path dest nonce) = None" "fs_tree s (tmp_meta_path dest nonce) = None"
    and meta: "fl_to_vec lib (compute_meta_at lib data now) = Inr meta"
    and run: "atomic_write lib fsync dest data nonce now ans s = (r, s')"
  shows "(read_file s' dest = read_file s dest \<and> read_file s' (meta_path dest) = read_file s (meta_path dest) \<or>
      read_file s' dest = Some data \<and> read_file s' (meta_path dest) = read_file s (meta_path dest) \<and>
        (r = None \<or> (\<exists>msg. r = Some (Inl (Err_Io (Io_Rename (path_text (tmp_meta_path dest nonce)) (path_text (meta_path dest)) msg))))) \<or>
      read_file s' dest = Some data \<and> read_file s' (meta_path dest) = Some meta) \<and>
    (\<forall>m. r = Some (Inr m) \<longrightarrow> m = compute_meta_at lib data now \<and> read_file s' dest = Some data \<and>
        read_file s' (meta_path dest) = Some meta \<and>
        read_file s' (tmp_path dest nonce) = None \<and> read_file s' (tmp_meta_path dest nonce) = None) \<and>
    (\<forall>p x. p \<notin> {dest, meta_path dest, tmp_path dest nonce, tmp_meta_path dest nonce} \<longrightarrow>
        read_file s p = Some x \<longrightarrow> read_file s' p = Some x)"
proof -
  obtain e where e: "run_steps sys_exec sys_part ans 0 (write_plan lib fsync dest data nonce now) s = (e, s')"
    and r: "r = (case e of Finished \<Rightarrow> Some (Inr (compute_meta_at lib data now)) | Errored x \<Rightarrow> Some (Inl (Err_Io x)) | Died \<Rightarrow> None)"
    using run unfolding atomic_write_def by (auto split: prod.splits ended.splits)
  note out = write_outcome [OF dest meta fresh e]
  note others = read_elsewhere [OF ok write_kept(1) [OF out] dest _ fresh write_kept(2,3) [OF out]]
  show ?thesis
  proof (cases "e = Finished")
    case True
    with out have done': "both_renamed s fsync dest nonce data meta s'" by simp
    with others show ?thesis using finished_reads [OF dest done'] r True by simp
  next
    case False
    with out have stop: "stopped s fsync dest nonce data meta e s'" by simp
    from stopped_reads [OF ok dest stop] others r False show ?thesis by (cases e) auto
  qed
qed

text \<open>The moment between the two renames.\<close>

definition between_renames :: "bool \<Rightarrow> path \<Rightarrow> nat" where
  "between_renames fsync dest = length dest - 1 + (if fsync then 7 else 5)"

lemma run_agree:
  "(\<And>i. i < length xs \<Longrightarrow> ans (k + i) = ans' (k + i)) \<Longrightarrow>
   run_steps exec part ans k xs s = run_steps exec part ans' k xs s"
proof (induction xs arbitrary: k s)
  case (Cons x xs)
  have "ans k = ans' k" using Cons.prems [of 0] by simp
  moreover have "run_steps exec part ans (Suc k) xs s' = run_steps exec part ans' (Suc k) xs s'" for s'
    using Cons.prems [of "Suc i" for i] by (intro Cons.IH) simp
  ultimately show ?case by (cases x) (simp_all split: answer.split sum.split)
qed simp

lemma dies_between_renames:
  assumes "dest \<noteq> []" "fl_to_vec lib (compute_meta_at lib data now) = Inr meta"
    "fs_tree s (tmp_path dest nonce) = None" "fs_tree s (tmp_meta_path dest nonce) = None"
    "atomic_write lib fsync dest data nonce now (\<lambda>_. Works) s = (Some (Inr m), s1)"
  obtains s' where "atomic_write lib fsync dest data nonce now ((\<lambda>_. Works)(between_renames fsync dest := Dies 0)) s = (None, s')"
    "data_renamed s fsync dest nonce data meta s'"
proof -
  let ?first = "create_dir_all (butlast dest) @ write_temp fsync (tmp_path dest nonce) data @ write_temp fsync (tmp_meta_path dest nonce) meta @
      [rename_step (tmp_path dest nonce) dest]"
  let ?rest = "if fsync then fsync_dir (butlast dest) else []"
  let ?n = "between_renames fsync dest"
  have plan: "write_plan lib fsync dest data nonce now = ?first @ rename_step (tmp_meta_path dest nonce) (meta_path dest) # ?rest"
    using assms(1,2) by (simp add: write_plan_def)
  have n: "length ?first = ?n"
    using assms(1) by (simp add: between_renames_def create_dir_all_def write_temp_def)
  obtain r s' where first: "run_steps sys_exec sys_part (\<lambda>_. Works) 0 ?first s = (r, s')" by fastforce
  have fin: "r = Finished"
  proof (rule ccontr)
    assume "r \<noteq> Finished"
    with first have "run_steps sys_exec sys_part (\<lambda>_. Works) 0 (write_plan lib fsync dest data nonce now) s = (r, s')"
      unfolding plan file_calls.run_append by (cases r) simp_all
    with assms(5) \<open>r \<noteq> Finished\<close> show False by (cases r) (simp_all add: atomic_write_def)
  qed
  have "ready s dest nonce s" using assms(3,4) by (simp add: ready_def before_write_refl)
  from crash_tripleD [OF first_rename_triple [OF assms(1)] this first] fin
  have renamed: "data_renamed s fsync dest nonce data meta s'" by simp
  have "run_steps sys_exec sys_part ((\<lambda>_. Works)(?n := Dies 0)) 0 ?first s = run_steps sys_exec sys_part (\<lambda>_. Works) 0 ?first s"
    by (rule run_agree) (use n in \<open>simp del: length_append\<close>)
  also have "\<dots> = (Finished, s')" unfolding first fin ..
  finally have "run_steps sys_exec sys_part ((\<lambda>_. Works)(?n := Dies 0)) 0 (write_plan lib fsync dest data nonce now) s = (Died, s')"
    unfolding plan file_calls.run_append n by (simp add: n rename_step_def del: append.simps length_append)
  then show thesis using that [of s'] renamed by (simp add: atomic_write_def)
qed

text \<open>A death between the two renames leaves an artefact that cannot be read back. Take any
  write that succeeds when nothing goes wrong, where the destination had no readable sidecar before, or
  one for data with another hash. If the process dies at the second rename, the destination already has
  the new data and the reader that checks it against its sidecar rejects it, though the old data is
  gone.\<close>

lemma death_between_renames_unreadable:
  assumes ok: "fs_ok s" and dest: "dest \<noteq> []"
    and fresh: "fs_tree s (tmp_path dest nonce) = None" "fs_tree s (tmp_meta_path dest nonce) = None"
    and meta: "fl_to_vec lib (compute_meta_at lib data now) = Inr meta"
    and runs: "atomic_write lib fsync dest data nonce now (\<lambda>_. Works) s = (Some (Inr m), s1)"
    and sidecar: "case rbind (fs_read s (meta_path dest)) (fl_from_slice lib) of
        Inl e \<Rightarrow> True | Inr m0 \<Rightarrow> blake3_hex m0 \<noteq> fl_blake3_hex lib data"
  shows "case atomic_write lib fsync dest data nonce now ((\<lambda>_. Works)(between_renames fsync dest := Dies 0)) s of
     (r, s') \<Rightarrow> r = None \<and> read_file s' dest = Some data \<and> (\<exists>e. read_with_meta lib (fs_read s') dest = Inl e)"
proof -
  obtain s' where died: "atomic_write lib fsync dest data nonce now ((\<lambda>_. Works)(between_renames fsync dest := Dies 0)) s = (None, s')"
    and at: "data_renamed s fsync dest nonce data meta s'"
    using dies_between_renames [OF dest meta fresh runs] .
  have read: "read_file s' dest = Some data"
    using at by (auto simp: data_renamed_def intro: read_now_file)
  have "read_file s' (meta_path dest) = read_file s (meta_path dest)"
    using at by (auto simp: data_renamed_def intro: read_untouched [OF ok _ _ _ dest])
  then have same: "fs_read s' (meta_path dest) = fs_read s (meta_path dest)" by (simp add: fs_read_def)
  have "\<exists>e. read_with_meta lib (fs_read s') dest = Inl e"
    using sidecar read unfolding read_with_meta_def same
    by (cases "fs_read s (meta_path dest)"; cases "rbind (fs_read s (meta_path dest)) (fl_from_slice lib)")
      (auto simp: fs_read_def data_fingerprint_matches_def)
  with died read show ?thesis by simp
qed

text \<open>What a successful write leaves can be read back.\<close>

lemma written_reads_back:
  assumes "dest \<noteq> []" "both_renamed s fsync dest nonce data meta s'"
    "fl_from_slice lib meta = Inr (compute_meta_at lib data now)"
  shows "read_with_meta lib (fs_read s') dest = Inr (data, compute_meta_at lib data now)"
  using finished_reads [OF assms(1,2)] assms(3)
  by (simp add: read_with_meta_def fs_read_def data_fingerprint_matches_def compute_meta_at_def)

text \<open>Reading checks the data. Whatever the hash function, data whose sidecar was made for a
  text from which it differs in at most four consecutive bytes (with as many in their place) is
  rejected, with an error that reports the sidecar found and the one expected.\<close>

lemma sidecar_detects_burst:
  assumes "length w = length w'" "length w \<le> 4" "w \<noteq> w'"
    and "rd dest = Inr (p @ w' @ q)" "rd (meta_path dest) = Inr bytes"
    and "fl_from_slice lib bytes = Inr (compute_meta_at lib (p @ w @ q) sealed)"
  shows "read_with_meta lib rd dest =
     Inl (Err_Io (Io_MetaMismatch (path_text dest) (compute_meta_at lib (p @ w' @ q) sealed) (compute_meta_at lib (p @ w @ q) sealed)))"
proof -
  have "crc32c_hex_of (p @ w' @ q) \<noteq> crc32c_hex_of (p @ w @ q)"
    using assms(1-3) crc32c_burst [of w w' p q] by (auto simp: crc32c_hex_inj)
  then have "\<not> data_fingerprint_matches lib (p @ w' @ q) (compute_meta_at lib (p @ w @ q) sealed)"
    by (simp add: data_fingerprint_matches_def compute_meta_at_def)
  with assms(4-6) show ?thesis by (simp add: read_with_meta_def) (simp add: compute_meta_at_def)
qed

section \<open>Power loss\<close>

lemma reachable_mono:
  "(\<And>q. fs_tree s q = Some Dir \<Longrightarrow> fs_tree s' q = Some Dir) \<Longrightarrow> reachable_dir s p \<Longrightarrow> reachable_dir s' p"
  by (auto simp: reachable_dir_def list_all_iff)

lemma set_entry_ok:
  assumes "fs_ok s" "fs_tree s p \<noteq> Some Dir" "v \<noteq> None \<Longrightarrow> reachable_dir s p" "\<And>i. v = Some (File i) \<Longrightarrow> i < fs_next s"
  shows "fs_ok (set_entry p v s)"
proof -
  have dirs: "reachable_dir s q \<Longrightarrow> reachable_dir (set_entry p v s) q" for q
    by (rule reachable_mono) (use assms(2) in auto)
  show ?thesis unfolding fs_ok_def
  proof (intro conjI allI impI)
    fix q assume "fs_tree (set_entry p v s) q \<noteq> None"
    then have "reachable_dir s q" using assms(1,3) by (auto simp: fs_ok_def split: if_splits)
    then show "reachable_dir (set_entry p v s) q" by (rule dirs)
  next
    fix q i assume "Some (File i) \<in> insert (fs_tree (set_entry p v s) q) (set (fs_disk (set_entry p v s) q))"
    then have "(q = p \<and> v = Some (File i)) \<or> fs_tree s q = Some (File i) \<or> Some (File i) \<in> set (fs_disk s q)"
      by (auto simp: set_entry_def split: if_splits)
    with fs_ok_inode [OF assms(1)] assms(4) show "i < fs_next (set_entry p v s)"
      by (auto simp: set_entry_def)
  next
    fix q show "fs_tree (set_entry p v s) q \<in> set (fs_disk (set_entry p v s) q)"
      using assms(1) by (simp add: fs_ok_def set_entry_def)
  qed
qed

lemma fs_ok_cong:
  "fs_tree s' = fs_tree s \<Longrightarrow> fs_disk s' = fs_disk s \<Longrightarrow> fs_next s \<le> fs_next s' \<Longrightarrow> fs_ok s \<Longrightarrow> fs_ok s'"
  unfolding fs_ok_def reachable_dir_def by (simp add: order_less_le_trans) (metis order_less_le_trans)

lemma sys_exec_ok:
  assumes ok: "fs_ok s" and run: "sys_exec c s = Inr s'"
  shows "fs_ok s'"
proof (cases c)
  case (Mkdir p)
  with ok run show ?thesis
    by (auto intro!: set_entry_ok split: option.splits node.splits if_splits)
next
  case (Create p)
  let ?new = "s\<lparr>fs_data := (fs_data s)(fs_next s := []), fs_synced := (fs_synced s)(fs_next s := False),
             fs_handle := fs_next s, fs_next := Suc (fs_next s)\<rparr>"
  have new: "fs_ok ?new" by (rule fs_ok_cong [OF _ _ _ ok]) simp_all
  from Create run have "reachable_dir s p" by (auto split: if_splits)
  then have "reachable_dir ?new p" by (rule reachable_mono [rotated]) simp
  with new have "fs_tree s p = None \<Longrightarrow> fs_ok (set_entry p (Some (File (fs_next s))) ?new)"
    by (intro set_entry_ok) simp_all
  with Create run ok show ?thesis
    by (auto split: option.splits node.splits if_splits intro: fs_ok_cong [OF _ _ _ ok])
next
  case (Rename src dst)
  from Rename run obtain i where i: "fs_tree s src = Some (File i)" and dst: "fs_tree s dst \<noteq> Some Dir" "reachable_dir s dst"
    and s': "s' = set_entry dst (Some (File i)) (set_entry src None s)"
    by (auto split: option.splits node.splits if_splits)
  have one: "fs_ok (set_entry src None s)" by (rule set_entry_ok [OF ok]) (simp_all add: i)
  have "reachable_dir (set_entry src None s) dst"
    by (rule reachable_mono [OF _ dst(2)]) (use i in auto)
  moreover have "fs_next (set_entry src None s) = fs_next s" by (simp add: set_entry_def)
  ultimately show ?thesis unfolding s'
    by (intro set_entry_ok [OF one]) (use dst(1) fs_ok_inode(1) [OF ok i] in auto)
next
  case (Sync_dir p)
  with ok run show ?thesis by (auto simp: fs_ok_def reachable_dir_def split: if_splits)
qed (use ok run in \<open>auto intro: fs_ok_cong [OF _ _ _ ok] split: if_splits\<close>)

lemma sys_part_ok: "fs_ok s \<Longrightarrow> fs_ok (sys_part c n s)"
  by (cases c) (auto intro: fs_ok_cong [of _ s])

lemma run_ok: "fs_ok s \<Longrightarrow> run_steps sys_exec sys_part ans k xs s = (r, s') \<Longrightarrow> fs_ok s'"
proof (induction xs arbitrary: k s)
  case (Cons x xs)
  show ?case
  proof (cases x)
    case (Call c err)
    with Cons.prems Cons.IH sys_exec_ok [OF Cons.prems(1), of c] sys_part_ok [OF Cons.prems(1), of c] show ?thesis
      by (auto split: answer.splits sum.splits simp del: sys_exec.simps sys_part.simps)
  qed (use Cons.prems in simp)
qed simp

lemma atomic_write_ok: "fs_ok s \<Longrightarrow> atomic_write lib fsync dest data nonce now ans s = (r, s') \<Longrightarrow> fs_ok s'"
  unfolding atomic_write_def by (auto split: prod.splits ended.splits intro: run_ok)

text \<open>An entry with one value on disk, whose file is flushed.\<close>

definition settled :: "fs \<Rightarrow> path \<Rightarrow> bool" where
  "settled s p \<longleftrightarrow> fs_disk s p = [fs_tree s p] \<and> (case fs_tree s p of Some (File i) \<Rightarrow> fs_synced s i | _ \<Rightarrow> True)"

definition durable_dirs :: "fs \<Rightarrow> path \<Rightarrow> bool" where
  "durable_dirs s dest \<longleftrightarrow> list_all (\<lambda>q. set (fs_disk s q) = {Some Dir}) (ancestors dest)"

lemma loss_reachable:
  assumes "fs_ok s" "kept s dest nonce s'" "dest \<noteq> []" "durable_dirs s dest" "power_loss s' s''"
  shows "reachable_dir s dest" "reachable_dir s'' dest"
proof -
  have now_dir: "fs_tree s q = Some Dir" if "q \<in> set (ancestors dest)" for q
  proof -
    have "fs_tree s q \<in> set (fs_disk s q)" using assms(1) by (simp add: fs_ok_def)
    with that assms(4) show ?thesis by (auto simp: durable_dirs_def list_all_iff)
  qed
  have "fs_tree s'' q = Some Dir" if q: "q \<in> set (ancestors dest)" for q
  proof -
    have "q \<notin> {dest, meta_path dest, tmp_path dest nonce, tmp_meta_path dest nonce}"
      using ancestors_shorter [OF q] assms(3) by auto
    with assms(2) now_dir [OF q] have "entry_is s q (Some Dir) s'" unfolding kept_def by (metis option.distinct(1))
    with q now_dir [OF q] assms(4) have "set (fs_disk s' q) \<subseteq> {Some Dir}"
      by (auto simp: entry_is_def durable_dirs_def list_all_iff)
    with assms(5) show ?thesis by (auto simp: power_loss_def)
  qed
  with now_dir show "reachable_dir s dest" "reachable_dir s'' dest" by (simp_all add: reachable_dir_def list_all_iff)
qed

lemma loss_untouched:
  assumes "fs_ok s" "kept s dest nonce s'" "untouched s p s'" "settled s p" "power_loss s' s''"
    and "reachable_dir s p" "reachable_dir s'' p"
  shows "read_file s'' p = read_file s p"
proof -
  have same: "fs_tree s'' p = fs_tree s p"
    using assms(3-5) by (auto simp: untouched_def entry_is_def settled_def power_loss_def)
  have "fs_data s'' i = fs_data s i" if "fs_tree s p = Some (File i)" for i
  proof -
    have "i < fs_next s" by (rule fs_ok_inode(1) [OF assms(1) that])
    with that assms(2,4,5) show ?thesis by (simp add: kept_def settled_def power_loss_def)
  qed
  with same assms(6,7) show ?thesis by (simp add: read_file_def split: option.split node.split)
qed

lemma loss_now_file:
  assumes "fs_ok s" "kept s dest nonce s'" "now_file s True p bytes s'" "settled s p" "power_loss s' s''"
    and "reachable_dir s p" "reachable_dir s'' p"
  shows "read_file s'' p = read_file s p \<or> read_file s'' p = Some bytes"
proof -
  from assms(3) obtain i where i: "entry_is s p (Some (File i)) s'" "holds s True i bytes s'"
    by (auto simp: now_file_def)
  then have "fs_tree s'' p = Some (File i) \<or> fs_tree s'' p = fs_tree s p"
    using assms(4,5) by (auto simp: entry_is_def settled_def power_loss_def)
  moreover have "fs_data s'' i = bytes" using i(2) assms(5) by (simp add: holds_def power_loss_def)
  moreover have "fs_data s'' j = fs_data s j" if "fs_tree s p = Some (File j)" for j
  proof -
    have "j < fs_next s" by (rule fs_ok_inode(1) [OF assms(1) that])
    with that assms(2,4,5) show ?thesis by (simp add: kept_def settled_def power_loss_def)
  qed
  ultimately show ?thesis using assms(6,7) by (auto simp: read_file_def split: option.split node.split)
qed

lemma loss_durable:
  assumes "now_file s True p bytes s'" "fs_disk s' p = [fs_tree s' p]" "power_loss s' s''" "reachable_dir s'' p"
  shows "read_file s'' p = Some bytes"
proof -
  from assms(1) obtain i where i: "fs_tree s' p = Some (File i)" "holds s True i bytes s'"
    by (auto simp: now_file_def entry_is_def)
  have "fs_tree s'' p \<in> set (fs_disk s' p)" using assms(3) by (simp add: power_loss_def)
  with assms(2) i(1) have "fs_tree s'' p = Some (File i)" by simp
  with i(2) assms(3,4) show ?thesis by (simp add: holds_def power_loss_def read_file_def)
qed

text \<open>With flushing on, a power loss at any moment, of a machine whose directories on the way
  were durable and whose old artefact was settled, leaves the destination with the old or the new data
  and the sidecar with its old or new text, never with a part of either. After a write that returned
  success it leaves both new.\<close>

lemma power_loss_keeps_version:
  assumes ok: "fs_ok s" and dest: "dest \<noteq> []"
    and fresh: "fs_tree s (tmp_path dest nonce) = None" "fs_tree s (tmp_meta_path dest nonce) = None"
    and meta: "fl_to_vec lib (compute_meta_at lib data now) = Inr meta"
    and old: "durable_dirs s dest" "settled s dest" "settled s (meta_path dest)"
    and run: "atomic_write lib True dest data nonce now ans s = (r, s')" and loss: "power_loss s' s''"
  shows "read_file s'' dest \<in> {read_file s dest, Some data} \<and>
    read_file s'' (meta_path dest) \<in> {read_file s (meta_path dest), Some meta} \<and>
    (\<forall>m. r = Some (Inr m) \<longrightarrow> read_file s'' dest = Some data \<and> read_file s'' (meta_path dest) = Some meta)"
proof -
  obtain e where e: "run_steps sys_exec sys_part ans 0 (write_plan lib True dest data nonce now) s = (e, s')"
    and r: "r = (case e of Finished \<Rightarrow> Some (Inr (compute_meta_at lib data now)) | Errored x \<Rightarrow> Some (Inl (Err_Io x)) | Died \<Rightarrow> None)"
    using run unfolding atomic_write_def by (auto split: prod.splits ended.splits)
  note out = write_outcome [OF dest meta fresh e]
  note kept = write_kept(1) [OF out]
  note dirs = loss_reachable [OF ok kept dest old(1) loss]
  have dirs_meta: "reachable_dir s (meta_path dest)" "reachable_dir s'' (meta_path dest)"
    using dirs dest by simp_all
  show ?thesis
  proof (cases "e = Finished")
    case True
    with out have d: "now_file s True dest data s'" "now_file s True (meta_path dest) meta s'"
      "fs_disk s' dest = [fs_tree s' dest]" "fs_disk s' (meta_path dest) = [fs_tree s' (meta_path dest)]"
      by (simp_all add: both_renamed_def entries_durable_def)
    show ?thesis using loss_durable [OF d(1,3) loss dirs(2)] loss_durable [OF d(2,4) loss dirs_meta(2)] by simp
  next
    case False
    with out have stop: "stopped s True dest nonce data meta e s'" by simp
    then have data: "untouched s dest s' \<or> now_file s True dest data s'"
      and side: "untouched s (meta_path dest) s' \<or> now_file s True (meta_path dest) meta s'"
      by (auto simp: stopped_def)
    have "read_file s'' dest = read_file s dest \<or> read_file s'' dest = Some data"
      using data loss_untouched [OF ok kept _ old(2) loss dirs] loss_now_file [OF ok kept _ old(2) loss dirs] by blast
    moreover have "read_file s'' (meta_path dest) = read_file s (meta_path dest) \<or> read_file s'' (meta_path dest) = Some meta"
      using side loss_untouched [OF ok kept _ old(3) loss dirs_meta] loss_now_file [OF ok kept _ old(3) loss dirs_meta] by blast
    ultimately show ?thesis using r False by (cases e) auto
  qed
qed

lemma write_finished:
  assumes "atomic_write lib fsync dest data nonce now ans s = (Some (Inr m), s')" "dest \<noteq> []"
    "fl_to_vec lib (compute_meta_at lib data now) = Inr meta"
    "fs_tree s (tmp_path dest nonce) = None" "fs_tree s (tmp_meta_path dest nonce) = None"
  shows "both_renamed s fsync dest nonce data meta s'" "fsync \<Longrightarrow> entries_durable dest s'"
proof -
  have "run_steps sys_exec sys_part ans 0 (write_plan lib fsync dest data nonce now) s = (Finished, s')"
    using assms(1) unfolding atomic_write_def by (auto split: prod.splits ended.splits)
  from write_outcome [OF assms(2-5) this]
  show "both_renamed s fsync dest nonce data meta s'" "fsync \<Longrightarrow> entries_durable dest s'" by simp_all
qed

text \<open>What success means. With flushing on, a write that returned success survives every power
  loss exactly when the directories on the way were durable before it: the writer flushes only the
  directory of the destination, not those above it that it may have created itself. With flushing off, a
  power loss after success can leave anything at all as the content of the destination.\<close>

lemma success_is_durable_iff:
  assumes ok: "fs_ok s" and dest: "dest \<noteq> []"
    and fresh: "fs_tree s (tmp_path dest nonce) = None" "fs_tree s (tmp_meta_path dest nonce) = None"
    and meta: "fl_to_vec lib (compute_meta_at lib data now) = Inr meta"
    and run: "atomic_write lib fsync dest data nonce now ans s = (Some (Inr m), s')"
  shows "if fsync
    then (\<forall>s''. power_loss s' s'' \<longrightarrow> read_file s'' dest = Some data \<and> read_file s'' (meta_path dest) = Some meta) \<longleftrightarrow> durable_dirs s dest
    else (\<forall>x. \<exists>s''. power_loss s' s'' \<and> read_file s'' dest = Some x)"
proof -
  note fin = write_finished [OF run dest meta fresh]
  have kept: "kept s dest nonce s'" using fin(1) by (simp add: both_renamed_def)
  have here: "fs_tree s' p \<in> set (fs_disk s' p)" for p
    using atomic_write_ok [OF ok run] by (simp add: fs_ok_def)
  show ?thesis
  proof (cases fsync)
    case True
    from fin True have d: "now_file s True dest data s'" "now_file s True (meta_path dest) meta s'"
      "fs_disk s' dest = [fs_tree s' dest]" "fs_disk s' (meta_path dest) = [fs_tree s' (meta_path dest)]"
      by (simp_all add: both_renamed_def entries_durable_def)
    have lost: "\<exists>s''. power_loss s' s'' \<and> read_file s'' dest = None" if not_durable: "\<not> durable_dirs s dest"
    proof -
      from not_durable obtain q where q: "q \<in> set (ancestors dest)" "set (fs_disk s q) \<noteq> {Some Dir}"
        by (auto simp: durable_dirs_def list_all_iff)
      have "fs_tree s q \<in> set (fs_disk s q)" using ok by (simp add: fs_ok_def)
      with q(2) have "\<not> set (fs_disk s q) \<subseteq> {Some Dir}" by (metis empty_iff subset_singletonD)
      then obtain v where v: "v \<in> set (fs_disk s q)" "v \<noteq> Some Dir" by (auto simp: subset_iff)
      let ?lost = "s'\<lparr>fs_tree := (fs_tree s')(q := v)\<rparr>"
      have "v \<in> set (fs_disk s' q)" using v(1) kept q(1) unfolding kept_def by blast
      then have "power_loss s' ?lost" using here by (simp add: power_loss_def)
      moreover have "read_file ?lost dest = None"
        using q(1) v(2) by (auto simp: read_file_def reachable_dir_def list_all_iff)
      ultimately show ?thesis by blast
    qed
    have safe: "read_file s'' dest = Some data \<and> read_file s'' (meta_path dest) = Some meta"
      if "durable_dirs s dest" "power_loss s' s''" for s''
    proof -
      have "reachable_dir s'' dest" by (rule loss_reachable(2) [OF ok kept dest that])
      then show ?thesis using loss_durable [OF d(1,3) that(2)] loss_durable [OF d(2,4) that(2)] dest by simp
    qed
    show ?thesis
    proof (cases "durable_dirs s dest")
      case True
      with safe \<open>fsync\<close> show ?thesis by simp
    next
      case False
      from lost [OF this] obtain s'' where "power_loss s' s''" "read_file s'' dest = None" by blast
      with False \<open>fsync\<close> show ?thesis by auto
    qed
  next
    case False
    from fin(1) obtain i where i: "fs_tree s' dest = Some (File i)" "\<not> fs_synced s' i" "reachable_dir s' dest"
      using False by (auto simp: both_renamed_def now_file_def entry_is_def holds_def)
    have "power_loss s' (s'\<lparr>fs_data := (fs_data s')(i := x)\<rparr>) \<and> read_file (s'\<lparr>fs_data := (fs_data s')(i := x)\<rparr>) dest = Some x" for x
      using i here by (auto simp: power_loss_def read_file_def reachable_dir_def)
    with False show ?thesis by auto
  qed
qed

section \<open>A write that meets no failure\<close>

lemma run_existing_dirs:
  assumes "reachable_dir s dest"
  shows "run_steps sys_exec sys_part (\<lambda>_. Works) k (create_dir_all (butlast dest)) s = (Finished, s)"
proof -
  have dir: "fs_tree s (take (Suc j) (butlast dest)) = Some Dir" if "j < length (butlast dest)" for j
  proof -
    have "take (Suc j) (butlast dest) \<in> set (ancestors dest)"
      using that by (auto simp: ancestors_def take_butlast intro!: image_eqI [of _ _ "Suc j"])
    with assms show ?thesis by (simp add: reachable_dir_def list_all_iff)
  qed
  have "run_steps sys_exec sys_part (\<lambda>_. Works) k (map (\<lambda>j. Call (Mkdir (take (Suc j) (butlast dest))) err) js) s = (Finished, s)"
    if "\<forall>j \<in> set js. j < length (butlast dest)" for js k and err :: "string \<Rightarrow> io_error"
    using that by (induction js arbitrary: k) (simp_all add: dir)
  then show ?thesis unfolding create_dir_all_def by simp
qed

lemma reachable_set_entry [simp]:
  "length q \<le> length p \<Longrightarrow> reachable_dir (set_entry p v s) q = reachable_dir s q"
  by (rule reachable_only_at [OF set_entry_only_at])

lemma reachable_data [simp]:
  "reachable_dir (s\<lparr>fs_data := d\<rparr>) p = reachable_dir s p" "reachable_dir (s\<lparr>fs_synced := y\<rparr>) p = reachable_dir s p"
  "reachable_dir (s\<lparr>fs_handle := h\<rparr>) p = reachable_dir s p" "reachable_dir (s\<lparr>fs_next := n\<rparr>) p = reachable_dir s p"
  by (simp_all add: reachable_dir_def)

lemma write_works:
  assumes "dest \<noteq> []" "reachable_dir s dest" "fs_tree s dest \<noteq> Some Dir" "fs_tree s (meta_path dest) \<noteq> Some Dir"
    and "fs_tree s (tmp_path dest nonce) = None" "fs_tree s (tmp_meta_path dest nonce) = None"
    and "fl_to_vec lib (compute_meta_at lib data now) = Inr meta"
  shows "fst (atomic_write lib fsync dest data nonce now (\<lambda>_. Works) s) = Some (Inr (compute_meta_at lib data now))"
proof -
  have reach: "reachable_dir x (tmp_path dest nonce) = reachable_dir x dest" "reachable_dir x (tmp_meta_path dest nonce) = reachable_dir x dest" for x
    by (rule reachable_sibling; use assms(1) in simp)+
  have parent: "reachable_dir s (butlast dest) \<and> fs_tree s (butlast dest) = Some Dir"
    using assms(1,2) by (simp add: reachable_dir_def ancestors_butlast)
  have shorter: "butlast dest \<noteq> p" if "p \<noteq> []" "length p = length dest" for p
    using that by (metis length_butlast diff_less length_greater_0_conv less_irrefl zero_less_one)
  have neq: "butlast dest \<noteq> dest" "butlast dest \<noteq> meta_path dest" "butlast dest \<noteq> tmp_path dest nonce" "butlast dest \<noteq> tmp_meta_path dest nonce"
    by (rule shorter; use assms(1) in simp)+
  show ?thesis
    using assms parent neq reach
    by (simp add: atomic_write_def write_plan_def file_calls.run_append run_existing_dirs write_temp_def rename_step_def fsync_dir_def)
qed

section \<open>Instances\<close>

text \<open>A first write into the directory that paths start from, with simple stand-ins for the libraries.\<close>

definition sample_libs :: fs_libs where
  "sample_libs = \<lparr>fl_blake3_hex = (\<lambda>d. d), fl_to_vec = (\<lambda>m. Inr (blake3_hex m)),
     fl_from_slice = (\<lambda>b. Inr (compute_meta_at \<lparr>fl_blake3_hex = (\<lambda>d. d), fl_to_vec = (\<lambda>m. Inr (blake3_hex m)), fl_from_slice = (\<lambda>b. Inl [])\<rparr> b 7))\<rparr>"

lemma sample_meta: "fl_to_vec sample_libs (compute_meta_at sample_libs d now) = Inr d"
  by (simp add: sample_libs_def compute_meta_at_def)

lemma sample_fresh: "q \<noteq> [] \<Longrightarrow> fs_tree empty_fs q = None"
  by (simp add: empty_fs_def)

lemma sample_reachable: "reachable_dir empty_fs [x]"
  by (simp add: empty_fs_def reachable_dir_def ancestors_def)

lemma sample_write:
  "fst (atomic_write sample_libs fsync [x] d nonce 7 (\<lambda>_. Works) empty_fs) = Some (Inr (compute_meta_at sample_libs d 7))"
  by (rule write_works [where meta = d]) (simp_all add: sample_meta sample_fresh sample_reachable)

lemma sample_settled: "durable_dirs empty_fs [x]" "q \<noteq> [] \<Longrightarrow> settled empty_fs q"
  by (simp_all add: durable_dirs_def ancestors_def settled_def empty_fs_def)

lemma write_crash_safe_witness:
  "case atomic_write sample_libs True [''a''] ''data'' 5 7 ((\<lambda>_. Works)(1 := Fails ''ENOSPC'' 2)) empty_fs of
     (r, s') \<Rightarrow> r = Some (Inl (Err_Io (Io_Write (path_text (tmp_path [''a''] 5)) ''ENOSPC''))) \<and>
       read_file s' [''a''] \<in> {None, Some ''data''} \<and> read_file s' (meta_path [''a'']) \<in> {None, Some ''data''}"
proof -
  let ?run = "atomic_write sample_libs True [''a''] ''data'' 5 7 ((\<lambda>_. Works)(1 := Fails ''ENOSPC'' 2)) empty_fs"
  have "fst ?run = Some (Inl (Err_Io (Io_Write (path_text (tmp_path [''a''] 5)) ''ENOSPC'')))"
    using sample_reachable [of "''a''"] reachable_sibling [of "[''a'']" "tmp_path [''a''] 5" empty_fs]
    by (simp add: atomic_write_def write_plan_def create_dir_all_def write_temp_def sample_fresh)
  moreover have "read_file empty_fs [''a''] = None" "read_file empty_fs (meta_path [''a'']) = None"
    by (simp_all add: read_file_def sample_fresh)
  ultimately show ?thesis
    using write_crash_safe [OF empty_fs_ok _ _ _ sample_meta [of "''data''" 7], of "[''a'']" 5 True "(\<lambda>_. Works)(1 := Fails ''ENOSPC'' 2)" "fst ?run" "snd ?run"]
    by (auto simp: sample_fresh split: prod.split)
qed

lemma death_between_renames_unreadable_witness:
  "case atomic_write sample_libs True [''a''] ''data'' 5 7 ((\<lambda>_. Works)(7 := Dies 0)) empty_fs of
     (r, s') \<Rightarrow> r = None \<and> read_file s' [''a''] = Some ''data'' \<and> (\<exists>e. read_with_meta sample_libs (fs_read s') [''a''] = Inl e)"
proof -
  have runs: "atomic_write sample_libs True [''a''] ''data'' 5 7 (\<lambda>_. Works) empty_fs =
      (Some (Inr (compute_meta_at sample_libs ''data'' 7)), snd (atomic_write sample_libs True [''a''] ''data'' 5 7 (\<lambda>_. Works) empty_fs))"
    by (rule prod_eqI) (simp_all add: sample_write)
  have none: "fs_read empty_fs (meta_path [''a'']) = Inl enoent"
    by (simp add: fs_read_def read_file_def sample_fresh)
  have at: "between_renames True [''a''] = 7" by (simp add: between_renames_def)
  show ?thesis
    using death_between_renames_unreadable [OF empty_fs_ok _ _ _ sample_meta runs] unfolding at
    by (simp add: sample_fresh none)
qed

lemma sidecar_detects_burst_witness:
  "read_with_meta sample_libs (\<lambda>p. if p = [''a''] then Inr ''dXta'' else Inr ''data'') [''a''] =
     Inl (Err_Io (Io_MetaMismatch ''/a'' (compute_meta_at sample_libs ''dXta'' 7) (compute_meta_at sample_libs ''data'' 7)))"
proof -
  have readable: "fl_from_slice sample_libs ''data'' = Inr (compute_meta_at sample_libs (''d'' @ ''a'' @ ''ta'') 7)"
    by (simp add: sample_libs_def compute_meta_at_def)
  show ?thesis
    using sidecar_detects_burst [OF _ _ _ _ _ readable, of "''X''" "\<lambda>p. if p = [''a''] then Inr ''dXta'' else Inr ''data''" "[''a'']"]
    by (simp add: path_text_def)
qed

lemma power_loss_keeps_version_witness:
  "case atomic_write sample_libs True [''a''] ''data'' 5 7 (\<lambda>_. Works) empty_fs of
     (r, s') \<Rightarrow> read_file s' [''a''] = Some ''data''"
proof -
  let ?run = "atomic_write sample_libs True [''a''] ''data'' 5 7 (\<lambda>_. Works) empty_fs"
  have ok: "fs_ok (snd ?run)" using atomic_write_ok [OF empty_fs_ok] by (metis prod.collapse)
  then have "power_loss (snd ?run) (snd ?run)" by (simp add: fs_ok_def power_loss_def)
  from power_loss_keeps_version [OF empty_fs_ok _ _ _ sample_meta sample_settled(1) sample_settled(2) sample_settled(2) prod.collapse [symmetric] this]
  show ?thesis by (simp add: sample_fresh sample_write split: prod.split) (metis sample_write prod.sel)
qed

lemma success_is_durable_iff_witness:
  "\<forall>x. \<exists>s''. power_loss (snd (atomic_write sample_libs False [''a''] ''data'' 5 7 (\<lambda>_. Works) empty_fs)) s'' \<and> read_file s'' [''a''] = Some x"
proof -
  have runs: "atomic_write sample_libs False [''a''] ''data'' 5 7 (\<lambda>_. Works) empty_fs =
      (Some (Inr (compute_meta_at sample_libs ''data'' 7)), snd (atomic_write sample_libs False [''a''] ''data'' 5 7 (\<lambda>_. Works) empty_fs))"
    by (rule prod_eqI) (simp_all add: sample_write)
  show ?thesis using success_is_durable_iff [OF empty_fs_ok _ _ _ sample_meta runs] by (simp add: sample_fresh)
qed

end
