(* ===== verification/Reconcile.thy ===== *)
theory Reconcile imports Atomic_Files begin

text \<open>
  The clean-up at the start of every pipeline command (\<open>src/reconcile/mod.rs\<close>): the removal of the
  temporary files that interrupted writes left behind and of old lock files. The recovery of runs
  whose heartbeat stopped is not modelled.
\<close>

section \<open>Left-over files\<close>

definition is_ascii_hexdigit :: "char \<Rightarrow> bool" where
  "is_ascii_hexdigit c \<longleftrightarrow> c \<in> set ''0123456789abcdefABCDEF''"

text \<open>On the file name; a path without one has no last component.\<close>

definition is_atomic_tmp :: "path \<Rightarrow> bool" where
  "is_atomic_tmp p \<longleftrightarrow> p \<noteq> [] \<and>
     (case find_str ''.tmp.'' (last p) of
        None \<Rightarrow> False
      | Some idx \<Rightarrow> (let tail = drop (idx + length ''.tmp.'') (last p) in tail \<noteq> [] \<and> list_all is_ascii_hexdigit tail))"

text \<open>\<open>Path::extension\<close>: what follows the last dot, unless the name starts with it.\<close>

definition path_extension :: "string \<Rightarrow> string option" where
  "path_extension name = (case rfind_str ''.'' name of None \<Rightarrow> None | Some i \<Rightarrow> if i = 0 then None else Some (drop (Suc i) name))"

definition is_lock_file :: "path \<Rightarrow> bool" where
  "is_lock_file p \<longleftrightarrow> p \<noteq> [] \<and> path_extension (last p) = Some ''lock''"

definition stale_lock_secs :: int where "stale_lock_secs = 3600"

text \<open>What the operating system and the identifier library answer: the names in a directory, the
  paths a walk visits, modification times, and the canonical text of a name that is an identifier.\<close>

record fs_lister =
  li_read_dir :: "path \<Rightarrow> string + string list"
  li_walk :: "path \<Rightarrow> path list"
  li_modified :: "path \<Rightarrow> int option"
  li_parse_id :: "string \<Rightarrow> string option"

definition is_file :: "fs \<Rightarrow> path \<Rightarrow> bool" where
  "is_file s p \<longleftrightarrow> reachable_dir s p \<and> (case fs_tree s p of Some (File i) \<Rightarrow> True | _ \<Rightarrow> False)"

definition is_dir :: "fs \<Rightarrow> path \<Rightarrow> bool" where
  "is_dir s p \<longleftrightarrow> reachable_dir s p \<and> fs_tree s p = Some Dir"

definition path_exists :: "fs \<Rightarrow> path \<Rightarrow> bool" where
  "path_exists s p \<longleftrightarrow> reachable_dir s p \<and> fs_tree s p \<noteq> None"

definition resolve_target_runs_for_cleanup :: "fs_lister \<Rightarrow> path \<Rightarrow> fs \<Rightarrow> error + string list" where
  "resolve_target_runs_for_cleanup li runs_root s =
     (if \<not> path_exists s runs_root then Inr []
      else rbind (map_err (\<lambda>e. Err_Io (Io_Raw e)) (li_read_dir li runs_root)) (\<lambda>names.
        Inr (List.map_filter (\<lambda>name.
          if \<not> is_dir s (runs_root @ [name]) \<or> strip_suffix_str ''.lock'' name \<noteq> None then None
          else li_parse_id li name) names)))"

definition lock_is_stale :: "fs_lister \<Rightarrow> int \<Rightarrow> path \<Rightarrow> bool" where
  "lock_is_stale li now p \<longleftrightarrow> (case li_modified li p of None \<Rightarrow> False | Some t \<Rightarrow> stale_lock_secs < now - t)"

definition plan_cleanup :: "fs_lister \<Rightarrow> path \<Rightarrow> string list \<Rightarrow> int \<Rightarrow> fs \<Rightarrow> error + path list" where
  "plan_cleanup li runs_root targets now s =
     (if \<not> path_exists s runs_root then Inr []
      else rbind (map_err (\<lambda>e. Err_Io (Io_Raw e)) (li_read_dir li runs_root)) (\<lambda>names.
        Inr (filter (\<lambda>p. is_file s p \<and> is_atomic_tmp p) (concat (map (\<lambda>i. li_walk li (runs_root @ [i])) targets)) @
             filter (\<lambda>p. is_file s p \<and> is_lock_file p \<and> lock_is_stale li now p) (map (\<lambda>name. runs_root @ [name]) names))))"

text \<open>\<open>remove_file\<close>; a path that is gone already counts as removed. A call can fail otherwise.\<close>

definition unlink :: "path \<Rightarrow> fs \<Rightarrow> fs" where
  "unlink p s = (if is_file s p then set_entry p None s else s)"

fun remove_planned :: "(path \<Rightarrow> string option) \<Rightarrow> path list \<Rightarrow> nat \<Rightarrow> fs \<Rightarrow> (error + nat) \<times> fs" where
  "remove_planned fails [] n s = (Inr n, s)"
| "remove_planned fails (p # ps) n s =
     (case fails p of
        Some msg \<Rightarrow> (Inl (Err_Io (Io_Raw msg)), s)
      | None \<Rightarrow> remove_planned fails ps (Suc n) (unlink p s))"

definition cleanup_orphans :: "fs_lister \<Rightarrow> path \<Rightarrow> int \<Rightarrow> (path \<Rightarrow> string option) \<Rightarrow> fs \<Rightarrow> (error + nat) \<times> fs" where
  "cleanup_orphans li runs_root now fails s =
     (case rbind (resolve_target_runs_for_cleanup li runs_root s) (\<lambda>targets. plan_cleanup li runs_root targets now s) of
        Inl e \<Rightarrow> (Inl e, s)
      | Inr plan \<Rightarrow> remove_planned fails plan 0 s)"

section \<open>What the pass removes\<close>

lemma hexdigits_hex: "list_all is_ascii_hexdigit (hex_digits k n)"
proof (induction k arbitrary: n)
  case (Suc k)
  have "hex_digit m \<in> set ''0123456789abcdef''" if "m < 16" for m
    using that unfolding hex_digit_def by (intro nth_mem) simp
  moreover have "set ''0123456789abcdef'' \<subseteq> set ''0123456789abcdefABCDEF''" by simp
  ultimately have "is_ascii_hexdigit (hex_digit (n mod 16))"
    unfolding is_ascii_hexdigit_def by (meson mod_less_divisor subsetD zero_less_numeral)
  with Suc show ?case by simp
qed simp

text \<open>A temporary file of the writer is recognised exactly if the name it was made for, followed by
  the dotted marker, has no earlier occurrence of the marker.\<close>

lemma find_str_append:
  assumes "find_str p (s @ p) = Some (length s)" "p \<noteq> []"
  shows "find_str p (s @ p @ r) = Some (length s)"
  using assms
proof (induction s)
  case Nil
  then show ?case by (cases p) (simp_all add: prefix_def)
next
  case (Cons c s)
  have no: "\<not> prefix p (c # s @ p)" using Cons.prems(1) by (auto split: if_splits)
  then have "\<not> prefix p ((c # s @ p) @ r)"
    using prefix_length_prefix [of p "(c # s @ p) @ r" "c # s @ p"] by auto
  then have "\<not> prefix p (c # s @ p @ r)" by simp
  moreover have "find_str p (s @ p) = Some (length s)" using Cons.prems(1) no by auto
  ultimately show ?case using Cons.IH assms(2) by simp
qed

lemma tmp_recognised:
  assumes "find_str ''.tmp.'' (last dest @ ''.tmp.'') = Some (length (last dest))"
  shows "is_atomic_tmp (tmp_path dest nonce)"
proof -
  have "last (tmp_path dest nonce) = last dest @ ''.tmp.'' @ hex_digits 16 (unat nonce)"
    by (simp add: tmp_path_def)
  moreover from this have "find_str ''.tmp.'' (last (tmp_path dest nonce)) = Some (length (last dest))"
    using find_str_append [OF assms] by simp
  moreover have "hex_digits 16 (unat nonce) \<noteq> []"
    using hex_digits_length [of 16 "unat nonce"] by (metis length_0_conv zero_neq_numeral)
  ultimately show ?thesis using hexdigits_hex by (simp add: is_atomic_tmp_def Let_def)
qed

lemma unlink_tree: "fs_tree (unlink p s) q = (if q = p \<and> is_file s p then None else fs_tree s q)"
  by (simp add: unlink_def)

lemma unlink_data [simp]: "fs_data (unlink p s) = fs_data s" "fs_next (unlink p s) = fs_next s" "fs_handle (unlink p s) = fs_handle s"
  by (simp_all add: unlink_def set_entry_def)

lemma unlink_reachable [simp]: "reachable_dir (unlink p s) q = reachable_dir s q"
proof -
  have "(fs_tree (unlink p s) r = Some Dir) = (fs_tree s r = Some Dir)" for r
    by (auto simp: unlink_tree is_file_def)
  then show ?thesis by (simp add: reachable_dir_def)
qed

lemma unlink_is_file: "is_file (unlink p s) q = (is_file s q \<and> q \<noteq> p)"
  by (auto simp: is_file_def unlink_tree split: option.splits node.splits)

lemma removed_data:
  "snd (remove_planned fails ps n s) = s' \<Longrightarrow> fs_data s' = fs_data s \<and> fs_next s' = fs_next s \<and> fs_handle s' = fs_handle s \<and> (\<forall>q. reachable_dir s' q = reachable_dir s q)"
  by (induction ps arbitrary: n s) (auto split: option.splits)

lemma remove_planned_tree:
  "remove_planned fails ps n s = (Inr m, s') \<Longrightarrow>
   m = n + length ps \<and> (\<forall>q. fs_tree s' q = (if q \<in> set ps \<and> is_file s q then None else fs_tree s q))"
proof (induction ps arbitrary: n s)
  case (Cons p ps)
  then have "remove_planned fails ps (Suc n) (unlink p s) = (Inr m, s')" by (auto split: option.splits)
  from Cons.IH [OF this] show ?case by (auto simp: unlink_is_file unlink_tree)
qed simp

lemma removed_reads:
  assumes "remove_planned fails ps n s = (Inr m, s')"
  shows "read_file s' q = (if q \<in> set ps then None else read_file s q)"
proof -
  have data: "fs_data s' = fs_data s" "reachable_dir s' q = reachable_dir s q"
    using removed_data [of fails ps n s s'] assms by simp_all
  show ?thesis using remove_planned_tree [OF assms] data
    by (auto simp: read_file_def is_file_def split: option.splits node.splits)
qed

text \<open>Listings that find everything: the names under the root, the files under a run.\<close>

definition lists_all :: "fs_lister \<Rightarrow> path \<Rightarrow> fs \<Rightarrow> bool" where
  "lists_all li runs_root s \<longleftrightarrow>
     (\<exists>names. li_read_dir li runs_root = Inr names \<and> (\<forall>name. fs_tree s (runs_root @ [name]) \<noteq> None \<longrightarrow> name \<in> set names)) \<and>
     (\<forall>i p. is_file s (runs_root @ i # p) \<longrightarrow> runs_root @ i # p \<in> set (li_walk li (runs_root @ [i])))"

lemma ancestors_append: "q \<noteq> [] \<Longrightarrow> p \<in> set (ancestors (p @ q))"
  by (auto simp: ancestors_def intro!: image_eqI [of _ _ "length p"])

lemma reachable_prefix:
  assumes "reachable_dir s (p @ q)" "q \<noteq> []"
  shows "fs_tree s p = Some Dir" "reachable_dir s p"
proof -
  show "fs_tree s p = Some Dir"
    using assms ancestors_append [of q p] by (simp add: reachable_dir_def list_all_iff)
  have "set (ancestors p) \<subseteq> set (ancestors (p @ q))"
    by (auto simp: ancestors_def intro!: image_eqI)
  with assms(1) show "reachable_dir s p" by (auto simp: reachable_dir_def list_all_iff)
qed

text \<open>What a completed pass has done: the recognised files of a run are gone, and nothing that is
  neither recognised nor a lock at the root is.\<close>

lemma cleanup_effect:
  assumes run: "cleanup_orphans li runs_root now fails s = (Inr n, s')" and all: "lists_all li runs_root s"
  shows "\<And>i p. li_parse_id li i = Some i \<Longrightarrow> strip_suffix_str ''.lock'' i = None \<Longrightarrow> p \<noteq> [] \<Longrightarrow>
      is_atomic_tmp (runs_root @ i # p) \<Longrightarrow> is_file s (runs_root @ i # p) \<Longrightarrow> fs_tree s' (runs_root @ i # p) = None"
    and "\<And>q. \<not> is_atomic_tmp q \<Longrightarrow> length q \<noteq> Suc (length runs_root) \<Longrightarrow> fs_tree s' q = fs_tree s q"
    and "fs_data s' = fs_data s" "fs_next s' = fs_next s" "fs_handle s' = fs_handle s" "\<And>q. reachable_dir s' q = reachable_dir s q"
    and "\<And>q. fs_tree s q = None \<Longrightarrow> fs_tree s' q = None"
proof -
  from run obtain targets plan where t: "resolve_target_runs_for_cleanup li runs_root s = Inr targets"
    and p: "plan_cleanup li runs_root targets now s = Inr plan" and rm: "remove_planned fails plan 0 s = (Inr n, s')"
    unfolding cleanup_orphans_def by (auto simp: rbind_eq_Inr split: sum.splits)
  note gone = remove_planned_tree [OF rm]
  show "fs_data s' = fs_data s" "fs_next s' = fs_next s" "fs_handle s' = fs_handle s" "\<And>q. reachable_dir s' q = reachable_dir s q"
    using removed_data [of fails plan 0 s s'] rm by simp_all
  show "\<And>q. fs_tree s q = None \<Longrightarrow> fs_tree s' q = None" using gone by simp
  obtain names where names: "li_read_dir li runs_root = Inr names"
    and listed: "\<And>name. fs_tree s (runs_root @ [name]) \<noteq> None \<Longrightarrow> name \<in> set names"
    using all unfolding lists_all_def by blast
  show "fs_tree s' (runs_root @ i # q) = None"
    if id: "li_parse_id li i = Some i" "strip_suffix_str ''.lock'' i = None" "q \<noteq> []"
      "is_atomic_tmp (runs_root @ i # q)" "is_file s (runs_root @ i # q)" for i q
  proof -
    have reach: "reachable_dir s ((runs_root @ [i]) @ q)" using id(5) by (simp add: is_file_def)
    note run_dir = reachable_prefix [OF reach id(3)]
    have "reachable_dir s (runs_root @ [i])" by (rule run_dir)
    from reachable_prefix [OF this] have root: "path_exists s runs_root" by (simp add: path_exists_def)
    have "i \<in> set targets"
      using t names root listed [of i] run_dir id(1,2)
      by (auto simp: resolve_target_runs_for_cleanup_def is_dir_def List.map_filter_def intro!: image_eqI [of _ _ i])
    moreover have "runs_root @ i # q \<in> set (li_walk li (runs_root @ [i]))"
      using all id(5) unfolding lists_all_def by blast
    ultimately have "runs_root @ i # q \<in> set plan"
      using p names root id(4,5) by (auto simp: plan_cleanup_def)
    with gone id(5) show ?thesis by simp
  qed
  show "fs_tree s' q = fs_tree s q" if "\<not> is_atomic_tmp q" "length q \<noteq> Suc (length runs_root)" for q
  proof -
    have "q \<notin> set plan" using p names that by (auto simp: plan_cleanup_def split: if_splits)
    with gone show ?thesis by simp
  qed
qed

text \<open>A sidecar is never taken for a temporary file.\<close>

lemma last_of_drop: "drop k xs \<noteq> [] \<Longrightarrow> list_all P (drop k xs) \<Longrightarrow> P (last xs)"
  by (metis drop_eq_Nil last_drop last_in_set list_all_iff not_less)

lemma tmp_last_hex:
  assumes "is_atomic_tmp p"
  shows "is_ascii_hexdigit (last (last p))"
proof (cases "find_str ''.tmp.'' (last p)")
  case (Some idx)
  with assms have "drop (idx + length ''.tmp.'') (last p) \<noteq> [] \<and> list_all is_ascii_hexdigit (drop (idx + length ''.tmp.'') (last p))"
    unfolding is_atomic_tmp_def Let_def Some option.simps(5) by (elim conjE) (intro conjI)
  then show ?thesis using last_of_drop by blast
qed (use assms in \<open>simp add: is_atomic_tmp_def\<close>)

lemma sidecar_not_tmp: "\<not> is_atomic_tmp (meta_path dest)"
  using tmp_last_hex [of "meta_path dest"] by (auto simp: meta_path_def is_ascii_hexdigit_def)

section \<open>The pass and a writer\<close>

text \<open>The names of a write whose temporary files the pass recognises, and whose destination is not
  one of them.\<close>

definition recognisable :: "path \<Rightarrow> bool" where
  "recognisable dest \<longleftrightarrow>
     find_str ''.tmp.'' (last dest @ ''.tmp.'') = Some (length (last dest)) \<and>
     find_str ''.tmp.'' (last (meta_path dest) @ ''.tmp.'') = Some (length (last (meta_path dest))) \<and> \<not> is_atomic_tmp dest"

definition run_file :: "fs_lister \<Rightarrow> path \<Rightarrow> string \<Rightarrow> path \<Rightarrow> path \<Rightarrow> bool" where
  "run_file li runs_root i rest dest \<longleftrightarrow>
     dest = runs_root @ i # rest \<and> rest \<noteq> [] \<and> li_parse_id li i = Some i \<and> strip_suffix_str ''.lock'' i = None \<and> recognisable dest"

lemma run_file_sibling:
  assumes "run_file li runs_root i rest dest" "p \<noteq> []" "butlast p = butlast dest"
  obtains q where "p = runs_root @ i # q" "q \<noteq> []"
proof
  from assms(1) have "butlast dest = runs_root @ i # butlast rest" by (simp add: run_file_def butlast_append)
  with assms(2,3) show "p = runs_root @ i # (butlast rest @ [last p])"
    by (metis append.assoc append_Cons append_butlast_last_id)
qed simp

lemma run_file_cleaned:
  assumes rf: "run_file li runs_root i rest dest"
    and run: "cleanup_orphans li runs_root now fails s = (Inr n, s')" and all: "lists_all li runs_root s"
    and ok: "fs_ok s" "fs_tree s p \<noteq> Some Dir" and p: "p = tmp_path dest nonce \<or> p = tmp_meta_path dest nonce"
  shows "fs_tree s' p = None"
proof (cases "fs_tree s p")
  case None
  with cleanup_effect(7) [OF run all] show ?thesis by simp
next
  case (Some v)
  with ok have "is_file s p" by (auto simp: is_file_def fs_ok_def split: node.split)
  moreover have "is_atomic_tmp p"
    using rf p tmp_recognised [of dest nonce] tmp_recognised [of "meta_path dest" nonce]
    by (auto simp: run_file_def recognisable_def tmp_meta_path_def tmp_path_def)
  moreover obtain q where "p = runs_root @ i # q" "q \<noteq> []"
    by (rule run_file_sibling [OF rf, of p]) (use p names_not_Nil names_butlast in metis)+
  ultimately show ?thesis using cleanup_effect(1) [OF run all] rf by (auto simp: run_file_def)
qed

lemma run_file_kept:
  assumes rf: "run_file li runs_root i rest dest"
    and run: "cleanup_orphans li runs_root now fails s = (Inr n, s')" and all: "lists_all li runs_root s"
    and p: "p = dest \<or> p = meta_path dest"
  shows "fs_tree s' p = fs_tree s p" "read_file s' p = read_file s p"
proof -
  from rf have "dest \<noteq> []" "Suc (length runs_root) < length dest" by (auto simp: run_file_def)
  then have "length p \<noteq> Suc (length runs_root)" using p by auto
  moreover have "\<not> is_atomic_tmp p" using rf p sidecar_not_tmp by (auto simp: run_file_def recognisable_def)
  ultimately show tree: "fs_tree s' p = fs_tree s p" using cleanup_effect(2) [OF run all] by blast
  show "read_file s' p = read_file s p"
    using tree cleanup_effect(3,6) [OF run all] by (simp add: read_file_def split: option.split node.split)
qed

lemma atomic_write_no_dir:
  assumes "dest \<noteq> []" "atomic_write lib fsync dest data nonce now ans s = (r, s')"
    "p = tmp_path dest nonce \<or> p = tmp_meta_path dest nonce" "fs_tree s p \<noteq> Some Dir"
  shows "fs_tree s' p \<noteq> Some Dir"
proof -
  let ?N = "\<lambda>s. fs_tree s p \<noteq> Some Dir"
  have call: "crash_triple sys_exec sys_part ?N [Call c err] ?N (\<lambda>_. ?N)" if "c \<noteq> Mkdir p" for c and err :: "string \<Rightarrow> io_error"
  proof (rule file_calls.triple_call)
    show "?N s'" if "?N s" "sys_exec c s = Inr s'" for s s'
      using that \<open>c \<noteq> Mkdir p\<close> by (cases c) (auto split: if_splits option.splits node.splits)
    show "?N (sys_part c n s)" if "?N s" for s n
      using that by (cases "(c, n, s)" rule: sys_part.cases) auto
  qed
  have len: "length p = length dest" using assms(1,3) by auto
  have "crash_triple sys_exec sys_part ?N [x] ?N (\<lambda>_. ?N)" if "x \<in> set (write_plan lib fsync dest data nonce now)" for x
  proof (cases x)
    case (Call c err)
    have "length q < length dest" if "c = Mkdir q" for q
      using that \<open>x \<in> set _\<close> Call
      by (auto simp: write_plan_def create_dir_all_def write_temp_def rename_step_def fsync_dir_def min_def split: if_splits sum.splits)
    with len have "c \<noteq> Mkdir p" by auto
    with Call call show ?thesis by simp
  next
    case (Give_up e)
    show ?thesis unfolding Give_up by (rule file_calls.triple_give_up)
  qed
  then have all: "crash_triple sys_exec sys_part ?N (write_plan lib fsync dest data nonce now) ?N (\<lambda>_. ?N)"
    by (rule file_calls.triple_all)
  obtain e where "run_steps sys_exec sys_part ans 0 (write_plan lib fsync dest data nonce now) s = (e, s')"
    using assms(2) unfolding atomic_write_def by (auto split: prod.splits ended.splits)
  from crash_tripleD [OF all assms(4) this] show ?thesis by (simp split: if_splits)
qed

text \<open>What an interrupted write leaves is cleaned up. However a write of a file of a run ends
  (any call failing, a death at any moment), the next pass that completes removes both its temporary
  files, and the destination and its sidecar read as the write left them: the old pair, the new pair, or
  the new data with the old sidecar.\<close>

lemma cleanup_after_crash:
  assumes ok: "fs_ok s" and fresh: "fs_tree s (tmp_path dest nonce) = None" "fs_tree s (tmp_meta_path dest nonce) = None"
    and meta: "fl_to_vec lib (compute_meta_at lib data sealed) = Inr meta"
    and run: "atomic_write lib fsync dest data nonce sealed ans s = (r, s1)"
    and rf: "run_file li runs_root i rest dest"
    and clean: "cleanup_orphans li runs_root now fails s1 = (Inr n, s2)" and all: "lists_all li runs_root s1"
  shows "read_file s2 (tmp_path dest nonce) = None \<and> read_file s2 (tmp_meta_path dest nonce) = None \<and>
    (read_file s2 dest, read_file s2 (meta_path dest)) \<in>
      {(read_file s dest, read_file s (meta_path dest)), (Some data, read_file s (meta_path dest)), (Some data, Some meta)}"
proof -
  from rf have dest: "dest \<noteq> []" by (auto simp: run_file_def)
  note ok1 = atomic_write_ok [OF ok run]
  have no_dir: "fs_tree s1 p \<noteq> Some Dir" if "p = tmp_path dest nonce \<or> p = tmp_meta_path dest nonce" for p
    using atomic_write_no_dir [OF dest run] fresh that by auto
  have "fs_tree s2 (tmp_path dest nonce) = None" "fs_tree s2 (tmp_meta_path dest nonce) = None"
    using run_file_cleaned [OF rf clean all ok1 no_dir, of _ nonce] by blast+
  then have "read_file s2 (tmp_path dest nonce) = None" "read_file s2 (tmp_meta_path dest nonce) = None"
    by (simp_all add: read_file_def)
  moreover have "read_file s2 dest = read_file s1 dest" "read_file s2 (meta_path dest) = read_file s1 (meta_path dest)"
    using run_file_kept(2) [OF rf clean all] by simp_all
  ultimately show ?thesis
    using write_crash_safe [OF ok dest fresh meta run] by auto
qed

end
