(* ===== verification/Spec2Isabelle.thy ===== *)
theory Spec2Isabelle
  imports
    Errors Roles Shared_Registry Circuit_Breaker Governor Retry_Budget Retry_Loop Dispatch
    Dag Cancel_Handles Lease Json_Extractor Permits Json_Repair Json_Recovery
    Matrix_Spec Matrix Thesis_Fanout Catalog Curation Sandbox Audit_Verify
    Ranking Reconcile
begin

text \<open>
  A verification development for moagan, a command-line program that runs a pipeline of
  language-model calls ("phases") to turn a brief into ranked proposals.

  \<^bold>\<open>The program.\<close> A run executes phases in the order of a dependency graph
  (\<open>src/phases/dag.rs\<close>). A phase asks a provider for text through
  \<open>call_with_retry_parse\<close> (\<open>src/phases/phase.rs\<close>), which retries and repairs until
  the response parses, within a budget (\<open>src/llm/retry_budget.rs\<close>). Every send goes
  through \<open>dispatch_with_governors_for\<close> (\<open>src/phases/phase.rs\<close>), which asks the circuit
  breaker of the (provider, role) pair (\<open>src/llm/circuit_breaker.rs\<close>) and waits as long as
  the adaptive throttle of the pair and the gate of the provider ask
  (\<open>src/llm/governor.rs\<close>); both learn from the answer. Errors are one type
  (\<open>src/error/mod.rs\<close>) with a public code (\<open>src/error_code.rs\<close>) and a process exit
  status. Response text is cleaned of chat-template markers and control bytes
  (\<open>src/llm/control_tokens.rs\<close>) and its JSON value is cut out of the prose (\<open>src/llm/json_extractor.rs\<close>); when it does not parse,
  a chain of repairs (\<open>src/phases/util.rs\<close>, \<open>src/phases/json_slips.rs\<close>) patches its
  structure. Caps on concurrent calls (\<open>src/execution/\<close>) bound what runs at once. A cancel handle
  (\<open>src/cancel.rs\<close>) stops a run, its phases and their child processes, and a lease row in
  the database with a heartbeat (\<open>src/storage/lease.rs\<close>, \<open>src/storage/sqlite.rs\<close>,
  \<open>src/telemetry/heartbeat.rs\<close>) keeps a second process out of the run. Artefacts are written under a
  temporary name and renamed, with a sidecar that fingerprints them (\<open>src/atomic/writer.rs\<close>); the
  next start removes what interrupted writes left (\<open>src/reconcile/mod.rs\<close>).

  \<^bold>\<open>The theories.\<close>
  \<^item> \<open>Prelude\<close>: \<open>u8\<close> to \<open>u64\<close> as words, the saturating and checked operations of the
    Rust core library, clock readings and durations, the result type and its bind.
    \<open>Decimal\<close>: reading unsigned integers (\<open>str::parse\<close>) and the colon-separated
    configuration fields. \<open>Interfaces\<close>: the locales \<open>event_machine\<close> (an invariant kept
    by every event and so by every run), \<open>keyed_cells\<close> (tables that create one shared cell
    per key) and \<open>backoff_curve\<close> (a delay that doubles up to a cap and decays by quarters).
    They are interpreted on the breakers, governors, gates, registries, the dispatcher and
    the cancel store.
    \<open>Shared_Registry\<close>: the heap behind \<open>Arc<RwLock<HashMap<K, Arc<V>>>>\<close>.
  \<^item> \<open>Error_Codes\<close>, \<open>Errors\<close>: the codes, the error type, exit codes, the classification of a
    failed HTTP status and the \<open>Retry-After\<close> header. \<open>Roles\<close>: the LLM roles.
  \<^item> \<open>Circuit_Breaker\<close>: the breaker's state machine, its registry and its environment string.
  \<^item> \<open>Governor\<close>: the throttle configuration, the per-role governor, the per-provider gate,
    their registry.
  \<^item> \<open>Dispatch\<close>: the two halves of a dispatched call and the whole call, over a state that
    holds the registries; interleavings of calls are lists of such half-steps.
  \<^item> \<open>Retry_Budget\<close>, \<open>Retry_Loop\<close>: run modes, the budget matrix, the continuation of a
    truncated response, the recovery strategies and the retrying call.
  \<^item> \<open>Dag\<close>: the phase graph, Kahn's layering and the layer-by-layer executor.
  \<^item> \<open>Cancel_Handles\<close>: handles over a store of tokens, reasons and process groups; signals and
    the delayed kill are values of the state.
  \<^item> \<open>Lease\<close>: the lease table with the three families of functions that share it, the run
    lease's guard and heartbeat, and the process locks.
  \<^item> \<open>Json_Extractor\<close>: the tolerant extractor and the strips of markers (the alternation of the
    regular expression, matched at each byte) and of control bytes.
    \<open>Text\<close>: the string methods of the Rust core library, over UTF-8 bytes.
    \<open>Json_Repair\<close>: the repair passes and their traced chain. \<open>Json_Recovery\<close>: the slip
    repairs, the recovery chains and the strategy wrapper.
  \<^item> \<open>Permits\<close>: the process-wide pool of permits and the semaphores per provider, with every
    atomic action of a call as a step and calls interleaved freely.
  \<^item> \<open>Ordered_Map\<close>: \<open>BTreeMap\<close> and iterated \<open>HashMap\<close> as association lists. \<open>Matrix_Spec\<close>,
    \<open>Matrix\<close>: the exploration matrix of a discover run and the text it is specified in.
    \<open>Thesis_Fanout\<close>: its points, one point with its retries, runs over a directory of
    files. \<open>Catalog\<close>: every thesis in the cell of its angle, and the check of the result.
    \<open>Curation\<close>: the curator's untrusted grouping of a cell, normalised, written and applied.
  \<^item> \<open>Seccomp\<close>, \<open>Sandbox_Policy\<close>: the system-call filter as a program of the kernel's filter
    machine, the command and network policies, namespaces. \<open>Sandbox\<close>: running a command, from
    the checks to the returned output, with its process group registered for cancellation.
  \<^item> \<open>Pareto\<close>, \<open>Portfolio\<close>, \<open>Selection\<close>, \<open>Ranking\<close>: from judged proposals to a winner: dominance and the
    front, clusters (over \<open>Union_Find\<close>, which \<open>Curation\<close> shares) and representatives, selection
    plans, the rank phase with the replacement of sources by syntheses, the stability check.
  \<^item> \<open>Audit_Verify\<close>: the proxy's audit records with their checksums, and their comparison with the
    program's own call records.
  \<^item> \<open>Crash_Logic\<close>: straight-line code of calls that can each work, fail or be the last, and triples
    with a postcondition for the runs that do not finish, proved in the locale \<open>crash_machine\<close>.
    \<open>Crc32c\<close>: the fingerprint and what it detects. \<open>Atomic_Files\<close>: the atomic writer and its reader over
    a file system, the interpretation of that locale. \<open>Reconcile\<close>: the removal of left-over files.

  Definitions carry the names of the source; the helper definitions that split a long
  function are named after what they do and are listed with the function's lines. Every
  loop but two is a total function: \<open>retry_loop\<close> and \<open>cont_loop\<close> end because an attempt
  counter is bounded by the budget, the scanning loops of the extractor because the position
  grows. \<open>kahn_loop\<close> and \<open>find_root\<close> are option-valued partial functions;
  \<open>topological_layers_decides\<close> and \<open>normalise_partitions\<close> show that they end. No fuel is used.

  \<^bold>\<open>What the lemmas show.\<close>
  Each component has the invariant that every operation keeps and the functional behaviour
  of its operations. \<open>dispatch_refines_contract\<close> relates the shared, aliased registries to
  plain functions of the key. The named theorems cover: the error codes and exit status;
  when a breaker opens, refuses and closes; the backoff curve, its decay and the
  upstream's floor; what a dispatched call does to its own and other keys; how often a
  call is sent and what it returns; that the layering decides acyclicity, that its layers
  respect and are as coarse as the dependencies, and that the executor runs no phase
  before those it depends on; how far a cancellation reaches; exclusion and fencing of
  leases; the range the extractor selects; that repairing and recovering a text invents no
  content; that permits are conserved and when their pool can block; that a discover run loses no
  thesis between its cells, its catalogue and its curation; that only admitted commands are
  spawned; how a ranking names its winner, and that it is undominated; that the audit comparison answers ok
  exactly when the two lists correspond; what a reader sees after a write that failed or was cut off.

  Some theorems state what the code does where its comments promise something else: the
  dispatcher never lets a breaker open (\<open>dispatch_never_refused\<close>), a hard cancellation
  sends both signals at once (\<open>hard_cancel_kills_at_once\<close>), a child's reason
  overwrites its parent's (\<open>child_reason_reaches_parent\<close>), a heartbeat of a minute or
  longer loses its lease (\<open>slow_heartbeat_loses_lease\<close>), two processes share one lease
  holder (\<open>second_heartbeat_kills_both\<close>), a process lock blocks the run lease of the
  same run (\<open>process_lease_blocks_run_lease\<close>), two calls for many permits block each other
  (\<open>acquire_many_deadlock\<close>), the bracket repair drops what follows a mismatched closer
  (\<open>mismatched_closer_drops_rest\<close>), the strict system-call filter kills native calls
  (\<open>strict_filter_kills_native_calls\<close>), a proposal that its synthesis replaced can be delivered as
  the winner (\<open>rank_winner_rule\<close>), and a child that does not read its input, or a process that
  keeps one of its pipes open, holds a sandboxed call for ever, whatever the deadline
  (\<open>sandbox_returns_iff\<close>).

  \<^bold>\<open>Parameters and what is left out.\<close>
  Code that is not in the repository is an argument of the definitions that use it: the
  provider that answers a send, the JSON library, the repair and validation passes the
  caller supplies, the phase bodies, the hash of the sidecars, what a directory listing gives.
  The file system has directory entries, inodes and what a power loss may leave of them, as POSIX
  documents the calls the writer makes.
  The database is the content of the one table, with the queries the code runs on it; the
  clock is an argument. Locks are atomic steps and asynchronous tasks are interleaved
  steps. Log lines, telemetry writes and spans are not modelled. Not modelled at all are
  the HTTP clients, the command line, configuration loading, control groups, the merge of
  discover runs, research, the rest of storage, caching and telemetry.

  \<^bold>\<open>Order of further work.\<close> The probes of sampling parameters, the stream parser, the merge of discover runs,
  the outbox transactions, the SQL validator,
  retention.
\<close>

end
